(* ===== verification/Prelude.thy ===== *)
theory Prelude
  imports Main "HOL-Library.Word"
begin

text \<open>
  Shared vocabulary of the charOS development.  The kernel is compiled for i386
  (\<open>-m32\<close> in the Makefile), so pointers, \<open>size_t\<close> and \<open>uint32_t\<close> are 32-bit words
  that wrap around; \<open>char\<close> buffers are functions from an index to a byte, every
  access being at an index the code has checked or reduced modulo the size of the
  array.  The theory holds

  \<^item> the machine types, and the page rounding the memory managers write as
    \<open>(x + 0xFFF) & ~0xFFF\<close> and \<open>x & ~0xFFF\<close>;
  \<^item> facts on circular buffers (\<open>ring_list\<close>), on counting a finite set of slots and
    on the loops \<open>for (i = a; i < n; i++) if (P(i)) ...\<close> the kernel searches its
    tables with (\<open>first_from\<close>).
\<close>

unbundle bit_operations_syntax

type_synonym u8 = "8 word"
type_synonym u16 = "16 word"
type_synonym u32 = "32 word"
type_synonym u64 = "64 word"

named_theorems frame_simps "fields an operation leaves alone"

section \<open>Page rounding\<close>

definition page_down :: "u32 \<Rightarrow> u32" where
  "page_down x = x AND NOT 0xFFF"

definition page_up :: "u32 \<Rightarrow> u32" where
  "page_up x = (x + 0xFFF) AND NOT 0xFFF"

lemma mask_12_u32: "(0xFFF :: u32) = mask 12"
  by (simp add: mask_eq_exp_minus_1)

lemma and_not_mask_push_drop: "(x :: 'a::len word) AND NOT (mask n) = push_bit n (drop_bit n x)"
  by (rule bit_word_eqI)
    (auto simp: bit_and_iff bit_not_iff bit_mask_iff bit_push_bit_iff bit_drop_bit_eq possible_bit_def)

lemma word_and_not_mask_eq: "(x :: 'a::len word) AND NOT (mask n) = x - take_bit n x"
proof -
  have "push_bit n (drop_bit n x) + take_bit n x = x"
    by (rule bits_ident)
  then show ?thesis
    unfolding and_not_mask_push_drop by (metis add_diff_cancel_right')
qed

lemma unat_and_not_mask: "unat ((x :: 'a::len word) AND NOT (mask n)) = 2 ^ n * (unat x div 2 ^ n)"
proof -
  have le: "take_bit n x \<le> x"
    by (metis word_le_nat_alt unsigned_take_bit_eq take_bit_nat_less_eq_self)
  have "unat (x - take_bit n x) = unat x - unat x mod 2 ^ n"
    by (subst unat_sub [OF le]) (metis unsigned_take_bit_eq take_bit_eq_mod)
  then show ?thesis
    unfolding word_and_not_mask_eq by (simp add: minus_mod_eq_mult_div)
qed

lemma unat_page_down: "unat (page_down x) = 4096 * (unat x div 4096)"
  unfolding page_down_def mask_12_u32 unat_and_not_mask by simp

lemma unat_page_up:
  assumes "unat x + 4095 < 2 ^ 32"
  shows "unat (page_up x) = 4096 * ((unat x + 4095) div 4096)"
proof -
  have "unat (x + 0xFFF) = unat x + 4095"
    using assms by (simp add: unat_word_ariths)
  then show ?thesis
    unfolding page_up_def mask_12_u32 unat_and_not_mask by simp
qed

lemma page_down_le: "page_down x \<le> x"
  by (simp add: word_le_nat_alt unat_page_down)

lemma page_up_ge: "unat x + 4095 < 2 ^ 32 \<Longrightarrow> x \<le> page_up x"
  by (simp add: word_le_nat_alt unat_page_up)

section \<open>32-bit arithmetic\<close>

lemma u32_less: "unat (x :: u32) < 2 ^ 32"
  using unsigned_less [where 'b = 32 and 'a = nat, of x] by simp

lemma u16_less: "unat (a :: u16) < 65536"
  using unsigned_less [where 'b = 16 and 'a = nat, of a] by simp

lemma unat_of_nat_u32: "n < 2 ^ 32 \<Longrightarrow> unat (of_nat n :: u32) = n"
  by (simp add: unat_of_nat)

lemma unat_sub_wrap:
  assumes "unat x < unat y"
  shows "unat ((x :: u32) - y) = 2 ^ 32 + unat x - unat y"
proof -
  have "unat (x - y + y) = (unat (x - y) + unat y) mod 2 ^ 32"
    by (subst unat_word_ariths) simp
  then have e: "unat x = (unat (x - y) + unat y) mod 2 ^ 32" by simp
  have b: "unat (x - y) + unat y < 2 * 2 ^ 32" using u32_less [of "x - y"] u32_less [of y] by simp
  show ?thesis
  proof (cases "unat (x - y) + unat y < 2 ^ 32")
    case True
    then show ?thesis using e assms by simp
  next
    case False
    then have "(unat (x - y) + unat y) mod 2 ^ 32 = unat (x - y) + unat y - 2 ^ 32"
      using b by (simp add: mod_if)
    then show ?thesis using e False assms by simp
  qed
qed

section \<open>Searching a table\<close>

text \<open>\<open>first_from P i n\<close> is the least index in \<open>[i, i + n)\<close> that satisfies \<open>P\<close>: the
  loop \<open>for (j = i; j < i + n; j++) if (P(j)) { ...; break; }\<close>.\<close>

fun first_from :: "(nat \<Rightarrow> bool) \<Rightarrow> nat \<Rightarrow> nat \<Rightarrow> nat option" where
  "first_from P i 0 = None"
| "first_from P i (Suc n) = (if P i then Some i else first_from P (Suc i) n)"

lemma first_from_Some_iff:
  "first_from P i n = Some k \<longleftrightarrow> i \<le> k \<and> k < i + n \<and> P k \<and> (\<forall>j. i \<le> j \<and> j < k \<longrightarrow> \<not> P j)"
proof (induction n arbitrary: i)
  case 0
  then show ?case by auto
next
  case (Suc n)
  show ?case
  proof (cases "P i")
    case True
    then show ?thesis by (auto simp: le_less)
  next
    case False
    have "(\<forall>j. i \<le> j \<and> j < k \<longrightarrow> \<not> P j) \<longleftrightarrow> (\<forall>j. Suc i \<le> j \<and> j < k \<longrightarrow> \<not> P j)"
      using False by (metis Suc_le_eq le_less)
    moreover have "P k \<Longrightarrow> i \<le> k \<longleftrightarrow> Suc i \<le> k"
      using False by (auto simp: Suc_le_eq le_less)
    ultimately show ?thesis using False Suc.IH by auto
  qed
qed

lemma first_from_None_iff: "first_from P i n = None \<longleftrightarrow> (\<forall>j. i \<le> j \<and> j < i + n \<longrightarrow> \<not> P j)"
proof (induction n arbitrary: i)
  case (Suc n)
  have "(\<forall>j. i \<le> j \<and> j < i + Suc n \<longrightarrow> \<not> P j)
      \<longleftrightarrow> \<not> P i \<and> (\<forall>j. Suc i \<le> j \<and> j < Suc i + n \<longrightarrow> \<not> P j)"
  proof (intro iffI allI impI conjI; (elim conjE)?)
    fix j assume "\<not> P i" "\<forall>j. Suc i \<le> j \<and> j < Suc i + n \<longrightarrow> \<not> P j" "i \<le> j" "j < i + Suc n"
    then show "\<not> P j" by (cases "i = j") auto
  qed auto
  then show ?case using Suc.IH by simp
qed auto

lemma first_from_SomeD:
  assumes "first_from P i n = Some k"
  shows "i \<le> k" "k < i + n" "P k"
  using assms by (auto simp: first_from_Some_iff)

section \<open>Counting slots\<close>

lemma card_insert_upto:
  "\<lbrakk>k < n; \<not> P k\<rbrakk> \<Longrightarrow> card {i. i < (n::nat) \<and> (i = k \<or> P i)} = Suc (card {i. i < n \<and> P i})"
proof -
  assume k: "k < n" "\<not> P k"
  have "{i. i < n \<and> (i = k \<or> P i)} = insert k {i. i < n \<and> P i}" using k by auto
  then show ?thesis using k by simp
qed

lemma card_remove_upto:
  "\<lbrakk>k < n; P k\<rbrakk> \<Longrightarrow> Suc (card {i. i < (n::nat) \<and> i \<noteq> k \<and> P i}) = card {i. i < n \<and> P i}"
proof -
  assume k: "k < n" "P k"
  have "{i. i < n \<and> P i} = insert k {i. i < n \<and> i \<noteq> k \<and> P i}" using k by auto
  then show ?thesis by simp
qed

lemma card_upto_le: "card {i. i < (n::nat) \<and> P i} \<le> n"
proof -
  have "{i. i < n \<and> P i} \<subseteq> {..<n}" by auto
  then show ?thesis using card_mono [of "{..<n}"] by fastforce
qed

section \<open>Circular buffers\<close>

definition ring_list :: "(nat \<Rightarrow> 'b) \<Rightarrow> nat \<Rightarrow> nat \<Rightarrow> nat \<Rightarrow> 'b list" where
  "ring_list d rp n cap = map (\<lambda>i. d ((rp + i) mod cap)) [0..<n]"

lemma length_ring_list [simp]: "length (ring_list d rp n cap) = n"
  by (simp add: ring_list_def)

lemma ring_list_0 [simp]: "ring_list d rp 0 cap = []"
  by (simp add: ring_list_def)

lemma ring_list_push:
  assumes "n < cap" "wp = (rp + n) mod cap"
  shows "ring_list (d(wp := c)) rp (Suc n) cap = ring_list d rp n cap @ [c]"
proof -
  have "(rp + i) mod cap \<noteq> wp" if "i < n" for i
  proof
    assume "(rp + i) mod cap = wp"
    then have "(rp + n) mod cap = (rp + i) mod cap" using assms(2) by simp
    then have "cap dvd (rp + n) - (rp + i)"
      by (metis mod_eq_dvd_iff_nat add_le_cancel_left less_imp_le that)
    then show False using that assms(1) by (auto dest: dvd_imp_le)
  qed
  then show ?thesis using assms(2) by (simp add: ring_list_def)
qed

lemma ring_list_pop:
  "ring_list d rp (Suc n) cap = d (rp mod cap) # ring_list d (Suc rp mod cap) n cap"
  by (rule nth_equalityI)
    (auto simp: ring_list_def nth_Cons mod_simps split: nat.splits simp del: upt_Suc)

lemma round8: "unat len + 7 < 2 ^ 32 \<Longrightarrow> unat ((len + 7) AND NOT (7 :: u32)) = 8 * ((unat len + 7) div 8)"
proof -
  assume a: "unat len + 7 < 2 ^ 32"
  have m: "(7 :: u32) = mask 3" by (simp add: mask_eq_exp_minus_1)
  have "unat (len + 7) = unat len + 7" using a by (simp add: unat_word_ariths)
  then show ?thesis using unat_and_not_mask [of "len + 7" 3] by (simp add: m)
qed

section \<open>Words in bytes\<close>

lemma byte_mask: "(255 :: u32) = mask 8"
  by (simp add: mask_eq_exp_minus_1)

lemma bit_255: "bit (255 :: u32) i \<longleftrightarrow> i < 8"
proof -
  have "(255 :: u32) = mask 8" by (simp add: mask_eq_exp_minus_1)
  then have "bit (255 :: u32) i = bit (mask 8 :: u32) i" by (rule arg_cong)
  then show ?thesis unfolding bit_mask_iff by (auto simp: possible_bit_word)
qed

lemma le32_word: "ucast (ucast v :: u8) OR push_bit 8 (ucast (ucast (drop_bit 8 v) :: u8))
    OR push_bit 16 (ucast (ucast (drop_bit 16 v) :: u8)) OR push_bit 24 (ucast (ucast (drop_bit 24 v) :: u8)) = (v :: u32)"
proof (rule bit_word_eqI)
  fix n assume "n < LENGTH(32)"
  moreover have "n < 8 \<or> 8 \<le> n \<and> n < 16 \<or> 16 \<le> n \<and> n < 24 \<or> 24 \<le> n" by linarith
  ultimately show "bit (ucast (ucast v :: u8) OR push_bit 8 (ucast (ucast (drop_bit 8 v) :: u8))
    OR push_bit 16 (ucast (ucast (drop_bit 16 v) :: u8)) OR push_bit 24 (ucast (ucast (drop_bit 24 v) :: u8)) :: u32) n = bit v n"
    by (elim disjE) (auto simp: bit_simps)
qed

end
