(* ===== verification/Ring.thy ===== *)
theory Ring
  imports Prelude
begin

text \<open>
  The interface of a bounded FIFO queue kept in a circular buffer.  Pipes
  (\<open>kernel/process/pipe.c\<close>) and pseudo-terminals (\<open>kernel/process/pty.c\<close>) both keep one;
  their readers and writers only ever use it through a bulk copy loop, so the loops are
  stated once here over the operations and proved once in the locale.

  \<^item> \<open>ring_fill\<close>: \<open>while (written < len && count < SIZE) put\<close>;
  \<^item> \<open>ring_drain\<close>: \<open>while (n < max && count > 0) get\<close>.
\<close>

fun ring_fill :: "nat \<Rightarrow> ('r \<Rightarrow> nat) \<Rightarrow> ('b \<Rightarrow> 'r \<Rightarrow> 'r) \<Rightarrow> 'b list \<Rightarrow> 'r \<Rightarrow> nat \<times> 'r" where
  "ring_fill cap count put [] r = (0, r)"
| "ring_fill cap count put (c # cs) r =
     (if count r < cap
      then let (w, r') = ring_fill cap count put cs (put c r) in (Suc w, r')
      else (0, r))"

fun ring_drain :: "('r \<Rightarrow> ('b \<times> 'r) option) \<Rightarrow> nat \<Rightarrow> 'r \<Rightarrow> 'b list \<times> 'r" where
  "ring_drain get 0 r = ([], r)"
| "ring_drain get (Suc n) r =
     (case get r of None \<Rightarrow> ([], r)
      | Some (c, r') \<Rightarrow> let (cs, r'') = ring_drain get n r' in (c # cs, r''))"

text \<open>A field neither operation writes keeps its value through the loops.\<close>

lemma ring_fill_frame:
  assumes "\<And>c r. f (put c r) = f r"
  shows "f (snd (ring_fill cap count put cs r)) = f r"
  by (induction cs arbitrary: r) (simp_all add: split_beta assms)

lemma ring_drain_frame:
  assumes "\<And>c r r'. get r = Some (c, r') \<Longrightarrow> f r' = f r"
  shows "f (snd (ring_drain get n r)) = f r"
proof (induction n arbitrary: r)
  case (Suc n)
  then show ?case
    by (cases "get r") (auto simp: split_beta dest: assms)
qed simp

lemma ring_drain_length: "length (fst (ring_drain get n r)) \<le> n"
proof (induction n arbitrary: r)
  case (Suc n)
  then show ?case by (cases "get r") (auto simp: split_beta)
qed simp

locale ring_buffer =
  fixes cap :: nat
    and count :: "'r \<Rightarrow> nat"
    and put :: "'b \<Rightarrow> 'r \<Rightarrow> 'r"
    and get :: "'r \<Rightarrow> ('b \<times> 'r) option"
    and contents :: "'r \<Rightarrow> 'b list"
    and ring_inv :: "'r \<Rightarrow> bool"
  assumes count_contents: "ring_inv r \<Longrightarrow> count r = length (contents r)"
    and bounded: "ring_inv r \<Longrightarrow> length (contents r) \<le> cap"
    and put_inv: "\<lbrakk>ring_inv r; count r < cap\<rbrakk> \<Longrightarrow> ring_inv (put c r)"
    and put_contents: "\<lbrakk>ring_inv r; count r < cap\<rbrakk> \<Longrightarrow> contents (put c r) = contents r @ [c]"
    and get_empty: "\<lbrakk>ring_inv r; contents r = []\<rbrakk> \<Longrightarrow> get r = None"
    and get_cons: "\<lbrakk>ring_inv r; contents r = c # cs\<rbrakk>
      \<Longrightarrow> \<exists>r'. get r = Some (c, r') \<and> ring_inv r' \<and> contents r' = cs"
begin

lemma drain_correct:
  assumes "ring_inv r"
  shows "fst (ring_drain get n r) = take n (contents r)
    \<and> ring_inv (snd (ring_drain get n r))
    \<and> contents (snd (ring_drain get n r)) = drop n (contents r)"
  using assms
proof (induction n arbitrary: r)
  case (Suc n)
  show ?case
  proof (cases "contents r")
    case Nil
    then show ?thesis using Suc.prems get_empty by simp
  next
    case (Cons c cs)
    then obtain r' where "get r = Some (c, r')" "ring_inv r'" "contents r' = cs"
      using get_cons Suc.prems by blast
    then show ?thesis using Suc.IH [of r'] Cons by (simp add: split_beta)
  qed
qed simp

lemma fill_correct:
  assumes "ring_inv r"
  shows "fst (ring_fill cap count put cs r) = min (length cs) (cap - count r)
    \<and> ring_inv (snd (ring_fill cap count put cs r))
    \<and> contents (snd (ring_fill cap count put cs r))
        = contents r @ take (cap - count r) cs"
  using assms
proof (induction cs arbitrary: r)
  case (Cons c cs)
  show ?case
  proof (cases "count r < cap")
    case True
    then have inv: "ring_inv (put c r)"
      and con: "contents (put c r) = contents r @ [c]"
      using Cons.prems put_inv put_contents by auto
    then have "count (put c r) = Suc (count r)"
      using Cons.prems count_contents by simp
    moreover obtain m where "cap - count r = Suc m" "cap - Suc (count r) = m"
      using True by (metis Suc_diff_Suc)
    ultimately show ?thesis
      using Cons.IH [OF inv] con True by (simp add: split_beta)
  next
    case False
    then show ?thesis using Cons.prems by simp
  qed
qed simp

text \<open>The same two facts in the form the clients use: a copy loop moves a prefix.\<close>

lemma drain_prefix:
  assumes "ring_inv r" "ring_drain get n r = (cs, r')"
  shows "ring_inv r'" "contents r = cs @ contents r'" "length cs \<le> n" "cs = take n (contents r)"
  using drain_correct [OF assms(1), of n] assms(2) by (simp_all add: min_def)

lemma fill_prefix:
  assumes "ring_inv r" "ring_fill cap count put cs r = (w, r')"
  shows "ring_inv r'" "contents r' = contents r @ take w cs" "w = min (length cs) (cap - count r)"
  using fill_correct [OF assms(1), of cs] assms(2) by (simp_all add: min_def)

text \<open>Whatever was put in is what comes out, in order, when it fits.\<close>

lemma fill_then_drain:
  assumes "ring_inv r" "length cs \<le> cap - count r" "contents r = []"
  shows "fst (ring_drain get (length cs) (snd (ring_fill cap count put cs r))) = cs"
  using drain_correct [of "snd (ring_fill cap count put cs r)" "length cs"]
    fill_correct [OF assms(1), of cs] assms by simp

end

text \<open>The queues of a terminal drop what does not fit.\<close>

locale dropping_ring = ring_buffer +
  assumes put_full: "\<lbrakk>ring_inv r; count r = cap\<rbrakk> \<Longrightarrow> put c r = r"
begin

lemma put_any_inv: "ring_inv r \<Longrightarrow> ring_inv (put c r)"
  using put_inv put_full count_contents bounded
  by (metis nat_less_le)

lemma put_any_contents:
  "ring_inv r \<Longrightarrow> contents (put c r) = take cap (contents r @ [c])"
proof -
  assume r: "ring_inv r"
  show "contents (put c r) = take cap (contents r @ [c])"
  proof (cases "count r < cap")
    case True
    then show ?thesis using r put_contents count_contents by simp
  next
    case False
    then have "count r = cap" using r count_contents bounded by (metis nat_less_le)
    then show ?thesis using r put_full count_contents by simp
  qed
qed

lemma fold_put:
  "ring_inv r \<Longrightarrow> ring_inv (fold put cs r)
     \<and> contents (fold put cs r) = take cap (contents r @ cs)"
proof (induction cs arbitrary: r)
  case Nil
  then show ?case using bounded by simp
next
  case (Cons c cs)
  have "take cap (take cap (contents r @ [c]) @ cs) = take cap (contents r @ c # cs)"
    by (cases "cap \<le> length (contents r)") (auto simp: take_Cons' min_def)
  then show ?case
    using Cons.IH [of "put c r"] Cons.prems put_any_inv put_any_contents by simp
qed

end

end
