(* ===== verification/Task.thy ===== *)
theory Task
  imports Prelude
begin

text \<open>
  The process descriptor (\<open>struct task\<close> of \<open>include/process/task.h\<close>), the file
  descriptor (\<open>include/fs/fd.h\<close>) and the memory area (\<open>include/memory/mmap.h\<close>).
  A \<open>struct task*\<close> is a \<open>tid\<close>, the identity of the object; the memory of all tasks is
  a function from identities to descriptors (\<open>tasks\<close>), and the singly linked
  \<open>task_list\<close> is the list of identities in link order.  Fields that only the
  assembly context switch reads (saved registers, kernel stack pointer) are left out.
\<close>

type_synonym tid = nat

datatype task_state = TASK_READY | TASK_RUNNING | TASK_BLOCKED | TASK_DEAD

datatype fd_type = FD_NONE | FD_FILE | FD_PIPE | FD_CONSOLE | FD_PSEUDO

record fd_entry =
  fd_valid :: bool
  fd_kind :: fd_type
  fd_inode :: int
  fd_mode :: u32
  fd_offset :: int
  fd_pipe :: "nat option"
  fd_pipe_write :: bool
  fd_pseudo :: string

record vm_area =
  vm_start :: u32
  vm_end :: u32
  vm_prot :: u32
  vm_flags :: u32
  vm_fd :: int
  vm_file_offset :: u32

record task =
  pid :: int
  tname :: string
  tstate :: task_state
  priority :: int
  ticks_left :: int
  has_stack :: bool
  user_esp :: u32
  user_eip :: u32
  user_eflags :: u32
  cr3 :: u32
  user_regions :: "(u32 \<times> u32) list"
  fd_table :: "nat \<Rightarrow> fd_entry"
  sleep_until :: u32
  parent_pid :: int
  sig_handlers :: "nat \<Rightarrow> u32"
  sig_pending :: u32
  sig_mask :: u32
  vmas :: "vm_area list"
  brk_base :: u32
  brk_cur :: u32
  uid :: int
  gid :: int
  groups :: "nat \<Rightarrow> int"
  ngroups :: int
  caps :: u32
  sb_mask :: "nat \<Rightarrow> u32"
  sb_on :: bool
  exit_status :: int
  is_thread :: bool
  pgid :: int
  user_tls :: u32

type_synonym tasks = "tid \<Rightarrow> task"

abbreviation TASK_NFD :: nat where
  "TASK_NFD \<equiv> 16"

abbreviation TASK_MAX_REGIONS :: nat where
  "TASK_MAX_REGIONS \<equiv> 8"

abbreviation TASK_NGROUPS :: nat where
  "TASK_NGROUPS \<equiv> 8"

text \<open>\<open>memset(t, 0, sizeof *t)\<close>: enum value 0 is \<open>TASK_READY\<close>, pointer 0 is absent.\<close>

definition fd_zero :: fd_entry where
  "fd_zero = \<lparr>fd_valid = False, fd_kind = FD_NONE, fd_inode = 0, fd_mode = 0, fd_offset = 0,
     fd_pipe = None, fd_pipe_write = False, fd_pseudo = ''''\<rparr>"

definition task_zero :: task where
  "task_zero = \<lparr>pid = 0, tname = '''', tstate = TASK_READY, priority = 0, ticks_left = 0,
     has_stack = False, user_esp = 0, user_eip = 0, user_eflags = 0, cr3 = 0,
     user_regions = [], fd_table = (\<lambda>_. fd_zero), sleep_until = 0, parent_pid = 0,
     sig_handlers = (\<lambda>_. 0), sig_pending = 0, sig_mask = 0, vmas = [],
     brk_base = 0, brk_cur = 0, uid = 0, gid = 0, groups = (\<lambda>_. 0), ngroups = 0,
     caps = 0, sb_mask = (\<lambda>_. 0), sb_on = False, exit_status = 0, is_thread = False,
     pgid = 0, user_tls = 0\<rparr>"

lemma tstate_task_zero [simp]: "tstate task_zero = TASK_READY"
  by (simp add: task_zero_def)

text \<open>\<open>t->state = st\<close>, and the wake-up idiom \<open>if (w) { w->state = TASK_READY; w = 0; }\<close>.\<close>

definition set_state :: "tid \<Rightarrow> task_state \<Rightarrow> tasks \<Rightarrow> tasks" where
  "set_state t st ts = ts(t := (ts t)\<lparr>tstate := st\<rparr>)"

definition wake :: "tid option \<Rightarrow> tasks \<Rightarrow> tasks" where
  "wake w ts = (case w of None \<Rightarrow> ts | Some t \<Rightarrow> set_state t TASK_READY ts)"

lemma tstate_set_state [simp]:
  "tstate (set_state t st ts u) = (if u = t then st else tstate (ts u))"
  by (simp add: set_state_def)

lemma tstate_wake:
  "tstate (wake w ts u) = (if w = Some u then TASK_READY else tstate (ts u))"
  by (auto simp: wake_def split: option.split)

text \<open>\<open>task_add_region\<close> of \<open>task.c\<close>: at most eight regions are recorded, later ones are
  silently dropped.\<close>

definition task_add_region :: "u32 \<Rightarrow> u32 \<Rightarrow> task \<Rightarrow> task" where
  "task_add_region base pages t =
     (if length (user_regions t) \<ge> TASK_MAX_REGIONS then t
      else t\<lparr>user_regions := user_regions t @ [(base, pages)]\<rparr>)"

end
