(* ===== verification/Pipe.thy ===== *)
theory Pipe
  imports Ring Task
begin

text \<open>
  Pipes (\<open>kernel/process/pipe.c\<close>).  \<open>pipe_buf\<close> is the linear buffer of the first
  version, \<open>pipe\<close> the circular buffer behind file descriptors.  The blocking calls hold
  the pipe's lock from one call of \<open>schedule()\<close> to the next, so each critical section is
  one function here (\<open>pipe_write_pass\<close>, \<open>pipe_read_pass\<close>): it either returns from the
  system call, blocks the task, or goes round the loop again.  \<open>pipe_step\<close> lets any
  number of tasks run these sections in any order; the bytes ever accepted and ever
  delivered are recorded in \<open>sent\<close> and \<open>got\<close>, which no operation reads.
  Counters that the code only decrements under a guard \<open>> 0\<close> are natural numbers.
\<close>

abbreviation PIPE_SIZE :: nat where
  "PIPE_SIZE \<equiv> 512"

section \<open>The linear buffer\<close>

record pipe_buf =
  pb_data :: "nat \<Rightarrow> u8"
  pb_read_idx :: nat
  pb_write_idx :: nat
  pb_full :: bool

definition pipe_init :: pipe_buf where
  "pipe_init = \<lparr>pb_data = (\<lambda>_. 0), pb_read_idx = 0, pb_write_idx = 0, pb_full = False\<rparr>"

definition pb_put :: "u8 \<Rightarrow> pipe_buf \<Rightarrow> pipe_buf" where
  "pb_put c p = p\<lparr>pb_data := (pb_data p)(pb_write_idx p := c),
     pb_write_idx := pb_write_idx p + 1\<rparr>"

definition pb_get :: "pipe_buf \<Rightarrow> (u8 \<times> pipe_buf) option" where
  "pb_get p = (if pb_read_idx p < pb_write_idx p
     then Some (pb_data p (pb_read_idx p), p\<lparr>pb_read_idx := pb_read_idx p + 1\<rparr>) else None)"

definition pipe_write :: "pipe_buf option \<Rightarrow> u8 list \<Rightarrow> int \<times> pipe_buf option" where
  "pipe_write p data = (case p of None \<Rightarrow> (-1, None) | Some b \<Rightarrow>
     if length data = 0 \<or> length data > PIPE_SIZE then (-1, p)
     else let (written, b') = ring_fill PIPE_SIZE pb_write_idx pb_put data b;
              b'' = (if pb_write_idx b' \<ge> PIPE_SIZE then b'\<lparr>pb_full := True\<rparr> else b')
          in (int written, Some b''))"

definition pipe_read :: "pipe_buf option \<Rightarrow> int \<Rightarrow> int \<times> u8 list \<times> pipe_buf option" where
  "pipe_read p len = (case p of None \<Rightarrow> (-1, [], None) | Some b \<Rightarrow>
     if len \<le> 0 then (-1, [], p)
     else let (cs, b') = ring_drain pb_get (nat len) b;
              b'' = (if pb_read_idx b' \<ge> pb_write_idx b' then b'\<lparr>pb_full := False\<rparr> else b')
          in (int (length cs), cs, Some b''))"

section \<open>The circular buffer\<close>

record pipe =
  pipe_data :: "nat \<Rightarrow> u8"
  read_pos :: nat
  write_pos :: nat
  pcount :: nat
  readers :: nat
  writers :: nat
  reader_wait :: "tid option"
  writer_wait :: "tid option"
  pref_count :: int

definition pipe_create :: pipe where
  "pipe_create = \<lparr>pipe_data = (\<lambda>_. 0), read_pos = 0, write_pos = 0, pcount = 0,
     readers = 1, writers = 1, reader_wait = None, writer_wait = None, pref_count = 0\<rparr>"

definition pipe_put :: "u8 \<Rightarrow> pipe \<Rightarrow> pipe" where
  "pipe_put c p = p\<lparr>pipe_data := (pipe_data p)(write_pos p := c),
     write_pos := (write_pos p + 1) mod PIPE_SIZE, pcount := pcount p + 1\<rparr>"

definition pipe_get :: "pipe \<Rightarrow> (u8 \<times> pipe) option" where
  "pipe_get p = (if pcount p > 0
     then Some (pipe_data p (read_pos p),
       p\<lparr>read_pos := (read_pos p + 1) mod PIPE_SIZE, pcount := pcount p - 1\<rparr>)
     else None)"

text \<open>The queued bytes, oldest first, and the layout invariant.\<close>

definition pipe_contents :: "pipe \<Rightarrow> u8 list" where
  "pipe_contents p = ring_list (pipe_data p) (read_pos p) (pcount p) PIPE_SIZE"

definition pipe_wf :: "pipe \<Rightarrow> bool" where
  "pipe_wf p \<longleftrightarrow> pcount p \<le> PIPE_SIZE \<and> read_pos p < PIPE_SIZE
     \<and> write_pos p = (read_pos p + pcount p) mod PIPE_SIZE"

lemma length_pipe_contents [simp]: "length (pipe_contents p) = pcount p"
  by (simp add: pipe_contents_def)

interpretation pq: ring_buffer PIPE_SIZE pcount pipe_put pipe_get pipe_contents pipe_wf
proof unfold_locales
  fix p :: pipe and c :: u8
  assume p: "pipe_wf p" "pcount p < PIPE_SIZE"
  then show "pipe_wf (pipe_put c p)"
    by (simp add: pipe_wf_def pipe_put_def mod_simps)
  show "pipe_contents (pipe_put c p) = pipe_contents p @ [c]"
    using p ring_list_push [of "pcount p" PIPE_SIZE "write_pos p" "read_pos p" "pipe_data p" c]
    by (simp add: pipe_contents_def pipe_put_def pipe_wf_def)
next
  fix p :: pipe and c cs
  assume p: "pipe_wf p" and con: "pipe_contents p = c # cs"
  then obtain m where m: "pcount p = Suc m"
    by (metis length_pipe_contents length_Cons)
  have "c = pipe_data p (read_pos p)"
    and "cs = ring_list (pipe_data p) (Suc (read_pos p) mod PIPE_SIZE) m PIPE_SIZE"
    using con p ring_list_pop [of "pipe_data p" "read_pos p" m PIPE_SIZE]
    by (simp_all add: pipe_contents_def m pipe_wf_def)
  then show "\<exists>p'. pipe_get p = Some (c, p') \<and> pipe_wf p' \<and> pipe_contents p' = cs"
    using p m by (simp add: pipe_get_def pipe_contents_def pipe_wf_def mod_simps)
qed (auto simp: pipe_wf_def pipe_get_def dest: arg_cong [where f = length])

section \<open>Critical sections of the blocking calls\<close>

datatype pass = Returns int | Blocks | Again

text \<open>One turn of \<open>pipe_write_block\<close> under the lock: what is left to write and how much has
  been written are carried from turn to turn.\<close>

definition pipe_write_pass ::
  "tid \<Rightarrow> tasks \<Rightarrow> pipe \<Rightarrow> u8 list \<Rightarrow> nat \<Rightarrow> pass \<times> u8 list \<times> nat \<times> tasks \<times> pipe" where
  "pipe_write_pass me ts p rest written =
     (if pcount p = PIPE_SIZE then
        (if readers p = 0 then (Returns (-1), rest, written, ts, p)
         else (Blocks, rest, written, set_state me TASK_BLOCKED ts, p\<lparr>writer_wait := Some me\<rparr>))
      else
        let (w, p1) = ring_fill PIPE_SIZE pcount pipe_put rest p;
            ts1 = wake (reader_wait p1) ts;
            p2 = p1\<lparr>reader_wait := None\<rparr>;
            rest1 = drop w rest
        in (if rest1 = [] then Returns (int (written + w)) else Again, rest1, written + w, ts1, p2))"

text \<open>The entry checks of \<open>pipe_write_block\<close>: an error, or the bytes to write.\<close>

definition pipe_write_enter :: "u8 list option \<Rightarrow> (int, u8 list) sum" where
  "pipe_write_enter data = (case data of None \<Rightarrow> Inl (-1) | Some bs \<Rightarrow>
     if bs = [] then Inl (-1) else Inr (take PIPE_SIZE bs))"

definition pipe_read_pass ::
  "tid \<Rightarrow> tasks \<Rightarrow> pipe \<Rightarrow> nat \<Rightarrow> pass \<times> u8 list \<times> tasks \<times> pipe" where
  "pipe_read_pass me ts p len =
     (if pcount p = 0 then
        (if writers p = 0 then (Returns 0, [], ts, p)
         else (Blocks, [], set_state me TASK_BLOCKED ts, p\<lparr>reader_wait := Some me\<rparr>))
      else
        let (cs, p1) = ring_drain pipe_get len p;
            (ts1, p2) = (if writer_wait p1 \<noteq> None \<and> pcount p1 < PIPE_SIZE
               then (wake (writer_wait p1) ts, p1\<lparr>writer_wait := None\<rparr>) else (ts, p1))
        in (if cs = [] then Again else Returns (int (length cs)), cs, ts1, p2))"

definition pipe_read_nonblock ::
  "tasks \<Rightarrow> pipe \<Rightarrow> int \<Rightarrow> int \<times> u8 list \<times> tasks \<times> pipe" where
  "pipe_read_nonblock ts p len =
     (if len \<le> 0 then (-1, [], ts, p)
      else
        let (cs, p1) = ring_drain pipe_get (nat len) p;
            (ts1, p2) = (if cs \<noteq> [] \<and> writer_wait p1 \<noteq> None \<and> pcount p1 < PIPE_SIZE
               then (wake (writer_wait p1) ts, p1\<lparr>writer_wait := None\<rparr>) else (ts, p1))
        in (int (length cs), cs, ts1, p2))"

definition pipe_count :: "pipe option \<Rightarrow> int" where
  "pipe_count p = (case p of None \<Rightarrow> -1 | Some q \<Rightarrow> int (pcount q))"

text \<open>\<open>pipe_close_end\<close>; the first component says whether the pipe is freed.\<close>

definition pipe_close_end :: "bool \<Rightarrow> tasks \<Rightarrow> pipe \<Rightarrow> bool \<times> tasks \<times> pipe" where
  "pipe_close_end is_write ts p =
     (let (ts1, p1) =
        (if is_write then
           (wake (reader_wait p) ts, p\<lparr>writers := writers p - 1, reader_wait := None\<rparr>)
         else
           (wake (writer_wait p) ts, p\<lparr>readers := readers p - 1, writer_wait := None\<rparr>))
      in (readers p1 = 0 \<and> writers p1 = 0, ts1, p1))"

text \<open>The copy loops leave the bookkeeping fields alone.\<close>

lemma pipe_fill_frame [frame_simps]:
  "reader_wait (snd (ring_fill c k pipe_put bs p)) = reader_wait p"
  "writer_wait (snd (ring_fill c k pipe_put bs p)) = writer_wait p"
  "readers (snd (ring_fill c k pipe_put bs p)) = readers p"
  "writers (snd (ring_fill c k pipe_put bs p)) = writers p"
  by (rule ring_fill_frame, simp add: pipe_put_def)+

lemma pipe_drain_frame [frame_simps]:
  "reader_wait (snd (ring_drain pipe_get n p)) = reader_wait p"
  "writer_wait (snd (ring_drain pipe_get n p)) = writer_wait p"
  "readers (snd (ring_drain pipe_get n p)) = readers p"
  "writers (snd (ring_drain pipe_get n p)) = writers p"
  by (rule ring_drain_frame, auto simp: pipe_get_def split: if_splits)+

lemma pipe_wf_waits [simp]:
  "pipe_wf (p\<lparr>reader_wait := a\<rparr>) = pipe_wf p" "pipe_wf (p\<lparr>writer_wait := a\<rparr>) = pipe_wf p"
  "pipe_wf (p\<lparr>readers := n\<rparr>) = pipe_wf p" "pipe_wf (p\<lparr>writers := n\<rparr>) = pipe_wf p"
  by (simp_all add: pipe_wf_def)

lemma pipe_contents_waits [simp]:
  "pipe_contents (p\<lparr>reader_wait := a\<rparr>) = pipe_contents p"
  "pipe_contents (p\<lparr>writer_wait := a\<rparr>) = pipe_contents p"
  "pipe_contents (p\<lparr>readers := n\<rparr>) = pipe_contents p"
  "pipe_contents (p\<lparr>writers := n\<rparr>) = pipe_contents p"
  by (simp_all add: pipe_contents_def)

lemma pipe_write_pass_contents:
  assumes p: "pipe_wf p" and pass: "pipe_write_pass me ts p rest w = (res, rest', w', ts', p')"
  shows "pipe_wf p' \<and> (\<exists>bs. rest = bs @ rest' \<and> w' = w + length bs
    \<and> pipe_contents p' = pipe_contents p @ bs)"
proof (cases "pcount p = PIPE_SIZE")
  case True
  then show ?thesis using assms by (auto simp: pipe_write_pass_def split: if_splits)
next
  case False
  obtain n p1 where fill: "ring_fill PIPE_SIZE pcount pipe_put rest p = (n, p1)"
    by fastforce
  note f = pq.fill_prefix [OF p fill]
  have "rest = take n rest @ rest'" "w' = w + length (take n rest)"
    "pipe_wf p'" "pipe_contents p' = pipe_contents p @ take n rest"
    using pass False f by (auto simp: pipe_write_pass_def fill)
  then show ?thesis by blast
qed

lemma pipe_read_pass_contents:
  assumes p: "pipe_wf p" and pass: "pipe_read_pass me ts p n = (res, cs, ts', p')"
  shows "pipe_wf p' \<and> pipe_contents p = cs @ pipe_contents p' \<and> length cs \<le> n"
proof -
  obtain bs p1 where drain: "ring_drain pipe_get n p = (bs, p1)" by fastforce
  show ?thesis
    using pass p pq.drain_prefix(1-3) [OF p drain]
    by (auto simp: pipe_read_pass_def drain split: if_splits)
qed

lemma pipe_read_nonblock_contents:
  assumes p: "pipe_wf p" and pass: "pipe_read_nonblock ts p n = (r, cs, ts', p')"
  shows "pipe_wf p' \<and> pipe_contents p = cs @ pipe_contents p' \<and> length cs \<le> nat n"
proof -
  obtain bs p1 where drain: "ring_drain pipe_get (nat n) p = (bs, p1)" by fastforce
  show ?thesis
    using pass p pq.drain_prefix(1-3) [OF p drain]
    by (auto simp: pipe_read_nonblock_def drain split: if_splits)
qed

section \<open>Tasks sharing a pipe\<close>

text \<open>A task is outside the pipe, inside \<open>pipe_write_block\<close> with bytes left to write, or inside
  \<open>pipe_read_block\<close>.  Tasks in \<open>W\<close> may write and tasks in \<open>R\<close> may read.\<close>

datatype pipe_call = NoCall | Writing "u8 list" nat | Reading nat

record pipe_sys =
  ps_tasks :: tasks
  ps_pipe :: pipe
  ps_call :: "tid \<Rightarrow> pipe_call"
  sent :: "u8 list"
  got :: "u8 list"

definition pipe_sys_init :: "tasks \<Rightarrow> pipe_sys" where
  "pipe_sys_init ts = \<lparr>ps_tasks = ts, ps_pipe = pipe_create, ps_call = (\<lambda>_. NoCall),
     sent = [], got = []\<rparr>"

inductive pipe_step :: "tid set \<Rightarrow> tid set \<Rightarrow> pipe_sys \<Rightarrow> pipe_sys \<Rightarrow> bool" for R W where
  call_write: "\<lbrakk>t \<in> W; ps_call s t = NoCall; tstate (ps_tasks s t) \<noteq> TASK_BLOCKED;
      pipe_write_enter data = Inr bs\<rbrakk>
    \<Longrightarrow> pipe_step R W s (s\<lparr>ps_call := (ps_call s)(t := Writing bs 0)\<rparr>)"
| call_read: "\<lbrakk>t \<in> R; ps_call s t = NoCall; tstate (ps_tasks s t) \<noteq> TASK_BLOCKED; 0 < n\<rbrakk>
    \<Longrightarrow> pipe_step R W s (s\<lparr>ps_call := (ps_call s)(t := Reading n)\<rparr>)"
| run_write: "\<lbrakk>ps_call s t = Writing rest w; tstate (ps_tasks s t) \<noteq> TASK_BLOCKED;
      pipe_write_pass t (ps_tasks s) (ps_pipe s) rest w = (res, rest', w', ts', p')\<rbrakk>
    \<Longrightarrow> pipe_step R W s (s\<lparr>ps_tasks := ts', ps_pipe := p',
          ps_call := (ps_call s)(t := (case res of Returns _ \<Rightarrow> NoCall | _ \<Rightarrow> Writing rest' w')),
          sent := sent s @ take (length rest - length rest') rest\<rparr>)"
| run_read: "\<lbrakk>ps_call s t = Reading n; tstate (ps_tasks s t) \<noteq> TASK_BLOCKED;
      pipe_read_pass t (ps_tasks s) (ps_pipe s) n = (res, cs, ts', p')\<rbrakk>
    \<Longrightarrow> pipe_step R W s (s\<lparr>ps_tasks := ts', ps_pipe := p',
          ps_call := (ps_call s)(t := (case res of Returns _ \<Rightarrow> NoCall | _ \<Rightarrow> Reading n)),
          got := got s @ cs\<rparr>)"
| poll: "\<lbrakk>t \<in> R; ps_call s t = NoCall; tstate (ps_tasks s t) \<noteq> TASK_BLOCKED;
      pipe_read_nonblock (ps_tasks s) (ps_pipe s) n = (r, cs, ts', p')\<rbrakk>
    \<Longrightarrow> pipe_step R W s (s\<lparr>ps_tasks := ts', ps_pipe := p', got := got s @ cs\<rparr>)"
| close_end: "\<lbrakk>(if is_write then t \<in> W else t \<in> R); ps_call s t = NoCall;
      tstate (ps_tasks s t) \<noteq> TASK_BLOCKED;
      pipe_close_end is_write (ps_tasks s) (ps_pipe s) = (False, ts', p')\<rbrakk>
    \<Longrightarrow> pipe_step R W s (s\<lparr>ps_tasks := ts', ps_pipe := p'\<rparr>)"

inductive pipe_reach :: "tid set \<Rightarrow> tid set \<Rightarrow> pipe_sys \<Rightarrow> bool" for R W where
  start: "\<forall>t. tstate (ts t) \<noteq> TASK_BLOCKED \<Longrightarrow> pipe_reach R W (pipe_sys_init ts)"
| step: "\<lbrakk>pipe_reach R W s; pipe_step R W s s'\<rbrakk> \<Longrightarrow> pipe_reach R W s'"

text \<open>First-in first-out across every interleaving.\<close>

definition pipe_fifo :: "pipe_sys \<Rightarrow> bool" where
  "pipe_fifo s \<longleftrightarrow> pipe_wf (ps_pipe s) \<and> sent s = got s @ pipe_contents (ps_pipe s)"

lemma pipe_close_end_contents:
  "pipe_close_end b ts p = (f, ts', p') \<Longrightarrow>
     pipe_wf p' = pipe_wf p \<and> pipe_contents p' = pipe_contents p"
  by (auto simp: pipe_close_end_def pipe_wf_def pipe_contents_def split: if_splits)

lemma pipe_step_fifo: "pipe_step R W s s' \<Longrightarrow> pipe_fifo s \<Longrightarrow> pipe_fifo s'"
proof (induction rule: pipe_step.induct)
  case (run_write s t rest w res rest' w' ts' p')
  then obtain bs where "rest = bs @ rest'" "pipe_contents p' = pipe_contents (ps_pipe s) @ bs"
    and "pipe_wf p'"
    using pipe_write_pass_contents unfolding pipe_fifo_def by blast
  then show ?case using run_write.prems by (simp add: pipe_fifo_def)
next
  case (run_read s t n res cs ts' p')
  then show ?case using pipe_read_pass_contents [OF _ run_read(3)] by (auto simp: pipe_fifo_def)
next
  case (poll t s n r cs ts' p')
  then show ?case using pipe_read_nonblock_contents [OF _ poll(4)] by (auto simp: pipe_fifo_def)
next
  case (close_end is_write t s ts' p')
  then show ?case using pipe_close_end_contents [OF close_end(4)] by (auto simp: pipe_fifo_def)
qed (simp_all add: pipe_fifo_def)

lemma pipe_reach_fifo: "pipe_reach R W s \<Longrightarrow> pipe_fifo s"
proof (induction rule: pipe_reach.induct)
  case (start ts)
  then show ?case
    by (simp add: pipe_fifo_def pipe_sys_init_def pipe_create_def pipe_wf_def pipe_contents_def)
next
  case (step s s')
  then show ?case using pipe_step_fifo by blast
qed

section \<open>One reader and one writer never deadlock\<close>

text \<open>Why a sleeping task sleeps: the reader found the pipe empty and is registered to be woken,
  the writer found it full and is registered to be woken.\<close>

definition pipe_sleep_ok :: "tid \<Rightarrow> tid \<Rightarrow> pipe_sys \<Rightarrow> bool" where
  "pipe_sleep_ok r w s \<longleftrightarrow>
     (tstate (ps_tasks s r) = TASK_BLOCKED \<longrightarrow>
        pcount (ps_pipe s) = 0 \<and> writers (ps_pipe s) > 0 \<and> reader_wait (ps_pipe s) = Some r)
   \<and> (tstate (ps_tasks s w) = TASK_BLOCKED \<longrightarrow>
        pcount (ps_pipe s) = PIPE_SIZE \<and> readers (ps_pipe s) > 0 \<and> writer_wait (ps_pipe s) = Some w)
   \<and> (\<forall>t. t \<noteq> w \<longrightarrow> (\<forall>bs n. ps_call s t \<noteq> Writing bs n))
   \<and> (\<forall>t. t \<noteq> r \<longrightarrow> (\<forall>n. ps_call s t \<noteq> Reading n))
   \<and> (\<forall>n. ps_call s w \<noteq> Writing [] n) \<and> ps_call s r \<noteq> Reading 0"

lemma pipe_write_pass_cases:
  assumes "pipe_write_pass me ts p rest w = (res, rest', w', ts', p')" "pipe_wf p"
  obtains (broken) "pcount p = PIPE_SIZE" "readers p = 0" "res = Returns (-1)" "ts' = ts" "p' = p"
  | (sleep) "pcount p = PIPE_SIZE" "readers p > 0" "res = Blocks" "rest' = rest"
      "ts' = set_state me TASK_BLOCKED ts" "p' = p\<lparr>writer_wait := Some me\<rparr>"
  | (copied) "pcount p < PIPE_SIZE" "res = (if rest' = [] then Returns (int w') else Again)"
      "ts' = wake (reader_wait p) ts" "reader_wait p' = None" "writer_wait p' = writer_wait p"
      "readers p' = readers p" "writers p' = writers p"
proof (cases "pcount p = PIPE_SIZE")
  case True
  then show thesis using assms(1) broken sleep by (auto simp: pipe_write_pass_def split: if_splits)
next
  case False
  obtain n p1 where fill: "ring_fill PIPE_SIZE pcount pipe_put rest p = (n, p1)" by fastforce
  have "reader_wait p1 = reader_wait p" "writer_wait p1 = writer_wait p"
    "readers p1 = readers p" "writers p1 = writers p"
    using pipe_fill_frame [of PIPE_SIZE pcount rest p] fill by simp_all
  then show thesis using False assms copied
    by (auto simp: pipe_write_pass_def fill pipe_wf_def)
qed

lemma pipe_drain_cases:
  assumes drain: "ring_drain pipe_get n p = (cs, p1)" and p: "pipe_wf p"
  shows "pcount p1 = pcount p - length cs" "length cs = min n (pcount p)"
    "reader_wait p1 = reader_wait p" "writer_wait p1 = writer_wait p"
    "readers p1 = readers p" "writers p1 = writers p"
proof -
  show len: "length cs = min n (pcount p)"
    using pq.drain_prefix(4) [OF p drain] by simp
  show "pcount p1 = pcount p - length cs"
    using arg_cong [OF pq.drain_prefix(2) [OF p drain], of length] by simp
  show "reader_wait p1 = reader_wait p" "writer_wait p1 = writer_wait p"
    "readers p1 = readers p" "writers p1 = writers p"
    using pipe_drain_frame [of n p] drain by simp_all
qed

text \<open>A read that gets something always leaves room, so it always wakes a waiting writer.\<close>

lemma pipe_read_pass_cases:
  assumes pass: "pipe_read_pass me ts p n = (res, cs, ts', p')" and p: "pipe_wf p" and n: "0 < n"
  obtains (eof) "pcount p = 0" "writers p = 0" "res = Returns 0" "cs = []" "ts' = ts" "p' = p"
  | (sleep) "pcount p = 0" "writers p > 0" "res = Blocks" "cs = []"
      "ts' = set_state me TASK_BLOCKED ts" "p' = p\<lparr>reader_wait := Some me\<rparr>"
  | (copied) "pcount p > 0" "cs \<noteq> []" "res = Returns (int (length cs))"
      "ts' = wake (writer_wait p) ts" "writer_wait p' = None" "reader_wait p' = reader_wait p"
      "readers p' = readers p" "writers p' = writers p" "pcount p' < PIPE_SIZE"
proof (cases "pcount p = 0")
  case True
  then show thesis using pass eof sleep by (auto simp: pipe_read_pass_def split: if_splits)
next
  case False
  obtain bs p1 where drain: "ring_drain pipe_get n p = (bs, p1)" by fastforce
  note d = pipe_drain_cases [OF drain p]
  have bs: "bs \<noteq> []" "pcount p1 < PIPE_SIZE"
    using d(1,2) False n p by (auto simp: pipe_wf_def)
  show thesis
    using pass False bs d(3-6) copied
    by (cases "writer_wait p") (auto simp: pipe_read_pass_def drain wake_def)
qed

lemma pipe_read_nonblock_cases:
  assumes pass: "pipe_read_nonblock ts p n = (res, cs, ts', p')" and p: "pipe_wf p"
  obtains (nothing) "cs = []" "ts' = ts" "p' = p"
  | (copied) "pcount p > 0" "cs \<noteq> []" "res = int (length cs)"
      "ts' = wake (writer_wait p) ts" "writer_wait p' = None" "reader_wait p' = reader_wait p"
      "readers p' = readers p" "writers p' = writers p" "pcount p' < PIPE_SIZE"
proof (cases "n \<le> 0 \<or> pcount p = 0")
  case True
  then have "cs = [] \<and> ts' = ts \<and> p' = p"
  proof
    assume "pcount p = 0"
    then have "ring_drain pipe_get (nat n) p = ([], p)"
      by (cases "nat n") (simp_all add: pipe_get_def)
    then show ?thesis using pass by (auto simp: pipe_read_nonblock_def split: if_splits)
  qed (use pass in \<open>auto simp: pipe_read_nonblock_def\<close>)
  then have "cs = []" "ts' = ts" "p' = p" by simp_all
  then show thesis by (rule nothing)
next
  case False
  obtain bs p1 where drain: "ring_drain pipe_get (nat n) p = (bs, p1)" by fastforce
  note d = pipe_drain_cases [OF drain p]
  have bs: "bs \<noteq> []" "pcount p1 < PIPE_SIZE"
    using d(1,2) False p by (auto simp: pipe_wf_def)
  show thesis
    using pass False bs d(3-6) copied
    by (cases "writer_wait p") (auto simp: pipe_read_nonblock_def drain wake_def)
qed

lemma pipe_step_sleep_ok:
  assumes "pipe_step {r} {w} s s'" "r \<noteq> w" "pipe_wf (ps_pipe s)" "pipe_sleep_ok r w s"
  shows "pipe_sleep_ok r w s'"
  using assms
proof (induction rule: pipe_step.induct)
  case (call_write t s data bs)
  then show ?case by (auto simp: pipe_sleep_ok_def pipe_write_enter_def split: option.splits if_splits)
next
  case (call_read t s n)
  then show ?case by (auto simp: pipe_sleep_ok_def)
next
  case (run_write s t rest w0 res rest' w' ts' p')
  then have t: "t = w" "rest \<noteq> []" by (auto simp: pipe_sleep_ok_def)
  from run_write(3,5) show ?case
  proof (cases rule: pipe_write_pass_cases)
    case broken
    then show ?thesis using run_write(1,2,4,6) t by (auto simp: pipe_sleep_ok_def)
  next
    case sleep
    then show ?thesis using run_write(1,2,4,6) t by (auto simp: pipe_sleep_ok_def)
  next
    case copied
    then show ?thesis using run_write(1,2,4,6) t by (auto simp: pipe_sleep_ok_def tstate_wake split: if_splits)
  qed
next
  case (run_read s t n res cs ts' p')
  then have t: "t = r" "0 < n" by (auto simp: pipe_sleep_ok_def intro: gr0I)
  from run_read(3,5) t(2) show ?case
  proof (cases rule: pipe_read_pass_cases)
    case eof
    then show ?thesis using run_read(1,2,4,6) t by (auto simp: pipe_sleep_ok_def)
  next
    case sleep
    then show ?thesis using run_read(1,2,4,6) t by (auto simp: pipe_sleep_ok_def)
  next
    case copied
    then show ?thesis using run_read(1,2,4,6) t by (auto simp: pipe_sleep_ok_def tstate_wake split: if_splits)
  qed
next
  case (poll t s n ret cs ts' p')
  from poll(4,6) show ?case
  proof (cases rule: pipe_read_nonblock_cases)
    case nothing
    then show ?thesis using poll(1-3,5,7) by (auto simp: pipe_sleep_ok_def)
  next
    case copied
    then show ?thesis using poll(1-3,5,7) by (auto simp: pipe_sleep_ok_def tstate_wake split: if_splits)
  qed
next
  case (close_end is_write t s ts' p')
  then show ?case
    by (auto simp: pipe_sleep_ok_def pipe_close_end_def tstate_wake split: if_splits)
qed

lemma pipe_reach_sleep_ok: "pipe_reach {r} {w} s \<Longrightarrow> r \<noteq> w \<Longrightarrow> pipe_sleep_ok r w s"
proof (induction rule: pipe_reach.induct)
  case (start ts)
  then show ?case by (auto simp: pipe_sleep_ok_def pipe_sys_init_def)
next
  case (step s s')
  then show ?case
    using pipe_step_sleep_ok pipe_reach_fifo [OF step.hyps(1)] unfolding pipe_fifo_def by blast
qed

section \<open>Properties\<close>

text \<open>C3. Byte order and memory safety of a shared pipe: whatever tasks write, read, poll and
  close, in whatever interleaving of their critical sections, the bytes accepted so far
  are exactly the bytes delivered so far followed by the bytes in the buffer, and every
  index the code uses stays inside \<open>data[PIPE_SIZE]\<close>.\<close>

theorem pipe_fifo_all_interleavings:
  assumes "pipe_reach R W s"
  shows "sent s = got s @ pipe_contents (ps_pipe s)
    \<and> pcount (ps_pipe s) \<le> PIPE_SIZE
    \<and> read_pos (ps_pipe s) < PIPE_SIZE \<and> write_pos (ps_pipe s) < PIPE_SIZE"
  using pipe_reach_fifo [OF assms] by (simp add: pipe_fifo_def pipe_wf_def)

lemma pipe_demo_write:
  "pipe_write_pass 1 (\<lambda>_. task_zero) pipe_create [7, 8] 0 = (Returns 2, [], 2, \<lambda>_. task_zero,
     pipe_create\<lparr>pipe_data := (\<lambda>_. 0)(0 := 7, 1 := 8), write_pos := 2, pcount := 2\<rparr>)"
  by (simp add: pipe_write_pass_def pipe_create_def pipe_put_def wake_def)

lemma pipe_demo_reach:
  "pipe_reach {0} {1} \<lparr>ps_tasks = (\<lambda>_. task_zero),
     ps_pipe = pipe_create\<lparr>pipe_data := (\<lambda>_. 0)(0 := 7, 1 := 8), write_pos := 2, pcount := 2\<rparr>,
     ps_call = (\<lambda>_. NoCall), sent = [7, 8], got = []\<rparr>"
proof -
  let ?s0 = "pipe_sys_init (\<lambda>_. task_zero)"
  let ?s1 = "?s0\<lparr>ps_call := (ps_call ?s0)(1 := Writing [7, 8] 0)\<rparr>"
  have "pipe_reach {0} {1} ?s0" by (rule pipe_reach.start) simp
  moreover have "pipe_step {0} {1} ?s0 ?s1"
    by (rule pipe_step.call_write [where data = "Some [7, 8]"])
      (simp_all add: pipe_sys_init_def pipe_write_enter_def)
  ultimately have r1: "pipe_reach {0} {1} ?s1" by (rule pipe_reach.step)
  have "pipe_step {0} {1} ?s1 (?s1\<lparr>ps_tasks := \<lambda>_. task_zero,
      ps_pipe := pipe_create\<lparr>pipe_data := (\<lambda>_. 0)(0 := 7, 1 := 8), write_pos := 2, pcount := 2\<rparr>,
      ps_call := (ps_call ?s1)(1 := (case Returns 2 of Returns _ \<Rightarrow> NoCall | _ \<Rightarrow> Writing [] 2)),
      sent := sent ?s1 @ take (length [7, 8 :: u8] - length ([] :: u8 list)) [7, 8]\<rparr>)"
    by (rule pipe_step.run_write [where w = 0])
      (simp_all add: pipe_sys_init_def pipe_demo_write [simplified])
  from pipe_reach.step [OF r1 this] show ?thesis
    by (simp add: pipe_sys_init_def fun_upd_idem)
qed

theorem pipe_fifo_all_interleavings_witness:
  "[7, 8] = [] @ pipe_contents
     (pipe_create\<lparr>pipe_data := (\<lambda>_. 0)(0 := 7, 1 := 8), write_pos := 2, pcount := 2\<rparr>)"
  using pipe_fifo_all_interleavings [OF pipe_demo_reach] by simp

text \<open>C4. With one reader and one writer a pipe never deadlocks: the two are never asleep at the
  same time, a sleeping reader sleeps only on an empty pipe that still has a write end and
  is registered with it, and dually for the writer.\<close>

theorem pipe_pair_no_deadlock:
  assumes "pipe_reach {r} {w} s" "r \<noteq> w"
  shows "\<not> (tstate (ps_tasks s r) = TASK_BLOCKED \<and> tstate (ps_tasks s w) = TASK_BLOCKED)
    \<and> (tstate (ps_tasks s r) = TASK_BLOCKED \<longrightarrow>
         pcount (ps_pipe s) = 0 \<and> 0 < writers (ps_pipe s) \<and> reader_wait (ps_pipe s) = Some r)
    \<and> (tstate (ps_tasks s w) = TASK_BLOCKED \<longrightarrow>
         pcount (ps_pipe s) = PIPE_SIZE \<and> 0 < readers (ps_pipe s)
         \<and> writer_wait (ps_pipe s) = Some w)"
  using pipe_reach_sleep_ok [OF assms] by (auto simp: pipe_sleep_ok_def)

theorem pipe_pair_no_deadlock_witness:
  "\<not> (tstate task_zero = TASK_BLOCKED \<and> tstate task_zero = TASK_BLOCKED)"
  using pipe_pair_no_deadlock [OF pipe_demo_reach] by simp

text \<open>A pipe remembers one sleeping reader only.  When a second reader goes to sleep on the empty
  pipe it displaces the first: the next write wakes the second, clears the registration,
  and the first stays asleep although there is data.\<close>

theorem pipe_second_reader_displaces_first:
  assumes "pcount p = 0" "0 < writers p" "a \<noteq> b" "bs \<noteq> []"
    and "pipe_read_pass a ts p n = (res1, cs1, ts1, p1)"
    and "pipe_read_pass b ts1 p1 m = (res2, cs2, ts2, p2)"
    and "pipe_write_pass c ts2 p2 bs 0 = (res3, rest, w, ts3, p3)"
  shows "tstate (ts3 a) = TASK_BLOCKED \<and> tstate (ts3 b) = TASK_READY \<and> reader_wait p3 = None"
proof -
  have p2: "p2 = p\<lparr>reader_wait := Some b\<rparr>" "ts2 = set_state b TASK_BLOCKED (set_state a TASK_BLOCKED ts)"
    using assms by (auto simp: pipe_read_pass_def)
  obtain k q where fill: "ring_fill PIPE_SIZE pcount pipe_put bs p2 = (k, q)" by fastforce
  have "reader_wait q = Some b"
    using pipe_fill_frame(1) [of PIPE_SIZE pcount bs p2] fill p2 by simp
  then show ?thesis
    using assms p2 fill by (auto simp: pipe_write_pass_def tstate_wake)
qed

theorem pipe_second_reader_displaces_first_witness:
  "let (res1, cs1, ts1, p1) = pipe_read_pass 0 (\<lambda>_. task_zero) pipe_create 4;
       (res2, cs2, ts2, p2) = pipe_read_pass 1 ts1 p1 4;
       (res3, rest, w, ts3, p3) = pipe_write_pass 2 ts2 p2 [9] 0
   in tstate (ts3 0) = TASK_BLOCKED \<and> tstate (ts3 1) = TASK_READY \<and> reader_wait p3 = None"
proof -
  obtain r1 c1 t1 p1 where a: "pipe_read_pass 0 (\<lambda>_. task_zero) pipe_create 4 = (r1, c1, t1, p1)"
    by (metis prod_cases4)
  obtain r2 c2 t2 p2 where b: "pipe_read_pass 1 t1 p1 4 = (r2, c2, t2, p2)"
    by (metis prod_cases4)
  obtain r3 rest w t3 p3 where c: "pipe_write_pass 2 t2 p2 [9] 0 = (r3, rest, w, t3, p3)"
    by (metis prod_cases5)
  have "pcount pipe_create = 0" "0 < writers pipe_create" by (simp_all add: pipe_create_def)
  from pipe_second_reader_displaces_first [OF this _ _ a b c] show ?thesis
    by (simp add: a b [simplified] c [simplified])
qed

end
