(* ===== verification/Pty.thy ===== *)
theory Pty
  imports Ring
begin

text \<open>
  Pseudo-terminals (\<open>kernel/process/pty.c\<close>): eight terminals, each with a raw input ring,
  a canonical line buffer with its editing keys, and an output ring that carries the echo
  and the program's output.  \<open>(char)\<close> and \<open>(unsigned char)\<close> of a byte are the same 8-bit
  word here; \<open>ring_pop\<close> returns -1 for "empty" and a byte otherwise, which is \<open>None\<close>
  and \<open>Some\<close>.  A pointer and a length are the list of the bytes; the null pointer
  (and a negative length, which is refused with it) is \<open>None\<close>.
\<close>

abbreviation (input) NL :: u8 where "NL \<equiv> 0x0A"
abbreviation PTY_MAX :: nat where "PTY_MAX \<equiv> 8"
abbreviation PTY_RING :: nat where "PTY_RING \<equiv> 512"
abbreviation PTY_LINE :: nat where "PTY_LINE \<equiv> 256"

abbreviation PTY_ICANON :: u32 where "PTY_ICANON \<equiv> 1"
abbreviation PTY_ECHO :: u32 where "PTY_ECHO \<equiv> 2"
abbreviation PTY_ONLCR :: u32 where "PTY_ONLCR \<equiv> 4"

section \<open>The character rings\<close>

record tty_ring =
  rb :: "nat \<Rightarrow> u8"
  rhead :: nat
  rtail :: nat
  rcount :: nat

definition ring_empty :: tty_ring where
  "ring_empty = \<lparr>rb = (\<lambda>_. 0), rhead = 0, rtail = 0, rcount = 0\<rparr>"

definition ring_push :: "u8 \<Rightarrow> tty_ring \<Rightarrow> tty_ring" where
  "ring_push c r =
     (if rcount r \<ge> PTY_RING then r
      else r\<lparr>rb := (rb r)(rhead r := c), rhead := (rhead r + 1) mod PTY_RING,
             rcount := rcount r + 1\<rparr>)"

definition ring_pop :: "tty_ring \<Rightarrow> (u8 \<times> tty_ring) option" where
  "ring_pop r =
     (if rcount r = 0 then None
      else Some (rb r (rtail r),
        r\<lparr>rtail := (rtail r + 1) mod PTY_RING, rcount := rcount r - 1\<rparr>))"

definition tty_contents :: "tty_ring \<Rightarrow> u8 list" where
  "tty_contents r = ring_list (rb r) (rtail r) (rcount r) PTY_RING"

definition tty_wf :: "tty_ring \<Rightarrow> bool" where
  "tty_wf r \<longleftrightarrow> rcount r \<le> PTY_RING \<and> rtail r < PTY_RING
     \<and> rhead r = (rtail r + rcount r) mod PTY_RING"

lemma length_tty_contents [simp]: "length (tty_contents r) = rcount r"
  by (simp add: tty_contents_def)

interpretation tq: dropping_ring PTY_RING rcount ring_push ring_pop tty_contents tty_wf
proof unfold_locales
  fix r :: tty_ring and c :: u8
  assume r: "tty_wf r" "rcount r < PTY_RING"
  then show "tty_wf (ring_push c r)"
    by (simp add: tty_wf_def ring_push_def mod_simps)
  show "tty_contents (ring_push c r) = tty_contents r @ [c]"
    using r ring_list_push [of "rcount r" PTY_RING "rhead r" "rtail r" "rb r" c]
    by (simp add: tty_contents_def ring_push_def tty_wf_def)
next
  fix r :: tty_ring and c cs
  assume r: "tty_wf r" and con: "tty_contents r = c # cs"
  then obtain m where m: "rcount r = Suc m"
    by (metis length_tty_contents length_Cons)
  have "c = rb r (rtail r)" "cs = ring_list (rb r) (Suc (rtail r) mod PTY_RING) m PTY_RING"
    using con r ring_list_pop [of "rb r" "rtail r" m PTY_RING]
    by (simp_all add: tty_contents_def m tty_wf_def)
  then show "\<exists>r'. ring_pop r = Some (c, r') \<and> tty_wf r' \<and> tty_contents r' = cs"
    using r m by (simp add: ring_pop_def tty_contents_def tty_wf_def mod_simps)
qed (auto simp: tty_wf_def ring_pop_def ring_push_def dest: arg_cong [where f = length])

lemma tty_empty [simp]: "tty_wf ring_empty" "tty_contents ring_empty = []"
  by (simp_all add: ring_empty_def tty_wf_def tty_contents_def)

section \<open>Terminals\<close>

record pty =
  pty_used :: bool
  pty_flags :: u32
  in_raw :: tty_ring
  canon :: "nat \<Rightarrow> u8"
  canon_len :: nat
  line_ready :: bool
  pty_out :: tty_ring

definition pty_zero :: pty where
  "pty_zero = \<lparr>pty_used = False, pty_flags = 0, in_raw = ring_empty, canon = (\<lambda>_. 0),
     canon_len = 0, line_ready = False, pty_out = ring_empty\<rparr>"

definition flag :: "u32 \<Rightarrow> u32 \<Rightarrow> bool" where
  "flag fl b \<longleftrightarrow> fl AND b \<noteq> 0"

record pty_state =
  ptys :: "nat \<Rightarrow> pty"
  pty_inited :: bool

definition pty_init_all :: "pty_state \<Rightarrow> pty_state" where
  "pty_init_all s = (if pty_inited s then s else s\<lparr>ptys := (\<lambda>_. pty_zero), pty_inited := True\<rparr>)"

definition pty_get :: "pty_state \<Rightarrow> int \<Rightarrow> pty option" where
  "pty_get s i =
     (if i < 0 \<or> i \<ge> int PTY_MAX then None
      else if \<not> pty_used (ptys s (nat i)) then None else Some (ptys s (nat i)))"

definition pty_set :: "pty_state \<Rightarrow> int \<Rightarrow> pty \<Rightarrow> pty_state" where
  "pty_set s i p = s\<lparr>ptys := (ptys s)(nat i := p)\<rparr>"

definition pty_reset_ring :: "tty_ring \<Rightarrow> tty_ring" where
  "pty_reset_ring r = r\<lparr>rhead := 0, rtail := 0, rcount := 0\<rparr>"

definition pty_create :: "u32 \<Rightarrow> pty_state \<Rightarrow> int \<times> pty_state" where
  "pty_create flags s0 =
     (let s = pty_init_all s0 in
      case first_from (\<lambda>i. \<not> pty_used (ptys s i)) 0 PTY_MAX of
        None \<Rightarrow> (-1, s)
      | Some i \<Rightarrow> (int i, s\<lparr>ptys := (ptys s)(i := (ptys s i)\<lparr>pty_used := True, pty_flags := flags,
            in_raw := pty_reset_ring (in_raw (ptys s i)), canon_len := 0, line_ready := False,
            pty_out := pty_reset_ring (pty_out (ptys s i))\<rparr>)\<rparr>))"

definition pty_destroy :: "int \<Rightarrow> pty_state \<Rightarrow> int \<times> pty_state" where
  "pty_destroy i s = (case pty_get s i of None \<Rightarrow> (-1, s) | Some p \<Rightarrow> (0, pty_set s i pty_zero))"

definition pty_set_flags :: "int \<Rightarrow> u32 \<Rightarrow> pty_state \<Rightarrow> int \<times> pty_state" where
  "pty_set_flags i flags s = (case pty_get s i of None \<Rightarrow> (-1, s)
     | Some p \<Rightarrow> (0, pty_set s i (p\<lparr>pty_flags := flags\<rparr>)))"

text \<open>The line discipline on one terminal.  The echoed character is the one after the
  translation of carriage return.\<close>

definition canon_add :: "u8 \<Rightarrow> pty \<Rightarrow> pty" where
  "canon_add c p = (if canon_len p < PTY_LINE - 1
     then p\<lparr>canon := (canon p)(canon_len p := c), canon_len := canon_len p + 1\<rparr> else p)"

definition pty_echo :: "u8 \<Rightarrow> pty \<Rightarrow> pty" where
  "pty_echo c p = (if flag (pty_flags p) PTY_ECHO then p\<lparr>pty_out := ring_push c (pty_out p)\<rparr> else p)"

definition canon_key :: "u8 \<Rightarrow> pty \<Rightarrow> pty" where
  "canon_key c p =
     (if c = 0x0A then (canon_add 0x0A p)\<lparr>line_ready := True\<rparr>
      else if c = 0x08 \<or> c = 0x7F then
        (if canon_len p > 0 then p\<lparr>canon_len := canon_len p - 1\<rparr> else p)
      else if c = 0x15 then p\<lparr>canon_len := 0\<rparr>
      else if c \<ge> 32 \<or> c = 0x09 then canon_add c p
      else p)"

definition ldisc_input :: "u8 \<Rightarrow> pty \<Rightarrow> pty" where
  "ldisc_input c0 p =
     (if flag (pty_flags p) PTY_ICANON then
        (let c = (if c0 = 0x0D then 0x0A else c0) in pty_echo c (canon_key c p))
      else pty_echo c0 (p\<lparr>in_raw := ring_push c0 (in_raw p)\<rparr>))"

definition pty_slave_input :: "int \<Rightarrow> u8 \<Rightarrow> pty_state \<Rightarrow> int \<times> pty_state" where
  "pty_slave_input i c s = (case pty_get s i of None \<Rightarrow> (-1, s)
     | Some p \<Rightarrow> (0, pty_set s i (ldisc_input c p)))"

definition canon_bytes :: "pty \<Rightarrow> u8 list" where
  "canon_bytes p = map (canon p) [0..<canon_len p]"

definition ldisc_read :: "nat \<Rightarrow> pty \<Rightarrow> u8 list \<times> pty" where
  "ldisc_read mx p =
     (if flag (pty_flags p) PTY_ICANON then
        (if \<not> line_ready p then ([], p)
         else if canon_len p + 1 > mx then ([], p)
         else (canon_bytes p, p\<lparr>canon_len := 0, line_ready := False\<rparr>))
      else let (cs, r) = ring_drain ring_pop mx (in_raw p) in (cs, p\<lparr>in_raw := r\<rparr>))"

text \<open>A read returns its count and the bytes stored in the caller's buffer; \<open>buf_ok\<close> says the
  caller's pointer is not null.\<close>

definition pty_slave_read :: "int \<Rightarrow> bool \<Rightarrow> int \<Rightarrow> pty_state \<Rightarrow> int \<times> u8 list \<times> pty_state" where
  "pty_slave_read i buf_ok mx s = (case pty_get s i of None \<Rightarrow> (-1, [], s)
     | Some p \<Rightarrow> if \<not> buf_ok \<or> mx \<le> 0 then (-1, [], s)
        else let (cs, p') = ldisc_read (nat mx) p in (int (length cs), cs, pty_set s i p'))"

definition pty_master_read :: "int \<Rightarrow> bool \<Rightarrow> int \<Rightarrow> pty_state \<Rightarrow> int \<times> u8 list \<times> pty_state" where
  "pty_master_read i buf_ok mx s = (case pty_get s i of None \<Rightarrow> (-1, [], s)
     | Some p \<Rightarrow> if \<not> buf_ok \<or> mx \<le> 0 then (-1, [], s)
        else let (cs, r) = ring_drain ring_pop (nat mx) (pty_out p)
             in (int (length cs), cs, pty_set s i (p\<lparr>pty_out := r\<rparr>)))"

fun output_bytes :: "u32 \<Rightarrow> u8 list \<Rightarrow> tty_ring \<Rightarrow> tty_ring" where
  "output_bytes fl [] r = r"
| "output_bytes fl (c # cs) r =
     output_bytes fl cs (ring_push c
       (if c = 0x0A \<and> flag fl PTY_ONLCR then ring_push 0x0D r else r))"

definition pty_master_write :: "int \<Rightarrow> u8 list option \<Rightarrow> pty_state \<Rightarrow> int \<times> pty_state" where
  "pty_master_write i data s = (case pty_get s i of None \<Rightarrow> (-1, s)
     | Some p \<Rightarrow> (case data of None \<Rightarrow> (-1, s)
        | Some bs \<Rightarrow> (int (length bs),
            pty_set s i (p\<lparr>pty_out := output_bytes (pty_flags p) bs (pty_out p)\<rparr>))))"

section \<open>Invariant\<close>

definition pty_wf :: "pty \<Rightarrow> bool" where
  "pty_wf p \<longleftrightarrow> tty_wf (in_raw p) \<and> tty_wf (pty_out p) \<and> canon_len p \<le> PTY_LINE - 1"

definition ptys_wf :: "pty_state \<Rightarrow> bool" where
  "ptys_wf s \<longleftrightarrow> (\<forall>i < PTY_MAX. pty_wf (ptys s i))"

lemma tty_wf_push [simp]: "tty_wf r \<Longrightarrow> tty_wf (ring_push c r)"
  by (rule tq.put_any_inv)

lemma pty_wf_ldisc_input: "pty_wf p \<Longrightarrow> pty_wf (ldisc_input c p)"
  by (auto simp: pty_wf_def ldisc_input_def canon_key_def canon_add_def pty_echo_def Let_def)

lemma pty_wf_ldisc_read: "pty_wf p \<Longrightarrow> ldisc_read n p = (cs, p') \<Longrightarrow> pty_wf p' \<and> length cs \<le> n"
  by (auto simp: pty_wf_def ldisc_read_def canon_bytes_def split: if_splits prod.splits
      dest: tq.drain_prefix(1,3))

lemma tty_wf_output: "tty_wf r \<Longrightarrow> tty_wf (output_bytes fl cs r)"
  by (induction fl cs r rule: output_bytes.induct) auto

text \<open>Every entry point of the module, as one operation type.\<close>

datatype pty_op = PCreate u32 | PDestroy int | PFlags int u32 | PInput int u8
  | PRead int bool int | PMRead int bool int | PMWrite int "u8 list option"

fun pty_exec :: "pty_op \<Rightarrow> pty_state \<Rightarrow> pty_state" where
  "pty_exec (PCreate fl) s = snd (pty_create fl s)"
| "pty_exec (PDestroy i) s = snd (pty_destroy i s)"
| "pty_exec (PFlags i fl) s = snd (pty_set_flags i fl s)"
| "pty_exec (PInput i c) s = snd (pty_slave_input i c s)"
| "pty_exec (PRead i ok mx) s = snd (snd (pty_slave_read i ok mx s))"
| "pty_exec (PMRead i ok mx) s = snd (snd (pty_master_read i ok mx s))"
| "pty_exec (PMWrite i d) s = snd (pty_master_write i d s)"

definition pty_boot :: pty_state where
  "pty_boot = \<lparr>ptys = (\<lambda>_. pty_zero), pty_inited = False\<rparr>"

lemma pty_wf_zero [simp]: "pty_wf pty_zero"
  by (simp add: pty_wf_def pty_zero_def)

lemma ptys_wf_set:
  "\<lbrakk>ptys_wf s; pty_wf p\<rbrakk> \<Longrightarrow> ptys_wf (pty_set s i p)"
  by (simp add: ptys_wf_def pty_set_def)

lemma pty_getD:
  "pty_get s i = Some p \<Longrightarrow> nat i < PTY_MAX \<and> p = ptys s (nat i) \<and> pty_used p"
  by (auto simp: pty_get_def split: if_splits)

lemma pty_get_used: "pty_get s i = Some p \<Longrightarrow> pty_used p"
  using pty_getD by blast

lemma pty_get_wf: "\<lbrakk>ptys_wf s; pty_get s i = Some p\<rbrakk> \<Longrightarrow> pty_wf p"
  using pty_getD [of s i p] by (auto simp: ptys_wf_def)

lemma pty_get_set:
  "pty_get s i = Some p \<Longrightarrow> pty_get (pty_set s i q) i = (if pty_used q then Some q else None)"
  by (auto simp: pty_get_def pty_set_def split: if_splits)

lemma tty_wf_reset [simp]: "tty_wf (pty_reset_ring r)" "tty_contents (pty_reset_ring r) = []"
  by (simp_all add: tty_wf_def pty_reset_ring_def tty_contents_def)

lemma ptys_wf_create: "ptys_wf s \<Longrightarrow> ptys_wf (snd (pty_create fl s))"
proof -
  assume "ptys_wf s"
  then have "ptys_wf (pty_init_all s)" by (simp add: ptys_wf_def pty_init_all_def)
  then show ?thesis
    by (auto simp: pty_create_def Let_def ptys_wf_def pty_wf_def split: option.splits)
qed

lemma ptys_wf_exec: "ptys_wf s \<Longrightarrow> ptys_wf (pty_exec a s)"
proof (cases a)
  case (PCreate fl)
  then show "ptys_wf s \<Longrightarrow> ?thesis" by (simp add: ptys_wf_create)
next
  case (PMRead i ok mx)
  assume s: "ptys_wf s"
  then show ?thesis
    using PMRead pty_get_wf [OF s, of i] tq.drain_correct
    by (auto simp: pty_master_read_def split_beta pty_wf_def intro!: ptys_wf_set split: option.splits)
next
  case (PRead i ok mx)
  assume s: "ptys_wf s"
  then show ?thesis
    using PRead pty_get_wf [OF s, of i] pty_wf_ldisc_read
    by (fastforce simp: pty_slave_read_def intro!: ptys_wf_set split: option.splits prod.splits)
next
  case (PMWrite i d)
  assume s: "ptys_wf s"
  then show ?thesis
    using PMWrite pty_get_wf [OF s, of i]
    by (auto simp: pty_master_write_def pty_wf_def tty_wf_output intro!: ptys_wf_set split: option.splits)
next
  case (PInput i c)
  assume s: "ptys_wf s"
  then show ?thesis
    using PInput pty_get_wf [OF s, of i]
    by (auto simp: pty_slave_input_def intro!: ptys_wf_set pty_wf_ldisc_input split: option.splits)
next
  case (PDestroy i)
  assume s: "ptys_wf s"
  then show ?thesis
    using PDestroy by (auto simp: pty_destroy_def intro!: ptys_wf_set split: option.splits)
next
  case (PFlags i fl)
  assume s: "ptys_wf s"
  then show ?thesis
    using PFlags pty_get_wf [OF s, of i]
    by (auto simp: pty_set_flags_def pty_wf_def intro!: ptys_wf_set split: option.splits)
qed

section \<open>What the line discipline computes\<close>

text \<open>The reference editor works on the line as a list.\<close>

definition edit_key :: "u8 \<Rightarrow> u8 list \<Rightarrow> u8 list" where
  "edit_key c line =
     (if c = 0x08 \<or> c = 0x7F then butlast line
      else if c = 0x15 then []
      else if c = NL \<or> c \<ge> 32 \<or> c = 0x09
        then (if length line < PTY_LINE - 1 then line @ [c] else line)
      else line)"

definition cr_to_nl :: "u8 \<Rightarrow> u8" where
  "cr_to_nl c = (if c = 0x0D then NL else c)"

definition edit_line :: "u8 list \<Rightarrow> u8 list \<Rightarrow> u8 list" where
  "edit_line keys line = fold edit_key (map cr_to_nl keys) line"

lemma canon_bytes_add:
  "canon_bytes (canon_add c p) =
     (if canon_len p < PTY_LINE - 1 then canon_bytes p @ [c] else canon_bytes p)"
  by (auto simp: canon_bytes_def canon_add_def)

lemma canon_bytes_ready [simp]: "canon_bytes (p\<lparr>line_ready := b\<rparr>) = canon_bytes p"
  "canon_bytes (p\<lparr>pty_out := r\<rparr>) = canon_bytes p"
  by (simp_all add: canon_bytes_def)

lemma length_canon_bytes [simp]: "length (canon_bytes p) = canon_len p"
  by (simp add: canon_bytes_def)

lemma canon_bytes_key: "canon_bytes (canon_key c p) = edit_key c (canon_bytes p)"
proof -
  have del: "canon_bytes (p\<lparr>canon_len := canon_len p - 1\<rparr>) = butlast (canon_bytes p)"
    by (cases "canon_len p") (simp_all add: canon_bytes_def)
  have "canon_bytes (p\<lparr>canon_len := 0\<rparr>) = []" by (simp add: canon_bytes_def)
  moreover have "canon_len p = 0 \<Longrightarrow> canon_bytes p = []" by (simp add: canon_bytes_def)
  ultimately show ?thesis
    using del by (simp add: canon_key_def edit_key_def canon_bytes_add)
qed

lemma canon_key_frame [frame_simps]:
  "pty_flags (canon_key c p) = pty_flags p" "pty_out (canon_key c p) = pty_out p"
  "in_raw (canon_key c p) = in_raw p" "pty_used (canon_key c p) = pty_used p"
  "line_ready (canon_key c p) = (line_ready p \<or> c = NL)"
  by (auto simp: canon_key_def canon_add_def)

lemma ldisc_input_canon:
  assumes "flag (pty_flags p) PTY_ICANON" "pty_wf p"
  shows "canon_bytes (ldisc_input c p) = edit_key (cr_to_nl c) (canon_bytes p)"
    "line_ready (ldisc_input c p) = (line_ready p \<or> cr_to_nl c = NL)"
    "pty_flags (ldisc_input c p) = pty_flags p"
    "tty_contents (pty_out (ldisc_input c p)) =
      (if flag (pty_flags p) PTY_ECHO then take PTY_RING (tty_contents (pty_out p) @ [cr_to_nl c])
       else tty_contents (pty_out p))"
  using assms tq.put_any_contents [of "pty_out p" "cr_to_nl c"]
  by (simp_all add: ldisc_input_def pty_echo_def cr_to_nl_def canon_bytes_key frame_simps
      pty_wf_def Let_def)

lemma take_take_append: "take n (take n xs @ ys) = take n (xs @ ys)"
  by (cases "n \<le> length xs") (auto simp: min_def)

lemma fold_ldisc_input_canon:
  assumes "flag (pty_flags p) PTY_ICANON" "pty_wf p"
  shows "canon_bytes (fold ldisc_input keys p) = edit_line keys (canon_bytes p)
    \<and> line_ready (fold ldisc_input keys p) = (line_ready p \<or> NL \<in> set (map cr_to_nl keys))
    \<and> tty_contents (pty_out (fold ldisc_input keys p)) =
      (if flag (pty_flags p) PTY_ECHO
       then take PTY_RING (tty_contents (pty_out p) @ map cr_to_nl keys)
       else tty_contents (pty_out p))"
  using assms
proof (induction keys arbitrary: p)
  case Nil
  then show ?case using tq.bounded [of "pty_out p"]
    by (simp add: edit_line_def pty_wf_def)
next
  case (Cons k keys)
  let ?q = "ldisc_input k p"
  note q = ldisc_input_canon [OF Cons.prems, of k]
  have "pty_wf ?q" using Cons.prems pty_wf_ldisc_input by blast
  then have IH: "canon_bytes (fold ldisc_input keys ?q) = edit_line keys (canon_bytes ?q)"
    "line_ready (fold ldisc_input keys ?q) = (line_ready ?q \<or> NL \<in> set (map cr_to_nl keys))"
    "tty_contents (pty_out (fold ldisc_input keys ?q)) =
      (if flag (pty_flags p) PTY_ECHO
       then take PTY_RING (tty_contents (pty_out ?q) @ map cr_to_nl keys)
       else tty_contents (pty_out ?q))"
    using Cons.IH [of ?q] Cons.prems q(3) by auto
  have "tty_contents (pty_out (fold ldisc_input keys ?q)) =
      (if flag (pty_flags p) PTY_ECHO
       then take PTY_RING (tty_contents (pty_out p) @ map cr_to_nl (k # keys))
       else tty_contents (pty_out p))"
    unfolding IH(3) q(4) by (simp add: take_take_append del: take_append)
  moreover have "canon_bytes (fold ldisc_input keys ?q) = edit_line (k # keys) (canon_bytes p)"
    unfolding IH(1) q(1) by (simp add: edit_line_def)
  ultimately show ?case using IH(2) q(2) by auto
qed

lemma output_bytes_fold:
  "output_bytes fl cs r
   = fold ring_push (concat (map (\<lambda>c. if c = NL \<and> flag fl PTY_ONLCR then [0x0D, NL] else [c]) cs)) r"
  by (induction fl cs r rule: output_bytes.induct) auto

definition type_keys :: "int \<Rightarrow> u8 list \<Rightarrow> pty_state \<Rightarrow> pty_state" where
  "type_keys i keys s = fold (\<lambda>c s. snd (pty_slave_input i c s)) keys s"

lemma ldisc_input_used: "pty_used (ldisc_input c p) = pty_used p"
  by (simp add: ldisc_input_def Let_def pty_echo_def frame_simps)

lemma pty_set_set [simp]: "pty_set (pty_set s i p) i q = pty_set s i q"
  by (simp add: pty_set_def)

lemma pty_set_same: "pty_get s i = Some p \<Longrightarrow> pty_set s i p = s"
  by (auto simp: pty_set_def pty_get_def split: if_splits)

lemma type_keys_eq:
  "pty_get s i = Some p \<Longrightarrow> type_keys i keys s = pty_set s i (fold ldisc_input keys p)
     \<and> pty_get (type_keys i keys s) i = Some (fold ldisc_input keys p)"
proof (induction keys arbitrary: s p)
  case Nil
  then show ?case by (simp add: type_keys_def pty_set_same)
next
  case (Cons k keys)
  have used: "pty_used p" using Cons.prems by (rule pty_get_used)
  have "snd (pty_slave_input i k s) = pty_set s i (ldisc_input k p)"
    using Cons.prems by (simp add: pty_slave_input_def)
  moreover have "pty_get (pty_set s i (ldisc_input k p)) i = Some (ldisc_input k p)"
    using pty_get_set [OF Cons.prems] used by (simp add: ldisc_input_used)
  ultimately have step: "type_keys i (k # keys) s = type_keys i keys (pty_set s i (ldisc_input k p))"
    and get: "pty_get (pty_set s i (ldisc_input k p)) i = Some (ldisc_input k p)"
    by (simp_all add: type_keys_def)
  note IH = Cons.IH [OF get]
  show ?case using IH unfolding step fold_simps pty_set_set .
qed

lemma fold_ldisc_input_flags: "pty_flags (fold ldisc_input keys p) = pty_flags p"
proof (induction keys arbitrary: p)
  case (Cons k keys)
  have "pty_flags (ldisc_input k p) = pty_flags p"
    by (simp add: ldisc_input_def Let_def pty_echo_def frame_simps)
  then show ?case using Cons.IH by simp
qed simp

section \<open>Properties\<close>

text \<open>C9. From boot on, whatever is called with whatever arguments, every terminal's rings are
  well formed (at most 512 bytes, indices inside the arrays, head = tail + count) and its
  line buffer never holds more than 255 bytes.\<close>

theorem pty_bounds_always:
  assumes "i < PTY_MAX"
  shows "pty_wf (ptys (fold pty_exec ops pty_boot) i)"
proof -
  have "ptys_wf s \<Longrightarrow> ptys_wf (fold pty_exec ops s)" for s
    by (induction ops arbitrary: s) (auto intro: ptys_wf_exec)
  then show ?thesis using assms by (simp add: ptys_wf_def pty_boot_def)
qed

theorem pty_bounds_always_witness:
  "pty_wf (ptys (fold pty_exec [PCreate 3, PInput 0 0x61, PMWrite 0 (Some [0x0A])] pty_boot) 7)"
  by (rule pty_bounds_always) simp

text \<open>C5. Line editing: in canonical mode, typing any keys and then Enter makes a read with a
  large enough buffer return exactly the line the reference editor computes (backspace and
  DEL drop the last byte, Ctrl-U the line, carriage return is a newline, other control
  bytes are ignored, a full line takes no more bytes), once.\<close>

theorem pty_canonical_line:
  assumes "ptys_wf s" "pty_get s i = Some p" "flag (pty_flags p) PTY_ICANON"
    and "canon_len p = 0" "\<not> line_ready p" "int (length (edit_line (keys @ [NL]) [])) < mx"
  shows "\<exists>s'. pty_slave_read i True mx (type_keys i (keys @ [NL]) s)
      = (int (length (edit_line (keys @ [NL]) [])), edit_line (keys @ [NL]) [], s')
    \<and> pty_slave_read i True mx s' = (0, [], s')"
proof -
  let ?keys = "keys @ [NL]" and ?line = "edit_line (keys @ [NL]) []"
  let ?q = "fold ldisc_input ?keys p" and ?s = "type_keys i (keys @ [NL]) s"
  have p0: "canon_bytes p = []" using assms(4) by (simp add: canon_bytes_def)
  have q12: "canon_bytes ?q = ?line" "line_ready ?q"
    using fold_ldisc_input_canon [OF assms(3) pty_get_wf [OF assms(1,2)], of ?keys] p0
    by (auto simp: cr_to_nl_def)
  have q3: "pty_flags ?q = pty_flags p" by (rule fold_ldisc_input_flags)
  note q = q12 q3
  let ?r = "?q\<lparr>canon_len := 0, line_ready := False\<rparr>"
  have g: "pty_get ?s i = Some ?q" using type_keys_eq [OF assms(2)] by blast
  have "pty_used ?q" using g by (rule pty_get_used)
  then have g': "pty_get (pty_set ?s i ?r) i = Some ?r" using pty_get_set [OF g] by simp
  have len: "canon_len ?q = length ?line" using q(1) length_canon_bytes by metis
  have mx: "\<not> nat mx < Suc (length ?line)" "\<not> mx \<le> 0" using assms(6) by linarith+
  have "pty_slave_read i True mx ?s = (int (length ?line), ?line, pty_set ?s i ?r)"
    using g q len mx assms(3) by (simp add: pty_slave_read_def ldisc_read_def)
  moreover have "pty_slave_read i True mx (pty_set ?s i ?r) = (0, [], pty_set ?s i ?r)"
    using g' q(3) mx assms(3) by (simp add: pty_slave_read_def ldisc_read_def)
  ultimately show ?thesis by blast
qed

lemma pty_demo:
  "ptys_wf (snd (pty_create PTY_ICANON pty_boot))"
  "pty_get (snd (pty_create PTY_ICANON pty_boot)) 0
   = Some (pty_zero\<lparr>pty_used := True, pty_flags := 1\<rparr>)"
proof -
  show "ptys_wf (snd (pty_create PTY_ICANON pty_boot))"
    by (rule ptys_wf_create) (simp add: ptys_wf_def pty_boot_def)
  have "first_from (\<lambda>i. \<not> pty_used pty_zero) 0 PTY_MAX = Some 0"
    by (simp add: first_from_Some_iff pty_zero_def)
  then show "pty_get (snd (pty_create PTY_ICANON pty_boot)) 0
   = Some (pty_zero\<lparr>pty_used := True, pty_flags := 1\<rparr>)"
    by (simp add: pty_create_def pty_init_all_def pty_boot_def pty_get_def pty_zero_def
        pty_reset_ring_def ring_empty_def)
qed

theorem pty_canonical_line_witness:
  "\<exists>s'. pty_slave_read 0 True 16 (type_keys 0 [97, 98, 8, 99, 10] (snd (pty_create PTY_ICANON pty_boot)))
     = (3, [97, 99, 10], s') \<and> pty_slave_read 0 True 16 s' = (0, [], s')"
proof -
  have line: "edit_line ([97, 98, 8, 99] @ [10]) [] = [97, 99, 10]"
    by (simp add: edit_line_def edit_key_def cr_to_nl_def)
  show ?thesis
    using pty_canonical_line [OF pty_demo, where keys = "[97, 98, 8, 99]" and mx = 16]
    unfolding line by (simp add: flag_def pty_zero_def)
qed

text \<open>Program output: \<open>pty_master_write\<close> queues the bytes, a carriage return inserted before
  every newline when ONLCR is set, in order behind what is already queued, keeping the
  first 512 bytes and dropping the rest, and always reports the whole length as written.\<close>

theorem pty_master_write_output:
  assumes "ptys_wf s" "pty_get s i = Some p"
  shows "\<exists>s' p'. pty_master_write i (Some bs) s = (int (length bs), s')
    \<and> pty_get s' i = Some p'
    \<and> tty_contents (pty_out p') = take PTY_RING (tty_contents (pty_out p) @
        concat (map (\<lambda>c. if c = NL \<and> flag (pty_flags p) PTY_ONLCR then [0x0D, NL] else [c]) bs))"
proof -
  let ?p = "p\<lparr>pty_out := output_bytes (pty_flags p) bs (pty_out p)\<rparr>"
  have "tty_wf (pty_out p)" using pty_get_wf [OF assms] by (simp add: pty_wf_def)
  then have "tty_contents (pty_out ?p) = take PTY_RING (tty_contents (pty_out p) @
        concat (map (\<lambda>c. if c = NL \<and> flag (pty_flags p) PTY_ONLCR then [0x0D, NL] else [c]) bs))"
    using tq.fold_put by (simp add: output_bytes_fold)
  moreover have "pty_get (pty_set s i ?p) i = Some ?p"
    using pty_get_set [OF assms(2)] pty_get_used [OF assms(2)] by simp
  ultimately show ?thesis using assms(2) by (auto simp: pty_master_write_def)
qed

theorem pty_master_write_output_witness:
  "\<exists>s' p'. pty_master_write 0 (Some [113, 10]) (snd (pty_create PTY_ICANON pty_boot)) = (2, s')
    \<and> pty_get s' 0 = Some p' \<and> tty_contents (pty_out p') = [113, 10]"
  using pty_master_write_output [OF pty_demo, of "[113, 10]"]
  by (simp add: flag_def pty_zero_def)

text \<open>A finished line that does not fit the caller's buffer with a byte to spare is never handed
  over: the read returns 0, the answer for "no line yet", and nothing changes.\<close>

theorem pty_short_buffer_starves:
  assumes "pty_get s i = Some p" "flag (pty_flags p) PTY_ICANON" "line_ready p"
    and "0 < mx" "mx \<le> int (canon_len p)"
  shows "pty_slave_read i True mx s = (0, [], s)"
  using assms by (simp add: pty_slave_read_def ldisc_read_def pty_set_same)

end
