(* ===== verification/Pmm.thy ===== *)
theory Pmm
  imports Prelude
begin

text \<open>
  The physical frame allocator (\<open>kernel/memory/pmm.c\<close>): a bitmap of 65536 frames kept as
  bytes, a 16-bit reference count per frame and a running count of free frames.  The
  allocator's lock makes each operation one atomic step.  \<open>pmm_init\<close> reads the Multiboot
  structures out of raw memory (\<open>mem\<close>, a byte per address); its memory-map loop advances
  by a length the boot loader supplies, so it is a partial function (\<open>None\<close>: the loop
  does not end).  \<open>kernel_end\<close> is the linker's symbol.
\<close>

abbreviation PMM_MAX_MEMORY :: u32 where "PMM_MAX_MEMORY \<equiv> 0x10000000"
abbreviation PMM_PAGE_SIZE :: u32 where "PMM_PAGE_SIZE \<equiv> 4096"
abbreviation PMM_MAX_FRAMES :: nat where "PMM_MAX_FRAMES \<equiv> 65536"

record pmm =
  pmm_bitmap :: "nat \<Rightarrow> u8"
  pmm_refcount :: "nat \<Rightarrow> u16"
  pmm_free_frames :: u32
  pmm_total_frames :: u32
  pmm_ready :: bool

definition bitmap_set :: "nat \<Rightarrow> pmm \<Rightarrow> pmm" where
  "bitmap_set frame s = s\<lparr>pmm_bitmap := (pmm_bitmap s)
     (frame div 8 := pmm_bitmap s (frame div 8) OR push_bit (frame mod 8) 1)\<rparr>"

definition bitmap_clear :: "nat \<Rightarrow> pmm \<Rightarrow> pmm" where
  "bitmap_clear frame s = s\<lparr>pmm_bitmap := (pmm_bitmap s)
     (frame div 8 := pmm_bitmap s (frame div 8) AND NOT (push_bit (frame mod 8) 1))\<rparr>"

definition bitmap_test :: "pmm \<Rightarrow> nat \<Rightarrow> bool" where
  "bitmap_test s frame \<longleftrightarrow> pmm_bitmap s (frame div 8) AND push_bit (frame mod 8) 1 \<noteq> 0"

section \<open>Operations\<close>

definition reserve_frame :: "nat \<Rightarrow> pmm \<Rightarrow> pmm" where
  "reserve_frame i s =
     (if \<not> bitmap_test s i then
        (let s1 = bitmap_set i s in
         if pmm_free_frames s1 > 0 then s1\<lparr>pmm_free_frames := pmm_free_frames s1 - 1\<rparr> else s1)
      else bitmap_set i s)"

definition pmm_reserve_region :: "u32 \<Rightarrow> u32 \<Rightarrow> pmm \<Rightarrow> pmm" where
  "pmm_reserve_region base len0 s =
     (if base \<ge> PMM_MAX_MEMORY then s
      else let len = (if base + len0 > PMM_MAX_MEMORY then PMM_MAX_MEMORY - base else len0);
               start_frame = unat (base div PMM_PAGE_SIZE);
               end_frame = min PMM_MAX_FRAMES
                 (unat ((base + len + PMM_PAGE_SIZE - 1) div PMM_PAGE_SIZE))
           in fold reserve_frame [start_frame..<end_frame] s)"

definition release_frame :: "nat \<Rightarrow> pmm \<Rightarrow> pmm" where
  "release_frame i s =
     (if bitmap_test s i
      then (bitmap_clear i s)\<lparr>pmm_free_frames := pmm_free_frames s + 1\<rparr> else s)"

definition pmm_free_region :: "u32 \<Rightarrow> u32 \<Rightarrow> pmm \<Rightarrow> pmm" where
  "pmm_free_region base len0 s =
     (if base \<ge> PMM_MAX_MEMORY then s
      else let len = (if base + len0 > PMM_MAX_MEMORY then PMM_MAX_MEMORY - base else len0);
               start = (base + PMM_PAGE_SIZE - 1) AND NOT (PMM_PAGE_SIZE - 1);
               end0 = (base + len) AND NOT (PMM_PAGE_SIZE - 1)
           in if end0 \<le> start then s
              else if start \<ge> PMM_MAX_MEMORY then s
              else let end1 = (if end0 > PMM_MAX_MEMORY then PMM_MAX_MEMORY else end0)
                   in fold release_frame
                        [unat (start div PMM_PAGE_SIZE)..<unat (end1 div PMM_PAGE_SIZE)] s)"

definition pmm_alloc_frame :: "pmm \<Rightarrow> u32 \<times> pmm" where
  "pmm_alloc_frame s =
     (if \<not> pmm_ready s then (0, s)
      else case first_from (\<lambda>i. \<not> bitmap_test s i) 256 (PMM_MAX_FRAMES - 256) of
        None \<Rightarrow> (0, s)
      | Some i \<Rightarrow> (of_nat i * PMM_PAGE_SIZE,
          (bitmap_set i s)\<lparr>pmm_free_frames := pmm_free_frames s - 1,
             pmm_refcount := (pmm_refcount s)(i := 1)\<rparr>))"

definition frame_of :: "u32 \<Rightarrow> nat option" where
  "frame_of phys =
     (if phys mod PMM_PAGE_SIZE \<noteq> 0 then None
      else let f = unat (phys div PMM_PAGE_SIZE) in if f \<ge> PMM_MAX_FRAMES then None else Some f)"

definition pmm_inc_ref :: "u32 \<Rightarrow> pmm \<Rightarrow> pmm" where
  "pmm_inc_ref phys s = (case frame_of phys of None \<Rightarrow> s | Some f \<Rightarrow>
     if bitmap_test s f \<and> pmm_refcount s f < 0xFFFF
     then s\<lparr>pmm_refcount := (pmm_refcount s)(f := pmm_refcount s f + 1)\<rparr> else s)"

definition pmm_dec_ref :: "u32 \<Rightarrow> pmm \<Rightarrow> pmm" where
  "pmm_dec_ref phys s = (case frame_of phys of None \<Rightarrow> s | Some f \<Rightarrow>
     if bitmap_test s f \<and> pmm_refcount s f > 0
     then s\<lparr>pmm_refcount := (pmm_refcount s)(f := pmm_refcount s f - 1)\<rparr> else s)"

definition pmm_get_ref :: "u32 \<Rightarrow> pmm \<Rightarrow> int" where
  "pmm_get_ref phys s = (case frame_of phys of None \<Rightarrow> -1 | Some f \<Rightarrow> uint (pmm_refcount s f))"

definition pmm_free_frame :: "u32 \<Rightarrow> pmm \<Rightarrow> pmm" where
  "pmm_free_frame phys s = (case frame_of phys of None \<Rightarrow> s | Some f \<Rightarrow>
     if f = 0 then s
     else if \<not> bitmap_test s f then s
     else if pmm_refcount s f > 1
       then s\<lparr>pmm_refcount := (pmm_refcount s)(f := pmm_refcount s f - 1)\<rparr>
     else (bitmap_clear f s)\<lparr>pmm_refcount := (pmm_refcount s)(f := 0),
            pmm_free_frames := pmm_free_frames s + 1\<rparr>)"

section \<open>Boot\<close>

definition rd8 :: "(u32 \<Rightarrow> u8) \<Rightarrow> u32 \<Rightarrow> u32" where
  "rd8 mem a = ucast (mem a)"

definition rd32 :: "(u32 \<Rightarrow> u8) \<Rightarrow> u32 \<Rightarrow> u32" where
  "rd32 mem a = rd8 mem a OR push_bit 8 (rd8 mem (a + 1)) OR push_bit 16 (rd8 mem (a + 2))
     OR push_bit 24 (rd8 mem (a + 3))"

definition rd64 :: "(u32 \<Rightarrow> u8) \<Rightarrow> u32 \<Rightarrow> u64" where
  "rd64 mem a = ucast (rd32 mem a) OR push_bit 32 (ucast (rd32 mem (a + 4)))"

text \<open>One entry of the memory map; \<open>(uint32_t)\<close> truncates the 64-bit fields.\<close>

definition mmap_entry_step :: "(u32 \<Rightarrow> u8) \<Rightarrow> u32 \<Rightarrow> pmm \<Rightarrow> pmm" where
  "mmap_entry_step mem entry s =
     (let base = rd64 mem (entry + 4); len = rd64 mem (entry + 12); ty = rd32 mem (entry + 20)
      in if ty = 1 \<and> base < ucast PMM_MAX_MEMORY then
           (let b = ucast base; l = ucast len;
                l1 = (if b + l > PMM_MAX_MEMORY then PMM_MAX_MEMORY - b else l)
            in pmm_free_region b l1 s)
         else s)"

partial_function (option) mmap_loop ::
  "(u32 \<Rightarrow> u8) \<Rightarrow> u32 \<Rightarrow> u32 \<Rightarrow> u32 \<Rightarrow> pmm \<Rightarrow> pmm option" where
  "mmap_loop mem addr len off s =
     (if off < len
      then mmap_loop mem addr len (off + (rd32 mem (addr + off) + 4))
             (mmap_entry_step mem (addr + off) s)
      else Some s)"

definition pmm_blank :: pmm where
  "pmm_blank = \<lparr>pmm_bitmap = (\<lambda>_. 0xFF), pmm_refcount = (\<lambda>_. 0), pmm_free_frames = 0,
     pmm_total_frames = of_nat PMM_MAX_FRAMES, pmm_ready = False\<rparr>"

definition pmm_detect :: "(u32 \<Rightarrow> u8) \<Rightarrow> u32 \<Rightarrow> pmm option" where
  "pmm_detect mem mboot_ptr =
     (if mboot_ptr = 0 \<or> rd32 mem mboot_ptr AND push_bit 6 1 = 0 then
        (let mem_kb = (if mboot_ptr \<noteq> 0 then rd32 mem (mboot_ptr + 8) else 0)
         in if mem_kb > 0 then
              (let total = (mem_kb + 1024) * 1024;
                   total1 = (if total > PMM_MAX_MEMORY then PMM_MAX_MEMORY else total)
               in Some (pmm_free_region 0x100000 (total1 - 0x100000) pmm_blank))
            else Some (pmm_free_region 0x100000 (15 * 1024 * 1024) pmm_blank))
      else mmap_loop mem (rd32 mem (mboot_ptr + 48)) (rd32 mem (mboot_ptr + 44)) 0 pmm_blank)"

text \<open>The end of \<open>pmm_init\<close>: frame 0 is marked used, every used frame gets reference count 1,
  then the kernel image and the heap up to 8 MB are reserved.  (The test of the bit of
  frame 0 right after it has been set is kept as the code has it.)\<close>

definition pmm_finish :: "u32 \<Rightarrow> pmm \<Rightarrow> pmm" where
  "pmm_finish kernel_end s0 =
     (let s1 = bitmap_set 0 s0;
          s2 = (if \<not> bitmap_test s1 0 then
                  (let t = bitmap_set 0 s1 in
                   if pmm_free_frames t > 0 then t\<lparr>pmm_free_frames := pmm_free_frames t - 1\<rparr> else t)
                else s1);
          s3 = s2\<lparr>pmm_refcount := (\<lambda>i. if i < PMM_MAX_FRAMES \<and> bitmap_test s2 i then 1 else 0)\<rparr>;
          kend = page_up kernel_end;
          s4 = pmm_reserve_region 0x100000 (kend - 0x100000) s3;
          s5 = (if 0x800000 > kend then pmm_reserve_region kend (0x800000 - kend) s4 else s4)
      in s5\<lparr>pmm_total_frames := of_nat PMM_MAX_FRAMES, pmm_ready := True\<rparr>)"

definition pmm_init :: "(u32 \<Rightarrow> u8) \<Rightarrow> u32 \<Rightarrow> u32 \<Rightarrow> pmm option" where
  "pmm_init mem mboot_ptr kernel_end =
     map_option (pmm_finish kernel_end) (pmm_detect mem mboot_ptr)"

section \<open>The bitmap\<close>

lemma bitmap_test_bit: "bitmap_test s f \<longleftrightarrow> bit (pmm_bitmap s (f div 8)) (f mod 8)"
  by (simp add: bitmap_test_def bit_iff_and_push_bit_not_eq_0)

lemma frame_split: "f div 8 = g div 8 \<Longrightarrow> f mod 8 = g mod 8 \<Longrightarrow> f = (g :: nat)"
  by (metis div_mult_mod_eq)

lemma bitmap_test_set [simp]: "bitmap_test (bitmap_set f s) g \<longleftrightarrow> f = g \<or> bitmap_test s g"
  by (auto simp: bitmap_test_bit bitmap_set_def bit_or_iff bit_exp_iff
      dest: frame_split)

lemma bitmap_test_clear [simp]: "bitmap_test (bitmap_clear f s) g \<longleftrightarrow> f \<noteq> g \<and> bitmap_test s g"
  by (auto simp: bitmap_test_bit bitmap_clear_def bit_and_iff bit_not_iff bit_exp_iff
      dest: frame_split)

lemma bitmap_test_frame [simp]:
  "bitmap_test (s\<lparr>pmm_free_frames := n\<rparr>) = bitmap_test s"
  "bitmap_test (s\<lparr>pmm_refcount := r\<rparr>) = bitmap_test s"
  "bitmap_test (s\<lparr>pmm_total_frames := n\<rparr>) = bitmap_test s"
  "bitmap_test (s\<lparr>pmm_ready := b\<rparr>) = bitmap_test s"
  by (simp_all add: bitmap_test_def fun_eq_iff)

lemma bitmap_fields [simp]:
  "pmm_free_frames (bitmap_set f s) = pmm_free_frames s"
  "pmm_refcount (bitmap_set f s) = pmm_refcount s"
  "pmm_ready (bitmap_set f s) = pmm_ready s"
  "pmm_free_frames (bitmap_clear f s) = pmm_free_frames s"
  "pmm_refcount (bitmap_clear f s) = pmm_refcount s"
  "pmm_ready (bitmap_clear f s) = pmm_ready s"
  by (simp_all add: bitmap_set_def bitmap_clear_def)

section \<open>Counting free frames\<close>

definition free_frames :: "pmm \<Rightarrow> nat" where
  "free_frames s = card {f. f < PMM_MAX_FRAMES \<and> \<not> bitmap_test s f}"

text \<open>\<open>counted d s\<close>: the running count exceeds the number of free frames by exactly \<open>d\<close>.\<close>

definition counted :: "nat \<Rightarrow> pmm \<Rightarrow> bool" where
  "counted d s \<longleftrightarrow> d \<le> 1 \<and> unat (pmm_free_frames s) = free_frames s + d"

lemma free_frames_le: "free_frames s \<le> PMM_MAX_FRAMES"
  unfolding free_frames_def by (rule card_upto_le)

lemma free_frames_set:
  "\<lbrakk>f < PMM_MAX_FRAMES; \<not> bitmap_test s f\<rbrakk> \<Longrightarrow> free_frames s = Suc (free_frames (bitmap_set f s))"
  using card_remove_upto [of f PMM_MAX_FRAMES "\<lambda>g. \<not> bitmap_test s g"]
  by (simp add: free_frames_def conj_commute eq_commute)

lemma free_frames_clear:
  "\<lbrakk>f < PMM_MAX_FRAMES; bitmap_test s f\<rbrakk> \<Longrightarrow> free_frames (bitmap_clear f s) = Suc (free_frames s)"
  using card_insert_upto [of f PMM_MAX_FRAMES "\<lambda>g. \<not> bitmap_test s g"]
  by (simp add: free_frames_def eq_commute disj_commute)

lemma free_frames_set_same: "bitmap_test s f \<Longrightarrow> free_frames (bitmap_set f s) = free_frames s"
proof -
  assume "bitmap_test s f"
  then have "\<And>g. (\<not> bitmap_test (bitmap_set f s) g) = (\<not> bitmap_test s g)" by auto
  then show ?thesis unfolding free_frames_def by simp
qed

lemma free_frames_fields [simp]:
  "free_frames (s\<lparr>pmm_free_frames := n\<rparr>) = free_frames s"
  "free_frames (s\<lparr>pmm_refcount := r\<rparr>) = free_frames s"
  "free_frames (s\<lparr>pmm_total_frames := n\<rparr>) = free_frames s"
  "free_frames (s\<lparr>pmm_ready := b\<rparr>) = free_frames s"
  by (simp_all add: free_frames_def)

lemma counted_fields [simp]:
  "counted d (s\<lparr>pmm_refcount := r\<rparr>) = counted d s"
  "counted d (s\<lparr>pmm_total_frames := n\<rparr>) = counted d s"
  "counted d (s\<lparr>pmm_ready := b\<rparr>) = counted d s"
  by (simp_all add: counted_def)

lemma unat_dec: "(0 :: u32) < n \<Longrightarrow> unat (n - 1) = unat n - 1"
  by (rule unat_minus_one) auto

lemma unat_inc: "unat (n :: u32) < 2 ^ 32 - 1 \<Longrightarrow> unat (n + 1) = unat n + 1"
  by (simp add: unat_word_ariths)

lemma counted_reserve_frame: "\<lbrakk>counted d s; f < PMM_MAX_FRAMES\<rbrakk> \<Longrightarrow> counted d (reserve_frame f s)"
  using free_frames_set [of f s] free_frames_set_same [of s f]
  by (auto simp: reserve_frame_def counted_def Let_def unat_dec word_gt_0 unat_eq_zero
      simp flip: unat_gt_0)

lemma counted_release_frame: "\<lbrakk>counted d s; f < PMM_MAX_FRAMES\<rbrakk> \<Longrightarrow> counted d (release_frame f s)"
  using free_frames_clear [of f s] free_frames_le [of s]
  by (auto simp: release_frame_def counted_def unat_inc)

lemma counted_fold:
  assumes "\<And>s f. counted d s \<Longrightarrow> f < PMM_MAX_FRAMES \<Longrightarrow> counted d (g f s)"
  shows "\<lbrakk>counted d s; \<forall>f\<in>set fs. f < PMM_MAX_FRAMES\<rbrakk> \<Longrightarrow> counted d (fold g fs s)"
  by (induction fs arbitrary: s) (auto simp: assms)

lemma counted_reserve_region: "counted d s \<Longrightarrow> counted d (pmm_reserve_region b l s)"
  by (auto simp: pmm_reserve_region_def Let_def intro!: counted_fold counted_reserve_frame)

lemma frame_index_bound: "(x :: u32) \<le> PMM_MAX_MEMORY \<Longrightarrow> unat (x div PMM_PAGE_SIZE) \<le> PMM_MAX_FRAMES"
proof -
  assume "x \<le> PMM_MAX_MEMORY"
  then have "unat x \<le> 268435456" by (simp add: word_le_nat_alt)
  then show ?thesis by (simp add: unat_div)
qed

lemma counted_free_region: "counted d s \<Longrightarrow> counted d (pmm_free_region b l s)"
proof -
  have "f < PMM_MAX_FRAMES"
    if "f \<in> set [k..<unat (e div PMM_PAGE_SIZE)]" "e \<le> PMM_MAX_MEMORY" for f k and e :: u32
    using that frame_index_bound [of e] by simp
  then show "counted d s \<Longrightarrow> ?thesis"
    unfolding pmm_free_region_def Let_def
    by (auto simp: not_less intro!: counted_fold counted_release_frame)
qed

lemma frame_ofD: "frame_of phys = Some f \<Longrightarrow> f < PMM_MAX_FRAMES \<and> unat phys = f * 4096"
proof -
  assume "frame_of phys = Some f"
  then have m: "phys mod PMM_PAGE_SIZE = 0" and f: "f = unat (phys div PMM_PAGE_SIZE)"
    and lt: "f < PMM_MAX_FRAMES"
    by (auto simp: frame_of_def Let_def split: if_splits)
  from m have "unat phys mod 4096 = 0" using unat_mod [of phys PMM_PAGE_SIZE] by simp
  moreover have "f = unat phys div 4096" using f by (simp add: unat_div)
  ultimately show ?thesis using lt by (simp add: mod_0_imp_dvd)
qed

lemma frame_of_page: "f < PMM_MAX_FRAMES \<Longrightarrow> frame_of (of_nat f * PMM_PAGE_SIZE) = Some f"
proof -
  assume f: "f < PMM_MAX_FRAMES"
  have u: "unat (of_nat f * PMM_PAGE_SIZE :: u32) = f * 4096"
    using f by (simp add: unat_word_ariths unat_of_nat)
  have "of_nat f * PMM_PAGE_SIZE mod PMM_PAGE_SIZE = 0"
    by (rule word_unat_eq_iff [THEN iffD2]) (simp add: unat_mod u)
  then show ?thesis using f u by (simp add: frame_of_def Let_def unat_div)
qed

lemma unat_page: "f < PMM_MAX_FRAMES \<Longrightarrow> unat (of_nat f * PMM_PAGE_SIZE :: u32) = f * 4096"
  using frame_ofD frame_of_page by blast

lemma counted_alloc: "counted d s \<Longrightarrow> counted d (snd (pmm_alloc_frame s))"
proof -
  assume c: "counted d s"
  show ?thesis
  proof (cases "first_from (\<lambda>i. \<not> bitmap_test s i) 256 (PMM_MAX_FRAMES - 256)")
    case None
    then show ?thesis using c by (simp add: pmm_alloc_frame_def)
  next
    case (Some f)
    then have f: "f < PMM_MAX_FRAMES" "\<not> bitmap_test s f" by (auto simp: first_from_Some_iff)
    then have "free_frames s = Suc (free_frames (bitmap_set f s))" by (rule free_frames_set)
    moreover from this c have "0 < pmm_free_frames s"
      by (auto simp: counted_def word_gt_0)
    ultimately show ?thesis
      using c Some by (auto simp: pmm_alloc_frame_def counted_def unat_dec)
  qed
qed

lemma counted_free: "counted d s \<Longrightarrow> counted d (pmm_free_frame phys s)"
proof (cases "frame_of phys")
  case (Some f)
  assume c: "counted d s"
  have "free_frames (bitmap_clear f s) = Suc (free_frames s)" if "bitmap_test s f"
    using that frame_ofD [OF Some] by (auto intro: free_frames_clear)
  then show ?thesis
    using c Some free_frames_le [of s]
    by (auto simp: pmm_free_frame_def counted_def unat_inc)
qed (simp add: pmm_free_frame_def)

lemma counted_refs: "counted d s \<Longrightarrow> counted d (pmm_inc_ref phys s)"
  "counted d s \<Longrightarrow> counted d (pmm_dec_ref phys s)"
  by (auto simp: pmm_inc_ref_def pmm_dec_ref_def split: option.split)

lemma counted_mmap_entry: "counted d s \<Longrightarrow> counted d (mmap_entry_step mem e s)"
  by (simp add: mmap_entry_step_def Let_def counted_free_region)

lemma counted_mmap_loop:
  assumes ret: "mmap_loop mem addr len off s = Some s'" and c: "counted d s"
  shows "counted d s'"
proof -
  have "counted d s \<longrightarrow> counted d s'"
  proof (rule mmap_loop.raw_induct
      [where P = "\<lambda>mem addr len off s s'. counted d s \<longrightarrow> counted d s'", OF _ ret])
    fix f mem addr len off s s'
    assume IH: "\<And>mem addr len off s s'. f mem addr len off s = Some s' \<Longrightarrow> counted d s \<longrightarrow> counted d s'"
      and eq: "(if off < len
         then f mem addr len (off + (rd32 mem (addr + off) + 4)) (mmap_entry_step mem (addr + off) s)
         else Some s) = Some s'"
    show "counted d s \<longrightarrow> counted d s'"
    proof (cases "off < len")
      case True
      then show ?thesis using IH eq counted_mmap_entry by (metis (no_types))
    next
      case False
      then show ?thesis using eq by simp
    qed
  qed
  then show ?thesis using c by blast
qed

lemma counted_blank: "counted 0 pmm_blank"
proof -
  have "bit (0xFF :: u8) (f mod 8)" for f
  proof -
    have eq: "(0xFF :: u8) = mask 8" by (simp add: mask_eq_exp_minus_1)
    show ?thesis unfolding eq bit_mask_iff by (simp add: possible_bit_def)
  qed
  then show ?thesis by (simp add: counted_def pmm_blank_def free_frames_def bitmap_test_bit)
qed

lemma counted_detect: "pmm_detect mem mp = Some s \<Longrightarrow> counted 0 s"
  by (auto simp: pmm_detect_def Let_def counted_free_region counted_blank
      intro: counted_mmap_loop split: if_splits)

lemma counted_finish:
  assumes "counted 0 s"
  shows "counted (if bitmap_test s 0 then 0 else 1) (pmm_finish kend s)"
proof -
  have "counted (if bitmap_test s 0 then 0 else 1) (bitmap_set 0 s)"
    using assms free_frames_set [of 0 s] free_frames_set_same [of s 0] by (simp add: counted_def)
  then show ?thesis by (simp add: pmm_finish_def Let_def counted_reserve_region)
qed

section \<open>The abstract allocator\<close>

text \<open>What the allocator promises: a partial function from the frames in use to their reference
  counts, and the reference-count operations on it.\<close>

type_synonym frame_map = "nat \<rightharpoonup> nat"

definition pmm_abs :: "pmm \<Rightarrow> frame_map" where
  "pmm_abs s = (\<lambda>f. if f < PMM_MAX_FRAMES \<and> bitmap_test s f
     then Some (unat (pmm_refcount s f)) else None)"

definition fm_inc :: "nat \<Rightarrow> frame_map \<Rightarrow> frame_map" where
  "fm_inc f m = (case m f of None \<Rightarrow> m | Some n \<Rightarrow> if n < 65535 then m(f \<mapsto> n + 1) else m)"

definition fm_dec :: "nat \<Rightarrow> frame_map \<Rightarrow> frame_map" where
  "fm_dec f m = (case m f of None \<Rightarrow> m | Some n \<Rightarrow> m(f \<mapsto> n - 1))"

definition fm_free :: "nat \<Rightarrow> frame_map \<Rightarrow> frame_map" where
  "fm_free f m = (if f = 0 then m else case m f of None \<Rightarrow> m
     | Some n \<Rightarrow> if n > 1 then m(f \<mapsto> n - 1) else m(f := None))"

lemma pmm_abs_alloc:
  assumes "pmm_alloc_frame s = (phys, s')" "pmm_ready s"
  shows "(\<exists>f. phys = of_nat f * PMM_PAGE_SIZE \<and> 256 \<le> f \<and> f < PMM_MAX_FRAMES
            \<and> pmm_abs s f = None \<and> (\<forall>g. 256 \<le> g \<and> g < f \<longrightarrow> pmm_abs s g \<noteq> None)
            \<and> pmm_abs s' = (pmm_abs s)(f \<mapsto> 1) \<and> pmm_ready s')
       \<or> (phys = 0 \<and> s' = s \<and> (\<forall>f. 256 \<le> f \<and> f < PMM_MAX_FRAMES \<longrightarrow> pmm_abs s f \<noteq> None))"
proof (cases "first_from (\<lambda>i. \<not> bitmap_test s i) 256 (PMM_MAX_FRAMES - 256)")
  case None
  then have "phys = 0" "s' = s" using assms by (simp_all add: pmm_alloc_frame_def)
  moreover have "bitmap_test s f" if "256 \<le> f" "f < PMM_MAX_FRAMES" for f
    using None that by (auto simp: first_from_None_iff)
  ultimately show ?thesis by (auto simp: pmm_abs_def)
next
  case (Some f)
  then have "256 \<le> f" "f < PMM_MAX_FRAMES" "\<not> bitmap_test s f"
    "\<forall>g. 256 \<le> g \<and> g < f \<longrightarrow> bitmap_test s g"
    by (auto simp: first_from_Some_iff)
  moreover from Some assms have "phys = of_nat f * PMM_PAGE_SIZE"
    "s' = (bitmap_set f s)\<lparr>pmm_free_frames := pmm_free_frames s - 1,
             pmm_refcount := (pmm_refcount s)(f := 1)\<rparr>"
    by (auto simp: pmm_alloc_frame_def)
  ultimately show ?thesis using assms(2)
    by (intro disjI1 exI [of _ f]) (auto simp: pmm_abs_def fun_eq_iff)
qed

lemma u16_dec: "0 < unat (n :: u16) \<Longrightarrow> unat (n - 1) = unat n - 1"
  by (rule unat_minus_one) auto

lemma u16_inc: "(n :: u16) < 0xFFFF \<Longrightarrow> unat (n + 1) = unat n + 1"
proof -
  assume "n < 0xFFFF"
  then have "unat n < 65535" by (simp add: word_less_nat_alt)
  then show ?thesis by (simp add: unat_word_ariths)
qed

lemma pmm_abs_free: "pmm_abs (pmm_free_frame phys s) =
    (case frame_of phys of None \<Rightarrow> pmm_abs s | Some f \<Rightarrow> fm_free f (pmm_abs s))"
  by (cases "frame_of phys")
    (auto simp: pmm_free_frame_def fm_free_def pmm_abs_def fun_eq_iff word_less_nat_alt u16_dec
      dest!: frame_ofD)

lemma pmm_abs_inc: "pmm_abs (pmm_inc_ref phys s) =
    (case frame_of phys of None \<Rightarrow> pmm_abs s | Some f \<Rightarrow> fm_inc f (pmm_abs s))"
  by (cases "frame_of phys")
    (auto simp: pmm_inc_ref_def fm_inc_def pmm_abs_def fun_eq_iff u16_inc word_less_nat_alt
      dest!: frame_ofD)

lemma pmm_abs_dec: "pmm_abs (pmm_dec_ref phys s) =
    (case frame_of phys of None \<Rightarrow> pmm_abs s | Some f \<Rightarrow> fm_dec f (pmm_abs s))"
  by (cases "frame_of phys")
    (auto simp: pmm_dec_ref_def fm_dec_def pmm_abs_def fun_eq_iff word_less_nat_alt u16_dec
      dest!: frame_ofD)

section \<open>Reserved regions\<close>

lemma test_reserve_frame: "bitmap_test (reserve_frame i s) f \<longleftrightarrow> i = f \<or> bitmap_test s f"
  by (auto simp: reserve_frame_def Let_def)

lemma test_fold_reserve: "bitmap_test (fold reserve_frame fs s) f \<longleftrightarrow> f \<in> set fs \<or> bitmap_test s f"
  by (induction fs arbitrary: s) (auto simp: test_reserve_frame)

text \<open>Reserving \<open>[base, base + len)\<close> marks every frame the interval touches.\<close>

lemma test_reserve_region:
  assumes "unat base + unat len \<le> unat PMM_MAX_MEMORY" "base < PMM_MAX_MEMORY"
  shows "bitmap_test (pmm_reserve_region base len s) f \<longleftrightarrow>
     bitmap_test s f \<or> unat base div 4096 \<le> f \<and> f < (unat base + unat len + 4095) div 4096"
proof -
  have sum: "unat (base + len) = unat base + unat len"
    using assms by (simp add: unat_word_ariths)
  then have le: "\<not> base + len > PMM_MAX_MEMORY" using assms by (simp add: word_less_nat_alt)
  have "unat (base + len + 0xFFF) = unat base + unat len + 4095"
    using assms sum by (simp add: unat_word_ariths)
  moreover have "base + len + PMM_PAGE_SIZE - 1 = base + len + 0xFFF"
    by (simp add: algebra_simps)
  ultimately have e: "unat ((base + len + PMM_PAGE_SIZE - 1) div PMM_PAGE_SIZE)
      = (unat base + unat len + 4095) div 4096"
    by (simp only: unat_div) simp
  have "(unat base + unat len + 4095) div 4096 \<le> PMM_MAX_FRAMES" using assms by simp
  then show ?thesis
    using assms le e unfolding pmm_reserve_region_def Let_def
    by (auto simp: test_fold_reserve unat_div not_le min_def)
qed

lemma test_reserve_region_mono: "bitmap_test s f \<Longrightarrow> bitmap_test (pmm_reserve_region base len s) f"
  by (simp add: pmm_reserve_region_def Let_def test_fold_reserve)

lemma pmm_finish_reserves:
  assumes kend: "0x100000 \<le> kend" "kend \<le> PMM_MAX_MEMORY"
    and f: "256 \<le> f" "f * 4096 < unat kend \<or> f < 2048"
  shows "bitmap_test (pmm_finish kend s) f"
proof -
  let ?k = "page_up kend"
  have kn: "1048576 \<le> unat kend" "unat kend \<le> 268435456"
    using kend by (simp_all add: word_le_nat_alt)
  then have up: "unat ?k = 4096 * ((unat kend + 4095) div 4096)" by (simp add: unat_page_up)
  have k: "1048576 \<le> unat ?k" "unat ?k \<le> 268435456" "unat kend \<le> unat ?k"
  proof -
    have "(unat kend + 4095) div 4096 \<le> 65536" using kn(2) by simp
    then show "unat ?k \<le> 268435456" unfolding up by simp
    show "unat kend \<le> unat ?k" unfolding up by simp
    then show "1048576 \<le> unat ?k" using kn(1) by simp
  qed
  have u1: "unat (?k - 0x100000) = unat ?k - 1048576"
    using k(1) by (subst unat_sub) (simp_all add: word_le_nat_alt)
  show ?thesis
  proof (cases "f * 4096 < unat ?k")
    case True
    then have "f < (unat ?k + 4095) div 4096" by simp
    then have "bitmap_test (pmm_reserve_region 0x100000 (?k - 0x100000) t) f" for t
      using k f u1 by (subst test_reserve_region) (auto simp: le_diff_conv2)
    then show ?thesis
      by (simp add: pmm_finish_def Let_def test_reserve_region_mono)
  next
    case False
    then have lt: "unat ?k < 8388608" using f k by auto
    then have klt: "?k < 0x800000" by (simp add: word_less_nat_alt)
    have u2: "unat (0x800000 - ?k) = 8388608 - unat ?k"
      using lt by (subst unat_sub) (simp_all add: word_le_nat_alt)
    have "unat ?k div 4096 \<le> f" using False by simp
    then have "bitmap_test (pmm_reserve_region ?k (0x800000 - ?k) t) f" for t
      using lt f False k u2 by (subst test_reserve_region) (auto simp: word_less_nat_alt)
    then show ?thesis using klt by (simp add: pmm_finish_def Let_def)
  qed
qed

section \<open>The memory-map loop ends\<close>

lemma mmap_loop_returns:
  assumes "len \<le> 0x80000000" "\<forall>off. off < len \<longrightarrow> rd32 mem (addr + off) < 0x7FFFFFFC"
  shows "\<exists>s'. mmap_loop mem addr len off s = Some s'"
proof (induction "unat len - unat off" arbitrary: off s rule: less_induct)
  case less
  show ?case
  proof (cases "off < len")
    case False
    then show ?thesis by (simp add: mmap_loop.simps)
  next
    case True
    let ?n = "rd32 mem (addr + off)"
    have n: "unat ?n < 2147483644" using assms(2) True by (simp add: word_less_nat_alt)
    have o: "unat off < unat len" "unat len \<le> 2147483648"
      using True assms(1) by (simp_all add: word_less_nat_alt word_le_nat_alt)
    have n4: "unat (?n + 4) = unat ?n + 4" using n by (simp add: unat_word_ariths)
    have "unat (off + (?n + 4)) = unat off + (unat ?n + 4)"
      using n o by (subst unat_add_lem [THEN iffD1]) (simp_all add: n4)
    then have "unat len - unat (off + (?n + 4)) < unat len - unat off" using o by simp
    then obtain s' where "mmap_loop mem addr len (off + (?n + 4)) (mmap_entry_step mem (addr + off) s)
        = Some s'"
      using less by blast
    then show ?thesis using True by (simp add: mmap_loop.simps [of mem addr len off])
  qed
qed

text \<open>An entry whose size field is \<open>2^32 - 4\<close> stops the boot: the loop never advances.\<close>

lemma mmap_loop_stuck:
  assumes "off < len" "rd32 mem (addr + off) = 0xFFFFFFFC"
  shows "mmap_loop mem addr len off s = None"
proof (rule ccontr)
  assume "mmap_loop mem addr len off s \<noteq> None"
  then obtain s' where ret: "mmap_loop mem addr len off s = Some s'" by auto
  have "\<not> (off < len \<and> rd32 mem (addr + off) = 0xFFFFFFFC)"
  proof (rule mmap_loop.raw_induct
      [where P = "\<lambda>mem addr len off s s'. \<not> (off < len \<and> rd32 mem (addr + off) = 0xFFFFFFFC)", OF _ ret])
    fix f mem addr len off s s'
    assume IH: "\<And>mem addr len off s s'. f mem addr len off s = Some s'
        \<Longrightarrow> \<not> (off < len \<and> rd32 mem (addr + off) = 0xFFFFFFFC)"
      and eq: "(if off < len
         then f mem addr len (off + (rd32 mem (addr + off) + 4)) (mmap_entry_step mem (addr + off) s)
         else Some s) = Some s'"
    show "\<not> (off < len \<and> rd32 mem (addr + off) = 0xFFFFFFFC)"
    proof
      assume a: "off < len \<and> rd32 mem (addr + off) = 0xFFFFFFFC"
      have "(0xFFFFFFFC :: u32) + 4 = 0" by simp
      with a have same: "off + (rd32 mem (addr + off) + 4) = off" by (metis add.right_neutral)
      have "f mem addr len (off + (rd32 mem (addr + off) + 4)) (mmap_entry_step mem (addr + off) s)
          = Some s'"
        using eq conjunct1 [OF a] by (simp only: if_True)
      then have "f mem addr len off (mmap_entry_step mem (addr + off) s) = Some s'"
        unfolding same .
      then show False using IH a by blast
    qed
  qed
  then show False using assms by blast
qed

section \<open>Properties\<close>

datatype pmm_op = PAlloc | PFree u32 | PInc u32 | PDec u32 | PReserve u32 u32

fun pmm_exec :: "pmm_op \<Rightarrow> pmm \<Rightarrow> pmm" where
  "pmm_exec PAlloc s = snd (pmm_alloc_frame s)"
| "pmm_exec (PFree a) s = pmm_free_frame a s"
| "pmm_exec (PInc a) s = pmm_inc_ref a s"
| "pmm_exec (PDec a) s = pmm_dec_ref a s"
| "pmm_exec (PReserve b l) s = pmm_reserve_region b l s"

lemma counted_exec: "counted d s \<Longrightarrow> counted d (pmm_exec a s)"
  by (cases a) (simp_all add: counted_alloc counted_free counted_refs counted_reserve_region)

lemma counted_execs: "counted d s \<Longrightarrow> counted d (fold pmm_exec ops s)"
  by (induction ops arbitrary: s) (simp_all add: counted_exec)

lemma pmm_ready_finish: "pmm_ready (pmm_finish kend s)"
  by (simp add: pmm_finish_def Let_def)

text \<open>C2. The bitmap allocator implements the abstract one: an allocation takes the lowest free
  frame from 1 MB up, which nobody holds, and gives it reference count 1, or answers 0
  exactly when every frame from 1 MB up is taken; freeing and counting references are the
  abstract operations on the frame the address names, and addresses that name no frame
  change nothing.\<close>

theorem pmm_refines_frame_map:
  assumes "pmm_ready s"
  shows "(case pmm_alloc_frame s of (phys, s') \<Rightarrow>
        (\<exists>f. phys = of_nat f * PMM_PAGE_SIZE \<and> 256 \<le> f \<and> f < PMM_MAX_FRAMES
            \<and> pmm_abs s f = None \<and> (\<forall>g. 256 \<le> g \<and> g < f \<longrightarrow> pmm_abs s g \<noteq> None)
            \<and> pmm_abs s' = (pmm_abs s)(f \<mapsto> 1))
       \<or> (phys = 0 \<and> s' = s \<and> (\<forall>f. 256 \<le> f \<and> f < PMM_MAX_FRAMES \<longrightarrow> pmm_abs s f \<noteq> None)))
    \<and> pmm_abs (pmm_free_frame a s)
      = (case frame_of a of None \<Rightarrow> pmm_abs s | Some f \<Rightarrow> fm_free f (pmm_abs s))
    \<and> pmm_abs (pmm_inc_ref a s)
      = (case frame_of a of None \<Rightarrow> pmm_abs s | Some f \<Rightarrow> fm_inc f (pmm_abs s))
    \<and> pmm_abs (pmm_dec_ref a s)
      = (case frame_of a of None \<Rightarrow> pmm_abs s | Some f \<Rightarrow> fm_dec f (pmm_abs s))"
proof -
  obtain phys s' where a: "pmm_alloc_frame s = (phys, s')" by fastforce
  show ?thesis
    using pmm_abs_alloc [OF a assms] by (simp only: a pmm_abs_free pmm_abs_inc pmm_abs_dec prod.case) blast
qed

theorem pmm_refines_frame_map_witness:
  "pmm_abs (pmm_inc_ref 0x100000 (pmm_blank\<lparr>pmm_ready := True\<rparr>))
     = fm_inc 256 (pmm_abs (pmm_blank\<lparr>pmm_ready := True\<rparr>))"
proof -
  have "frame_of 0x100000 = Some 256" using frame_of_page [of 256] by simp
  then show ?thesis
    using pmm_refines_frame_map [of "pmm_blank\<lparr>pmm_ready := True\<rparr>" "0x100000"] by simp
qed

text \<open>The running count of free frames, from boot on and through any sequence of allocations,
  frees, reference changes and reservations, is the number of clear bits in the bitmap,
  plus one exactly when the boot loader's memory map offered frame 0 (which
  \<open>pmm_init\<close> takes back without counting it).\<close>

theorem pmm_free_count_exact:
  assumes "pmm_detect mem mboot_ptr = Some s0"
  shows "unat (pmm_free_frames (fold pmm_exec ops (pmm_finish kernel_end s0)))
    = card {f. f < PMM_MAX_FRAMES \<and> \<not> bitmap_test (fold pmm_exec ops (pmm_finish kernel_end s0)) f}
      + (if bitmap_test s0 0 then 0 else 1)"
  using counted_execs [OF counted_finish [OF counted_detect [OF assms], of kernel_end], of ops]
  unfolding counted_def free_frames_def by simp

text \<open>A boot loader that describes one available page at address 0: flags at 0x1000, the map at
  0x2000, one 24-byte entry of size 20.\<close>

definition demo_mbi :: "u32 \<Rightarrow> u8" where
  "demo_mbi = (\<lambda>_. 0)(0x1000 := 0x40, 0x102C := 24, 0x1031 := 0x20,
     0x2000 := 20, 0x200D := 0x10, 0x2014 := 1)"

lemma demo_detect:
  "pmm_detect demo_mbi 0x1000 = Some (release_frame 0 pmm_blank)"
proof -
  have r: "rd32 demo_mbi 0x1000 = 0x40" "rd32 demo_mbi 0x102C = 24" "rd32 demo_mbi 0x1030 = 0x2000"
    "rd32 demo_mbi 0x2000 = 20" "rd64 demo_mbi 0x2004 = 0" "rd64 demo_mbi 0x200C = 0x1000"
    "rd32 demo_mbi 0x2014 = 1"
    by (simp_all add: rd32_def rd64_def rd8_def demo_mbi_def)
  have "mmap_entry_step demo_mbi 0x2000 s = release_frame 0 s" for s
    by (simp add: mmap_entry_step_def r pmm_free_region_def)
  then have "mmap_loop demo_mbi 0x2000 24 0 pmm_blank = Some (release_frame 0 pmm_blank)"
    by (simp add: mmap_loop.simps [of demo_mbi "0x2000" 24] r)
  then show ?thesis by (simp add: pmm_detect_def r)
qed

theorem pmm_free_count_exact_witness:
  "unat (pmm_free_frames (fold pmm_exec [] (pmm_finish 0x200000 (release_frame 0 pmm_blank))))
    = card {f. f < PMM_MAX_FRAMES
        \<and> \<not> bitmap_test (fold pmm_exec [] (pmm_finish 0x200000 (release_frame 0 pmm_blank))) f} + 1"
proof -
  have "\<not> bitmap_test (release_frame 0 pmm_blank) 0"
    by (simp add: release_frame_def)
  then show ?thesis using pmm_free_count_exact [OF demo_detect, of "[]" "0x200000"] by simp
qed


lemma test_fold_release:
  "bitmap_test (fold release_frame fs s) f \<longleftrightarrow> bitmap_test s f \<and> f \<notin> set fs"
  by (induction fs arbitrary: s) (auto simp: release_frame_def)




end
