(* ===== verification/Kheap.thy ===== *)
theory Kheap
  imports Pmm
begin

text \<open>
  The kernel heap (\<open>kernel/memory/kheap.c\<close>): a doubly linked, address-ordered list of blocks,
  each preceded by a 20-byte packed header.  The model keeps the pointers: \<open>hmem\<close> gives the
  header at an address, \<open>kdata\<close> the payload bytes, and the list is followed through
  \<open>hnext\<close> and \<open>hprev\<close> with 0 as the null pointer.  Headers and payload are separate
  functions of the address; that they do not overlap in memory is what the heap invariant
  shows.  List walks are partial functions (\<open>None\<close>: a cyclic list), so that they end is a
  theorem.  Growing the heap takes frames from \<^theory_text>\<open>Pmm\<close> and records the calls of
  \<open>paging_map\<close> in \<open>kmapped\<close>. 
  The diagnostic walk \<open>kheap_check_integrity\<close> is the list of its reports.
\<close>

abbreviation KHEAP_MAGIC :: u32 where "KHEAP_MAGIC \<equiv> 0x12345678"
abbreviation KHEAP_INITIAL_SIZE :: u32 where "KHEAP_INITIAL_SIZE \<equiv> 0x100000"
abbreviation HDR :: u32 where "HDR \<equiv> 20"
abbreviation IDENTITY_TOP :: u32 where "IDENTITY_TOP \<equiv> 0x800000"

record block_header =
  hmagic :: u32
  hsize :: u32
  hfree :: bool
  hnext :: u32
  hprev :: u32

type_synonym hmap = "u32 \<Rightarrow> block_header"

record kheap =
  hmem :: hmap
  kdata :: "u32 \<Rightarrow> u8"
  heap_start :: u32
  heap_end :: u32
  heap_max :: u32
  hhead :: u32
  kpmm :: pmm
  kmapped :: "(u32 \<times> u32 \<times> u32) list"

section \<open>Walking the list\<close>

partial_function (option) find_free_from :: "hmap \<Rightarrow> u32 \<Rightarrow> u32 \<Rightarrow> u32 option" where
  "find_free_from mem cur len =
     (if cur = 0 then Some 0
      else if hfree (mem cur) \<and> hsize (mem cur) \<ge> len then Some cur
      else find_free_from mem (hnext (mem cur)) len)"

definition find_free :: "u32 \<Rightarrow> kheap \<Rightarrow> u32 option" where
  "find_free len s = find_free_from (hmem s) (hhead s) len"

partial_function (option) last_block :: "hmap \<Rightarrow> u32 \<Rightarrow> u32 option" where
  "last_block mem cur =
     (if hnext (mem cur) \<noteq> 0 then last_block mem (hnext (mem cur)) else Some cur)"

section \<open>Growing\<close>

fun expand_pages :: "u32 \<Rightarrow> nat \<Rightarrow> nat \<Rightarrow> pmm \<Rightarrow> (u32 \<times> u32 \<times> u32) list
    \<Rightarrow> bool \<times> pmm \<times> (u32 \<times> u32 \<times> u32) list" where
  "expand_pages base i 0 p m = (True, p, m)"
| "expand_pages base i (Suc k) p m =
     (let (phys, p1) = pmm_alloc_frame p in
      if phys = 0 then (False, p1, m)
      else expand_pages base (Suc i) k p1 (m @ [(base + of_nat i * 0x1000, phys, 0x3)]))"

definition new_header :: "u32 \<Rightarrow> u32 \<Rightarrow> u32 \<Rightarrow> block_header" where
  "new_header len nxt prv =
     \<lparr>hmagic = KHEAP_MAGIC, hsize = len, hfree = True, hnext = nxt, hprev = prv\<rparr>"

definition kheap_append :: "u32 \<Rightarrow> kheap \<Rightarrow> kheap option" where
  "kheap_append to_alloc s =
     (let nb = heap_end s;
          mem1 = (hmem s)(nb := new_header (to_alloc - HDR) 0 0)
      in if hhead s = 0
         then Some (s\<lparr>hmem := mem1, hhead := nb, heap_end := heap_end s + to_alloc\<rparr>)
         else case last_block mem1 (hhead s) of None \<Rightarrow> None
         | Some cur \<Rightarrow>
             let mem2 = mem1(cur := (mem1 cur)\<lparr>hnext := nb\<rparr>);
                 mem3 = mem2(nb := (mem2 nb)\<lparr>hprev := cur\<rparr>)
             in Some (s\<lparr>hmem := mem3, heap_end := heap_end s + to_alloc\<rparr>))"

definition kheap_expand :: "u32 \<Rightarrow> kheap \<Rightarrow> kheap option" where
  "kheap_expand needed s =
     (let to_alloc = (needed + HDR + 0xFFF) AND NOT 0xFFF in
      if heap_end s + to_alloc > heap_max s then
        (let pages = unat ((to_alloc + 0xFFF) div 0x1000);
             (ok, p, m) = expand_pages (heap_end s) 0 pages (kpmm s) (kmapped s);
             s1 = s\<lparr>kpmm := p, kmapped := m\<rparr>
         in if \<not> ok then Some s1
            else let hm = heap_end s + to_alloc;
                     hm1 = (if hm > IDENTITY_TOP then IDENTITY_TOP else hm)
                 in kheap_append to_alloc (s1\<lparr>heap_max := hm1\<rparr>))
      else kheap_append to_alloc s)"

section \<open>Allocation\<close>

definition set_prev :: "u32 \<Rightarrow> u32 \<Rightarrow> hmap \<Rightarrow> hmap" where
  "set_prev p prv mem = (if p \<noteq> 0 then mem(p := (mem p)\<lparr>hprev := prv\<rparr>) else mem)"

definition split_block :: "u32 \<Rightarrow> u32 \<Rightarrow> hmap \<Rightarrow> hmap" where
  "split_block b len mem =
     (if hsize (mem b) \<ge> len + HDR + 16 then
        (let nb = b + HDR + len;
             mem1 = mem(nb := new_header (hsize (mem b) - len - HDR) (hnext (mem b)) b);
             mem2 = set_prev (hnext (mem1 b)) nb mem1
         in mem2(b := (mem2 b)\<lparr>hnext := nb, hsize := len\<rparr>))
      else mem)"

definition take_block :: "u32 \<Rightarrow> u32 \<Rightarrow> kheap \<Rightarrow> u32 \<times> kheap" where
  "take_block b len s =
     (let mem1 = split_block b len (hmem s);
          mem2 = mem1(b := (mem1 b)\<lparr>hfree := False, hmagic := KHEAP_MAGIC\<rparr>)
      in (b + HDR, s\<lparr>hmem := mem2\<rparr>))"

definition kmalloc :: "u32 \<Rightarrow> kheap \<Rightarrow> (u32 \<times> kheap) option" where
  "kmalloc size0 s =
     (if size0 = 0 then Some (0, s)
      else let len = (size0 + 7) AND NOT 7 in
        case find_free len s of None \<Rightarrow> None
        | Some b \<Rightarrow>
            if b \<noteq> 0 then Some (take_block b len s)
            else case kheap_expand len s of None \<Rightarrow> None
            | Some s1 \<Rightarrow>
                (case find_free len s1 of None \<Rightarrow> None
                 | Some b1 \<Rightarrow> if b1 = 0 then Some (0, s1) else Some (take_block b1 len s1)))"

section \<open>Release\<close>

text \<open>The walk over at most 64 blocks that \<open>kmalloc\<close> makes on entry and exit.\<close>

datatype heap_report = Corrupt u32 | Overlap u32 u32

fun kheap_check :: "nat \<Rightarrow> hmap \<Rightarrow> u32 \<Rightarrow> u32 \<Rightarrow> heap_report list" where
  "kheap_check 0 mem cur prv = []"
| "kheap_check (Suc n) mem cur prv =
     (if cur = 0 then []
      else if hmagic (mem cur) \<noteq> KHEAP_MAGIC then [Corrupt cur]
      else (if prv \<noteq> 0 \<and> cur \<noteq> prv + HDR + hsize (mem prv) then [Overlap prv cur] else [])
        @ kheap_check n mem (hnext (mem cur)) cur)"

definition kheap_check_integrity :: "kheap \<Rightarrow> heap_report list" where
  "kheap_check_integrity s = kheap_check 64 (hmem s) (hhead s) 0"

text \<open>The three statements with which a block swallows its successor.\<close>

definition absorb_next :: "u32 \<Rightarrow> u32 \<Rightarrow> hmap \<Rightarrow> hmap" where
  "absorb_next a b mem =
     (let mem1 = mem(a := (mem a)\<lparr>hsize := hsize (mem a) + (HDR + hsize (mem b))\<rparr>);
          mem2 = mem1(a := (mem1 a)\<lparr>hnext := hnext (mem1 b)\<rparr>)
      in set_prev (hnext (mem2 a)) a mem2)"

definition kfree :: "u32 \<Rightarrow> kheap \<Rightarrow> kheap" where
  "kfree ptr s =
     (if ptr = 0 then s
      else let b = ptr - HDR; mem = hmem s in
        if hmagic (mem b) \<noteq> KHEAP_MAGIC then s
        else
          let mem1 = mem(b := (mem b)\<lparr>hfree := True\<rparr>);
              nx = hnext (mem1 b);
              mem2 = (if nx \<noteq> 0 \<and> hfree (mem1 nx) \<and> hmagic (mem1 nx) = KHEAP_MAGIC
                then absorb_next b nx mem1 else mem1);
              pv = hprev (mem2 b);
              mem3 = (if pv \<noteq> 0 \<and> hfree (mem2 pv) \<and> hmagic (mem2 pv) = KHEAP_MAGIC
                then absorb_next pv b mem2 else mem2)
          in s\<lparr>hmem := mem3\<rparr>)"

definition copy_bytes :: "u32 \<Rightarrow> u32 \<Rightarrow> u32 \<Rightarrow> (u32 \<Rightarrow> u8) \<Rightarrow> u32 \<Rightarrow> u8" where
  "copy_bytes dst src n d = (\<lambda>x. if x - dst < n then d (src + (x - dst)) else d x)"

definition krealloc :: "u32 \<Rightarrow> u32 \<Rightarrow> kheap \<Rightarrow> (u32 \<times> kheap) option" where
  "krealloc ptr len s =
     (if ptr = 0 then kmalloc len s
      else if len = 0 then Some (0, kfree ptr s)
      else let old_size = hsize (hmem s (ptr - HDR)) in
        if len \<le> old_size then Some (ptr, s)
        else case kmalloc len s of None \<Rightarrow> None
          | Some (q, s1) \<Rightarrow>
              if q = 0 then Some (0, s1)
              else Some (q, kfree ptr (s1\<lparr>kdata := copy_bytes q ptr old_size (kdata s1)\<rparr>)))"

definition store32 :: "u32 \<Rightarrow> u32 \<Rightarrow> (u32 \<Rightarrow> u8) \<Rightarrow> u32 \<Rightarrow> u8" where
  "store32 a v d = d(a := ucast v, a + 1 := ucast (drop_bit 8 v), a + 2 := ucast (drop_bit 16 v),
     a + 3 := ucast (drop_bit 24 v))"

definition kmalloc_aligned :: "u32 \<Rightarrow> u32 \<Rightarrow> kheap \<Rightarrow> (u32 \<times> kheap) option" where
  "kmalloc_aligned len align s =
     (if align \<le> 8 then kmalloc len s
      else case kmalloc (len + align + 4) s of None \<Rightarrow> None
        | Some (raw, s1) \<Rightarrow>
            if raw = 0 then Some (0, s1)
            else let aligned = (raw + 4 + align - 1) AND NOT (align - 1)
                 in Some (aligned, s1\<lparr>kdata := store32 (aligned - 4) raw (kdata s1)\<rparr>))"

definition kheap_init :: "u32 \<Rightarrow> kheap \<Rightarrow> kheap" where
  "kheap_init kernel_end s =
     (let start = page_up kernel_end;
          e0 = start + KHEAP_INITIAL_SIZE;
          e = (if e0 > IDENTITY_TOP then IDENTITY_TOP else e0)
      in s\<lparr>heap_start := start, heap_max := IDENTITY_TOP, heap_end := e, hhead := start,
           hmem := (hmem s)(start := new_header (e - start - HDR) 0 0)\<rparr>)"

section \<open>The list the pointers spell\<close>

type_synonym blk = "u32 \<times> u32 \<times> bool"

text \<open>\<open>seg mem prv p bs l q\<close>: following \<open>hnext\<close> from \<open>p\<close> visits the blocks \<open>bs\<close> and
  stops before \<open>q\<close>; the back pointer of the first is \<open>prv\<close>, of each other its
  predecessor, and \<open>l\<close> is the last block visited.\<close>

fun seg :: "hmap \<Rightarrow> u32 \<Rightarrow> u32 \<Rightarrow> blk list \<Rightarrow> u32 \<Rightarrow> u32 \<Rightarrow> bool" where
  "seg mem prv p [] l q \<longleftrightarrow> l = prv \<and> p = q"
| "seg mem prv p ((a, sz, fr) # bs) l q \<longleftrightarrow>
     p = a \<and> a \<noteq> 0 \<and> hmagic (mem a) = KHEAP_MAGIC \<and> hsize (mem a) = sz \<and> hfree (mem a) = fr
     \<and> hprev (mem a) = prv \<and> seg mem a (hnext (mem a)) bs l q"

text \<open>\<open>tiled lo hi bs\<close>: the blocks with their headers fill \<open>[lo, hi)\<close> without gap or overlap.\<close>

fun tiled :: "nat \<Rightarrow> nat \<Rightarrow> blk list \<Rightarrow> bool" where
  "tiled lo hi [] \<longleftrightarrow> lo = hi"
| "tiled lo hi ((a, sz, fr) # bs) \<longleftrightarrow> unat a = lo \<and> tiled (lo + 20 + unat sz) hi bs"

abbreviation addrs :: "blk list \<Rightarrow> u32 list" where
  "addrs bs \<equiv> map fst bs"

definition heap_inv :: "blk list \<Rightarrow> kheap \<Rightarrow> bool" where
  "heap_inv bs s \<longleftrightarrow> bs \<noteq> [] \<and> (\<exists>l. seg (hmem s) 0 (hhead s) bs l 0)
     \<and> tiled (unat (heap_start s)) (unat (heap_end s)) bs \<and> 0 < unat (heap_start s)"

definition used :: "blk list \<Rightarrow> (u32 \<times> u32) set" where
  "used bs = {(a, sz). (a, sz, False) \<in> set bs}"

section \<open>Lists and tilings\<close>

lemma seg_append:
  "seg mem prv p (xs @ ys) l q \<longleftrightarrow> (\<exists>m r. seg mem prv p xs m r \<and> seg mem m r ys l q)"
proof (induction xs arbitrary: prv p)
  case (Cons b xs)
  obtain a sz fr where b: "b = (a, sz, fr)" by (cases b)
  show ?case unfolding b append_Cons seg.simps(2) Cons.IH by blast
qed simp

lemma seg_frame:
  "\<forall>a \<in> set (addrs bs). mem' a = mem a \<Longrightarrow> seg mem' prv p bs l q = seg mem prv p bs l q"
  by (induction bs arbitrary: prv p) auto

lemma seg_upd [simp]: "a \<notin> set (addrs bs) \<Longrightarrow> seg (mem(a := h)) prv p bs l q = seg mem prv p bs l q"
  by (rule seg_frame) auto

lemma seg_set_prev [simp]:
  "a \<notin> set (addrs bs) \<Longrightarrow> seg (set_prev a v mem) prv p bs l q = seg mem prv p bs l q"
  by (simp add: set_prev_def)

lemma seg_end_null: "seg mem prv p bs l 0 \<Longrightarrow> p = 0 \<longleftrightarrow> bs = []"
  by (cases bs) auto

text \<open>Giving the rest of the list a new predecessor.\<close>

lemma seg_relink:
  assumes "seg mem prv p bs l 0" "distinct (addrs bs)"
  shows "\<exists>l'. seg (set_prev p v mem) v p bs l' 0"
proof (cases bs)
  case Nil
  then show ?thesis using assms by (simp add: set_prev_def)
next
  case (Cons b bs')
  obtain a sz fr where "b = (a, sz, fr)" by (cases b)
  then show ?thesis using assms Cons by (auto simp: set_prev_def)
qed

lemma set_prev_other: "a \<noteq> p \<Longrightarrow> set_prev p v mem a = mem a"
  by (simp add: set_prev_def)

lemma tiled_append: "tiled lo hi (xs @ ys) \<longleftrightarrow> (\<exists>mid. tiled lo mid xs \<and> tiled mid hi ys)"
  by (induction xs arbitrary: lo) auto

lemma tiled_le: "tiled lo hi bs \<Longrightarrow> lo \<le> hi"
  by (induction bs arbitrary: lo) fastforce+

lemma tiled_bounds:
  "\<lbrakk>tiled lo hi bs; (a, sz, fr) \<in> set bs\<rbrakk> \<Longrightarrow> lo \<le> unat a \<and> unat a + 20 + unat sz \<le> hi"
proof (induction bs arbitrary: lo)
  case (Cons b bs)
  obtain a' sz' fr' where b: "b = (a', sz', fr')" by (cases b)
  then have t: "unat a' = lo" "tiled (lo + 20 + unat sz') hi bs" using Cons.prems by auto
  show ?case
  proof (cases "(a, sz, fr) = b")
    case True
    then show ?thesis using b t tiled_le [OF t(2)] by auto
  next
    case False
    then show ?thesis using Cons.IH [OF t(2)] Cons.prems(2) by fastforce
  qed
qed simp

lemma tiled_addr_bounds:
  assumes "tiled lo hi bs" "a \<in> set (addrs bs)"
  shows "lo \<le> unat a" "unat a + 20 \<le> hi"
  using assms tiled_bounds by fastforce+

lemma tiled_distinct: "tiled lo hi bs \<Longrightarrow> distinct (addrs bs)"
proof (induction bs arbitrary: lo)
  case (Cons b bs)
  obtain a sz fr where b: "b = (a, sz, fr)" by (cases b)
  then have t: "unat a = lo" "tiled (lo + 20 + unat sz) hi bs" using Cons.prems by auto
  then have "a \<notin> set (addrs bs)" using tiled_addr_bounds [OF t(2), of a] by auto
  then show ?case using b t Cons.IH [OF t(2)] by simp
qed simp

text \<open>An address strictly inside a block is not the address of any block.\<close>

lemma tiled_inside:
  assumes "tiled lo hi (xs @ (a, sz, fr) # ys)" "unat a < unat n" "unat n < unat a + 20 + unat sz"
  shows "n \<notin> set (addrs (xs @ (a, sz, fr) # ys))"
proof -
  obtain mid where xs: "tiled lo mid xs" and a: "unat a = mid"
    and ys: "tiled (mid + 20 + unat sz) hi ys"
    using assms(1) by (auto simp: tiled_append)
  have "n \<notin> set (addrs xs)" using tiled_addr_bounds [OF xs, of n] assms(2) a by auto
  moreover have "n \<notin> set (addrs ys)" using tiled_addr_bounds [OF ys, of n] assms(3) a by auto
  ultimately show ?thesis using assms(2) by auto
qed

text \<open>Two different blocks of a tiling do not overlap.\<close>

lemma tiled_disjoint:
  assumes "tiled lo hi bs" "(a, sz, fr) \<in> set bs" "(b, tz, gr) \<in> set bs" "a \<noteq> b"
  shows "unat a + 20 + unat sz \<le> unat b \<or> unat b + 20 + unat tz \<le> unat a"
  using assms
proof (induction bs arbitrary: lo)
  case (Cons c cs)
  obtain x xz xr where c: "c = (x, xz, xr)" by (cases c)
  then have t: "unat x = lo" "tiled (lo + 20 + unat xz) hi cs" using Cons.prems by auto
  show ?case
  proof (cases "(a, sz, fr) = c \<or> (b, tz, gr) = c")
    case True
    then show ?thesis using c t Cons.prems tiled_bounds [OF t(2)] by fastforce
  next
    case False
    then show ?thesis using Cons.IH [OF t(2)] Cons.prems by auto
  qed
qed simp

section \<open>The two list surgeries\<close>

lemma seg_first_in: "seg mem prv p bs l 0 \<Longrightarrow> p = 0 \<or> p \<in> set (addrs bs)"
  by (cases bs) auto

lemma seg_absorb:
  assumes "seg mem prv p (xs @ (a, sa, fa) # (b, sb, fb) # ys) l 0"
    and "distinct (addrs (xs @ (a, sa, fa) # (b, sb, fb) # ys))"
  shows "\<exists>l'. seg (absorb_next a b mem) prv p (xs @ (a, sa + (HDR + sb), fa) # ys) l' 0"
proof -
  obtain m r where xs0: "seg mem prv p xs m r"
    and rest: "seg mem m r ((a, sa, fa) # (b, sb, fb) # ys) l 0"
    using assms(1) unfolding seg_append by blast
  then have xs: "seg mem prv p xs m a" and a: "a \<noteq> 0" "hmagic (mem a) = KHEAP_MAGIC"
      "hsize (mem a) = sa" "hfree (mem a) = fa" "hprev (mem a) = m" "hnext (mem a) = b"
    and b: "hsize (mem b) = sb" and ys: "seg mem b (hnext (mem b)) ys l 0"
    by simp_all
  let ?q = "hnext (mem b)"
  let ?mem = "mem(a := (mem a)\<lparr>hsize := sa + (HDR + sb), hnext := ?q\<rparr>)"
  have d: "a \<notin> set (addrs xs)" "a \<notin> set (addrs ys)" "a \<noteq> b" "distinct (addrs ys)"
    "set (addrs xs) \<inter> set (addrs ys) = {}"
    using assms(2) by auto
  have eq: "absorb_next a b mem = set_prev ?q a ?mem"
    using a b d by (simp add: absorb_next_def Let_def)
  have ys': "seg ?mem b ?q ys l 0" using ys d by simp
  obtain l' where l': "seg (set_prev ?q a ?mem) a ?q ys l' 0"
    using seg_relink [OF ys' d(4)] by blast
  have q0: "?q = 0 \<or> ?q \<in> set (addrs ys)" using seg_first_in [OF ys] .
  then have qa: "?q \<noteq> a" using d(2) a(1) by auto
  have xs1: "seg (set_prev ?q a ?mem) prv p xs m a"
  proof (cases "?q = 0")
    case True
    then show ?thesis using xs d(1) by (simp add: set_prev_def)
  next
    case False
    then have "?q \<notin> set (addrs xs)" using q0 d(5) by blast
    then show ?thesis using xs d(1) by simp
  qed
  have m: "set_prev ?q a ?mem a = ?mem a" using qa by (simp add: set_prev_other)
  have "seg (set_prev ?q a ?mem) m a ((a, sa + (HDR + sb), fa) # ys) l' 0"
    using l' a m by simp
  then show ?thesis unfolding eq seg_append using xs1 by blast
qed

lemma seg_split:
  assumes sg: "seg mem prv p (xs @ (a, sz, fr) # ys) l 0"
    and tl: "tiled lo hi (xs @ (a, sz, fr) # ys)" "hi + 16 < 2 ^ 32"
    and big: "hsize (mem a) \<ge> len + HDR + 16" "len \<le> sz"
  shows "\<exists>l'. seg (split_block a len mem) prv p
           (xs @ (a, len, fr) # (a + HDR + len, sz - len - HDR, True) # ys) l' 0"
    and "tiled lo hi (xs @ (a, len, fr) # (a + HDR + len, sz - len - HDR, True) # ys)"
proof -
  obtain m r where xs0: "seg mem prv p xs m r" and rest: "seg mem m r ((a, sz, fr) # ys) l 0"
    using sg unfolding seg_append by blast
  let ?q = "hnext (mem a)"
  have xs: "seg mem prv p xs m a" and a: "a \<noteq> 0" "hmagic (mem a) = KHEAP_MAGIC"
      "hsize (mem a) = sz" "hfree (mem a) = fr" "hprev (mem a) = m"
    and ys: "seg mem a ?q ys l 0" using xs0 rest by simp_all
  obtain mid where tx: "tiled lo mid xs" and ta: "unat a = mid"
    and ty: "tiled (mid + 20 + unat sz) hi ys" using tl(1) by (auto simp: tiled_append)
  have top: "unat a + 20 + unat sz + 16 < 2 ^ 32" using tiled_le [OF ty] tl(2) ta by simp
  have len: "unat len \<le> unat sz" using big(2) by (simp add: word_le_nat_alt)
  have "unat (len + HDR + 16) = unat len + 36"
    using top len by (simp add: unat_word_ariths)
  then have fit: "unat len + 36 \<le> unat sz" using big(1) a(3) by (simp add: word_le_nat_alt)
  let ?nb = "a + HDR + len"
  have nb: "unat ?nb = unat a + 20 + unat len" using top len by (simp add: unat_word_ariths)
  have "unat (sz - len) = unat sz - unat len" using big(2) by (simp add: unat_sub)
  moreover have "unat (sz - len - HDR) = unat (sz - len) - 20"
    by (subst unat_sub) (use calculation fit in \<open>auto simp: word_le_nat_alt\<close>)
  ultimately have nsz: "unat (sz - len - HDR) = unat sz - unat len - 20" by simp
  show "tiled lo hi (xs @ (a, len, fr) # (?nb, sz - len - HDR, True) # ys)"
    unfolding tiled_append using tx ta ty nb nsz fit by (auto simp: add.commute add.left_commute)
  have out: "?nb \<notin> set (addrs (xs @ (a, sz, fr) # ys))"
    using tiled_inside [OF tl(1)] nb fit by simp
  have "distinct (addrs (xs @ (a, sz, fr) # ys))" using tiled_distinct [OF tl(1)] .
  then have d: "a \<notin> set (addrs xs)" "a \<notin> set (addrs ys)" "distinct (addrs ys)"
    "set (addrs xs) \<inter> set (addrs ys) = {}" "?nb \<notin> set (addrs xs)" "?nb \<notin> set (addrs ys)" "?nb \<noteq> a"
    using out by auto
  have nb0: "?nb \<noteq> 0" using nb by (metis a(1) add_is_0 unat_eq_zero)
  define mem1 where "mem1 = mem(?nb := new_header (sz - len - HDR) ?q a)"
  define mem2 where "mem2 = set_prev ?q ?nb mem1"
  define mem3 where "mem3 = mem2(a := (mem2 a)\<lparr>hnext := ?nb, hsize := len\<rparr>)"
  have eq: "split_block a len mem = mem3"
    using big(1) a(3) d(7) by (simp add: split_block_def Let_def mem1_def mem2_def mem3_def)
  have q0: "?q = 0 \<or> ?q \<in> set (addrs ys)" using seg_first_in [OF ys] .
  then have q: "?q \<noteq> a" "?q \<noteq> ?nb" using d(2,6) a(1) nb0 by metis+
  obtain l' where l': "seg mem2 ?nb ?q ys l' 0"
    using seg_relink [of mem1 a ?q ys l ?nb] ys d(3,6) by (auto simp: mem1_def mem2_def)
  have l3: "seg mem3 ?nb ?q ys l' 0" using l' d(2) by (simp add: mem3_def)
  have xs3: "seg mem3 prv p xs m a"
  proof (cases "?q = 0")
    case True
    then show ?thesis using xs d(1,5) by (simp add: mem3_def mem2_def mem1_def set_prev_def)
  next
    case False
    then have "?q \<notin> set (addrs xs)" using q0 d(4) by blast
    then show ?thesis using xs d(1,5) by (simp add: mem3_def mem2_def mem1_def)
  qed
  have mnb: "mem3 ?nb = new_header (sz - len - HDR) ?q a"
    using d(7) q(2) by (simp add: mem3_def mem2_def mem1_def set_prev_other)
  have ma: "mem3 a = (mem a)\<lparr>hnext := ?nb, hsize := len\<rparr>"
    using d(7) q(1) by (simp add: mem3_def mem2_def mem1_def set_prev_other)
  have "seg mem3 m a ((a, len, fr) # (?nb, sz - len - HDR, True) # ys) l' 0"
    using l3 ma mnb a nb0 by (simp add: new_header_def)
  then show "\<exists>l'. seg (split_block a len mem) prv p
      (xs @ (a, len, fr) # (?nb, sz - len - HDR, True) # ys) l' 0"
    unfolding eq seg_append using xs3 by blast
qed

lemma seg_mark:
  assumes "seg mem prv p (xs @ (a, sz, fr) # ys) l 0" "distinct (addrs (xs @ (a, sz, fr) # ys))"
  shows "seg (mem(a := (mem a)\<lparr>hfree := f, hmagic := KHEAP_MAGIC\<rparr>)) prv p (xs @ (a, sz, f) # ys) l 0"
proof -
  obtain m r where xs: "seg mem prv p xs m r" and rest: "seg mem m r ((a, sz, fr) # ys) l 0"
    using assms(1) unfolding seg_append by blast
  have d: "a \<notin> set (addrs xs)" "a \<notin> set (addrs ys)" using assms(2) by auto
  have "seg (mem(a := (mem a)\<lparr>hfree := f, hmagic := KHEAP_MAGIC\<rparr>)) m r ((a, sz, f) # ys) l 0"
    using rest d by simp
  then show ?thesis unfolding seg_append using xs d by auto
qed

lemma seg_extend:
  assumes "seg mem prv p bs l 0" "bs \<noteq> []" "distinct (addrs bs)"
  shows "seg (mem(l := (mem l)\<lparr>hnext := nb\<rparr>)) prv p bs l nb \<and> l \<in> set (addrs bs)"
  using assms
proof (induction bs arbitrary: prv p)
  case (Cons b bs)
  obtain a sz fr where b: "b = (a, sz, fr)" by (cases b)
  show ?case
  proof (cases "bs = []")
    case True
    then show ?thesis using Cons.prems b by auto
  next
    case False
    let ?m = "mem(l := (mem l)\<lparr>hnext := nb\<rparr>)"
    have "seg ?m a (hnext (mem a)) bs l nb \<and> l \<in> set (addrs bs)"
      by (rule Cons.IH) (use Cons.prems False b in simp_all)
    moreover have "a \<notin> set (addrs bs)" using Cons.prems(3) b by simp
    then have "a \<noteq> l" using calculation by metis
    then have "?m a = mem a" by simp
    ultimately show ?thesis using Cons.prems(1) unfolding b by (simp del: fun_upd_apply)
  qed
qed simp

section \<open>The walks end and find what they look for\<close>

fun first_fit :: "u32 \<Rightarrow> blk list \<Rightarrow> u32" where
  "first_fit len [] = 0"
| "first_fit len ((a, sz, fr) # bs) = (if fr \<and> sz \<ge> len then a else first_fit len bs)"

lemma find_free_seg: "seg mem prv p bs l 0 \<Longrightarrow> find_free_from mem p len = Some (first_fit len bs)"
proof (induction bs arbitrary: prv p)
  case Nil
  then show ?case by (simp add: find_free_from.simps)
next
  case (Cons b bs)
  obtain a sz fr where b: "b = (a, sz, fr)" by (cases b)
  show ?case by (subst find_free_from.simps) (use Cons.prems Cons.IH [of a] b in simp)
qed

lemma first_fit_found:
  assumes "first_fit len bs = a" "a \<noteq> 0"
  obtains xs sz ys where "bs = xs @ (a, sz, True) # ys" "sz \<ge> len"
    "\<forall>(b, tz, fr) \<in> set xs. \<not> (fr \<and> tz \<ge> len)"
proof -
  have "\<exists>xs sz ys. bs = xs @ (a, sz, True) # ys \<and> sz \<ge> len
      \<and> (\<forall>(b, tz, fr) \<in> set xs. \<not> (fr \<and> tz \<ge> len))"
    using assms
  proof (induction bs)
    case (Cons b bs)
    obtain x xz xr where b: "b = (x, xz, xr)" by (cases b)
    show ?case
    proof (cases "xr \<and> xz \<ge> len")
      case True
      then have "b # bs = [] @ (a, xz, True) # bs" using Cons.prems b by simp
      then show ?thesis using True by (metis empty_iff list.set(1))
    next
      case False
      then obtain xs sz ys where "bs = xs @ (a, sz, True) # ys" "sz \<ge> len"
          "\<forall>(b, tz, fr) \<in> set xs. \<not> (fr \<and> tz \<ge> len)"
        using Cons.IH Cons.prems b by auto
      then have "b # bs = (b # xs) @ (a, sz, True) # ys \<and> sz \<ge> len
          \<and> (\<forall>(b, tz, fr) \<in> set (b # xs). \<not> (fr \<and> tz \<ge> len))"
        using False b by auto
      then show ?thesis by blast
    qed
  qed simp
  then show ?thesis using that by blast
qed

lemma first_fit_none:
  "\<lbrakk>first_fit len bs = 0; 0 \<notin> set (addrs bs); (a, sz, True) \<in> set bs\<rbrakk> \<Longrightarrow> \<not> len \<le> sz"
  by (induction bs) (auto split: if_splits)

lemma seg_nonzero: "seg mem prv p bs l q \<Longrightarrow> 0 \<notin> set (addrs bs)"
proof (induction bs arbitrary: prv p)
  case (Cons b bs)
  obtain a sz fr where b: "b = (a, sz, fr)" by (cases b)
  then show ?case using Cons.prems Cons.IH [of a "hnext (mem a)"] by simp
qed simp

lemma last_block_seg: "\<lbrakk>seg mem prv p bs l 0; bs \<noteq> []\<rbrakk> \<Longrightarrow> last_block mem p = Some l"
proof (induction bs arbitrary: prv p)
  case (Cons b bs)
  obtain a sz fr where b: "b = (a, sz, fr)" by (cases b)
  have r: "seg mem a (hnext (mem a)) bs l 0" and p: "p = a" using Cons.prems b by auto
  show ?case
  proof (cases "bs = []")
    case True
    then show ?thesis using r p by (simp add: last_block.simps [of mem a])
  next
    case False
    then have "hnext (mem a) \<noteq> 0" using seg_end_null [OF r] by simp
    then show ?thesis using Cons.IH [OF r False] p by (simp add: last_block.simps [of mem a])
  qed
qed simp

section \<open>The heap invariant is kept\<close>

lemma heap_inv_distinct: "heap_inv bs s \<Longrightarrow> distinct (addrs bs)"
  using tiled_distinct by (auto simp: heap_inv_def)

lemma heap_inv_nonzero: "heap_inv bs s \<Longrightarrow> 0 \<notin> set (addrs bs)"
  using seg_nonzero unfolding heap_inv_def by blast

lemma find_free_inv: "heap_inv bs s \<Longrightarrow> find_free len s = Some (first_fit len bs)"
  using find_free_seg by (auto simp: heap_inv_def find_free_def)

lemma used_free: "used (xs @ (a, sz, True) # ys) = used (xs @ ys)"
  by (auto simp: used_def)

lemma used_busy: "used (xs @ (a, sz, False) # ys) = insert (a, sz) (used (xs @ ys))"
  by (auto simp: used_def)

lemma used_addrs: "fst ` used bs \<subseteq> set (addrs bs)"
  by (auto simp: used_def) force

lemma take_block_inv:
  assumes inv: "heap_inv (xs @ (a, sz, True) # ys) s" and top: "unat (heap_end s) + 16 < 2 ^ 32"
    and fit: "len \<le> sz"
  shows "\<exists>bs' tz. heap_inv bs' (snd (take_block a len s)) \<and> len \<le> tz
    \<and> used bs' = insert (a, tz) (used (xs @ (a, sz, True) # ys))"
proof -
  obtain l where sg: "seg (hmem s) 0 (hhead s) (xs @ (a, sz, True) # ys) l 0"
    and tl: "tiled (unat (heap_start s)) (unat (heap_end s)) (xs @ (a, sz, True) # ys)"
    and z: "0 < unat (heap_start s)"
    using inv by (auto simp: heap_inv_def)
  have ma: "hsize (hmem s a) = sz" using sg by (auto simp: seg_append)
  define m1 where "m1 = split_block a len (hmem s)"
  have "\<exists>l' tz zs. seg m1 0 (hhead s) (xs @ (a, tz, True) # zs) l' 0
      \<and> tiled (unat (heap_start s)) (unat (heap_end s)) (xs @ (a, tz, True) # zs)
      \<and> len \<le> tz \<and> used zs = used ys"
  proof (cases "hsize (hmem s a) \<ge> len + HDR + 16")
    case True
    have "used ((a + HDR + len, sz - len - HDR, True) # ys) = used ys" by (auto simp: used_def)
    then show ?thesis using seg_split [OF sg tl top True fit] unfolding m1_def by blast
  next
    case False
    then show ?thesis using sg tl fit unfolding m1_def split_block_def by auto
  qed
  then obtain l' tz zs where m1: "seg m1 0 (hhead s) (xs @ (a, tz, True) # zs) l' 0"
    and t1: "tiled (unat (heap_start s)) (unat (heap_end s)) (xs @ (a, tz, True) # zs)"
    and tz: "len \<le> tz" and zs: "used zs = used ys" by blast
  have t2: "tiled (unat (heap_start s)) (unat (heap_end s)) (xs @ (a, tz, False) # zs)"
    using t1 by (auto simp: tiled_append)
  have "heap_inv (xs @ (a, tz, False) # zs) (snd (take_block a len s))"
    using seg_mark [OF m1 tiled_distinct [OF t1], of False] t2 z
    by (auto simp: heap_inv_def take_block_def Let_def m1_def)
  moreover have "used (xs @ (a, tz, False) # zs) = insert (a, tz) (used (xs @ (a, sz, True) # ys))"
    using zs unfolding used_busy used_free by (auto simp: used_def)
  ultimately show ?thesis using tz by blast
qed

lemma take_block_frame [frame_simps]:
  "fst (take_block a len s) = a + HDR" "heap_start (snd (take_block a len s)) = heap_start s"
  "heap_end (snd (take_block a len s)) = heap_end s" "kdata (snd (take_block a len s)) = kdata s"
  "kpmm (snd (take_block a len s)) = kpmm s"
  by (simp_all add: take_block_def Let_def)

lemma kheap_append_inv:
  assumes inv: "heap_inv bs s" and top: "unat (heap_end s) + unat to_alloc < 2 ^ 32" "20 \<le> unat to_alloc"
  shows "\<exists>s'. kheap_append to_alloc s = Some s'
    \<and> heap_inv (bs @ [(heap_end s, to_alloc - HDR, True)]) s' \<and> heap_end s' = heap_end s + to_alloc
    \<and> heap_start s' = heap_start s \<and> kdata s' = kdata s \<and> kpmm s' = kpmm s"
proof -
  obtain l where sg: "seg (hmem s) 0 (hhead s) bs l 0"
    and tl: "tiled (unat (heap_start s)) (unat (heap_end s)) bs"
    and z: "0 < unat (heap_start s)" and ne: "bs \<noteq> []"
    using inv by (auto simp: heap_inv_def)
  let ?nb = "heap_end s"
  have out: "?nb \<notin> set (addrs bs)" using tiled_addr_bounds [OF tl, of ?nb] by auto
  have "unat ?nb \<noteq> 0" using tiled_le [OF tl] z by simp
  then have nb0: "?nb \<noteq> 0" by auto
  define mem1 where "mem1 = (hmem s)(?nb := new_header (to_alloc - HDR) 0 0)"
  have s1: "seg mem1 0 (hhead s) bs l 0" using sg out by (simp add: mem1_def)
  have h0: "hhead s \<noteq> 0" using seg_end_null [OF sg] ne by simp
  define mem2 where "mem2 = mem1(l := (mem1 l)\<lparr>hnext := ?nb\<rparr>)"
  define mem3 where "mem3 = mem2(?nb := (mem2 ?nb)\<lparr>hprev := l\<rparr>)"
  have s2: "seg mem2 0 (hhead s) bs l ?nb" and l: "l \<in> set (addrs bs)"
    using seg_extend [OF s1 ne tiled_distinct [OF tl]] unfolding mem2_def by blast+
  have s3: "seg mem3 0 (hhead s) bs l ?nb" using s2 out by (simp add: mem3_def)
  have "l \<noteq> ?nb" using l out by metis
  then have "mem3 ?nb = new_header (to_alloc - HDR) 0 l"
    by (simp add: mem3_def mem2_def mem1_def new_header_def)
  then have "seg mem3 l ?nb [(?nb, to_alloc - HDR, True)] ?nb 0"
    using nb0 by (simp add: new_header_def)
  then have sg': "seg mem3 0 (hhead s) (bs @ [(?nb, to_alloc - HDR, True)]) ?nb 0"
    unfolding seg_append using s3 by blast
  have "unat (to_alloc - HDR) = unat to_alloc - 20"
    using top(2) by (subst unat_sub) (auto simp: word_le_nat_alt)
  moreover have "unat (?nb + to_alloc) = unat ?nb + unat to_alloc" using top(1) by (simp add: unat_word_ariths)
  ultimately have tl': "tiled (unat (heap_start s)) (unat (?nb + to_alloc)) (bs @ [(?nb, to_alloc - HDR, True)])"
    using tl top(2) by (auto simp: tiled_append)
  define s' where "s' = s\<lparr>hmem := mem3, heap_end := heap_end s + to_alloc\<rparr>"
  have "kheap_append to_alloc s = Some s'"
    using h0 last_block_seg [OF s1 ne]
    by (simp add: kheap_append_def Let_def s'_def mem3_def mem2_def mem1_def)
  moreover have "heap_inv (bs @ [(?nb, to_alloc - HDR, True)]) s'"
    using sg' tl' z by (auto simp: heap_inv_def s'_def)
  ultimately show ?thesis by (auto simp: s'_def)
qed

lemma alloc_frame_null: "fst (pmm_alloc_frame p) = 0 \<Longrightarrow> snd (pmm_alloc_frame p) = p"
proof (cases "first_from (\<lambda>i. \<not> bitmap_test p i) 256 (PMM_MAX_FRAMES - 256)")
  case (Some f)
  then have "256 \<le> f" "f < PMM_MAX_FRAMES" by (auto simp: first_from_Some_iff)
  then have "of_nat f * PMM_PAGE_SIZE \<noteq> 0" using unat_page [of f] by (metis le_zero_eq mult_is_0 unat_0 zero_neq_numeral)
  moreover assume "fst (pmm_alloc_frame p) = 0"
  ultimately show ?thesis using Some by (auto simp: pmm_alloc_frame_def split: if_splits)
qed (simp add: pmm_alloc_frame_def)

lemma expand_pages_fail:
  "expand_pages base i n p m = (False, p', m') \<Longrightarrow> fst (pmm_alloc_frame p') = 0"
proof (induction n arbitrary: i p m)
  case (Suc n)
  show ?case
  proof (cases "fst (pmm_alloc_frame p) = 0")
    case True
    then have "pmm_alloc_frame p = (0, p)" using alloc_frame_null by (metis prod.collapse)
    then show ?thesis using Suc.prems by simp
  next
    case False
    then show ?thesis using Suc by (auto simp: Let_def split: prod.splits)
  qed
qed simp

lemma kheap_expand_inv:
  assumes inv: "heap_inv bs s" and top: "unat (heap_end s) + unat needed + 0x2000 < 2 ^ 32"
  obtains (oom) s' where "kheap_expand needed s = Some s'" "heap_inv bs s'" "heap_end s' = heap_end s"
      "kdata s' = kdata s" "fst (pmm_alloc_frame (kpmm s')) = 0"
  | (grown) s' sz where "kheap_expand needed s = Some s'" "heap_inv (bs @ [(heap_end s, sz, True)]) s'"
      "needed \<le> sz" "unat (heap_end s') + 16 < 2 ^ 32" "kdata s' = kdata s"
proof -
  define ta where "ta = page_up (needed + HDR)"
  have n: "unat (needed + HDR) = unat needed + 20" using top by (simp add: unat_word_ariths)
  have ta: "unat ta = 4096 * ((unat needed + 20 + 4095) div 4096)"
    using unat_page_up [of "needed + HDR"] top n by (simp add: ta_def)
  then have ge: "unat needed + 20 \<le> unat ta" "unat ta \<le> unat needed + 20 + 4095" by simp_all
  have sz: "needed \<le> ta - HDR"
    using ge(1) by (simp add: word_le_nat_alt) (subst unat_sub, auto simp: word_le_nat_alt)
  have room: "unat (heap_end s) + unat ta < 2 ^ 32" "20 \<le> unat ta" using top ge by simp_all
  have end': "unat (heap_end s + ta) + 16 < 2 ^ 32" using room(1) top ge(2) by (simp add: unat_word_ariths)
  have grow: thesis if r: "kheap_expand needed s = kheap_append ta s1" and i1: "heap_inv bs s1"
    and e1: "heap_end s1 = heap_end s" "kdata s1 = kdata s" for s1
  proof -
    obtain s' where "kheap_append ta s1 = Some s'"
      "heap_inv (bs @ [(heap_end s1, ta - HDR, True)]) s'" "heap_end s' = heap_end s1 + ta"
      "kdata s' = kdata s1"
      using kheap_append_inv [OF i1, of ta] room e1(1) by auto
    then show ?thesis using grown [of s' "ta - HDR"] r e1 sz end' by simp
  qed
  have ex: "(needed + HDR + 0xFFF) AND NOT 0xFFF = ta" by (simp add: ta_def page_up_def)
  show thesis
  proof (cases "heap_end s + ta > heap_max s")
    case False
    then have "kheap_expand needed s = kheap_append ta s"
      by (simp only: kheap_expand_def ex Let_def if_False)
    then show ?thesis by (rule grow) (use inv in simp_all)
  next
    case True
    obtain ok p m where e: "expand_pages (heap_end s) 0 (unat ((ta + 0xFFF) div 0x1000)) (kpmm s) (kmapped s)
        = (ok, p, m)" by (metis prod_cases3)
    let ?s1 = "s\<lparr>kpmm := p, kmapped := m\<rparr>"
    show ?thesis
    proof (cases ok)
      case True
      let ?hm = "if heap_end s + ta > IDENTITY_TOP then IDENTITY_TOP else heap_end s + ta"
      have "kheap_expand needed s = kheap_append ta (?s1\<lparr>heap_max := ?hm\<rparr>)"
        using \<open>heap_max s < heap_end s + ta\<close> True e
        by (simp only: kheap_expand_def ex Let_def if_True prod.case not_True_eq_False if_False)
      then show ?thesis by (rule grow) (use inv in \<open>simp_all add: heap_inv_def\<close>)
    next
      case False
      have "kheap_expand needed s = Some ?s1"
        using \<open>heap_max s < heap_end s + ta\<close> False e
        by (simp only: kheap_expand_def ex Let_def if_True prod.case not_False_eq_True)
      moreover have "heap_inv bs ?s1" using inv by (simp add: heap_inv_def)
      moreover have "fst (pmm_alloc_frame p) = 0" by (rule expand_pages_fail) (use e False in simp)
      ultimately show ?thesis using oom [of ?s1] by simp
    qed
  qed
qed

lemma first_fit_whole: "0 \<notin> set (addrs bs) \<Longrightarrow> a \<noteq> 0 \<Longrightarrow> len \<le> sz
    \<Longrightarrow> first_fit len (bs @ [(a, sz, True)]) \<noteq> 0"
  by (induction bs) (auto split: if_splits)

text \<open>What one call of \<open>kmalloc\<close> with a nonzero, roundable size does.\<close>

lemma kmalloc_cases:
  assumes inv: "heap_inv bs s" and top: "unat (heap_end s) + unat len0 + 0x2007 < 2 ^ 32"
    and nz: "len0 \<noteq> 0"
  obtains (null) s' where "kmalloc len0 s = Some (0, s')" "heap_inv bs s'" "kdata s' = kdata s"
      "\<forall>(a, sz, fr) \<in> set bs. fr \<longrightarrow> sz < (len0 + 7) AND NOT 7"
      "fst (pmm_alloc_frame (kpmm s')) = 0"
  | (block) a tz s' bs' where "kmalloc len0 s = Some (a + HDR, s')" "heap_inv bs' s'" "kdata s' = kdata s"
      "used bs' = insert (a, tz) (used bs)" "len0 \<le> tz" "a \<notin> fst ` used bs" "a \<noteq> 0" "a + HDR \<noteq> 0"
proof -
  let ?len = "(len0 + 7) AND NOT 7 :: u32"
  have len: "unat ?len = 8 * ((unat len0 + 7) div 8)" using round8 [of len0] top by simp
  then have le: "unat len0 \<le> unat ?len" "unat ?len \<le> unat len0 + 7" by simp_all
  have take: thesis if i1: "heap_inv cs s1" and e1: "unat (heap_end s1) + 16 < 2 ^ 32"
    and u1: "used cs = used bs" and d1: "kdata s1 = kdata s" and f1: "first_fit ?len cs = a" "a \<noteq> 0"
    and r: "kmalloc len0 s = Some (take_block a ?len s1)" for cs s1 a
  proof -
    obtain xs sz ys where cs: "cs = xs @ (a, sz, True) # ys" and fit: "?len \<le> sz"
      using first_fit_found [OF f1] by blast
    obtain bs' tz where b: "heap_inv bs' (snd (take_block a ?len s1))" "?len \<le> tz"
      "used bs' = insert (a, tz) (used cs)"
      using take_block_inv [OF i1 [unfolded cs] e1 fit] unfolding cs by blast
    have "a \<notin> set (addrs (xs @ ys))" using heap_inv_distinct [OF i1] cs by auto
    then have new: "a \<notin> fst ` used bs" using used_addrs [of "xs @ ys"] u1 unfolding cs used_free by blast
    have "unat a + 20 + unat sz \<le> unat (heap_end s1)"
      using tiled_bounds [of _ _ cs a sz True] i1 cs by (auto simp: heap_inv_def)
    then have "unat (a + HDR) = unat a + 20" using e1 by (simp add: unat_word_ariths)
    then have "a + HDR \<noteq> 0" by (metis add_is_0 unat_0 zero_neq_numeral)
    moreover have "len0 \<le> tz" using le(1) b(2) by (simp add: word_le_nat_alt)
    moreover have "kmalloc len0 s = Some (a + HDR, snd (take_block a ?len s1))"
      using r by (metis prod.collapse take_block_frame(1))
    ultimately show ?thesis using block [OF _ b(1)] b(3) u1 d1 new f1(2) by (simp add: frame_simps)
  qed
  show thesis
  proof (cases "first_fit ?len bs = 0")
    case False
    have "kmalloc len0 s = Some (take_block (first_fit ?len bs) ?len s)"
      using False nz find_free_inv [OF inv] by (simp only: kmalloc_def Let_def if_False option.case if_True not_False_eq_True)
    moreover have "unat (heap_end s) + 16 < 2 ^ 32" using top by simp
    ultimately show ?thesis using take [OF inv] False by simp
  next
    case True
    have "unat (heap_end s) + unat ?len + 0x2000 < 2 ^ 32" using le top by simp
    from inv this show ?thesis
    proof (cases rule: kheap_expand_inv)
      case (oom s')
      have "find_free ?len s' = Some 0" using find_free_inv [OF oom(2), of ?len] True by (simp only:)
      then have "kmalloc len0 s = Some (0, s')"
        using True nz find_free_inv [OF inv, of ?len] oom(1)
        by (simp only: kmalloc_def Let_def if_False option.case if_True simp_thms)
      moreover have "\<forall>(a, sz, fr) \<in> set bs. fr \<longrightarrow> sz < ?len"
        using first_fit_none [OF True heap_inv_nonzero [OF inv]] by (auto simp: not_le)
      ultimately show ?thesis using null oom by blast
    next
      case (grown s' sz)
      let ?cs = "bs @ [(heap_end s, sz, True)]"
      have a0: "first_fit ?len ?cs \<noteq> 0"
        by (rule first_fit_whole) (use heap_inv_nonzero [OF grown(2)] grown(3) in auto)
      have "find_free ?len s' = Some (first_fit ?len ?cs)" using find_free_inv [OF grown(2)] .
      then have "kmalloc len0 s = Some (take_block (first_fit ?len ?cs) ?len s')"
        using True nz find_free_inv [OF inv, of ?len] grown(1) a0
        by (simp only: kmalloc_def Let_def if_False option.case if_True simp_thms)
      moreover have "used ?cs = used bs" by (auto simp: used_def)
      ultimately show ?thesis using take [OF grown(2) grown(4) _ grown(5) refl a0] by simp
    qed
  qed
qed

section \<open>Releasing a live block\<close>

lemma tiled_absorb:
  assumes "tiled lo hi (xs @ (a, sa, fa) # (b, sb, fb) # ys)" "hi < 2 ^ 32"
  shows "tiled lo hi (xs @ (a, sa + (HDR + sb), fa) # ys)"
proof -
  obtain mid where t: "tiled lo mid xs" "unat a = mid" "unat b = mid + 20 + unat sa"
    and ty: "tiled (unat b + 20 + unat sb) hi ys"
    using assms(1) by (auto simp: tiled_append)
  have "unat (sa + (HDR + sb)) = unat sa + 20 + unat sb"
    using tiled_le [OF ty] t assms(2) by (simp add: unat_word_ariths)
  then have "mid + 20 + unat (sa + (HDR + sb)) = unat b + 20 + unat sb" using t by simp
  then have "tiled mid hi ((a, sa + (HDR + sb), fa) # ys)" using ty t(2) by (simp only: tiled.simps simp_thms)
  then show ?thesis using t(1) unfolding tiled_append by blast
qed

lemma seg_last: "seg mem prv p (xs @ [(c, sc, fc)]) l q \<Longrightarrow> l = c"
  by (auto simp: seg_append)

definition coalesce_with :: "u32 \<Rightarrow> u32 \<Rightarrow> u32 \<Rightarrow> hmap \<Rightarrow> hmap" where
  "coalesce_with x a b mem =
     (if x \<noteq> 0 \<and> hfree (mem x) \<and> hmagic (mem x) = KHEAP_MAGIC then absorb_next a b mem else mem)"

lemma coalesce_succ:
  assumes sg: "seg mem 0 h (xs @ (a, sa, True) # ys) l 0" and tl: "tiled lo hi (xs @ (a, sa, True) # ys)"
    and hi: "hi < 2 ^ 32"
  shows "\<exists>sa' zs l'. seg (coalesce_with (hnext (mem a)) a (hnext (mem a)) mem) 0 h (xs @ (a, sa', True) # zs) l' 0
    \<and> tiled lo hi (xs @ (a, sa', True) # zs) \<and> used zs = used ys"
proof (cases ys)
  case Nil
  then have "hnext (mem a) = 0" using sg by (auto simp: seg_append)
  then show ?thesis using sg tl unfolding coalesce_with_def by auto
next
  case (Cons y zs)
  obtain b sb fb where y: "y = (b, sb, fb)" by (cases y)
  have b: "hnext (mem a) = b" "b \<noteq> 0" "hfree (mem b) = fb" "hmagic (mem b) = KHEAP_MAGIC"
    using sg unfolding Cons y by (auto simp: seg_append)
  show ?thesis
  proof (cases fb)
    case True
    have "used ys = used zs" using True unfolding Cons y by (auto simp: used_def)
    then show ?thesis
      using seg_absorb [OF sg [unfolded Cons y] tiled_distinct [OF tl [unfolded Cons y]]]
        tiled_absorb [OF tl [unfolded Cons y] hi] b True unfolding coalesce_with_def by auto
  next
    case False
    then show ?thesis using sg tl b unfolding coalesce_with_def by auto
  qed
qed

lemma coalesce_pred:
  assumes sg: "seg mem 0 h (xs @ (a, sa, True) # ys) l 0" and tl: "tiled lo hi (xs @ (a, sa, True) # ys)"
    and hi: "hi < 2 ^ 32"
  shows "\<exists>zs l'. seg (coalesce_with (hprev (mem a)) (hprev (mem a)) a mem) 0 h zs l' 0
    \<and> tiled lo hi zs \<and> zs \<noteq> [] \<and> used zs = used (xs @ ys)"
proof (cases xs rule: rev_cases)
  case Nil
  then have "hprev (mem a) = 0" using sg by auto
  moreover have "used (xs @ (a, sa, True) # ys) = used (xs @ ys)" by (rule used_free)
  ultimately show ?thesis using sg tl unfolding coalesce_with_def by auto
next
  case (snoc ws w)
  obtain c sc fc where w: "w = (c, sc, fc)" by (cases w)
  have sg': "seg mem 0 h (ws @ (c, sc, fc) # (a, sa, True) # ys) l 0"
    and tl': "tiled lo hi (ws @ (c, sc, fc) # (a, sa, True) # ys)"
    using sg tl unfolding snoc w by simp_all
  have c: "hprev (mem a) = c" "c \<noteq> 0" "hfree (mem c) = fc" "hmagic (mem c) = KHEAP_MAGIC"
    using sg' by (auto simp: seg_append)
  show ?thesis
  proof (cases fc)
    case True
    have "used (ws @ (c, sc + (HDR + sa), True) # ys) = used (xs @ ys)"
      using True unfolding snoc w by (auto simp: used_def)
    then show ?thesis
      using seg_absorb [OF sg' tiled_distinct [OF tl']] tiled_absorb [OF tl' hi] c True
      unfolding coalesce_with_def by auto
  next
    case False
    have "used (xs @ (a, sa, True) # ys) = used (xs @ ys)" by (rule used_free)
    then show ?thesis using sg tl c False unfolding coalesce_with_def by auto
  qed
qed

lemma kfree_coalesce:
  "\<lbrakk>ptr \<noteq> 0; hmagic (hmem s (ptr - HDR)) = KHEAP_MAGIC\<rbrakk> \<Longrightarrow>
   kfree ptr s =
     (let b = ptr - HDR; mem1 = (hmem s)(b := (hmem s b)\<lparr>hfree := True\<rparr>);
          mem2 = coalesce_with (hnext (mem1 b)) b (hnext (mem1 b)) mem1
      in s\<lparr>hmem := coalesce_with (hprev (mem2 b)) (hprev (mem2 b)) b mem2\<rparr>)"
  by (simp only: kfree_def Let_def coalesce_with_def if_False simp_thms)

lemma used_split:
  assumes "(a, sz) \<in> used bs" "distinct (addrs bs)"
  obtains xs ys where "bs = xs @ (a, sz, False) # ys" "used (xs @ ys) = used bs - {(a, sz)}"
proof -
  obtain xs ys where bs: "bs = xs @ (a, sz, False) # ys"
    using assms(1) by (auto simp: used_def dest: split_list)
  then have "a \<notin> set (addrs (xs @ ys))" using assms(2) by auto
  then have "(a, sz) \<notin> used (xs @ ys)" using used_addrs [of "xs @ ys"] by force
  then have "used (xs @ ys) = used bs - {(a, sz)}" unfolding bs used_busy by auto
  then show ?thesis using that bs by blast
qed

lemma kfree_inv:
  assumes inv: "heap_inv bs s" and live: "(ptr - HDR, sz) \<in> used bs" and nz: "ptr \<noteq> 0"
  shows "\<exists>bs'. heap_inv bs' (kfree ptr s) \<and> used bs' = used bs - {(ptr - HDR, sz)}"
proof -
  let ?a = "ptr - HDR" and ?lo = "unat (heap_start s)" and ?hi = "unat (heap_end s)"
  obtain xs ys where bs: "bs = xs @ (?a, sz, False) # ys" and u: "used (xs @ ys) = used bs - {(?a, sz)}"
    using used_split [OF live heap_inv_distinct [OF inv]] .
  obtain l where sg: "seg (hmem s) 0 (hhead s) (xs @ (?a, sz, False) # ys) l 0"
    and tl: "tiled ?lo ?hi (xs @ (?a, sz, False) # ys)" and z: "0 < ?lo"
    using inv unfolding bs by (auto simp: heap_inv_def)
  have mg: "hmagic (hmem s ?a) = KHEAP_MAGIC" using sg by (auto simp: seg_append)
  define mem1 where "mem1 = (hmem s)(?a := (hmem s ?a)\<lparr>hfree := True\<rparr>)"
  have "mem1 = (hmem s)(?a := (hmem s ?a)\<lparr>hfree := True, hmagic := KHEAP_MAGIC\<rparr>)"
    using mg by (simp add: mem1_def fun_eq_iff)
  then have s1: "seg mem1 0 (hhead s) (xs @ (?a, sz, True) # ys) l 0"
    using seg_mark [OF sg tiled_distinct [OF tl], of True] by (simp only:)
  have t1: "tiled ?lo ?hi (xs @ (?a, sz, True) # ys)" using tl by (auto simp: tiled_append)
  have hi: "?hi < 2 ^ 32" using unsigned_less [of "heap_end s"] by simp
  define mem2 where "mem2 = coalesce_with (hnext (mem1 ?a)) ?a (hnext (mem1 ?a)) mem1"
  obtain sa zs l2 where s2: "seg mem2 0 (hhead s) (xs @ (?a, sa, True) # zs) l2 0"
    and t2: "tiled ?lo ?hi (xs @ (?a, sa, True) # zs)" and u2: "used zs = used ys"
    using coalesce_succ [OF s1 t1 hi] unfolding mem2_def by blast
  define mem3 where "mem3 = coalesce_with (hprev (mem2 ?a)) (hprev (mem2 ?a)) ?a mem2"
  obtain ws l3 where s3: "seg mem3 0 (hhead s) ws l3 0" and t3: "tiled ?lo ?hi ws" "ws \<noteq> []"
    and u3: "used ws = used (xs @ zs)"
    using coalesce_pred [OF s2 t2 hi] unfolding mem3_def by blast
  have "kfree ptr s = s\<lparr>hmem := mem3\<rparr>"
    using kfree_coalesce [OF nz mg] by (simp only: Let_def mem3_def mem2_def mem1_def)
  then have "heap_inv ws (kfree ptr s)" using s3 t3 z by (auto simp: heap_inv_def)
  moreover have "used ws = used (xs @ ys)" using u2 u3 by (auto simp: used_def)
  ultimately show ?thesis using u by auto
qed

lemma kheap_init_inv:
  assumes "unat kend \<le> 0x700000" "0 < unat kend"
  obtains sz where "heap_inv [(heap_start (kheap_init kend s), sz, True)] (kheap_init kend s)"
    "unat (heap_end (kheap_init kend s)) \<le> 0x800000"
proof -
  let ?st = "page_up kend" and ?s = "kheap_init kend s"
  have st: "unat ?st = 4096 * ((unat kend + 4095) div 4096)"
    by (rule unat_page_up) (use assms in simp)
  then have b: "unat ?st \<le> 0x700000" "0 < unat ?st" using assms by auto
  then have e0: "unat (?st + KHEAP_INITIAL_SIZE) = unat ?st + 0x100000" by (simp add: unat_word_ariths)
  then have e: "heap_end ?s = ?st + KHEAP_INITIAL_SIZE"
    using b by (auto simp: kheap_init_def Let_def word_less_nat_alt)
  have "unat (?st + KHEAP_INITIAL_SIZE - ?st - HDR) = 0x100000 - 20" by simp
  then have "tiled (unat ?st) (unat (heap_end ?s)) [(?st, heap_end ?s - ?st - HDR, True)]"
    using e e0 by simp
  moreover have "seg (hmem ?s) 0 ?st [(?st, heap_end ?s - ?st - HDR, True)] ?st 0"
    using b by (auto simp: kheap_init_def Let_def new_header_def)
  moreover have "heap_start ?s = ?st" "hhead ?s = ?st" by (simp_all add: kheap_init_def Let_def)
  ultimately have "heap_inv [(heap_start ?s, heap_end ?s - ?st - HDR, True)] ?s"
    using b by (auto simp: heap_inv_def simp del: tiled.simps)
  then show ?thesis using that e e0 b by simp
qed

section \<open>What the clients of the heap may rely on\<close>

text \<open>Every use of the heap from boot on: \<open>live\<close> is the client's view, the pointers it holds
  with the sizes it asked for.  The bound on \<open>heap_end\<close> keeps the address arithmetic inside
  32 bits.\<close>

inductive heap_reach :: "u32 \<Rightarrow> kheap \<Rightarrow> (u32 \<times> u32) set \<Rightarrow> bool" for kend where
  boot: "heap_reach kend (kheap_init kend s0) {}"
| alloc: "\<lbrakk>heap_reach kend s live; unat (heap_end s) + unat len + 0x2007 < 2 ^ 32;
     kmalloc len s = Some (p, s')\<rbrakk>
     \<Longrightarrow> heap_reach kend s' (if p = 0 then live else insert (p, len) live)"
| free: "\<lbrakk>heap_reach kend s live; (p, len) \<in> live\<rbrakk> \<Longrightarrow> heap_reach kend (kfree p s) (live - {(p, len)})"

definition client_view :: "blk list \<Rightarrow> (u32 \<times> u32) set \<Rightarrow> bool" where
  "client_view bs live \<longleftrightarrow>
     (\<forall>(p, n) \<in> live. p \<noteq> 0 \<and> (\<exists>tz. n \<le> tz \<and> (p - HDR, tz) \<in> used bs))
     \<and> (\<forall>p n m. (p, n) \<in> live \<longrightarrow> (p, m) \<in> live \<longrightarrow> n = m)"

lemma client_viewD:
  "\<lbrakk>client_view bs live; (p, n) \<in> live\<rbrakk> \<Longrightarrow> p \<noteq> 0 \<and> (\<exists>tz. n \<le> tz \<and> (p - HDR, tz) \<in> used bs)"
  by (auto simp: client_view_def)

lemma client_view_mono: "\<lbrakk>client_view bs live; used bs' = used bs\<rbrakk> \<Longrightarrow> client_view bs' live"
  by (simp add: client_view_def)

lemma client_view_alloc:
  assumes "client_view bs live" "used bs' = insert (a, tz) (used bs)" "n \<le> tz" "a \<notin> fst ` used bs"
    "a + HDR \<noteq> 0"
  shows "client_view bs' (insert (a + HDR, n) live)"
proof -
  have "(a + HDR, m) \<notin> live" for m using assms(1,4) client_viewD [of bs live "a + HDR" m] by force
  then show ?thesis using assms by (auto simp: client_view_def)
qed

lemma client_view_free:
  assumes "client_view bs live" "used bs' = used bs - {(p - HDR, tz)}" "(p, n) \<in> live"
  shows "client_view bs' (live - {(p, n)})"
proof -
  have one: "m = n" if "(p, m) \<in> live" for m
    using that assms(1,3) unfolding client_view_def by blast
  have "q \<noteq> 0 \<and> (\<exists>uz. m \<le> uz \<and> (q - HDR, uz) \<in> used bs')" if q: "(q, m) \<in> live" "(q, m) \<noteq> (p, n)" for q m
  proof -
    obtain uz where uz: "q \<noteq> 0" "m \<le> uz" "(q - HDR, uz) \<in> used bs" using client_viewD [OF assms(1) q(1)] by blast
    have "q \<noteq> p" using q one by metis
    then show ?thesis using uz assms(2) by auto
  qed
  moreover have "k = m" if "(q, k) \<in> live" "(q, m) \<in> live" for q k m
    using that assms(1) unfolding client_view_def by blast
  ultimately show ?thesis unfolding client_view_def Ball_def split_paired_All prod.case by blast
qed

lemma heap_reach_inv:
  assumes "heap_reach kend s live" "unat kend \<le> 0x700000" "0 < unat kend"
  shows "\<exists>bs. heap_inv bs s \<and> client_view bs live"
  using assms
proof (induction rule: heap_reach.induct)
  case (boot s0)
  have "client_view bs {}" for bs by (simp add: client_view_def)
  moreover obtain sz where "heap_inv [(heap_start (kheap_init kend s0), sz, True)] (kheap_init kend s0)"
    using kheap_init_inv boot by blast
  ultimately show ?case by blast
next
  case (alloc s live len p s')
  then obtain bs where inv: "heap_inv bs s" and cv: "client_view bs live" by blast
  show ?case
  proof (cases "len = 0")
    case True
    then show ?thesis using alloc inv cv by (auto simp: kmalloc_def)
  next
    case False
    from inv alloc.hyps(2) False show ?thesis
    proof (cases rule: kmalloc_cases)
      case (null s1)
      then show ?thesis using alloc.hyps(3) cv by auto
    next
      case (block a tz s1 bs')
      then have "p = a + HDR" "s1 = s'" using alloc.hyps(3) by simp_all
      then show ?thesis using block(2,8) client_view_alloc [OF cv block(4,5,6,8)] by (simp only: if_False) blast
    qed
  qed
next
  case (free s live p len)
  then obtain bs where inv: "heap_inv bs s" and cv: "client_view bs live" by blast
  then obtain tz where u: "(p - HDR, tz) \<in> used bs" "p \<noteq> 0" using client_viewD [OF cv free.hyps(2)] by blast
  then obtain bs' where "heap_inv bs' (kfree p s)" "used bs' = used bs - {(p - HDR, tz)}"
    using kfree_inv [OF inv u] by blast
  then show ?case using client_view_free [OF cv _ free.hyps(2)] by blast
qed

text \<open>C1.  From boot on, whatever sequence of allocations and releases of live blocks is made,
  two live blocks never overlap, each lies inside the heap, and between the end of one and the start of the
  next there is room for the next one's header: no client's data can reach another's
  data or a header.\<close>
theorem kheap_blocks_never_overlap:
  assumes "heap_reach kend s live" "unat kend \<le> 0x700000" "0 < unat kend"
    and "(p, n) \<in> live" "(q, m) \<in> live" "p \<noteq> q"
  shows "(unat p + unat n + 20 \<le> unat q \<or> unat q + unat m + 20 \<le> unat p)
    \<and> unat (heap_start s) + 20 \<le> unat p \<and> unat p + unat n \<le> unat (heap_end s)"
proof -
  obtain bs where inv: "heap_inv bs s" and cv: "client_view bs live"
    using heap_reach_inv assms(1-3) by blast
  obtain tz uz where t: "n \<le> tz" "(p - HDR, tz, False) \<in> set bs"
    and u: "m \<le> uz" "(q - HDR, uz, False) \<in> set bs"
    using client_viewD [OF cv assms(4)] client_viewD [OF cv assms(5)] by (auto simp: used_def)
  have tl: "tiled (unat (heap_start s)) (unat (heap_end s)) bs" using inv by (simp add: heap_inv_def)
  have hd: "unat a = unat (a - HDR) + 20" if "unat (a - HDR) + 20 + k \<le> unat (heap_end s)" for a k
  proof -
    have "unat (heap_end s) < 2 ^ 32" using unsigned_less [of "heap_end s"] by simp
    then have "unat ((a - HDR) + HDR) = unat (a - HDR) + 20" using that by (subst unat_word_ariths) simp
    then show ?thesis by simp
  qed
  note bt = tiled_bounds [OF tl t(2)] and bu = tiled_bounds [OF tl u(2)]
  have "unat (p - HDR) + 20 + unat tz \<le> unat (q - HDR) \<or> unat (q - HDR) + 20 + unat uz \<le> unat (p - HDR)"
    using tiled_disjoint [OF tl t(2) u(2)] assms(6) by simp
  moreover have "unat n \<le> unat tz" "unat m \<le> unat uz" using t u by (simp_all add: word_le_nat_alt)
  ultimately show ?thesis using bt bu hd [of p "unat tz"] hd [of q "unat uz"] by linarith
qed

definition demo_heap :: kheap where
  "demo_heap = \<lparr>hmem = (\<lambda>_. new_header 0 0 0), kdata = (\<lambda>_. 0), heap_start = 0, heap_end = 0, heap_max = 0,
     hhead = 0, kpmm = pmm_blank, kmapped = []\<rparr>"

lemmas heap_eval = kheap_init_def page_up_def new_header_def kmalloc_def find_free_def
  find_free_from.simps take_block_def split_block_def set_prev_def Let_def

lemma demo_first: "\<exists>s1. kmalloc 16 (kheap_init 0x112000 demo_heap) = Some (0x112014, s1) \<and>
   (\<exists>s2. kmalloc 32 s1 = Some (0x112038, s2)) \<and> heap_end s1 = 0x212000"
  by (simp add: heap_eval demo_heap_def)

theorem kheap_blocks_never_overlap_witness:
  "\<exists>s. heap_reach 0x112000 s {(0x112014, 16), (0x112038, 32)}
     \<and> ((unat (0x112014 :: u32) + unat (16 :: u32) + 20 \<le> unat (0x112038 :: u32)
          \<or> unat (0x112038 :: u32) + unat (32 :: u32) + 20 \<le> unat (0x112014 :: u32))
       \<and> unat (heap_start s) + 20 \<le> unat (0x112014 :: u32)
       \<and> unat (0x112014 :: u32) + unat (16 :: u32) \<le> unat (heap_end s))"
proof -
  obtain s1 s2 where m: "kmalloc 16 (kheap_init 0x112000 demo_heap) = Some (0x112014, s1)"
    "kmalloc 32 s1 = Some (0x112038, s2)" "heap_end s1 = 0x212000" using demo_first by blast
  have "heap_end (kheap_init 0x112000 demo_heap) = 0x212000"
    by (simp add: kheap_init_def page_up_def)
  then have "heap_reach 0x112000 s1 {(0x112014, 16)}"
    using heap_reach.alloc [OF heap_reach.boot _ m(1)] by simp
  then have r: "heap_reach 0x112000 s2 {(0x112014, 16), (0x112038, 32)}"
    using heap_reach.alloc [OF _ _ m(2), of "0x112000" "{(0x112014, 16)}"] m(3)
    by (simp add: insert_commute)
  show ?thesis
    by (rule exI [of _ s2], rule conjI [OF r], rule kheap_blocks_never_overlap [OF r]) simp_all
qed



lemma kfree_hmem: "\<exists>m. kfree ptr s = s\<lparr>hmem := m\<rparr>"
proof (cases "ptr = 0 \<or> hmagic (hmem s (ptr - HDR)) \<noteq> KHEAP_MAGIC")
  case True
  then have "kfree ptr s = s" by (rule disjE) (simp_all only: kfree_def Let_def if_True if_cancel simp_thms)
  then have "kfree ptr s = s\<lparr>hmem := hmem s\<rparr>" by simp
  then show ?thesis by blast
next
  case False
  then show ?thesis using kfree_coalesce [of ptr s] unfolding Let_def by blast
qed

lemma kfree_frame [frame_simps]:
  "kdata (kfree ptr s) = kdata s" "heap_end (kfree ptr s) = heap_end s" "heap_start (kfree ptr s) = heap_start s"
  using kfree_hmem [of ptr s] by auto

text \<open>C8.  Releasing a live block removes exactly that block from the live ones, whatever
  the neighbours it is merged with, keeps the list well formed, and writes no payload byte.\<close>
theorem kfree_functional:
  assumes "heap_inv bs s" "(ptr - HDR, sz) \<in> used bs" "ptr \<noteq> 0"
  shows "\<exists>bs'. heap_inv bs' (kfree ptr s) \<and> used bs' = used bs - {(ptr - HDR, sz)}
    \<and> kdata (kfree ptr s) = kdata s"
  using kfree_inv [OF assms] by (simp add: kfree_frame)

theorem kfree_functional_witness:
  "\<exists>bs s. heap_inv bs s \<and> used bs = {} \<and> (\<exists>t. kmalloc 16 (kheap_init 0x112000 demo_heap) = Some (0x112014, t)
     \<and> s = kfree 0x112014 t)"
proof -
  obtain sz where i: "heap_inv [(heap_start (kheap_init 0x112000 demo_heap), sz, True)]
      (kheap_init 0x112000 demo_heap)"
    by (rule kheap_init_inv [of "0x112000" demo_heap]) auto
  obtain t where t: "kmalloc 16 (kheap_init 0x112000 demo_heap) = Some (0x112014, t)"
    using demo_first by blast
  have u: "used [(heap_start (kheap_init 0x112000 demo_heap), sz, True)] = {}" by (simp add: used_def)
  have e: "unat (heap_end (kheap_init 0x112000 demo_heap)) + unat (16 :: u32) + 0x2007 < 2 ^ 32"
    by (simp add: kheap_init_def page_up_def)
  have n: "(16 :: u32) \<noteq> 0" by simp
  from i e n obtain bs' tz where b: "heap_inv bs' t" "used bs' = {(0x112000, tz)}"
    by (cases rule: kmalloc_cases) (use t u in auto)
  have "\<exists>bs''. heap_inv bs'' (kfree 0x112014 t) \<and> used bs'' = used bs' - {(0x112014 - HDR, tz)}
      \<and> kdata (kfree 0x112014 t) = kdata t"
    by (rule kfree_functional [OF b(1)]) (use b(2) in auto)
  then show ?thesis using b(2) t by auto
qed

section \<open>Moving and aligning\<close>

lemma heap_inv_kdata [simp]: "heap_inv bs (s\<lparr>kdata := d\<rparr>) = heap_inv bs s"
  by (simp add: heap_inv_def)

text \<open>A byte of one live block is not among the first bytes of another.\<close>

lemma live_apart:
  assumes inv: "heap_inv bs s" and u: "(a, sz) \<in> used bs" "(b, tz) \<in> used bs" "a \<noteq> b"
    and j: "j < unat tz" and w: "w \<le> sz"
  shows "\<not> (b + HDR + of_nat j) - (a + HDR) < w"
proof -
  have tl: "tiled (unat (heap_start s)) (unat (heap_end s)) bs" using inv by (simp add: heap_inv_def)
  have m: "(a, sz, False) \<in> set bs" "(b, tz, False) \<in> set bs" using u by (auto simp: used_def)
  have top: "unat (heap_end s) < 2 ^ 32" by (rule u32_less)
  note d = tiled_disjoint [OF tl m u(3)] and ba = tiled_bounds [OF tl m(1)] and bb = tiled_bounds [OF tl m(2)]
  have x: "unat (a + HDR) = unat a + 20" using ba top by (simp add: unat_word_ariths)
  have y: "unat (b + HDR + of_nat j) = unat b + 20 + j" using bb j top by (simp add: unat_word_ariths unat_of_nat_u32)
  have w': "unat w \<le> unat sz" using w by (simp add: word_le_nat_alt)
  show ?thesis
  proof (cases "unat (b + HDR + of_nat j) < unat (a + HDR)")
    case True
    then have "unat ((b + HDR + of_nat j) - (a + HDR)) = 2 ^ 32 + (unat b + 20 + j) - (unat a + 20)"
      using unat_sub_wrap [OF True] x y by simp
    then show ?thesis using ba top w' by (auto simp: word_less_nat_alt)
  next
    case False
    then have "unat ((b + HDR + of_nat j) - (a + HDR)) = (unat b + 20 + j) - (unat a + 20)"
      using x y by (subst unat_sub) (auto simp: word_le_nat_alt)
    then show ?thesis using False d x y w' j by (simp add: word_less_nat_alt)
  qed
qed

lemma copy_bytes_in: "i < unat n \<Longrightarrow> copy_bytes q p n d (q + of_nat i) = d (p + of_nat i)"
proof -
  assume i: "i < unat n"
  have "unat (of_nat i :: u32) = i" using i u32_less [of n] by (simp add: unat_of_nat_u32)
  then show ?thesis using i by (simp add: copy_bytes_def word_less_nat_alt)
qed

lemma used_hsize: "\<lbrakk>heap_inv bs s; (a, sz) \<in> used bs\<rbrakk> \<Longrightarrow> hsize (hmem s a) = sz"
  by (auto simp: heap_inv_def used_def seg_append dest!: split_list)

text \<open>Growing a live block moves its contents: when \<open>krealloc\<close> returns a block, its first bytes are
  the old block's bytes, the old block is gone from the live ones, the new one is at least
  as large as asked, and no other live block's bytes changed.  When it returns null, the old
  block is still live and nothing was written.\<close>
theorem krealloc_moves_contents:
  assumes "heap_inv bs s" "unat (heap_end s) + unat len + 0x2007 < 2 ^ 32"
    and "(ptr - HDR, old) \<in> used bs" "ptr \<noteq> 0" "old < len"
  shows "\<exists>q s' bs'. krealloc ptr len s = Some (q, s') \<and> heap_inv bs' s' \<and>
    (if q = 0 then used bs' = used bs \<and> kdata s' = kdata s
     else (\<exists>tz \<ge> len. used bs' = insert (q - HDR, tz) (used bs) - {(ptr - HDR, old)})
       \<and> (\<forall>i < unat old. kdata s' (q + of_nat i) = kdata s (ptr + of_nat i))
       \<and> (\<forall>(b, bz) \<in> used bs. \<forall>j < unat bz.
            kdata s' (b + HDR + of_nat j) = kdata s (b + HDR + of_nat j)))"
proof -
  have hs: "hsize (hmem s (ptr - HDR)) = old"
    using used_hsize assms(1,3) by blast
  have ln: "len \<noteq> 0" using assms(5) by auto
  have kr: "krealloc ptr len s = (case kmalloc len s of None \<Rightarrow> None | Some (q, s1) \<Rightarrow>
      if q = 0 then Some (0, s1)
      else Some (q, kfree ptr (s1\<lparr>kdata := copy_bytes q ptr old (kdata s1)\<rparr>)))"
    using assms(4,5) ln hs by (simp add: krealloc_def Let_def flip: not_less)
  from assms(1,2) ln show ?thesis
  proof (cases rule: kmalloc_cases)
    case (null s1)
    then have "krealloc ptr len s = Some (0, s1)" using kr by simp
    then show ?thesis using null by (intro exI [of _ 0] exI [of _ s1] exI [of _ bs]) simp
  next
    case (block a tz s1 bs1)
    let ?q = "a + HDR" and ?d = "copy_bytes (a + HDR) ptr old (kdata s)"
    let ?s2 = "s1\<lparr>kdata := ?d\<rparr>"
    have r: "krealloc ptr len s = Some (?q, kfree ptr ?s2)" using kr block by simp
    have "(ptr - HDR, old) \<in> used bs1" using block(4) assms(3) by simp
    then obtain bs' where b': "heap_inv bs' (kfree ptr ?s2)" "used bs' = used bs1 - {(ptr - HDR, old)}"
      using kfree_inv [of bs1 ?s2 ptr old] block(2) assms(4) by auto
    have new: "(a, tz) \<in> used bs1" using block(4) by simp
    have "old \<le> tz" using assms(5) block(5) by simp
    then have keep: "?d (b + HDR + of_nat j) = kdata s (b + HDR + of_nat j)"
      if "(b, bz) \<in> used bs" "j < unat bz" for b bz j
      using live_apart [OF block(2) new, of b bz j old] that block(4,6)
      unfolding copy_bytes_def by force
    show ?thesis
    proof (intro exI conjI)
      show "krealloc ptr len s = Some (?q, kfree ptr ?s2)" by (rule r)
      show "heap_inv bs' (kfree ptr ?s2)" by (rule b'(1))
      have "used bs' = insert (?q - HDR, tz) (used bs) - {(ptr - HDR, old)}" using b'(2) block(4) by simp
      moreover have "kdata (kfree ptr ?s2) = ?d" by (simp add: kfree_frame)
      ultimately show "if ?q = 0 then used bs' = used bs \<and> kdata (kfree ptr ?s2) = kdata s
        else (\<exists>tz \<ge> len. used bs' = insert (?q - HDR, tz) (used bs) - {(ptr - HDR, old)})
         \<and> (\<forall>i < unat old. kdata (kfree ptr ?s2) (?q + of_nat i) = kdata s (ptr + of_nat i))
         \<and> (\<forall>(b, bz) \<in> used bs. \<forall>j < unat bz.
              kdata (kfree ptr ?s2) (b + HDR + of_nat j) = kdata s (b + HDR + of_nat j))"
        using block(5,8) keep copy_bytes_in by auto
    qed
  qed
qed

lemma demo_live:
  obtains t bs where "kmalloc 16 (kheap_init 0x112000 demo_heap) = Some (0x112014, t)"
    "heap_inv bs t" "used bs = {(0x112000, 16)}" "heap_end t = 0x212000"
proof -
  let ?s = "kheap_init 0x112000 demo_heap"
  obtain sz where i: "heap_inv [(heap_start ?s, sz, True)] ?s"
    by (rule kheap_init_inv [of "0x112000" demo_heap]) auto
  have e: "unat (heap_end ?s) + unat (16 :: u32) + 0x2007 < 2 ^ 32"
    by (simp add: kheap_init_def page_up_def)
  have t: "\<exists>t. kmalloc 16 ?s = Some (0x112014, t) \<and> hsize (hmem t 0x112000) = 16 \<and> heap_end t = 0x212000"
    by (simp add: heap_eval demo_heap_def)
  have u: "used [(heap_start ?s, sz, True)] = {}" by (simp add: used_def)
  have n: "(16 :: u32) \<noteq> 0" by simp
  from i e n show ?thesis
  proof (cases rule: kmalloc_cases)
    case (null s')
    then show ?thesis using t by simp
  next
    case (block a tz s' bs')
    then have "a = 0x112000" "tz = 16" using t u used_hsize [OF block(2), of a tz] by auto
    then show ?thesis using that [of s' bs'] block t u by auto
  qed
qed

theorem krealloc_moves_contents_witness:
  "\<exists>bs s. heap_inv bs s \<and> used bs = {(0x112000, 16)} \<and>
     (\<exists>q s' bs'. krealloc 0x112014 64 s = Some (q, s') \<and> heap_inv bs' s')"
proof -
  obtain t bs where t: "heap_inv bs t" "used bs = {(0x112000, 16)}" "heap_end t = 0x212000"
    by (rule demo_live)
  have "\<exists>q s' bs'. krealloc 0x112014 64 t = Some (q, s') \<and> heap_inv bs' s' \<and>
    (if q = 0 then used bs' = used bs \<and> kdata s' = kdata t
     else (\<exists>tz \<ge> 64. used bs' = insert (q - HDR, tz) (used bs) - {(0x112014 - HDR, 16)})
       \<and> (\<forall>i < unat (16 :: u32). kdata s' (q + of_nat i) = kdata t (0x112014 + of_nat i))
       \<and> (\<forall>(b, bz) \<in> used bs. \<forall>j < unat bz.
            kdata s' (b + HDR + of_nat j) = kdata t (b + HDR + of_nat j)))"
    by (rule krealloc_moves_contents) (use t in auto)
  then show ?thesis using t by blast
qed

text \<open>For an alignment that is a power of two above 8, \<open>kmalloc_aligned\<close> returns a multiple of it, and the
  bytes asked for, with the saved raw pointer just below, lie inside one new live block.\<close>
theorem kmalloc_aligned_functional:
  assumes "heap_inv bs s" "unat (heap_end s) + unat len + 2 ^ k + 0x200B < 2 ^ 32"
    and "3 < k" "k < 32"
  shows "\<exists>r s' bs'. kmalloc_aligned len (2 ^ k) s = Some (r, s') \<and> heap_inv bs' s' \<and>
    (r \<noteq> 0 \<longrightarrow> 2 ^ k dvd unat r \<and> (\<exists>a tz. used bs' = insert (a, tz) (used bs)
       \<and> unat a + 24 \<le> unat r \<and> unat r + unat len \<le> unat a + 20 + unat tz))"
proof -
  have "(2 :: nat) ^ k < 2 ^ 32" by (rule power_strict_increasing) (use assms(4) in auto)
  then have al: "unat (2 ^ k :: u32) = 2 ^ k" using unat_of_nat_u32 [of "2 ^ k"] by simp
  have "(2 :: nat) ^ 4 \<le> 2 ^ k" by (rule power_increasing) (use assms(3) in auto)
  then have "\<not> (2 ^ k :: u32) \<le> 8" using al by (simp add: word_le_nat_alt)
  moreover have mk: "(2 ^ k - 1 :: u32) = mask k" by (simp add: mask_eq_exp_minus_1)
  ultimately have ka: "kmalloc_aligned len (2 ^ k) s = (case kmalloc (len + 2 ^ k + 4) s of None \<Rightarrow> None
      | Some (raw, s1) \<Rightarrow> if raw = 0 then Some (0, s1)
          else let r = (raw + 4 + 2 ^ k - 1) AND NOT (mask k)
               in Some (r, s1\<lparr>kdata := store32 (r - 4) raw (kdata s1)\<rparr>))"
    by (simp only: kmalloc_aligned_def if_False)
  have sum: "unat (len + 2 ^ k + 4) = unat len + 2 ^ k + 4"
    using assms(2) al by (simp add: unat_word_ariths)
  then have n: "len + 2 ^ k + 4 \<noteq> 0" by (metis add_is_0 unat_0 zero_neq_numeral)
  have b: "unat (heap_end s) + unat (len + 2 ^ k + 4) + 0x2007 < 2 ^ 32" using sum assms(2) by simp
  from assms(1) b n show ?thesis
  proof (cases rule: kmalloc_cases)
    case (null s')
    then show ?thesis using ka by auto
  next
    case (block a tz s1 bs1)
    let ?raw = "a + HDR" and ?r = "(a + HDR + 4 + 2 ^ k - 1) AND NOT (mask k)"
    let ?s' = "s1\<lparr>kdata := store32 (?r - 4) ?raw (kdata s1)\<rparr>"
    have r: "kmalloc_aligned len (2 ^ k) s = Some (?r, ?s')" using ka block(1,8) by (simp add: Let_def)
    have u: "(a, tz) \<in> used bs1" using block(4) by simp
    then have "unat a + 20 + unat tz \<le> unat (heap_end s1)"
      using tiled_bounds block(2) by (force simp: heap_inv_def used_def)
    then have top: "unat a + 20 + unat tz < 2 ^ 32" using u32_less [of "heap_end s1"] by simp
    have tz: "unat len + 2 ^ k + 4 \<le> unat tz" using block(5) sum by (simp add: word_le_nat_alt)
    have "unat (a + HDR + 4 + (2 ^ k - 1)) = unat a + 24 + (2 ^ k - 1)"
      using top tz al by (simp add: unat_word_ariths unat_minus_one)
    then have ru: "unat ?r = 2 ^ k * ((unat a + 24 + (2 ^ k - 1)) div 2 ^ k)"
      using unat_and_not_mask [of "a + HDR + 4 + (2 ^ k - 1)" k] by (simp add: add_diff_eq)
    define N where "N = unat a + 24 + (2 ^ k - 1)"
    have "N = 2 ^ k * (N div 2 ^ k) + N mod 2 ^ k" "N mod 2 ^ k < 2 ^ k" by simp_all
    then have "2 ^ k * (N div 2 ^ k) \<le> N" "N < 2 ^ k * (N div 2 ^ k) + 2 ^ k" by linarith+
    moreover have "N + 1 = unat a + 24 + 2 ^ k" by (simp add: N_def)
    ultimately have "unat a + 24 \<le> unat ?r" "unat ?r + unat len \<le> unat a + 20 + unat tz"
      using ru [folded N_def] tz by linarith+
    moreover have "2 ^ k dvd unat ?r" using ru by simp
    ultimately show ?thesis using r block(2,4) by (intro exI [of _ ?r] exI [of _ ?s'] exI [of _ bs1]) auto
  qed
qed

lemma numeral_power_12: "(2 :: 'a :: semiring_numeral) ^ 12 = 4096"
  by simp

theorem kmalloc_aligned_functional_witness:
  "\<exists>bs s. heap_inv bs s \<and> (\<exists>r s' bs'. kmalloc_aligned 4096 4096 s = Some (r, s') \<and> heap_inv bs' s'
     \<and> (r \<noteq> 0 \<longrightarrow> 4096 dvd unat r))"
proof -
  obtain t bs where t: "heap_inv bs t" "heap_end t = 0x212000" by (rule demo_live)
  have "\<exists>r s' bs'. kmalloc_aligned 4096 (2 ^ 12) t = Some (r, s') \<and> heap_inv bs' s' \<and>
    (r \<noteq> 0 \<longrightarrow> 2 ^ 12 dvd unat r \<and> (\<exists>a tz. used bs' = insert (a, tz) (used bs)
       \<and> unat a + 24 \<le> unat r \<and> unat r + unat (4096 :: u32) \<le> unat a + 20 + unat tz))"
    by (rule kmalloc_aligned_functional) (use t in auto)
  then show ?thesis using t(1) by (simp only: numeral_power_12) blast
qed

section \<open>Where the heap departs from what it means to do\<close>

text \<open>The size is rounded up before it is checked again: a size within 7 of \<open>2^32\<close> wraps to 0 and
  \<open>kmalloc\<close> hands out a block with no payload instead of failing.\<close>

theorem kmalloc_wraps_huge_size:
  "\<exists>t. kmalloc 0xFFFFFFFF (kheap_init 0x112000 demo_heap) = Some (0x112014, t)
     \<and> hsize (hmem t 0x112000) = 0"
  by (simp add: heap_eval demo_heap_def)

text \<open>The magic word stays in a header that was merged into its predecessor, so a second
  \<open>kfree\<close> of the same pointer is accepted and counts the block's bytes twice: the first block
  then claims more bytes than the heap has.\<close>

theorem kfree_twice_overgrows:
  "\<exists>s1 s2. kmalloc 16 (kheap_init 0x112000 demo_heap) = Some (0x112014, s1) \<and> kmalloc 32 s1 = Some (0x112038, s2)
     \<and> hsize (hmem (kfree 0x112038 (kfree 0x112014 s2)) 0x112000) = 0x100000 - 20
     \<and> hsize (hmem (kfree 0x112038 (kfree 0x112038 (kfree 0x112014 s2))) 0x112000) = 0x200000 - 56"
  by (simp add: heap_eval demo_heap_def kfree_def absorb_next_def)

section \<open>The integrity walk\<close>

lemma kheap_check_seg:
  assumes "seg mem prv p bs l 0" "tiled lo hi bs"
    and "prv = 0 \<or> bs = [] \<or> p = prv + HDR + hsize (mem prv)"
  shows "kheap_check n mem p prv = []"
  using assms
proof (induction n arbitrary: prv p bs lo)
  case (Suc n)
  show ?case
  proof (cases bs)
    case Nil
    then show ?thesis using Suc.prems by simp
  next
    case (Cons b cs)
    obtain a sz fr where b: "b = (a, sz, fr)" by (cases b)
    have a: "p = a" "hmagic (mem a) = KHEAP_MAGIC" "hsize (mem a) = sz"
      and sg: "seg mem a (hnext (mem a)) cs l 0" and lo: "unat a = lo"
      and tl: "tiled (lo + 20 + unat sz) hi cs"
      using Suc.prems Cons b by auto
    have "cs = [] \<or> hnext (mem a) = a + HDR + sz"
    proof (cases cs)
      case (Cons c ds)
      then have "unat (hnext (mem a)) = unat a + 20 + unat sz"
        using sg tl lo by (cases c) auto
      then have "unat (a + HDR + sz) = unat (hnext (mem a))"
        using u32_less [of "hnext (mem a)"] by (simp add: unat_word_ariths)
      then have "a + HDR + sz = hnext (mem a)" by (simp only: word_unat_eq_iff)
      then show ?thesis by simp
    qed simp
    then have "kheap_check n mem (hnext (mem a)) a = []"
      using Suc.IH [OF sg tl] a by auto
    then show ?thesis using Suc.prems(3) a Cons by auto
  qed
qed simp

text \<open>The integrity walk that runs at every allocation never reports anything on a heap that has only
  been used through its interface, so a report means that a client wrote outside its block.\<close>
theorem kheap_integrity_silent:
  assumes "heap_reach kend s live" "unat kend \<le> 0x700000" "0 < unat kend"
  shows "kheap_check_integrity s = []"
proof -
  obtain bs where "heap_inv bs s" using heap_reach_inv assms by blast
  then obtain l where "seg (hmem s) 0 (hhead s) bs l 0"
    "tiled (unat (heap_start s)) (unat (heap_end s)) bs" by (auto simp: heap_inv_def)
  then show ?thesis unfolding kheap_check_integrity_def by (rule kheap_check_seg) simp
qed

theorem kheap_integrity_silent_witness:
  "kheap_check_integrity (kheap_init 0x112000 demo_heap) = []"
  by (rule kheap_integrity_silent [OF heap_reach.boot]) auto

end
