(* ===== verification/Procfs.thy ===== *)
theory Procfs
  imports Task "HOL-Library.Char_ord"
begin

text \<open>
  The virtual files \<open>/proc\<close>, \<open>/sys\<close> and \<open>/dev\<close> (\<open>kernel/fs/proc.c\<close>).  A C string is its
  list of characters before the NUL.  The text being built in \<open>buf\<close> is a list whose length
  is the C variable \<open>pos\<close>; a writer appends what still fits below \<open>max - 1\<close>.  What the
  reader of a file sees of the rest of the kernel is the record \<open>proc_env\<close>.
\<close>

record proc_env =
  pe_current :: "task option"
  pe_tasks :: "task list"
  pe_free :: u32
  pe_ticks :: u32

section \<open>The two writers\<close>

definition digit_char :: "u32 \<Rightarrow> char" where
  "digit_char d = char_of (48 + unat d)"

fun dec_rev :: "nat \<Rightarrow> u32 \<Rightarrow> string" where
  "dec_rev 0 v = []"
| "dec_rev (Suc r) v = (if v = 0 then [] else digit_char (v mod 10) # dec_rev r (v div 10))"

definition u32_text :: "u32 \<Rightarrow> string" where
  "u32_text v = rev (if v = 0 then ''0'' else dec_rev 10 v)"

definition proc_str :: "int \<Rightarrow> string \<Rightarrow> string \<Rightarrow> string" where
  "proc_str mx s buf = buf @ take (nat (mx - 1) - length buf) s"

definition proc_u32 :: "int \<Rightarrow> u32 \<Rightarrow> string \<Rightarrow> string" where
  "proc_u32 mx v buf = buf @ take (nat (mx - 1) - length buf) (u32_text v)"

section \<open>The files of /proc\<close>

fun state_num :: "task_state \<Rightarrow> u32" where
  "state_num TASK_READY = 0"
| "state_num TASK_RUNNING = 1"
| "state_num TASK_BLOCKED = 2"
| "state_num TASK_DEAD = 3"

fun fd_type_num :: "fd_type \<Rightarrow> u32" where
  "fd_type_num FD_NONE = 0"
| "fd_type_num FD_FILE = 1"
| "fd_type_num FD_PIPE = 2"
| "fd_type_num FD_CONSOLE = 3"
| "fd_type_num FD_PSEUDO = 4"

abbreviation newline :: string where "newline \<equiv> [CHR 0x0A]"

definition proc_status :: "int \<Rightarrow> task \<Rightarrow> string" where
  "proc_status n t =
     proc_str n newline (proc_u32 n (of_int (priority t)) (proc_str n '' prio=''
      (proc_u32 n (state_num (tstate t)) (proc_str n '' state=''
      (proc_u32 n (of_int (gid t)) (proc_str n '' gid=''
      (proc_u32 n (of_int (uid t)) (proc_str n '' uid=''
      (proc_u32 n (of_int (pid t)) (proc_str n ''pid='' []))))))))))"

fun proc_fds :: "int \<Rightarrow> task \<Rightarrow> nat list \<Rightarrow> string \<Rightarrow> string" where
  "proc_fds n t [] buf = buf"
| "proc_fds n t (i # is) buf =
     (if int (length buf) \<ge> n - 8 then buf
      else if \<not> fd_valid (fd_table t i) then proc_fds n t is buf
      else proc_fds n t is (proc_str n newline (proc_u32 n (fd_type_num (fd_kind (fd_table t i)))
             (proc_str n '':'' (proc_u32 n (of_nat i) buf)))))"

fun proc_tasks :: "int \<Rightarrow> task list \<Rightarrow> string \<Rightarrow> string" where
  "proc_tasks n [] buf = buf"
| "proc_tasks n (t # ts) buf =
     (if int (length buf) \<ge> n - 32 then buf
      else proc_tasks n ts (proc_str n newline (proc_u32 n (of_int (priority t)) (proc_str n '' prio=''
             (proc_u32 n (state_num (tstate t)) (proc_str n '' state=''
             (proc_str n (tname t) (proc_str n '' '' (proc_u32 n (of_int (pid t)) buf)))))))))"

definition proc_text :: "proc_env \<Rightarrow> string \<Rightarrow> int \<Rightarrow> task \<Rightarrow> string option" where
  "proc_text e path n t =
     (if path = ''status'' then Some (proc_status n t)
      else if path = ''mem'' then Some (proc_str n newline (proc_u32 n (pe_free e) (proc_str n ''pmm_free='' [])))
      else if path = ''fds'' then Some (proc_fds n t [0..<16] [])
      else if path = ''uptime'' then Some (proc_str n newline (proc_u32 n (pe_ticks e div 100) []))
      else if path = ''version'' then Some (proc_str n (''charOS 0.19'' @ newline) [])
      else if path = ''tasks'' then Some (proc_tasks n (pe_tasks e) [])
      else None)"

text \<open>Result: the return value and the text left in the buffer before the final NUL.\<close>

definition proc_read :: "proc_env \<Rightarrow> string \<Rightarrow> int \<Rightarrow> int \<times> string" where
  "proc_read e path n =
     (if n \<le> 0 then (-1, [])
      else case pe_current e of None \<Rightarrow> (-1, [])
      | Some t \<Rightarrow> (case proc_text e path n t of None \<Rightarrow> (-1, []) | Some b \<Rightarrow> (int (length b), b)))"

definition proc_read_pid :: "proc_env \<Rightarrow> int \<Rightarrow> int \<times> string" where
  "proc_read_pid e n =
     (case pe_current e of None \<Rightarrow> (-1, [])
      | Some t \<Rightarrow>
          if n \<le> 0 then (-1, [])
          else let digits = (if pid t = 0 then ''0'' else if pid t < 0 then [] else rev (dec_rev 10 (of_int (pid t))));
                   tmp = ''pid='' @ take (nat (n - 2) - 4) digits @ newline;
                   k = min (length tmp) (nat n)
               in (int k, take k tmp))"

section \<open>The dispatcher\<close>

definition starts :: "string \<Rightarrow> string \<Rightarrow> bool" where
  "starts p s \<longleftrightarrow> take (length p) s = p"

definition proc_names :: "string list" where
  "proc_names = [''status'', ''mem'', ''fds'', ''uptime'', ''version'', ''tasks'']"

definition pfs_open :: "string option \<Rightarrow> int" where
  "pfs_open path0 = (case path0 of None \<Rightarrow> -1 | Some path \<Rightarrow>
     if starts ''/proc/'' path \<or> starts ''/sys/'' path
     then (let dig = take 23 (drop (if path ! 1 = CHR ''p'' then 6 else 5) path)
           in if dig \<in> set proc_names then 0 else -1)
     else if path = ''/dev/null'' \<or> path = ''/dev/zero'' then 0 else -1)"

definition pfs_read :: "proc_env \<Rightarrow> string \<Rightarrow> int \<Rightarrow> int \<Rightarrow> int \<times> string" where
  "pfs_read e path off n =
     (if n \<le> 0 \<or> off < 0 then (-1, [])
      else if starts ''/proc/'' path then proc_read e (drop 6 path) n
      else if starts ''/sys/'' path
      then (if drop 5 path = ''version''
            then let b = take (nat (n - 1)) (''charOS 0.19'' @ newline) in (int (length b), b)
            else (-1, []))
      else if path = ''/dev/null'' then (0, [])
      else if path = ''/dev/zero'' then (n, replicate (nat n) (CHR 0x00))
      else (-1, []))"

definition pfs_write :: "string \<Rightarrow> int \<Rightarrow> int" where
  "pfs_write path n = (if path = ''/dev/null'' then n else -1)"

section \<open>Decimal text\<close>

definition parse_dec :: "string \<Rightarrow> nat" where
  "parse_dec s = foldl (\<lambda>n c. 10 * n + (of_char c - 48)) 0 s"

lemma digit_value: "d < 10 \<Longrightarrow> of_char (digit_char d) - 48 = (unat d :: nat)"
proof -
  assume "d < 10"
  then have "unat d < 10" by (simp add: word_less_nat_alt)
  then show ?thesis by (simp add: digit_char_def)
qed

lemma parse_dec_rev: "unat v < 10 ^ r \<Longrightarrow> parse_dec (rev (dec_rev r v)) = unat v"
proof (induction r arbitrary: v)
  case 0
  then show ?case by (simp add: parse_dec_def)
next
  case (Suc r)
  show ?case
  proof (cases "v = 0")
    case False
    have "unat (v div 10) < 10 ^ r" using Suc.prems by (simp add: unat_div)
    then have "parse_dec (rev (dec_rev r (v div 10))) = unat v div 10"
      using Suc.IH by (simp add: unat_div)
    moreover have "v mod 10 < 10" by (simp add: word_less_nat_alt unat_mod)
    ultimately have "parse_dec (rev (dec_rev (Suc r) v)) = 10 * (unat v div 10) + unat (v mod 10)"
      using False digit_value [of "v mod 10"] by (simp add: parse_dec_def)
    then show ?thesis by (simp add: unat_mod)
  qed (simp add: parse_dec_def)
qed

lemma proc_text_bounds:
  "length b \<le> nat (n - 1) \<Longrightarrow> length (proc_str n s b) \<le> nat (n - 1)"
  "length b \<le> nat (n - 1) \<Longrightarrow> length (proc_u32 n v b) \<le> nat (n - 1)"
  by (auto simp: proc_str_def proc_u32_def)

lemma proc_fds_bound: "length b \<le> nat (n - 1) \<Longrightarrow> length (proc_fds n t is b) \<le> nat (n - 1)"
  by (induction n t "is" b rule: proc_fds.induct) (auto simp: proc_text_bounds)

lemma proc_tasks_bound: "length b \<le> nat (n - 1) \<Longrightarrow> length (proc_tasks n ts b) \<le> nat (n - 1)"
  by (induction n ts b rule: proc_tasks.induct) (auto simp: proc_text_bounds)

section \<open>Properties\<close>

text \<open>Every number shown in a virtual file reads back as the number: the decimal text of a
  32-bit value is never cut by the ten-digit buffer, and it is what is appended whenever the
  file buffer has room.\<close>
theorem proc_number_roundtrip:
  "parse_dec (u32_text v) = unat v
     \<and> (length b + length (u32_text v) \<le> nat (mx - 1) \<longrightarrow> proc_u32 mx v b = b @ u32_text v)"
proof -
  have "unat v < 10 ^ 10" using u32_less [of v] by simp
  then have "parse_dec (u32_text v) = unat v"
    using parse_dec_rev [of v 10] by (simp add: u32_text_def parse_dec_def)
  then show ?thesis by (simp add: proc_u32_def)
qed

theorem proc_number_roundtrip_witness:
  "proc_u32 64 305 ''pid='' = ''pid='' @ u32_text 305 \<and> parse_dec (u32_text 305) = 305"
proof -
  have "length (u32_text 305) = 3" by code_simp
  then show ?thesis using proc_number_roundtrip [of 305 "''pid=''" 64] by simp
qed

text \<open>No virtual file overruns the reader's buffer: a read with a buffer of \<open>n\<close> bytes either
  fails, or leaves at most \<open>n - 1\<close> bytes of text and so room for the NUL it writes after
  them, or (\<open>/dev/zero\<close>) fills exactly \<open>n\<close> bytes; the result is the number of bytes left.\<close>
theorem pfs_read_bounds:
  "case pfs_read e path off n of (r, b) \<Rightarrow>
     (r = -1 \<and> b = []) \<or> (r = int (length b) \<and> (r < n \<or> r = n \<and> path = ''/dev/zero''))"
proof -
  have "length (proc_status n t) \<le> nat (n - 1)" for t
    by (simp add: proc_status_def proc_text_bounds)
  then have tx: "length b \<le> nat (n - 1)" if "proc_text e p n t = Some b" for p t b
    using that by (auto simp: proc_text_def proc_text_bounds proc_fds_bound proc_tasks_bound split: if_splits)
  have pr: "(r = -1 \<and> b = []) \<or> (r = int (length b) \<and> r < n)" if "proc_read e p n = (r, b)" for p r b
    using that tx by (fastforce simp: proc_read_def split: if_splits option.splits)
  obtain r b where rb: "pfs_read e path off n = (r, b)" by (cases "pfs_read e path off n")
  consider "n \<le> 0 \<or> off < 0" | "0 < n" "0 \<le> off" "starts ''/proc/'' path"
    | "0 < n" "0 \<le> off" "\<not> starts ''/proc/'' path" by linarith
  then have "(r = -1 \<and> b = []) \<or> (r = int (length b) \<and> (r < n \<or> r = n \<and> path = ''/dev/zero''))"
  proof cases
    case 2
    then show ?thesis using rb pr [of "drop 6 path"] by (simp add: pfs_read_def) metis
  qed (use rb in \<open>auto simp: pfs_read_def Let_def split: if_splits\<close>)
  then show ?thesis using rb by simp
qed

text \<open>A nonnegative offset has no effect: reading a virtual file again starts over, so a reader that
  reads until 0 never finishes.\<close>

theorem pfs_read_ignores_offset: "0 \<le> off \<Longrightarrow> pfs_read e path off n = pfs_read e path 0 n"
  by (simp add: pfs_read_def)

end
