(* ===== verification/Chfs.thy ===== *)
theory Chfs
  imports Procfs Pipe
begin

text \<open>
  The in-memory file system (\<open>kernel/fs/chfs.c\<close>): a flat table of 64 inodes named by full path,
  a pool of 256 blocks of 512 bytes, at most 64 blocks per file, and the per-task descriptor
  tables.  The state is the file's four arrays together with the kernel objects it reaches
  through pointers: the tasks, the current one, and the pipes.  A null path is \<open>None\<close>; a
  source buffer is a function of the index, a filled destination buffer is the list of the
  bytes stored.  C \<open>int\<close> values are \<open>int\<close>: sizes and offsets stay below 2^16, lengths are
  assumed below \<open>2^31 - 2^16\<close>.  Diagnostics on the serial line are left out.
\<close>

abbreviation FS_MAX_PATH :: nat where "FS_MAX_PATH \<equiv> 256"
abbreviation FS_MAX_FILES :: nat where "FS_MAX_FILES \<equiv> 64"
abbreviation FS_MAX_BLOCKS :: nat where "FS_MAX_BLOCKS \<equiv> 256"
abbreviation FS_BLOCK_SIZE :: nat where "FS_BLOCK_SIZE \<equiv> 512"
abbreviation CHFS_DATABLOCKS :: nat where "CHFS_DATABLOCKS \<equiv> 64"

abbreviation O_RDONLY :: u32 where "O_RDONLY \<equiv> 1"
abbreviation O_WRONLY :: u32 where "O_WRONLY \<equiv> 2"
abbreviation O_RDWR :: u32 where "O_RDWR \<equiv> 3"
abbreviation O_CREATE :: u32 where "O_CREATE \<equiv> 4"
abbreviation O_TRUNC :: u32 where "O_TRUNC \<equiv> 8"
abbreviation O_APPEND :: u32 where "O_APPEND \<equiv> 16"
abbreviation PERM_R :: u32 where "PERM_R \<equiv> 4"
abbreviation PERM_W :: u32 where "PERM_W \<equiv> 2"
abbreviation PERM_X :: u32 where "PERM_X \<equiv> 1"
abbreviation CAP_DAC_OVERRIDE :: u32 where "CAP_DAC_OVERRIDE \<equiv> 2"
abbreviation CAP_FOWNER :: u32 where "CAP_FOWNER \<equiv> 8"

datatype file_type = FT_ZERO | FT_FILE | FT_DIR

record inode =
  iid :: int
  itype :: file_type
  isize :: int
  iblocks :: "nat \<Rightarrow> int"
  ipermissions :: u32
  iuid :: int
  igid :: int
  imode :: u32
  iname :: string
  iref :: int

record fsys =
  inodes :: "nat \<Rightarrow> inode"
  iused :: "nat \<Rightarrow> bool"
  pool :: "nat \<Rightarrow> nat \<Rightarrow> u8"
  bused :: "nat \<Rightarrow> bool"
  ktasks :: tasks
  kcur :: "tid option"
  kpipes :: "nat \<rightharpoonup> pipe"

definition inode_zero :: inode where
  "inode_zero = \<lparr>iid = 0, itype = FT_ZERO, isize = 0, iblocks = (\<lambda>_. 0), ipermissions = 0, iuid = 0,
     igid = 0, imode = 0, iname = '''', iref = 0\<rparr>"

definition upd_inode :: "nat \<Rightarrow> (inode \<Rightarrow> inode) \<Rightarrow> fsys \<Rightarrow> fsys" where
  "upd_inode i f s = s\<lparr>inodes := (inodes s)(i := f (inodes s i))\<rparr>"

text \<open>\<open>blk >= 0 && blk < FS_MAX_BLOCKS\<close>, and the searches of the two tables.\<close>

definition valid_blk :: "int \<Rightarrow> bool" where
  "valid_blk b \<longleftrightarrow> 0 \<le> b \<and> b < 256"

definition find_name :: "string \<Rightarrow> fsys \<Rightarrow> nat option" where
  "find_name path s = first_from (\<lambda>i. iused s i \<and> iname (inodes s i) = path) 0 FS_MAX_FILES"

definition find_name1 :: "string \<Rightarrow> fsys \<Rightarrow> nat option" where
  "find_name1 path s = first_from (\<lambda>i. iused s i \<and> iname (inodes s i) = path) 1 (FS_MAX_FILES - 1)"

definition free_block :: "fsys \<Rightarrow> nat option" where
  "free_block s = first_from (\<lambda>b. \<not> bused s b) 0 FS_MAX_BLOCKS"

text \<open>\<open>block_used[b] = 1; memset(block_pool[b], 0, FS_BLOCK_SIZE);\<close>\<close>

definition claim_block :: "nat \<Rightarrow> fsys \<Rightarrow> fsys" where
  "claim_block b s = s\<lparr>bused := (bused s)(b := True), pool := (pool s)(b := (\<lambda>_. 0))\<rparr>"

definition cur_task :: "fsys \<Rightarrow> task option" where
  "cur_task s = map_option (ktasks s) (kcur s)"

definition cur_ids :: "fsys \<Rightarrow> int \<times> int" where
  "cur_ids s = (case cur_task s of None \<Rightarrow> (0, 0) | Some t \<Rightarrow> (uid t, gid t))"

section \<open>Directory entries and initialisation\<close>

text \<open>A \<open>struct dirent\<close> at the start of a block: 24 bytes of name, then the inode number.\<close>

definition dirent_bytes :: "string \<Rightarrow> u32 \<Rightarrow> nat \<Rightarrow> u8" where
  "dirent_bytes nm ino j =
     (if j < 24 then (if j < length nm then of_char (nm ! j) else 0)
      else ucast (drop_bit (8 * (j - 24)) ino))"

definition put_dirent :: "nat \<Rightarrow> string \<Rightarrow> u32 \<Rightarrow> fsys \<Rightarrow> fsys" where
  "put_dirent b nm ino s =
     s\<lparr>pool := (pool s)(b := (\<lambda>j. if j < 28 then dirent_bytes nm ino j else pool s b j))\<rparr>"

definition chfs_init :: "fsys \<Rightarrow> fsys" where
  "chfs_init s =
     (let root = inode_zero\<lparr>iid := 0, itype := FT_DIR, isize := 28, iname := ''/'',
            ipermissions := PERM_R OR PERM_W OR PERM_X, iuid := 0, igid := 0, imode := 0x1ED, iref := 1\<rparr>;
          s1 = s\<lparr>inodes := (\<lambda>_. inode_zero)(0 := root), iused := (\<lambda>_. False)(0 := True),
             pool := (\<lambda>_ _. 0), bused := (\<lambda>_. False)(0 := True)\<rparr>
      in put_dirent 0 ''/'' 0 (upd_inode 0 (\<lambda>n. n\<lparr>iblocks := (iblocks n)(0 := 0)\<rparr>) s1))"

section \<open>Permissions\<close>

definition fs_can :: "task option \<Rightarrow> int \<Rightarrow> int \<Rightarrow> inode \<Rightarrow> u32 \<Rightarrow> bool" where
  "fs_can ct u g n req =
     (if u = 0 then True
      else let bits =
          (if u = iuid n then drop_bit 6 (imode n) AND 7
           else if g = igid n then drop_bit 3 (imode n) AND 7
           else case ct of None \<Rightarrow> imode n AND 7
             | Some t \<Rightarrow> if list_ex (\<lambda>i. groups t i = igid n) [0..<TASK_NGROUPS]
                        then drop_bit 3 (imode n) AND 7 else imode n AND 7)
        in bits AND req = req)"

definition fs_can_path :: "string option \<Rightarrow> u32 \<Rightarrow> fsys \<Rightarrow> int" where
  "fs_can_path path req s =
     (case path of None \<Rightarrow> -1 | Some p \<Rightarrow>
      case find_name p s of None \<Rightarrow> -1 | Some i \<Rightarrow>
        if itype (inodes s i) = FT_DIR then 0
        else let (u, g) = cur_ids s in
          if (case cur_task s of None \<Rightarrow> False | Some t \<Rightarrow> caps t AND CAP_DAC_OVERRIDE \<noteq> 0) then 0
          else if fs_can (cur_task s) u g (inodes s i) req then 0 else -1)"

definition fs_chmod :: "string option \<Rightarrow> u32 \<Rightarrow> fsys \<Rightarrow> int \<times> fsys" where
  "fs_chmod path md s =
     (case path of None \<Rightarrow> (-1, s) | Some p \<Rightarrow>
      case find_name p s of None \<Rightarrow> (-1, s) | Some i \<Rightarrow>
        let (u, g) = cur_ids s in
        if u \<noteq> 0 \<and> u \<noteq> iuid (inodes s i)
           \<and> \<not> (case cur_task s of None \<Rightarrow> False | Some t \<Rightarrow> caps t AND CAP_FOWNER \<noteq> 0)
        then (-1, s)
        else (0, upd_inode i (\<lambda>n. n\<lparr>imode := md AND 0x1FF\<rparr>) s))"

section \<open>Creating, opening, closing\<close>

text \<open>The block that \<open>fs_create\<close> gives a new file, or -1 when the pool is full.\<close>

definition first_block :: "fsys \<Rightarrow> int \<times> fsys" where
  "first_block s = (case free_block s of None \<Rightarrow> (-1, s) | Some b \<Rightarrow> (int b, claim_block b s))"

definition fs_create :: "string option \<Rightarrow> fsys \<Rightarrow> int \<times> fsys" where
  "fs_create path s =
     (case path of None \<Rightarrow> (-1, s) | Some p \<Rightarrow>
      if length p = 0 \<or> length p \<ge> FS_MAX_PATH then (-1, s)
      else if length p \<ge> 32 then (-1, s)
      else case first_from (\<lambda>i. \<not> iused s i) 1 (FS_MAX_FILES - 1) of None \<Rightarrow> (-1, s)
        | Some i \<Rightarrow>
            let s1 = upd_inode i (\<lambda>n. n\<lparr>iid := int i, itype := FT_FILE, isize := 0, iname := take 31 p,
                       iblocks := (\<lambda>_. -1)\<rparr>) (s\<lparr>iused := (iused s)(i := True)\<rparr>);
                (blk, s2) = first_block s1;
                (u, g) = cur_ids s2
            in (int i, upd_inode i (\<lambda>n. n\<lparr>iblocks := (iblocks n)(0 := blk),
                  ipermissions := PERM_R OR PERM_W OR PERM_X, iref := 0, iuid := u, igid := g,
                  imode := 0x1A4\<rparr>) s2))"

definition cur_table :: "fsys \<Rightarrow> (nat \<Rightarrow> fd_entry) option" where
  "cur_table s = map_option fd_table (cur_task s)"

text \<open>Writing one entry of the current task's table (no current task: nothing to write).\<close>

definition set_fd :: "nat \<Rightarrow> fd_entry \<Rightarrow> fsys \<Rightarrow> fsys" where
  "set_fd i e s =
     (case kcur s of None \<Rightarrow> s
      | Some t \<Rightarrow> s\<lparr>ktasks := (ktasks s)(t := (ktasks s t)\<lparr>fd_table := (fd_table (ktasks s t))(i := e)\<rparr>)\<rparr>)"

definition free_fd :: "(nat \<Rightarrow> fd_entry) \<Rightarrow> nat option" where
  "free_fd tbl = first_from (\<lambda>i. \<not> fd_valid (tbl i)) 0 TASK_NFD"

definition get_fd :: "int \<Rightarrow> fsys \<Rightarrow> fd_entry option" where
  "get_fd fd s =
     (case cur_table s of None \<Rightarrow> None
      | Some tbl \<Rightarrow> if fd < 0 \<or> fd \<ge> 16 then None
                    else if fd_valid (tbl (nat fd)) then Some (tbl (nat fd)) else None)"

definition open_pseudo :: "string \<Rightarrow> u32 \<Rightarrow> fsys \<Rightarrow> int \<times> fsys" where
  "open_pseudo p md s =
     (if pfs_open (Some p) \<noteq> 0 then (-1, s)
      else case cur_table s of None \<Rightarrow> (-1, s) | Some tbl \<Rightarrow>
        (case free_fd tbl of None \<Rightarrow> (-1, s)
         | Some i \<Rightarrow> (int i, set_fd i ((tbl i)\<lparr>fd_valid := True, fd_kind := FD_PSEUDO, fd_inode := -1,
             fd_mode := md, fd_offset := 0, fd_pipe := None, fd_pseudo := take 31 p\<rparr>) s)))"

definition need_perm :: "u32 \<Rightarrow> u32" where
  "need_perm md = (let m = md AND 3 in
     if m = O_RDONLY then PERM_R else if m = O_WRONLY then PERM_W
     else if m = O_RDWR then PERM_R OR PERM_W else 0)"

text \<open>The \<open>O_TRUNC\<close> loop: every block of the file is given back.\<close>

definition drop_blocks :: "nat \<Rightarrow> fsys \<Rightarrow> fsys" where
  "drop_blocks i s =
     fold (\<lambda>k s. let blk = iblocks (inodes s i) k;
                   s1 = (if valid_blk blk then s\<lparr>bused := (bused s)(nat blk := False)\<rparr> else s)
               in upd_inode i (\<lambda>n. n\<lparr>iblocks := (iblocks n)(k := -1)\<rparr>) s1) [0..<CHFS_DATABLOCKS] s"

definition open_truncate :: "nat \<Rightarrow> u32 \<Rightarrow> fsys \<Rightarrow> fsys" where
  "open_truncate i md s =
     (if itype (inodes s i) = FT_FILE \<and> md AND O_TRUNC \<noteq> 0 \<and> md AND 3 \<noteq> O_RDONLY
      then upd_inode i (\<lambda>n. n\<lparr>isize := 0\<rparr>) (drop_blocks i s) else s)"

definition open_inode :: "nat \<Rightarrow> string \<Rightarrow> u32 \<Rightarrow> fsys \<Rightarrow> int \<times> fsys" where
  "open_inode ino p md s =
     (if itype (inodes s ino) = FT_FILE \<and> need_perm md \<noteq> 0 \<and> fs_can_path (Some p) (need_perm md) s \<noteq> 0
      then (-1, s)
      else case cur_table s of None \<Rightarrow> (-1, s) | Some tbl \<Rightarrow>
        let s1 = open_truncate ino md s in
        (case free_fd tbl of None \<Rightarrow> (-1, s1)
         | Some i \<Rightarrow>
            let off = (if md AND O_APPEND \<noteq> 0 \<and> itype (inodes s1 ino) = FT_FILE then isize (inodes s1 ino) else 0)
            in (int i, upd_inode ino (\<lambda>n. n\<lparr>iref := iref n + 1\<rparr>)
                  (set_fd i ((tbl i)\<lparr>fd_valid := True, fd_kind := FD_FILE, fd_inode := int ino, fd_mode := md,
                     fd_offset := off, fd_pipe := None\<rparr>) s1))))"

definition fs_open :: "string option \<Rightarrow> u32 \<Rightarrow> fsys \<Rightarrow> int \<times> fsys" where
  "fs_open path md s =
     (case path of None \<Rightarrow> (-1, s) | Some p \<Rightarrow>
      if starts ''/proc/'' p \<or> starts ''/sys/'' p \<or> starts ''/dev/'' p then open_pseudo p md s
      else case find_name p s of
        Some i \<Rightarrow> open_inode i p md s
      | None \<Rightarrow>
          if md AND O_CREATE \<noteq> 0
          then let (i, s1) = fs_create (Some p) s in if i < 0 then (-1, s1) else open_inode (nat i) p md s1
          else (-1, s))"

definition close_pipe :: "nat option \<Rightarrow> bool \<Rightarrow> fsys \<Rightarrow> fsys" where
  "close_pipe p is_write s =
     (case p of None \<Rightarrow> s | Some a \<Rightarrow>
      case kpipes s a of None \<Rightarrow> s
      | Some q \<Rightarrow> let (freed, ts, q') = pipe_close_end is_write (ktasks s) q
                 in s\<lparr>ktasks := ts, kpipes := (kpipes s)(a := if freed then None else Some q')\<rparr>)"

definition ref_inode :: "int \<Rightarrow> int \<Rightarrow> fsys \<Rightarrow> fsys" where
  "ref_inode d ino s =
     (if 0 \<le> ino \<and> ino < int FS_MAX_FILES then upd_inode (nat ino) (\<lambda>n. n\<lparr>iref := iref n + d\<rparr>) s else s)"

definition fs_close :: "int \<Rightarrow> fsys \<Rightarrow> int \<times> fsys" where
  "fs_close fd s =
     (case get_fd fd s of None \<Rightarrow> (-1, s)
      | Some e \<Rightarrow>
          if fd_kind e = FD_CONSOLE then (0, s)
          else if fd_kind e = FD_PIPE
          then (0, close_pipe (fd_pipe e) (fd_pipe_write e)
                  (set_fd (nat fd) (e\<lparr>fd_valid := False, fd_kind := FD_NONE, fd_pipe := None\<rparr>) s))
          else (0, ref_inode (-1) (fd_inode e)
                  (set_fd (nat fd) (e\<lparr>fd_valid := False, fd_kind := FD_NONE\<rparr>) s)))"

text \<open>\<open>fs_close_table\<close>, on the table of any task (the one being killed).\<close>

definition set_fd_of :: "tid \<Rightarrow> nat \<Rightarrow> fd_entry \<Rightarrow> fsys \<Rightarrow> fsys" where
  "set_fd_of t i e s =
     s\<lparr>ktasks := (ktasks s)(t := (ktasks s t)\<lparr>fd_table := (fd_table (ktasks s t))(i := e)\<rparr>)\<rparr>"

definition close_entry :: "tid \<Rightarrow> nat \<Rightarrow> fsys \<Rightarrow> fsys" where
  "close_entry t i s =
     (let e = fd_table (ktasks s t) i in
      if \<not> fd_valid e \<or> fd_kind e = FD_CONSOLE then s
      else if fd_kind e = FD_PIPE
      then close_pipe (fd_pipe e) (fd_pipe_write e)
             (set_fd_of t i (e\<lparr>fd_valid := False, fd_kind := FD_NONE, fd_pipe := None\<rparr>) s)
      else if fd_kind e = FD_FILE
      then ref_inode (-1) (fd_inode e) (set_fd_of t i (e\<lparr>fd_valid := False, fd_kind := FD_NONE\<rparr>) s)
      else set_fd_of t i (e\<lparr>fd_valid := False, fd_kind := FD_NONE\<rparr>) s)"

definition fs_close_table :: "tid option \<Rightarrow> fsys \<Rightarrow> fsys" where
  "fs_close_table t s = (case t of None \<Rightarrow> s | Some t \<Rightarrow> fold (close_entry t) [0..<TASK_NFD] s)"

section \<open>Reading\<close>

text \<open>The copy loop of \<open>fs_read\<close> and \<open>chfs_read_file\<close>, block by block; it stops early at the 64th
  block or at an entry that names no block.  The result is what was copied.\<close>

function read_loop :: "(nat \<Rightarrow> nat \<Rightarrow> u8) \<Rightarrow> (nat \<Rightarrow> int) \<Rightarrow> nat \<Rightarrow> nat \<Rightarrow> u8 list" where
  "read_loop pl blks off remaining =
     (if remaining = 0 then []
      else if off div FS_BLOCK_SIZE \<ge> CHFS_DATABLOCKS then []
      else let blk = blks (off div FS_BLOCK_SIZE) in
        if \<not> valid_blk blk then []
        else let chunk = min (FS_BLOCK_SIZE - off mod FS_BLOCK_SIZE) remaining in
          List.map (\<lambda>j. pl (nat blk) (off mod FS_BLOCK_SIZE + j)) [0..<chunk]
            @ read_loop pl blks (off + chunk) (remaining - chunk))"
  by pat_completeness auto

termination
  by (relation "measure (\<lambda>(pl, blks, off, remaining). remaining)") (auto simp: min_def)

declare read_loop.simps [simp del]

definition char_byte :: "char \<Rightarrow> u8" where
  "char_byte c = of_char c"

text \<open>What a read of a virtual file sees of the rest of the kernel is the argument \<open>env\<close>.\<close>

definition fs_read :: "proc_env \<Rightarrow> int \<Rightarrow> int \<Rightarrow> fsys \<Rightarrow> int \<times> u8 list \<times> fsys" where
  "fs_read env fd len s =
     (case get_fd fd s of None \<Rightarrow> (-1, [], s)
      | Some e \<Rightarrow>
        if fd_kind e = FD_PSEUDO
        then (let (n, b) = pfs_read env (fd_pseudo e) (fd_offset e) len in
              if n < 0 then (-1, [], s)
              else (n, List.map char_byte b, set_fd (nat fd) (e\<lparr>fd_offset := fd_offset e + n\<rparr>) s))
        else if fd_kind e \<noteq> FD_FILE then (-1, [], s)
        else let ino = fd_inode e in
          if ino < 0 \<or> ino \<ge> int FS_MAX_FILES then (-1, [], s)
          else let sz = isize (inodes s (nat ino)); off = fd_offset e in
            if off \<ge> sz then (0, [], s)
            else let to_read = (if off + len > sz then sz - off else len);
                     b = read_loop (pool s) (iblocks (inodes s (nat ino))) (nat off) (nat to_read)
                 in (int (length b), b, set_fd (nat fd) (e\<lparr>fd_offset := off + int (length b)\<rparr>) s))"

definition chfs_get_size :: "string \<Rightarrow> fsys \<Rightarrow> int" where
  "chfs_get_size path s = (case find_name path s of None \<Rightarrow> -1 | Some i \<Rightarrow> isize (inodes s i))"

definition chfs_read_file :: "string \<Rightarrow> int \<Rightarrow> fsys \<Rightarrow> int \<times> u8 list" where
  "chfs_read_file path max_len s =
     (case find_name path s of None \<Rightarrow> (-1, [])
      | Some i \<Rightarrow>
          let sz = min (isize (inodes s i)) max_len;
              b = read_loop (pool s) (iblocks (inodes s i)) 0 (nat sz)
          in (int (length b), b))"

section \<open>Writing\<close>

text \<open>The block behind entry \<open>k\<close> of a file, taken from the pool when the entry names none.\<close>

definition block_for :: "nat \<Rightarrow> nat \<Rightarrow> fsys \<Rightarrow> (nat \<times> fsys) option" where
  "block_for ino k s =
     (let blk = iblocks (inodes s ino) k in
      if valid_blk blk then Some (nat blk, s)
      else case free_block s of None \<Rightarrow> None
        | Some b \<Rightarrow> Some (b, claim_block b (upd_inode ino (\<lambda>n. n\<lparr>iblocks := (iblocks n)(k := int b)\<rparr>) s)))"

definition store_chunk :: "nat \<Rightarrow> nat \<Rightarrow> (nat \<Rightarrow> u8) \<Rightarrow> nat \<Rightarrow> nat \<Rightarrow> fsys \<Rightarrow> fsys" where
  "store_chunk b bo buf in_off chunk s =
     s\<lparr>pool := (pool s)(b := (\<lambda>j. if bo \<le> j \<and> j < bo + chunk then buf (in_off + (j - bo)) else pool s b j))\<rparr>"

definition grow_size :: "nat \<Rightarrow> nat \<Rightarrow> fsys \<Rightarrow> fsys" where
  "grow_size ino off s = (if int off > isize (inodes s ino) then upd_inode ino (\<lambda>n. n\<lparr>isize := int off\<rparr>) s else s)"

text \<open>The copy loops of \<open>fs_write\<close> (\<open>grow\<close>: the size follows the offset) and of
  \<open>chfs_write_file\<close> (the size is set after the loop).  The result is \<open>in_off\<close>.\<close>

function write_loop :: "bool \<Rightarrow> nat \<Rightarrow> (nat \<Rightarrow> u8) \<Rightarrow> nat \<Rightarrow> nat \<Rightarrow> nat \<Rightarrow> fsys \<Rightarrow> nat \<times> fsys" where
  "write_loop grow ino buf in_off off remaining s =
     (if remaining = 0 then (in_off, s)
      else if off div FS_BLOCK_SIZE \<ge> CHFS_DATABLOCKS then (in_off, s)
      else case block_for ino (off div FS_BLOCK_SIZE) s of None \<Rightarrow> (in_off, s)
      | Some (blk, s1) \<Rightarrow>
          let chunk = min (FS_BLOCK_SIZE - off mod FS_BLOCK_SIZE) remaining;
              s2 = store_chunk blk (off mod FS_BLOCK_SIZE) buf in_off chunk s1;
              s3 = (if grow then grow_size ino (off + chunk) s2 else s2)
          in write_loop grow ino buf (in_off + chunk) (off + chunk) (remaining - chunk) s3)"
  by pat_completeness auto

termination
  by (relation "measure (\<lambda>(grow, ino, buf, in_off, off, remaining, s). remaining)") (auto simp: min_def)

declare write_loop.simps [simp del]

definition fs_write :: "int \<Rightarrow> (nat \<Rightarrow> u8) \<Rightarrow> int \<Rightarrow> fsys \<Rightarrow> int \<times> fsys" where
  "fs_write fd buf len s =
     (case get_fd fd s of None \<Rightarrow> (-1, s)
      | Some e \<Rightarrow>
        if fd_kind e = FD_PSEUDO
        then (let n = pfs_write (fd_pseudo e) len in
              if n < 0 then (-1, s) else (n, set_fd (nat fd) (e\<lparr>fd_offset := fd_offset e + n\<rparr>) s))
        else if fd_kind e \<noteq> FD_FILE then (-1, s)
        else let ino = fd_inode e in
          if ino < 0 \<or> ino \<ge> int FS_MAX_FILES then (-1, s)
          else if len < 0 then (-1, s)
          else let (n, s1) = write_loop True (nat ino) buf 0 (nat (fd_offset e)) (nat len) s
               in (int n, set_fd (nat fd) (e\<lparr>fd_offset := fd_offset e + int n\<rparr>) s1))"

definition chfs_write_file :: "string option \<Rightarrow> (nat \<Rightarrow> u8) option \<Rightarrow> int \<Rightarrow> fsys \<Rightarrow> int \<times> fsys" where
  "chfs_write_file path buf0 len s =
     (case (path, buf0) of (Some p, Some buf) \<Rightarrow>
        if len < 0 then (-1, s)
        else let (i, s0) = (case find_name p s of Some i \<Rightarrow> (int i, s) | None \<Rightarrow> fs_create (Some p) s) in
          if i < 0 then (-1, s0)
          else let ino = nat i;
                   (n, s1) = write_loop False ino buf 0 0 (nat len) (upd_inode ino (\<lambda>n. n\<lparr>isize := 0\<rparr>) s0)
               in (int n, upd_inode ino (\<lambda>nd. nd\<lparr>isize := int n\<rparr>) s1)
      | _ \<Rightarrow> (-1, s))"

definition chfs_truncate :: "string option \<Rightarrow> fsys \<Rightarrow> int \<times> fsys" where
  "chfs_truncate path s =
     (case path of None \<Rightarrow> (-1, s) | Some p \<Rightarrow>
      case find_name p s of None \<Rightarrow> (-1, s)
      | Some i \<Rightarrow> (0, upd_inode i (\<lambda>n. n\<lparr>isize := 0\<rparr>) s))"

section \<open>Directories, removal, renaming\<close>

definition fs_mkdir :: "string option \<Rightarrow> fsys \<Rightarrow> int \<times> fsys" where
  "fs_mkdir path s =
     (case path of None \<Rightarrow> (-1, s) | Some p \<Rightarrow>
      if length p = 0 \<or> length p \<ge> FS_MAX_PATH then (-1, s)
      else if find_name1 p s \<noteq> None then (-1, s)
      else let (i, s1) = fs_create (Some p) s in
        if i < 0 then (-1, s1)
        else let ino = nat i;
                 s2 = upd_inode ino (\<lambda>n. n\<lparr>itype := FT_DIR, ipermissions := PERM_R OR PERM_W OR PERM_X,
                        imode := 0x1ED\<rparr>) s1;
                 blk = iblocks (inodes s2 ino) 0;
                 s3 = (if valid_blk blk then put_dirent (nat blk) ''.'' (of_int i) s2 else s2)
             in (i, upd_inode ino (\<lambda>n. n\<lparr>isize := 28\<rparr>) s3))"

definition release_blocks :: "nat \<Rightarrow> fsys \<Rightarrow> fsys" where
  "release_blocks i s =
     fold (\<lambda>k s. let blk = iblocks (inodes s i) k
               in if valid_blk blk then s\<lparr>bused := (bused s)(nat blk := False)\<rparr> else s) [0..<CHFS_DATABLOCKS] s"

definition fs_unlink :: "string option \<Rightarrow> fsys \<Rightarrow> int \<times> fsys" where
  "fs_unlink path s =
     (case path of None \<Rightarrow> (-1, s) | Some p \<Rightarrow>
      if length p = 0 then (-1, s)
      else case find_name1 p s of None \<Rightarrow> (-1, s)
      | Some i \<Rightarrow> let s1 = release_blocks i s
                 in (0, upd_inode i (\<lambda>_. inode_zero) (s1\<lparr>iused := (iused s1)(i := False)\<rparr>)))"

text \<open>The search of \<open>chfs_move\<close> runs over the whole table, so the last match counts.\<close>

definition last_name :: "string \<Rightarrow> fsys \<Rightarrow> nat option" where
  "last_name p s = fold (\<lambda>i r. if iused s i \<and> iname (inodes s i) = p then Some i else r) [0..<FS_MAX_FILES] None"

definition chfs_move :: "string option \<Rightarrow> string option \<Rightarrow> fsys \<Rightarrow> int \<times> fsys" where
  "chfs_move oldp newp s =
     (case (oldp, newp) of (Some p, Some q) \<Rightarrow>
        (case last_name p s of None \<Rightarrow> (-1, s)
         | Some i \<Rightarrow> if last_name q s \<noteq> None then (-2, s)
                    else (0, upd_inode i (\<lambda>n. n\<lparr>iname := take 31 q\<rparr>) s))
      | _ \<Rightarrow> (-1, s))"

definition basename :: "string \<Rightarrow> string" where
  "basename p = rev (takeWhile (\<lambda>c. c \<noteq> CHR ''/'') (rev p))"

text \<open>\<open>chfs_list_dir\<close>: the entries it fills, in order; \<open>path\<close> is only tested for null.\<close>

definition list_entry :: "fsys \<Rightarrow> nat \<Rightarrow> (bool \<times> string) list" where
  "list_entry s i =
     (if iused s i \<and> iname (inodes s i) \<noteq> '''' \<and> iname (inodes s i) \<noteq> ''/''
         \<and> basename (iname (inodes s i)) \<noteq> ''''
      then [(itype (inodes s i) = FT_DIR, take 24 (basename (iname (inodes s i))))] else [])"

definition chfs_list_dir :: "string option \<Rightarrow> bool \<Rightarrow> int \<Rightarrow> fsys \<Rightarrow> (bool \<times> string) list" where
  "chfs_list_dir path out_ok mx s =
     (if path = None \<or> mx \<le> 0 \<or> \<not> out_ok then []
      else take (nat mx) (concat (List.map (list_entry s) [0..<FS_MAX_FILES])))"

section \<open>Duplicating descriptors\<close>

definition dup_pipe :: "nat option \<Rightarrow> bool \<Rightarrow> fsys \<Rightarrow> fsys" where
  "dup_pipe p is_write s =
     (case p of None \<Rightarrow> s | Some a \<Rightarrow>
      s\<lparr>kpipes := (kpipes s)(a := map_option (\<lambda>q.
          (if is_write then q\<lparr>writers := writers q + 1\<rparr> else q\<lparr>readers := readers q + 1\<rparr>)
            \<lparr>pref_count := pref_count q + 1\<rparr>) (kpipes s a))\<rparr>)"

definition fs_dup2 :: "int \<Rightarrow> int \<Rightarrow> fsys \<Rightarrow> int \<times> fsys" where
  "fs_dup2 oldfd newfd s =
     (if oldfd < 0 \<or> oldfd \<ge> 16 \<or> newfd < 0 \<or> newfd \<ge> 16 then (-1, s)
      else case cur_table s of None \<Rightarrow> (-1, s) | Some tbl \<Rightarrow>
        if \<not> fd_valid (tbl (nat oldfd)) then (-1, s)
        else if oldfd = newfd then (newfd, s)
        else let dst = tbl (nat newfd); src = tbl (nat oldfd);
                 s1 = (if fd_valid dst then
                         (if fd_kind dst = FD_FILE then ref_inode (-1) (fd_inode dst) s
                          else if fd_kind dst = FD_PIPE then close_pipe (fd_pipe dst) (fd_pipe_write dst) s
                          else s)
                       else s);
                 s2 = set_fd (nat newfd) src s1
             in (newfd, if fd_kind src = FD_FILE then ref_inode 1 (fd_inode src) s2
                        else if fd_kind src = FD_PIPE then dup_pipe (fd_pipe src) (fd_pipe_write src) s2
                        else s2))"

end
