(* ===== verification/Chfs_Inv.thy ===== *)
theory Chfs_Inv
  imports Chfs
begin

text \<open>
  Block ownership in the in-memory file system: a block other than block 0 is marked used exactly
  when one entry of one file names it, and no two entries name the same block.  Every
  operation of \<^theory_text>\<open>Chfs\<close> keeps this, so files never share storage and no block is
  lost.  On top of it: what a write changes, and that a read gives it back.
\<close>

section \<open>The invariant\<close>

definition owns :: "fsys \<Rightarrow> nat \<Rightarrow> nat \<Rightarrow> nat \<Rightarrow> bool" where
  "owns s i k b \<longleftrightarrow> 1 \<le> i \<and> i < FS_MAX_FILES \<and> iused s i \<and> k < CHFS_DATABLOCKS
     \<and> iblocks (inodes s i) k = int b \<and> b < FS_MAX_BLOCKS"

definition chfs_inv :: "fsys \<Rightarrow> bool" where
  "chfs_inv s \<longleftrightarrow> bused s 0 \<and> iused s 0 \<and> itype (inodes s 0) = FT_DIR \<and> (\<forall>k. iblocks (inodes s 0) k = 0)
     \<and> (\<forall>i k. 1 \<le> i \<and> i < FS_MAX_FILES \<and> \<not> iused s i \<longrightarrow> iblocks (inodes s i) k = 0)
     \<and> (\<forall>b. 1 \<le> b \<and> b < FS_MAX_BLOCKS \<longrightarrow> bused s b = (\<exists>i k. owns s i k b))
     \<and> (\<forall>i k j l b. owns s i k b \<longrightarrow> owns s j l b \<longrightarrow> i = j \<and> k = l)
     \<and> (\<forall>i k. \<not> owns s i k 0)"

lemma chfs_invI:
  assumes "bused s 0" "iused s 0 \<and> itype (inodes s 0) = FT_DIR" "\<And>k. iblocks (inodes s 0) k = 0"
    "\<And>i k. \<lbrakk>1 \<le> i; i < FS_MAX_FILES; \<not> iused s i\<rbrakk> \<Longrightarrow> iblocks (inodes s i) k = 0"
    "\<And>b. \<lbrakk>1 \<le> b; b < FS_MAX_BLOCKS\<rbrakk> \<Longrightarrow> bused s b = (\<exists>i k. owns s i k b)"
    "\<And>i k j l b. \<lbrakk>owns s i k b; owns s j l b\<rbrakk> \<Longrightarrow> i = j \<and> k = l"
    "\<And>i k. \<not> owns s i k 0"
  shows "chfs_inv s"
  unfolding chfs_inv_def using assms by blast

lemma chfs_invD:
  assumes "chfs_inv s"
  shows "bused s 0" "iused s 0 \<and> itype (inodes s 0) = FT_DIR" "iblocks (inodes s 0) k = 0"
    "\<lbrakk>1 \<le> i; i < FS_MAX_FILES; \<not> iused s i\<rbrakk> \<Longrightarrow> iblocks (inodes s i) k = 0"
    "\<lbrakk>1 \<le> b; b < FS_MAX_BLOCKS\<rbrakk> \<Longrightarrow> bused s b = (\<exists>i k. owns s i k b)"
    "\<lbrakk>owns s i k b; owns s j l b\<rbrakk> \<Longrightarrow> i = j \<and> k = l"
    "\<not> owns s i k 0"
  using assms unfolding chfs_inv_def by blast+

text \<open>The part of the state the invariant is about.\<close>

definition same_layout :: "fsys \<Rightarrow> fsys \<Rightarrow> bool" where
  "same_layout s t \<longleftrightarrow> (\<forall>i. iblocks (inodes t i) = iblocks (inodes s i)) \<and> iused t = iused s
     \<and> bused t = bused s \<and> itype (inodes t 0) = itype (inodes s 0)"

lemma same_layout_inv: "same_layout s t \<Longrightarrow> chfs_inv t = chfs_inv s"
  by (simp add: same_layout_def chfs_inv_def owns_def)

lemma same_layout_refl [simp]: "same_layout s s"
  by (simp add: same_layout_def)

lemma same_layout_trans: "\<lbrakk>same_layout s t; same_layout t u\<rbrakk> \<Longrightarrow> same_layout s u"
  by (simp add: same_layout_def)

named_theorems layout_intros "operations that leave block ownership alone"

lemma layout_upd_inode [layout_intros]: "(\<And>n. iblocks (f n) = iblocks n \<and> itype (f n) = itype n)
    \<Longrightarrow> same_layout s (upd_inode i f s)"
  by (simp add: same_layout_def upd_inode_def)

lemma layout_set_fd [layout_intros]: "same_layout s (set_fd i e s)"
  by (simp add: same_layout_def set_fd_def split: option.split)

lemma layout_set_fd_of [layout_intros]: "same_layout s (set_fd_of t i e s)"
  by (simp add: same_layout_def set_fd_of_def)

lemma layout_close_pipe [layout_intros]: "same_layout s (close_pipe p w s)"
  by (simp add: same_layout_def close_pipe_def Let_def split: option.split prod.split)

lemma layout_dup_pipe [layout_intros]: "same_layout s (dup_pipe p w s)"
  by (simp add: same_layout_def dup_pipe_def split: option.split)

lemma layout_ref_inode [layout_intros]: "same_layout s (ref_inode d i s)"
  by (simp add: ref_inode_def layout_upd_inode)

lemma layout_store_chunk [layout_intros]: "same_layout s (store_chunk b bo buf a c s)"
  by (simp add: same_layout_def store_chunk_def)

lemma layout_put_dirent [layout_intros]: "same_layout s (put_dirent b nm i s)"
  by (simp add: same_layout_def put_dirent_def)

lemma layout_grow_size [layout_intros]: "same_layout s (grow_size i off s)"
  by (simp add: grow_size_def layout_upd_inode)

lemma inv_layout: "\<lbrakk>chfs_inv s; same_layout s t\<rbrakk> \<Longrightarrow> chfs_inv t"
  using same_layout_inv by blast

section \<open>Taking and giving back blocks\<close>

definition assign_block :: "nat \<Rightarrow> nat \<Rightarrow> nat \<Rightarrow> fsys \<Rightarrow> fsys" where
  "assign_block i k b s = claim_block b (upd_inode i (\<lambda>n. n\<lparr>iblocks := (iblocks n)(k := int b)\<rparr>) s)"

lemma free_blockD: "free_block s = Some b \<Longrightarrow> b < FS_MAX_BLOCKS \<and> \<not> bused s b"
  by (auto simp: free_block_def first_from_Some_iff)

lemma owns_assign:
  "\<lbrakk>1 \<le> i; i < FS_MAX_FILES; iused s i; k < CHFS_DATABLOCKS; b < FS_MAX_BLOCKS\<rbrakk> \<Longrightarrow>
   owns (assign_block i k b s) j l c = (if j = i \<and> l = k then c = b else owns s j l c)"
  by (auto simp: owns_def assign_block_def claim_block_def upd_inode_def)

lemma inv_assign:
  assumes inv: "chfs_inv s" and i: "1 \<le> i" "i < FS_MAX_FILES" "iused s i" and k: "k < CHFS_DATABLOCKS"
    and old: "\<not> valid_blk (iblocks (inodes s i) k)" and b: "b < FS_MAX_BLOCKS" "\<not> bused s b"
  shows "chfs_inv (assign_block i k b s)"
proof (rule chfs_invI)
  note ow = owns_assign [OF i k b(1)]
  have none: "\<not> owns s i k c" for c using old by (auto simp: owns_def valid_blk_def)
  have b0: "b \<noteq> 0" using b(2) chfs_invD(1) [OF inv] by metis
  have nb: "\<not> owns s j l b" for j l
    using chfs_invD(5) [OF inv, of b] b b0 by auto
  show "bused (assign_block i k b s) 0"
    "iused (assign_block i k b s) 0 \<and> itype (inodes (assign_block i k b s) 0) = FT_DIR"
    using chfs_invD(1,2) [OF inv] by (simp_all add: assign_block_def claim_block_def upd_inode_def)
  show "iblocks (inodes (assign_block i k b s) 0) l = 0" for l
    using chfs_invD(3) [OF inv] i by (simp add: assign_block_def claim_block_def upd_inode_def)
  show "iblocks (inodes (assign_block i k b s) j) l = 0"
    if "1 \<le> j" "j < FS_MAX_FILES" "\<not> iused (assign_block i k b s) j" for j l
    using that chfs_invD(4) [OF inv] i by (auto simp: assign_block_def claim_block_def upd_inode_def)
  show "bused (assign_block i k b s) c = (\<exists>j l. owns (assign_block i k b s) j l c)"
    if "1 \<le> c" "c < FS_MAX_BLOCKS" for c
  proof (cases "c = b")
    case True
    then show ?thesis using ow by (auto simp: assign_block_def claim_block_def)
  next
    case False
    have "bused (assign_block i k b s) c = bused s c" using False by (simp add: assign_block_def claim_block_def upd_inode_def)
    moreover have "owns (assign_block i k b s) j l c = owns s j l c" for j l using ow none False by metis
    ultimately show ?thesis using chfs_invD(5) [OF inv that] by simp
  qed
  show "j = j' \<and> l = l'" if "owns (assign_block i k b s) j l c" "owns (assign_block i k b s) j' l' c" for j l j' l' c
    using that chfs_invD(6) [OF inv] nb unfolding ow by (auto split: if_splits)
  show "\<not> owns (assign_block i k b s) j l 0" for j l
    using chfs_invD(7) [OF inv] b0 unfolding ow by auto
qed

lemma block_for_cases:
  assumes "block_for ino k s = Some (b, s1)"
  obtains (kept) "valid_blk (iblocks (inodes s ino) k)" "b = nat (iblocks (inodes s ino) k)" "s1 = s"
  | (fresh) "\<not> valid_blk (iblocks (inodes s ino) k)" "b < FS_MAX_BLOCKS" "\<not> bused s b" "s1 = assign_block ino k b s"
proof (cases "valid_blk (iblocks (inodes s ino) k)")
  case True
  then have "b = nat (iblocks (inodes s ino) k)" "s1 = s" using assms by (auto simp: block_for_def)
  then show ?thesis using kept True by blast
next
  case False
  obtain c where c: "free_block s = Some c"
    using False assms by (cases "free_block s") (simp_all add: block_for_def)
  then have "b = c" "s1 = assign_block ino k c s"
    using assms False by (auto simp: block_for_def assign_block_def)
  then show ?thesis using fresh False free_blockD [OF c] by blast
qed

text \<open>An inode number that a descriptor may hold: inside the table.  Of the inodes outside the files
  (the root, and freed ones) every entry names block 0, so a write through them never takes a
  block.\<close>

lemma stale_valid:
  "\<lbrakk>chfs_inv s; ino < FS_MAX_FILES; ino = 0 \<or> \<not> iused s ino\<rbrakk> \<Longrightarrow> iblocks (inodes s ino) k = 0"
  using chfs_invD(3,4) [of s] by (cases "ino = 0") auto

lemma inv_block_for:
  assumes inv: "chfs_inv s" and ino: "ino < FS_MAX_FILES" and k: "k < CHFS_DATABLOCKS"
    and bf: "block_for ino k s = Some (b, s1)"
  shows "chfs_inv s1"
  using bf
proof (cases rule: block_for_cases)
  case kept
  then show ?thesis using inv by simp
next
  case fresh
  have "\<not> (ino = 0 \<or> \<not> iused s ino)"
    proof
    assume "ino = 0 \<or> \<not> iused s ino"
    then have "iblocks (inodes s ino) k = 0" by (rule stale_valid [OF inv ino])
    then show False using fresh(1) by (simp add: valid_blk_def)
  qed
  then have "1 \<le> ino" "iused s ino" by simp_all
  then show ?thesis using inv_assign [OF inv _ ino _ k fresh(1-3)] fresh(4) by metis
qed

text \<open>One turn of the copy loop, and induction over its turns.\<close>

definition write_chunk :: "bool \<Rightarrow> nat \<Rightarrow> nat \<Rightarrow> (nat \<Rightarrow> u8) \<Rightarrow> nat \<Rightarrow> nat \<Rightarrow> nat \<Rightarrow> fsys \<Rightarrow> fsys" where
  "write_chunk g ino b buf a off c s =
     (let t = store_chunk b (off mod 512) buf a c s in if g then grow_size ino (off + c) t else t)"

lemma layout_write_chunk [layout_intros]: "same_layout s (write_chunk g ino b buf a off c s)"
  by (simp add: write_chunk_def Let_def layout_store_chunk same_layout_trans [OF layout_store_chunk layout_grow_size])

lemma write_loop_stop:
  "r = 0 \<or> 64 \<le> off div 512 \<or> block_for ino (off div 512) s = None \<Longrightarrow>
   write_loop g ino buf a off r s = (a, s)"
  by (subst write_loop.simps) auto

lemma write_loop_step:
  "\<lbrakk>0 < r; off div 512 < 64; block_for ino (off div 512) s = Some (b, s1); c = min (512 - off mod 512) r\<rbrakk>
   \<Longrightarrow> write_loop g ino buf a off r s
     = write_loop g ino buf (a + c) (off + c) (r - c) (write_chunk g ino b buf a off c s1)"
  by (subst write_loop.simps) (simp add: write_chunk_def Let_def)

lemma write_loop_turns [case_names stop step]:
  assumes "\<And>a off r s. r = 0 \<or> 64 \<le> off div 512 \<or> block_for ino (off div 512) s = None \<Longrightarrow> P a off r s"
    and "\<And>a off r s b s1 c. \<lbrakk>0 < r; off div 512 < 64; block_for ino (off div 512) s = Some (b, s1);
         c = min (512 - off mod 512) r; P (a + c) (off + c) (r - c) (write_chunk g ino b buf a off c s1)\<rbrakk>
       \<Longrightarrow> P a off r s"
  shows "P a off r s"
proof (induction r arbitrary: a off s rule: less_induct)
  case (less r a off s)
  show ?case
  proof (cases "r = 0 \<or> 64 \<le> off div 512 \<or> block_for ino (off div 512) s = None")
    case True
    then show ?thesis by (rule assms(1))
  next
    case False
    then obtain b s1 where bf: "block_for ino (off div 512) s = Some (b, s1)" by auto
    have c: "0 < min (512 - off mod 512) r" using False by simp
    then have "P (a + min (512 - off mod 512) r) (off + min (512 - off mod 512) r) (r - min (512 - off mod 512) r)
        (write_chunk g ino b buf a off (min (512 - off mod 512) r) s1)"
      using False by (intro less) simp
    then show ?thesis using assms(2) [OF _ _ bf refl] False by simp
  qed
qed

lemma inv_write_loop:
  assumes "chfs_inv s" "ino < FS_MAX_FILES"
  shows "chfs_inv (snd (write_loop g ino buf a off r s))"
  using assms(1)
proof (induction a off r s rule: write_loop_turns [where ino = ino and g = g and buf = buf])
  case (stop a off r s)
  then show ?case using write_loop_stop [OF stop(1)] by simp
next
  case (step a off r s b s1 c)
  have "chfs_inv s1" using inv_block_for [OF step.prems assms(2) step(2,3)] .
  then have "chfs_inv (write_chunk g ino b buf a off c s1)" by (rule inv_layout [OF _ layout_write_chunk])
  then show ?case using step.IH write_loop_step [OF step(1-4)] by simp
qed

section \<open>Giving back all blocks of a file\<close>

definition freed :: "fsys \<Rightarrow> nat \<Rightarrow> nat \<Rightarrow> nat \<Rightarrow> bool" where
  "freed s i n b \<longleftrightarrow> bused s b
     \<and> \<not> (\<exists>k < n. valid_blk (iblocks (inodes s i) k) \<and> b = nat (iblocks (inodes s i) k))"

lemma freed_Suc:
  "freed s i (Suc n) b \<longleftrightarrow>
   freed s i n b \<and> \<not> (valid_blk (iblocks (inodes s i) n) \<and> b = nat (iblocks (inodes s i) n))"
  unfolding freed_def less_Suc_eq by blast

lemma release_fold:
  "fold (\<lambda>k s. let blk = iblocks (inodes s i) k
      in if valid_blk blk then s\<lparr>bused := (bused s)(nat blk := False)\<rparr> else s) [0..<n] s
   = s\<lparr>bused := freed s i n\<rparr>"
proof (induction n)
  case 0
  have "freed s i 0 = bused s" by (simp add: freed_def fun_eq_iff)
  then show ?case by simp
next
  case (Suc n)
  have "(if valid_blk (iblocks (inodes s i) n) then (freed s i n)(nat (iblocks (inodes s i) n) := False)
      else freed s i n) = freed s i (Suc n)"
    by (auto simp: freed_Suc fun_eq_iff)
  then show ?case using Suc by (auto simp: Let_def)
qed

definition drop_step :: "nat \<Rightarrow> nat \<Rightarrow> fsys \<Rightarrow> fsys" where
  "drop_step i k s =
     (let blk = iblocks (inodes s i) k;
          s1 = (if valid_blk blk then s\<lparr>bused := (bused s)(nat blk := False)\<rparr> else s)
      in upd_inode i (\<lambda>n. n\<lparr>iblocks := (iblocks n)(k := -1)\<rparr>) s1)"

definition dropped :: "nat \<Rightarrow> nat \<Rightarrow> fsys \<Rightarrow> fsys" where
  "dropped i m s =
     upd_inode i (\<lambda>n. n\<lparr>iblocks := (\<lambda>k. if k < m then -1 else iblocks n k)\<rparr>) (s\<lparr>bused := freed s i m\<rparr>)"

lemma drop_step_dropped: "drop_step i m (dropped i m s) = dropped i (Suc m) s"
proof -
  let ?blk = "iblocks (inodes s i) m" and ?d = "dropped i m s"
  have d: "iblocks (inodes ?d i) m = ?blk" "bused ?d = freed s i m"
    by (simp_all add: dropped_def upd_inode_def)
  have "(if valid_blk ?blk then (freed s i m)(nat ?blk := False) else freed s i m) = freed s i (Suc m)"
    by (auto simp: freed_Suc fun_eq_iff)
  then have "(if valid_blk ?blk then ?d\<lparr>bused := (bused ?d)(nat ?blk := False)\<rparr> else ?d)
      = ?d\<lparr>bused := freed s i (Suc m)\<rparr>"
    using d by (cases "valid_blk ?blk") simp_all
  moreover have "(\<lambda>k. if k < m then -1 else f k)(m := -1) = (\<lambda>k. if k < Suc m then (-1 :: int) else f k)" for f
    by (auto simp: fun_eq_iff less_Suc_eq)
  ultimately show ?thesis
    unfolding drop_step_def Let_def d(1) by (simp only:) (simp add: dropped_def upd_inode_def cong: if_cong)
qed

lemma drop_fold: "fold (drop_step i) [0..<m] s = dropped i m s"
proof (induction m)
  case 0
  have "freed s i 0 = bused s" by (simp add: freed_def fun_eq_iff)
  then show ?case by (simp add: dropped_def upd_inode_def)
next
  case (Suc m)
  then show ?case by (simp add: drop_step_dropped)
qed

lemma release_blocks_eq: "release_blocks i s = s\<lparr>bused := freed s i 64\<rparr>"
  unfolding release_blocks_def by (rule release_fold)

lemma drop_blocks_eq: "drop_blocks i s =
  upd_inode i (\<lambda>n. n\<lparr>iblocks := (\<lambda>k. if k < 64 then -1 else iblocks n k)\<rparr>) (s\<lparr>bused := freed s i 64\<rparr>)"
  using drop_fold [of i 64 s] unfolding drop_blocks_def drop_step_def dropped_def .

lemma freed_owns:
  assumes "1 \<le> i" "i < FS_MAX_FILES" "iused s i"
  shows "freed s i 64 b \<longleftrightarrow> bused s b \<and> \<not> (\<exists>k. owns s i k b)"
proof -
  have "(\<exists>k < 64. valid_blk (iblocks (inodes s i) k) \<and> b = nat (iblocks (inodes s i) k)) \<longleftrightarrow> (\<exists>k. owns s i k b)"
    using assms by (auto simp: owns_def valid_blk_def nat_less_iff)
  then show ?thesis unfolding freed_def by blast
qed

lemma inv_release:
  assumes inv: "chfs_inv s" and i: "1 \<le> i" "i < FS_MAX_FILES" "iused s i"
    and rest: "\<And>j. j \<noteq> i \<Longrightarrow> iblocks (inodes t j) = iblocks (inodes s j) \<and> itype (inodes t j) = itype (inodes s j)"
      "\<And>j. j \<noteq> i \<Longrightarrow> iused t j = iused s j" "bused t = freed s i 64"
    and at: "iused t i \<and> (\<forall>k < 64. iblocks (inodes t i) k = -1) \<or> \<not> iused t i \<and> (\<forall>k. iblocks (inodes t i) k = 0)"
  shows "chfs_inv t"
proof (rule chfs_invI)
  have ow: "owns t j l c \<longleftrightarrow> j \<noteq> i \<and> owns s j l c" for j l c
    using at rest(1,2) by (cases "j = i") (auto simp: owns_def)
  have fr: "bused t c \<longleftrightarrow> bused s c \<and> \<not> (\<exists>k. owns s i k c)" for c
    unfolding rest(3) by (rule freed_owns [OF i])
  show "bused t 0" using fr chfs_invD(1,7) [OF inv] by simp
  show "iused t 0 \<and> itype (inodes t 0) = FT_DIR" "iblocks (inodes t 0) k = 0" for k using rest i chfs_invD(2,3) [OF inv] by simp_all
  show "iblocks (inodes t j) k = 0" if "1 \<le> j" "j < FS_MAX_FILES" "\<not> iused t j" for j k
    using that at rest chfs_invD(4) [OF inv] by (cases "j = i") auto
  have one: "\<not> owns s i k c" if "owns s j l c" "j \<noteq> i" for j k l c using that chfs_invD(6) [OF inv] by metis
  show "bused t c = (\<exists>j l. owns t j l c)" if "1 \<le> c" "c < FS_MAX_BLOCKS" for c
    unfolding fr chfs_invD(5) [OF inv that] ow using one by metis
  show "j = j' \<and> l = l'" if "owns t j l c" "owns t j' l' c" for j l j' l' c
    using that chfs_invD(6) [OF inv] unfolding ow by blast
  show "\<not> owns t j l 0" for j l using chfs_invD(7) [OF inv] unfolding ow by blast
qed

lemma inv_drop_blocks: "\<lbrakk>chfs_inv s; 1 \<le> i; i < FS_MAX_FILES; iused s i\<rbrakk> \<Longrightarrow> chfs_inv (drop_blocks i s)"
  by (rule inv_release [of s i]) (simp_all add: drop_blocks_eq upd_inode_def)

section \<open>Every operation keeps the invariant\<close>

lemma find_nameD: "find_name p s = Some i \<Longrightarrow> i < FS_MAX_FILES \<and> iused s i \<and> iname (inodes s i) = p"
  by (auto simp: find_name_def first_from_Some_iff)

lemma find_name1D: "find_name1 p s = Some i \<Longrightarrow> 1 \<le> i \<and> i < FS_MAX_FILES \<and> iused s i \<and> iname (inodes s i) = p"
  by (auto simp: find_name1_def first_from_Some_iff)

lemma inv_fs_create:
  assumes inv: "chfs_inv s"
  shows "chfs_inv (snd (fs_create p s)) \<and> fst (fs_create p s) < 64
    \<and> (0 \<le> fst (fs_create p s) \<longrightarrow> 1 \<le> fst (fs_create p s) \<and> iused (snd (fs_create p s)) (nat (fst (fs_create p s))))"
proof (cases "p = None \<or> length (the p) = 0 \<or> length (the p) \<ge> 32 \<or> first_from (\<lambda>i. \<not> iused s i) 1 63 = None")
  case True
  then have "fs_create p s = (-1, s)" by (cases p) (auto simp: fs_create_def simp del: One_nat_def)
  then show ?thesis using inv by simp
next
  case False
  then obtain q i where p: "p = Some q" and q: "length q \<noteq> 0" "length q < 32"
    and ff: "first_from (\<lambda>i. \<not> iused s i) 1 63 = Some i" by auto
  then have i: "1 \<le> i" "i < FS_MAX_FILES" "\<not> iused s i" by (auto simp: first_from_Some_iff)
  let ?s1 = "upd_inode i (\<lambda>n. n\<lparr>iid := int i, itype := FT_FILE, isize := 0, iname := take 31 q,
      iblocks := (\<lambda>_. -1)\<rparr>) (s\<lparr>iused := (iused s)(i := True)\<rparr>)"
  have ow1: "owns ?s1 j l c = owns s j l c" for j l c
    using i(3) by (auto simp: owns_def upd_inode_def)
  have inv1: "chfs_inv ?s1"
  proof (rule chfs_invI)
    show "bused ?s1 c = (\<exists>j l. owns ?s1 j l c)" if "1 \<le> c" "c < FS_MAX_BLOCKS" for c
      unfolding ow1 using chfs_invD(5) [OF inv that] by (simp add: upd_inode_def)
    show "j = j' \<and> l = l'" if "owns ?s1 j l c" "owns ?s1 j' l' c" for j l j' l' c
      using that chfs_invD(6) [OF inv] unfolding ow1 by blast
    show "\<not> owns ?s1 j l 0" for j l using chfs_invD(7) [OF inv] unfolding ow1 by blast
  qed (use i chfs_invD(1-4) [OF inv] in \<open>auto simp: upd_inode_def split: if_splits\<close>)
  obtain blk s2 where fb: "first_block ?s1 = (blk, s2)" by (cases "first_block ?s1")
  obtain u g where ug: "cur_ids s2 = (u, g)" by (cases "cur_ids s2")
  let ?s3 = "upd_inode i (\<lambda>n. n\<lparr>iblocks := (iblocks n)(0 := blk), ipermissions := PERM_R OR PERM_W OR PERM_X,
      iref := 0, iuid := u, igid := g, imode := 0x1A4\<rparr>) s2"
  have r: "fs_create p s = (int i, ?s3)"
    using p q ff fb ug by (simp add: fs_create_def Let_def)
  have "chfs_inv ?s3"
  proof (cases "free_block ?s1")
    case None
    then have "first_block ?s1 = (-1, ?s1)" by (simp add: first_block_def)
    then have "blk = -1" "s2 = ?s1" using fb by (metis prod.inject)+
    then have "same_layout ?s1 ?s3" by (auto simp: same_layout_def upd_inode_def)
    then show ?thesis by (rule inv_layout [OF inv1])
  next
    case (Some b)
    then have "first_block ?s1 = (int b, claim_block b ?s1)" by (simp add: first_block_def)
    then have b: "blk = int b" "s2 = claim_block b ?s1" using fb by (metis prod.inject)+
    have "chfs_inv (assign_block i 0 b ?s1)"
      by (rule inv_assign [OF inv1 i(1,2)]) (use free_blockD [OF Some] in \<open>simp_all add: upd_inode_def valid_blk_def\<close>)
    moreover have "same_layout (assign_block i 0 b ?s1) ?s3"
      using b by (simp add: same_layout_def assign_block_def upd_inode_def claim_block_def)
    ultimately show ?thesis by (rule inv_layout)
  qed
  moreover have "iused ?s3 i"
    using fb by (auto simp: first_block_def upd_inode_def claim_block_def split: option.splits)
  ultimately show ?thesis using r i by simp
qed




lemma inv_chfs_init: "chfs_inv (chfs_init s)"
  by (rule chfs_invI) (auto simp: chfs_init_def Let_def put_dirent_def upd_inode_def inode_zero_def owns_def)

lemma inv_open_truncate:
  assumes "chfs_inv s" "i < FS_MAX_FILES" "iused s i"
  shows "chfs_inv (open_truncate i md s)"
proof (cases "itype (inodes s i) = FT_FILE")
  case True
  then have "i \<noteq> 0" using chfs_invD(2) [OF assms(1)] by (intro notI) simp
  then have "chfs_inv (drop_blocks i s)" using inv_drop_blocks assms by simp
  then have "chfs_inv (upd_inode i (\<lambda>n. n\<lparr>isize := 0\<rparr>) (drop_blocks i s))"
    by (rule inv_layout) (simp add: layout_upd_inode)
  then show ?thesis using assms(1) by (simp add: open_truncate_def)
qed (use assms in \<open>simp add: open_truncate_def\<close>)

lemma inv_open_inode:
  assumes "chfs_inv s" "i < FS_MAX_FILES" "iused s i"
  shows "chfs_inv (snd (open_inode i p md s))"
proof -
  have t: "chfs_inv (open_truncate i md s)" by (rule inv_open_truncate [OF assms])
  have "chfs_inv (upd_inode i (\<lambda>n. n\<lparr>iref := iref n + 1\<rparr>) (set_fd j e (open_truncate i md s)))" for j e
    by (rule inv_layout [OF inv_layout [OF t layout_set_fd [of _ j e]]]) (simp add: layout_upd_inode)
  then show ?thesis using t assms(1) by (simp add: open_inode_def Let_def split: option.split)
qed

lemma inv_fs_open: "chfs_inv s \<Longrightarrow> chfs_inv (snd (fs_open p md s))"
proof (cases p)
  case (Some q)
  assume inv: "chfs_inv s"
  have ps: "chfs_inv (snd (open_pseudo q md s))"
    using inv inv_layout [OF inv layout_set_fd] by (simp add: open_pseudo_def split: option.split)
  have found: "chfs_inv (snd (open_inode i q md s))" if "find_name q s = Some i" for i
    using inv_open_inode [OF inv] find_nameD [OF that] by simp
  have new: "chfs_inv (snd (let (i, s1) = fs_create (Some q) s in if i < 0 then (-1, s1) else open_inode (nat i) q md s1))"
    using inv_fs_create [OF inv, of "Some q"] inv_open_inode [of "snd (fs_create (Some q) s)"]
    by (auto simp: split_beta not_less)
  show ?thesis using ps found new inv by (simp add: fs_open_def Some split: option.split)
qed (simp add: fs_open_def)

lemma inv_fs_read: "chfs_inv s \<Longrightarrow> chfs_inv (snd (snd (fs_read env fd len s)))"
  using inv_layout [OF _ layout_set_fd] by (simp add: fs_read_def Let_def split_beta split: option.split)

lemma inv_fs_write:
  assumes inv: "chfs_inv s"
  shows "chfs_inv (snd (fs_write fd buf len s))"
proof -
  have "chfs_inv (set_fd i e (snd (write_loop True (nat ino) buf 0 off r s)))" if "0 \<le> ino" "ino < 64" for i e ino off r
    using inv_layout [OF inv_write_loop [OF inv, of "nat ino"] layout_set_fd] that by simp
  then show ?thesis using inv inv_layout [OF inv layout_set_fd]
    by (simp add: fs_write_def Let_def split_beta split: option.split)
qed

lemma inv_chfs_write_file:
  assumes inv: "chfs_inv s"
  shows "chfs_inv (snd (chfs_write_file p buf len s))"
proof (cases "p = None \<or> buf = None \<or> len < 0")
  case True
  then show ?thesis using inv by (auto simp: chfs_write_file_def split: option.split)
next
  case False
  then obtain q bf where pq: "p = Some q" "buf = Some bf" "\<not> len < 0" by auto
  define r where "r = (case find_name q s of Some i \<Rightarrow> (int i, s) | None \<Rightarrow> fs_create (Some q) s)"
  have r: "chfs_inv (snd r)" "fst r < 64"
    using inv inv_fs_create [OF inv, of "Some q"] find_nameD [of q s] unfolding r_def
    by (auto split: option.splits)
  let ?s1 = "upd_inode (nat (fst r)) (\<lambda>n. n\<lparr>isize := 0\<rparr>) (snd r)"
  have "chfs_inv ?s1" by (rule inv_layout [OF r(1)]) (simp add: layout_upd_inode)
  then have "chfs_inv (snd (write_loop False (nat (fst r)) bf 0 0 (nat len) ?s1))"
    by (rule inv_write_loop) (use r(2) in simp)
  then have "chfs_inv (upd_inode (nat (fst r)) (\<lambda>n. n\<lparr>isize := k\<rparr>)
      (snd (write_loop False (nat (fst r)) bf 0 0 (nat len) ?s1)))" for k
    by (rule inv_layout) (simp add: layout_upd_inode)
  then show ?thesis using r(1) pq
    by (simp add: chfs_write_file_def r_def [symmetric] Let_def split_beta)
qed

lemma inv_fs_close: "chfs_inv s \<Longrightarrow> chfs_inv (snd (fs_close fd s))"
  using inv_layout [OF inv_layout [OF _ layout_set_fd] layout_close_pipe]
    inv_layout [OF inv_layout [OF _ layout_set_fd] layout_ref_inode]
  by (simp add: fs_close_def split: option.split)

lemma inv_close_entry: "chfs_inv s \<Longrightarrow> chfs_inv (close_entry t i s)"
  using inv_layout [OF inv_layout [OF _ layout_set_fd_of] layout_close_pipe]
    inv_layout [OF inv_layout [OF _ layout_set_fd_of] layout_ref_inode]
    inv_layout [OF _ layout_set_fd_of]
  by (simp add: close_entry_def Let_def)

lemma inv_fs_close_table: "chfs_inv s \<Longrightarrow> chfs_inv (fs_close_table t s)"
proof -
  have "chfs_inv s \<Longrightarrow> chfs_inv (fold (close_entry t) is s)" for t "is"
    by (induction "is" arbitrary: s) (simp_all add: inv_close_entry)
  then show "chfs_inv s \<Longrightarrow> ?thesis" by (simp add: fs_close_table_def split: option.split)
qed

lemma inv_fs_dup2: "chfs_inv s \<Longrightarrow> chfs_inv (snd (fs_dup2 a b s))"
  using inv_layout [OF _ layout_set_fd] inv_layout [OF _ layout_ref_inode]
    inv_layout [OF _ layout_close_pipe] inv_layout [OF _ layout_dup_pipe]
  by (simp add: fs_dup2_def Let_def split: option.split)

lemma inv_fs_unlink:
  assumes inv: "chfs_inv s"
  shows "chfs_inv (snd (fs_unlink p s))"
proof (cases p)
  case (Some q)
  have "chfs_inv (upd_inode i (\<lambda>_. inode_zero) ((release_blocks i s)\<lparr>iused := (iused (release_blocks i s))(i := False)\<rparr>))"
    if "find_name1 q s = Some i" for i
    by (rule inv_release [OF inv, of i])
      (use find_name1D [OF that] in \<open>simp_all add: release_blocks_eq upd_inode_def inode_zero_def\<close>)
  then show ?thesis using inv Some by (simp add: fs_unlink_def Let_def split: option.split)
qed (use inv in \<open>simp add: fs_unlink_def\<close>)

lemma inv_fs_mkdir:
  assumes inv: "chfs_inv s"
  shows "chfs_inv (snd (fs_mkdir p s))"
proof (cases p)
  case (Some q)
  let ?r = "fs_create (Some q) s"
  have c: "chfs_inv (snd ?r)" "0 \<le> fst ?r \<Longrightarrow> nat (fst ?r) \<noteq> 0"
    using inv_fs_create [OF inv, of "Some q"] by auto
  let ?s2 = "upd_inode (nat (fst ?r)) (\<lambda>n. n\<lparr>itype := FT_DIR, ipermissions := PERM_R OR PERM_W OR PERM_X,
      imode := 0x1ED\<rparr>) (snd ?r)"
  have l: "same_layout (snd ?r) ?s2" if "0 \<le> fst ?r" using c(2) [OF that] by (simp add: same_layout_def upd_inode_def)
  have "chfs_inv (upd_inode j (\<lambda>n. n\<lparr>isize := 28\<rparr>) t)" if "chfs_inv t" for j t
    by (rule inv_layout [OF that]) (simp add: layout_upd_inode)
  then show ?thesis
    using inv c(1) inv_layout [OF c(1) l] inv_layout [OF inv_layout [OF c(1) l] layout_put_dirent]
    by (simp add: fs_mkdir_def Some Let_def split_beta)
qed (use inv in \<open>simp add: fs_mkdir_def\<close>)

lemma inv_small:
  assumes inv: "chfs_inv s"
  shows "chfs_inv (snd (fs_chmod p md s))" "chfs_inv (snd (chfs_truncate p s))" "chfs_inv (snd (chfs_move p q s))"
proof -
  have u: "chfs_inv (upd_inode i f s)" if "\<And>n. iblocks (f n) = iblocks n \<and> itype (f n) = itype n" for i f
    using inv_layout [OF inv layout_upd_inode] that by blast
  show "chfs_inv (snd (fs_chmod p md s))" "chfs_inv (snd (chfs_truncate p s))" "chfs_inv (snd (chfs_move p q s))"
    using inv u by (simp_all add: fs_chmod_def chfs_truncate_def chfs_move_def Let_def split_beta split: option.split)
qed

section \<open>The whole interface\<close>

text \<open>Every entry point, and anything the rest of the kernel may do in between to tasks, pipes and
  the choice of the current task.\<close>

datatype fs_op = FCreate "string option" | FOpen "string option" u32 | FRead proc_env int int
  | FWrite int "nat \<Rightarrow> u8" int | FDup2 int int | FClose int | FCloseTable "tid option"
  | FMkdir "string option" | FUnlink "string option" | FChmod "string option" u32
  | FTruncate "string option" | FSave "string option" "(nat \<Rightarrow> u8) option" int
  | FMove "string option" "string option" | FWorld tasks "tid option" "nat \<rightharpoonup> pipe"

fun fs_exec :: "fs_op \<Rightarrow> fsys \<Rightarrow> fsys" where
  "fs_exec (FCreate p) s = snd (fs_create p s)"
| "fs_exec (FOpen p md) s = snd (fs_open p md s)"
| "fs_exec (FRead env fd len) s = snd (snd (fs_read env fd len s))"
| "fs_exec (FWrite fd buf len) s = snd (fs_write fd buf len s)"
| "fs_exec (FDup2 a b) s = snd (fs_dup2 a b s)"
| "fs_exec (FClose fd) s = snd (fs_close fd s)"
| "fs_exec (FCloseTable t) s = fs_close_table t s"
| "fs_exec (FMkdir p) s = snd (fs_mkdir p s)"
| "fs_exec (FUnlink p) s = snd (fs_unlink p s)"
| "fs_exec (FChmod p md) s = snd (fs_chmod p md s)"
| "fs_exec (FTruncate p) s = snd (chfs_truncate p s)"
| "fs_exec (FSave p buf len) s = snd (chfs_write_file p buf len s)"
| "fs_exec (FMove p q) s = snd (chfs_move p q s)"
| "fs_exec (FWorld ts c ps) s = s\<lparr>ktasks := ts, kcur := c, kpipes := ps\<rparr>"

lemma inv_fs_exec: "chfs_inv s \<Longrightarrow> chfs_inv (fs_exec a s)"
proof (cases a)
  case (FWorld ts c ps)
  assume inv: "chfs_inv s"
  have "same_layout s (s\<lparr>ktasks := ts, kcur := c, kpipes := ps\<rparr>)" by (simp add: same_layout_def)
  then show ?thesis using inv_layout [OF inv] FWorld by simp
qed (simp_all add: inv_fs_create inv_fs_open inv_fs_read inv_fs_write inv_fs_dup2 inv_fs_close
    inv_fs_close_table inv_fs_mkdir inv_fs_unlink inv_small inv_chfs_write_file)

lemma inv_fs_execs: "chfs_inv s \<Longrightarrow> chfs_inv (fold fs_exec ops s)"
  by (induction ops arbitrary: s) (simp_all add: inv_fs_exec)

section \<open>Contents\<close>

text \<open>Byte \<open>j\<close> of the storage behind a block list, if there is one.\<close>

definition byte_at :: "(nat \<Rightarrow> nat \<Rightarrow> u8) \<Rightarrow> (nat \<Rightarrow> int) \<Rightarrow> nat \<Rightarrow> u8 option" where
  "byte_at pl blks j =
     (if j div 512 < 64 \<and> valid_blk (blks (j div 512)) then Some (pl (nat (blks (j div 512))) (j mod 512)) else None)"

definition file_byte :: "fsys \<Rightarrow> nat \<Rightarrow> nat \<Rightarrow> u8 option" where
  "file_byte s i j = byte_at (pool s) (iblocks (inodes s i)) j"

lemma chunk_inside:
  assumes "c = min (512 - off mod 512) r" "j < c"
  shows "(off + j) div 512 = off div 512" "(off + j) mod 512 = off mod 512 + (j :: nat)"
proof -
  have "off mod 512 < 512" "j < 512 - off mod 512" using assms by simp_all
  then have "off mod 512 + j < 512" by linarith
  moreover have e: "off + j = 512 * (off div 512) + (off mod 512 + j)" by simp
  ultimately show "(off + j) div 512 = off div 512" by (metis add.right_neutral div_less div_mult_self4 zero_neq_numeral)
  show "(off + j) mod 512 = off mod 512 + j"
    using \<open>off mod 512 + j < 512\<close> by (metis mod_add_left_eq mod_less)
qed

text \<open>The block-wise copy is the byte-wise one.\<close>

lemma read_loop_bytes:
  "read_loop pl blks off r = List.map the (takeWhile (\<lambda>x. x \<noteq> None) (List.map (byte_at pl blks) [off..<off + r]))"
proof (induction pl blks off r rule: read_loop.induct)
  case (1 pl blks off r)
  consider "r = 0" | "0 < r" "\<not> (off div 512 < 64 \<and> valid_blk (blks (off div 512)))"
    | "0 < r" "off div 512 < 64" "valid_blk (blks (off div 512))" by auto
  then show ?case
  proof cases
    case 1
    then show ?thesis by (simp add: read_loop.simps)
  next
    case 2
    then have "byte_at pl blks off = None" by (simp add: byte_at_def)
    moreover have "[off..<off + r] = off # [Suc off..<off + r]" using 2(1) by (simp add: upt_rec)
    moreover have "read_loop pl blks off r = []" using 2 by (subst read_loop.simps) auto
    ultimately show ?thesis by simp
  next
    case 3
    define c where "c = min (512 - off mod 512) r"
    have c: "0 < c" "c \<le> r" using 3(1) by (simp_all add: c_def)
    have b: "byte_at pl blks (off + j) = Some (pl (nat (blks (off div 512))) (off mod 512 + j))" if "j < c" for j
      using 3 chunk_inside [OF c_def that] by (simp add: byte_at_def)
    have split: "[off..<off + r] = List.map (\<lambda>j. off + j) [0..<c] @ [off + c..<off + c + (r - c)]"
      by (rule nth_equalityI) (use c(2) in \<open>auto simp: nth_append\<close>)
    have m: "List.map (byte_at pl blks) (List.map (\<lambda>j. off + j) [0..<c])
        = List.map (\<lambda>j. Some (pl (nat (blks (off div 512))) (off mod 512 + j))) [0..<c]"
      using b by simp
    have tw: "takeWhile (\<lambda>x. x \<noteq> None) (List.map (\<lambda>j. Some (f j)) xs @ ys)
        = List.map (\<lambda>j. Some (f j)) xs @ takeWhile (\<lambda>x. x \<noteq> None) ys" for f :: "nat \<Rightarrow> u8" and xs ys
      by (induction xs) auto
    have "read_loop pl blks off r = List.map (\<lambda>j. pl (nat (blks (off div 512))) (off mod 512 + j)) [0..<c]
        @ read_loop pl blks (off + c) (r - c)"
      using 3 by (subst read_loop.simps) (simp add: Let_def c_def)
    also have "read_loop pl blks (off + c) (r - c)
        = List.map the (takeWhile (\<lambda>x. x \<noteq> None) (List.map (byte_at pl blks) [off + c..<off + c + (r - c)]))"
      using "1" [OF _ _ refl _ c_def] 3 by simp
    finally show ?thesis unfolding split List.map_append m tw by simp
  qed
qed

text \<open>Every block a file entry names is marked used.\<close>

lemma entry_used:
  assumes inv: "chfs_inv s" and i: "i < FS_MAX_FILES" and k: "k < CHFS_DATABLOCKS"
    and v: "valid_blk (iblocks (inodes s i) k)"
  shows "bused s (nat (iblocks (inodes s i) k))"
proof (cases "i = 0 \<or> \<not> iused s i")
  case True
  then show ?thesis using stale_valid [OF inv i] chfs_invD(1) [OF inv] by simp
next
  case False
  let ?b = "nat (iblocks (inodes s i) k)"
  have "owns s i k ?b" using False i k v by (auto simp: owns_def valid_blk_def nat_less_iff)
  moreover from this have "1 \<le> ?b" using chfs_invD(7) [OF inv] by (metis less_one not_less)
  moreover have "?b < FS_MAX_BLOCKS" using v by (simp add: valid_blk_def nat_less_iff)
  ultimately show ?thesis using chfs_invD(5) [OF inv] by blast
qed

lemma block_for_bytes:
  assumes inv: "chfs_inv s" and ino: "1 \<le> ino" "ino < FS_MAX_FILES" "iused s ino" and k: "k < CHFS_DATABLOCKS"
    and bf: "block_for ino k s = Some (b, s1)"
  shows "owns s1 ino k b"
    and "\<lbrakk>i < FS_MAX_FILES; file_byte s i j \<noteq> None\<rbrakk> \<Longrightarrow> file_byte s1 i j = file_byte s i j"
proof -
  show "owns s1 ino k b"
    using bf
  proof (cases rule: block_for_cases)
    case kept
    then show ?thesis using ino k by (auto simp: owns_def valid_blk_def nat_less_iff)
  next
    case fresh
    then show ?thesis using owns_assign [OF ino k fresh(2)] by simp
  qed
  assume i: "i < FS_MAX_FILES" and fb: "file_byte s i j \<noteq> None"
  show "file_byte s1 i j = file_byte s i j"
    using bf
  proof (cases rule: block_for_cases)
    case fresh
    have v: "j div 512 < 64" "valid_blk (iblocks (inodes s i) (j div 512))"
      using fb by (auto simp: file_byte_def byte_at_def split: if_splits)
    then have "bused s (nat (iblocks (inodes s i) (j div 512)))" using entry_used [OF inv i] by blast
    then have nb: "nat (iblocks (inodes s i) (j div 512)) \<noteq> b" using fresh(3) by metis
    have ne: "\<not> (i = ino \<and> j div 512 = k)" using v(2) fresh(1) by blast
    have "iblocks (inodes s1 i) (j div 512) = iblocks (inodes s i) (j div 512)"
      using ne unfolding fresh(4) by (auto simp: assign_block_def claim_block_def upd_inode_def)
    moreover have "pool s1 (nat (iblocks (inodes s i) (j div 512))) = pool s (nat (iblocks (inodes s i) (j div 512)))"
      using nb unfolding fresh(4) by (simp add: assign_block_def claim_block_def upd_inode_def)
    ultimately show ?thesis by (simp add: file_byte_def byte_at_def)
  qed simp
qed

lemma write_chunk_pool: "pool (write_chunk g ino b buf a off c s) = pool (store_chunk b (off mod 512) buf a c s)"
  by (simp add: write_chunk_def Let_def grow_size_def upd_inode_def)

lemma write_chunk_blocks: "iblocks (inodes (write_chunk g ino b buf a off c s) i) = iblocks (inodes s i)"
  using layout_write_chunk by (simp add: same_layout_def)

lemma write_chunk_bytes:
  assumes inv: "chfs_inv s1" and own: "owns s1 ino (off div 512) b" and c: "c = min (512 - off mod 512) r"
    and k: "off div 512 < 64"
  shows "\<lbrakk>off \<le> j; j < off + c\<rbrakk> \<Longrightarrow>
      file_byte (write_chunk g ino b buf a off c s1) ino j = Some (buf (a + (j - off)))"
    and "\<lbrakk>i < FS_MAX_FILES; i \<noteq> ino \<or> j < off \<or> off + c \<le> j\<rbrakk> \<Longrightarrow>
      file_byte (write_chunk g ino b buf a off c s1) i j = file_byte s1 i j"
proof -
  have blk: "iblocks (inodes s1 ino) (off div 512) = int b" "b < 256" using own by (auto simp: owns_def)
  show "file_byte (write_chunk g ino b buf a off c s1) ino j = Some (buf (a + (j - off)))"
    if "off \<le> j" "j < off + c"
  proof -
    define d where "d = j - off"
    have d: "j = off + d" "d < c" using that by (simp_all add: d_def)
    show ?thesis
      using chunk_inside [OF c d(2)] d blk k
      by (simp add: file_byte_def byte_at_def write_chunk_blocks write_chunk_pool store_chunk_def valid_blk_def)
  qed
  show "file_byte (write_chunk g ino b buf a off c s1) i j = file_byte s1 i j"
    if i: "i < FS_MAX_FILES" and out: "i \<noteq> ino \<or> j < off \<or> off + c \<le> j"
  proof (cases "j div 512 < 64 \<and> valid_blk (iblocks (inodes s1 i) (j div 512))")
    case True
    let ?b = "nat (iblocks (inodes s1 i) (j div 512))"
    have "pool (write_chunk g ino b buf a off c s1) ?b (j mod 512) = pool s1 ?b (j mod 512)"
    proof (cases "?b = b")
      case True
      have b0: "b \<noteq> 0" using own chfs_invD(7) [OF inv] by metis
      have "?b = 0" if "i = 0 \<or> \<not> iused s1 i" using stale_valid [OF inv i that] by simp
      then have "\<not> (i = 0 \<or> \<not> iused s1 i)" using True b0 by metis
      then have "owns s1 i (j div 512) b"
        using i True \<open>j div 512 < 64 \<and> _\<close> by (auto simp: owns_def valid_blk_def)
      then have "ino = i \<and> off div 512 = j div 512" by (rule chfs_invD(6) [OF inv own])
      then have e: "i = ino" "j div 512 = off div 512" by simp_all
      have "\<not> (off mod 512 \<le> j mod 512 \<and> j mod 512 < off mod 512 + c)"
      proof
        assume a: "off mod 512 \<le> j mod 512 \<and> j mod 512 < off mod 512 + c"
        have "j = 512 * (j div 512) + j mod 512" "off = 512 * (off div 512) + off mod 512" by simp_all
        then show False using a out e by linarith
      qed
      then show ?thesis by (auto simp: write_chunk_pool store_chunk_def)
    next
      case False
      then show ?thesis by (simp add: write_chunk_pool store_chunk_def)
    qed
    then show ?thesis by (simp add: file_byte_def byte_at_def write_chunk_blocks)
  qed (auto simp: file_byte_def byte_at_def write_chunk_blocks)
qed

section \<open>What the copy loop writes\<close>

definition wrote :: "nat \<Rightarrow> (nat \<Rightarrow> u8) \<Rightarrow> nat \<Rightarrow> nat \<Rightarrow> nat \<Rightarrow> fsys \<Rightarrow> fsys \<Rightarrow> bool" where
  "wrote ino buf a off n s t \<longleftrightarrow>
     (\<forall>j. off \<le> j \<and> j < off + n \<longrightarrow> file_byte t ino j = Some (buf (a + (j - off))))
     \<and> (\<forall>i j. i < FS_MAX_FILES \<and> file_byte s i j \<noteq> None \<and> (i \<noteq> ino \<or> j < off \<or> off + n \<le> j)
          \<longrightarrow> file_byte t i j = file_byte s i j)"

lemma wrote_none [simp]: "wrote ino buf a off 0 s s"
  by (auto simp: wrote_def)

lemma wrote_step:
  assumes inv: "chfs_inv s1" and own: "owns s1 ino (off div 512) b" and c: "c = min (512 - off mod 512) r"
    and k: "off div 512 < 64" and ino: "ino < FS_MAX_FILES"
    and keep: "\<And>i j. \<lbrakk>i < FS_MAX_FILES; file_byte s i j \<noteq> None\<rbrakk> \<Longrightarrow> file_byte s1 i j = file_byte s i j"
    and rest: "wrote ino buf (a + c) (off + c) n (write_chunk g ino b buf a off c s1) t"
  shows "wrote ino buf a off (c + n) s t"
  unfolding wrote_def
proof (intro conjI allI impI)
  let ?m = "write_chunk g ino b buf a off c s1"
  note inside = write_chunk_bytes(1) [OF inv own c k, where a = a and g = g and buf = buf]
    and outside = write_chunk_bytes(2) [OF inv own c k, where a = a and g = g and buf = buf]
  fix j
  assume j: "off \<le> j \<and> j < off + (c + n)"
  show "file_byte t ino j = Some (buf (a + (j - off)))"
  proof (cases "j < off + c")
    case True
    then have "file_byte ?m ino j = Some (buf (a + (j - off)))" using inside j by simp
    then show ?thesis using rest ino True by (simp add: wrote_def)
  next
    case False
    then have "file_byte t ino j = Some (buf (a + c + (j - (off + c))))" using rest j by (simp add: wrote_def)
    then show ?thesis using False by simp
  qed
next
  fix i j
  assume a: "i < FS_MAX_FILES \<and> file_byte s i j \<noteq> None \<and> (i \<noteq> ino \<or> j < off \<or> off + (c + n) \<le> j)"
  let ?m = "write_chunk g ino b buf a off c s1"
  have "file_byte ?m i j = file_byte s1 i j"
    by (rule write_chunk_bytes(2) [OF inv own c k]) (use a in auto)
  moreover have "file_byte s1 i j = file_byte s i j" using keep a by blast
  ultimately show "file_byte t i j = file_byte s i j"
    using rest a unfolding wrote_def by auto
qed

lemma iused_write_chunk: "iused (write_chunk g ino b buf a off c s) = iused s"
  using layout_write_chunk by (simp add: same_layout_def)

lemma iused_block_for: "block_for ino k s = Some (b, s1) \<Longrightarrow> iused s1 = iused s"
  by (erule block_for_cases) (simp_all add: assign_block_def claim_block_def upd_inode_def)

lemma write_loop_content:
  assumes "1 \<le> ino" "ino < FS_MAX_FILES" "chfs_inv s" "iused s ino"
  shows "a \<le> fst (write_loop g ino buf a off r s) \<and> fst (write_loop g ino buf a off r s) \<le> a + r
    \<and> wrote ino buf a off (fst (write_loop g ino buf a off r s) - a) s (snd (write_loop g ino buf a off r s))"
  using assms(3,4)
proof (induction a off r s rule: write_loop_turns [where ino = ino and g = g and buf = buf])
  case (stop a off r s)
  then show ?case using write_loop_stop [OF stop(1)] by simp
next
  case (step a off r s b s1 c)
  note bf = block_for_bytes [OF step.prems(1) assms(1,2) step.prems(2) step(2,3)]
  have i1: "chfs_inv s1" using inv_block_for [OF step.prems(1) assms(2) step(2,3)] .
  let ?m = "write_chunk g ino b buf a off c s1"
  let ?w = "write_loop g ino buf (a + c) (off + c) (r - c) ?m"
  have "chfs_inv ?m" by (rule inv_layout [OF i1 layout_write_chunk])
  moreover have "iused ?m ino" using step.prems(2) iused_block_for [OF step(3)] by (simp add: iused_write_chunk)
  ultimately have ih: "a + c \<le> fst ?w" "fst ?w \<le> a + c + (r - c)"
      "wrote ino buf (a + c) (off + c) (fst ?w - (a + c)) ?m (snd ?w)"
    using step.IH by blast+
  have "wrote ino buf a off (c + (fst ?w - (a + c))) s (snd ?w)"
    by (rule wrote_step [OF i1 bf(1) step(4,2) assms(2) bf(2) ih(3)])
  moreover have "c + (fst ?w - (a + c)) = fst ?w - a" using ih(1) by simp
  moreover have "c \<le> r" using step(4) by simp
  ultimately show ?case using write_loop_step [OF step(1-4), of g buf a] ih by simp
qed

lemma free_block_layout: "bused t = bused s \<Longrightarrow> free_block t = free_block s"
  by (simp add: free_block_def)

lemma write_loop_ge: "a \<le> fst (write_loop g ino buf a off r s)"
proof (induction a off r s rule: write_loop_turns [where ino = ino and g = g and buf = buf])
  case (stop a off r s)
  then show ?case using write_loop_stop [OF stop(1)] by simp
next
  case (step a off r s b s1 c)
  then show ?case using write_loop_step [OF step(1-4)] by simp
qed

text \<open>The loop stops short only at the end of the block list or of the pool.\<close>

lemma write_loop_short:
  "fst (write_loop g ino buf a off r s) < a + r \<Longrightarrow>
   32768 \<le> off + (fst (write_loop g ino buf a off r s) - a) \<or> free_block (snd (write_loop g ino buf a off r s)) = None"
proof (induction a off r s rule: write_loop_turns [where ino = ino and g = g and buf = buf])
  case (stop a off r s)
  then have "r \<noteq> 0" using write_loop_stop [OF stop(1)] by auto
  then have "64 \<le> off div 512 \<or> block_for ino (off div 512) s = None" using stop(1) by simp
  then show ?case
  proof
    assume "64 \<le> off div 512"
    then have "32768 \<le> off" by simp
    then show ?thesis using write_loop_stop [OF stop(1)] by simp
  next
    assume "block_for ino (off div 512) s = None"
    then have "free_block s = None" by (auto simp: block_for_def Let_def split: if_splits option.splits)
    then show ?thesis using write_loop_stop [OF stop(1)] by simp
  qed
next
  case (step a off r s b s1 c)
  let ?w = "write_loop g ino buf (a + c) (off + c) (r - c) (write_chunk g ino b buf a off c s1)"
  have eq: "write_loop g ino buf a off r s = ?w" by (rule write_loop_step [OF step(1-4)])
  have c: "c \<le> r" using step(4) by simp
  then have "fst ?w < a + c + (r - c)" using step.prems eq by simp
  then have "32768 \<le> off + c + (fst ?w - (a + c)) \<or> free_block (snd ?w) = None" by (rule step.IH)
  moreover have "a + c \<le> fst ?w" by (rule write_loop_ge)
  ultimately show ?case unfolding eq by auto
qed

section \<open>What the copy loop leaves alone\<close>

definition meta :: "inode \<Rightarrow> inode" where
  "meta n = n\<lparr>iblocks := (\<lambda>_. 0), isize := 0\<rparr>"

definition same_meta :: "fsys \<Rightarrow> fsys \<Rightarrow> bool" where
  "same_meta s t \<longleftrightarrow> iused t = iused s \<and> (\<forall>i. meta (inodes t i) = meta (inodes s i))
     \<and> ktasks t = ktasks s \<and> kcur t = kcur s \<and> kpipes t = kpipes s"

lemma same_meta_trans: "\<lbrakk>same_meta s t; same_meta t u\<rbrakk> \<Longrightarrow> same_meta s u"
  by (simp add: same_meta_def)

lemma meta_block_for: "block_for ino k s = Some (b, s1) \<Longrightarrow> same_meta s s1 \<and> (\<forall>i. isize (inodes s1 i) = isize (inodes s i))"
  by (erule block_for_cases)
    (auto simp: same_meta_def assign_block_def claim_block_def upd_inode_def meta_def)

lemma meta_write_chunk: "same_meta s (write_chunk g ino b buf a off c s)"
  by (auto simp: same_meta_def write_chunk_def Let_def grow_size_def store_chunk_def upd_inode_def meta_def)

lemma size_write_chunk:
  "isize (inodes (write_chunk g ino b buf a off c s) i) =
     (if g \<and> i = ino then max (isize (inodes s i)) (int (off + c)) else isize (inodes s i))"
  by (auto simp: write_chunk_def Let_def grow_size_def store_chunk_def upd_inode_def)

lemma write_loop_meta: "same_meta s (snd (write_loop g ino buf a off r s))"
proof (induction a off r s rule: write_loop_turns [where ino = ino and g = g and buf = buf])
  case (stop a off r s)
  then show ?case using write_loop_stop [OF stop(1)] by (simp add: same_meta_def)
next
  case (step a off r s b s1 c)
  have "same_meta s s1" using meta_block_for [OF step(3)] by blast
  then have "same_meta s (snd (write_loop g ino buf (a + c) (off + c) (r - c) (write_chunk g ino b buf a off c s1)))"
    using same_meta_trans meta_write_chunk step.IH by blast
  then show ?case using write_loop_step [OF step(1-4)] by simp
qed

lemma write_loop_size:
  "isize (inodes (snd (write_loop g ino buf a off r s)) i) =
     (if g \<and> i = ino \<and> a < fst (write_loop g ino buf a off r s)
      then max (isize (inodes s i)) (int (off + (fst (write_loop g ino buf a off r s) - a)))
      else isize (inodes s i))"
proof (induction a off r s rule: write_loop_turns [where ino = ino and g = g and buf = buf])
  case (stop a off r s)
  then show ?case using write_loop_stop [OF stop(1)] by simp
next
  case (step a off r s b s1 c)
  let ?w = "write_loop g ino buf (a + c) (off + c) (r - c) (write_chunk g ino b buf a off c s1)"
  have c: "0 < c" using step(1,4) by simp
  have ge: "a + c \<le> fst ?w" by (rule write_loop_ge)
  have sz: "isize (inodes s1 i) = isize (inodes s i)" using meta_block_for [OF step(3)] by blast
  have n: "off + c + (fst ?w - (a + c)) = off + (fst ?w - a)" using ge by simp
  show ?case
    unfolding write_loop_step [OF step(1-4), of g buf a] step.IH size_write_chunk sz n
    using c ge by auto
qed

lemma find_name_meta: "same_meta s t \<Longrightarrow> find_name p t = find_name p s"
proof -
  assume m: "same_meta s t"
  have "iname (inodes t i) = iname (inodes s i)" for i
  proof -
    have "iname (meta (inodes t i)) = iname (meta (inodes s i))" using m by (simp add: same_meta_def)
    then show ?thesis by (simp add: meta_def)
  qed
  then show ?thesis using m by (simp add: find_name_def same_meta_def)
qed

lemma file_byte_upd_inode:
  "(\<And>n. iblocks (f n) = iblocks n) \<Longrightarrow> file_byte (upd_inode k f s) i j = file_byte s i j"
  by (simp add: file_byte_def upd_inode_def)

lemma file_byte_set_fd [simp]: "file_byte (set_fd k e s) i j = file_byte s i j"
  by (simp add: file_byte_def set_fd_def split: option.split)

lemma set_fd_fields [simp]:
  "inodes (set_fd k e s) = inodes s" "iused (set_fd k e s) = iused s" "bused (set_fd k e s) = bused s"
  "pool (set_fd k e s) = pool s" "kcur (set_fd k e s) = kcur s"
  by (simp_all add: set_fd_def split: option.split)

lemma get_set_fd: "\<lbrakk>get_fd fd s = Some e; fd_valid e'\<rbrakk> \<Longrightarrow> get_fd fd (set_fd (nat fd) e' s) = Some e'"
  by (auto simp: get_fd_def set_fd_def cur_table_def cur_task_def split: option.splits if_splits)

lemma get_fd_valid: "get_fd fd s = Some e \<Longrightarrow> fd_valid e"
  by (auto simp: get_fd_def split: option.splits if_splits)

lemma get_fd_meta: "\<lbrakk>ktasks t = ktasks s; kcur t = kcur s\<rbrakk> \<Longrightarrow> get_fd fd t = get_fd fd s"
  by (simp add: get_fd_def cur_table_def cur_task_def)

section \<open>Properties\<close>

text \<open>C11.  Storage is never shared and never lost.  From initialisation on, under any sequence of
  file-system calls and any change of tasks and pipes in between: no two entries of files name the same block,
  none names the root's block 0, and a block is marked used exactly when some file
  names it.\<close>
theorem chfs_blocks_exact:
  assumes "s = fold fs_exec ops (chfs_init s0)"
  shows "(\<forall>b. bused s b \<and> 1 \<le> b \<and> b < FS_MAX_BLOCKS \<longleftrightarrow> (\<exists>i k. owns s i k b))
    \<and> (\<forall>i k j l b. owns s i k b \<and> owns s j l b \<longrightarrow> i = j \<and> k = l)"
proof -
  have inv: "chfs_inv s" using inv_fs_execs [OF inv_chfs_init] assms by simp
  have "bused s b \<and> 1 \<le> b \<and> b < FS_MAX_BLOCKS \<longleftrightarrow> (\<exists>i k. owns s i k b)" for b
  proof (cases "1 \<le> b \<and> b < FS_MAX_BLOCKS")
    case True
    then show ?thesis using chfs_invD(5) [OF inv] by simp
  next
    case False
    have "\<not> owns s i k b" for i k
    proof (cases "b = 0")
      case True
      then show ?thesis using chfs_invD(7) [OF inv] by simp
    next
      case nz: False
      then show ?thesis using False by (simp add: owns_def)
    qed
    then show ?thesis using False by blast
  qed
  then show ?thesis using chfs_invD(6) [OF inv] by blast
qed

theorem chfs_blocks_exact_witness:
  "\<exists>s. s = fold fs_exec [FCreate (Some ''/a''), FSave (Some ''/b'') (Some (\<lambda>_. 7)) 600, FUnlink (Some ''/a'')]
       (chfs_init (undefined :: fsys))
     \<and> (\<forall>i k j l b. owns s i k b \<and> owns s j l b \<longrightarrow> i = j \<and> k = l)"
  by (rule exI, rule conjI [OF refl], rule chfs_blocks_exact [OF refl, THEN conjunct2])

text \<open>C13.  A write through a descriptor stores exactly the bytes it reports, at the descriptor's
  offset, and changes no other byte of any file; it advances the offset, never shrinks the
  file, and is short only when the file has reached 32768 bytes or the pool is full.\<close>
theorem fs_write_functional:
  assumes "chfs_inv s" "get_fd fd s = Some e" "fd_kind e = FD_FILE" "fd_inode e = int ino"
    and "1 \<le> ino" "ino < FS_MAX_FILES" "iused s ino" "fd_offset e = int off" "0 \<le> len"
    and "fs_write fd buf len s = (n, t)"
  shows "0 \<le> n \<and> n \<le> len
    \<and> (\<forall>j < nat n. file_byte t ino (off + j) = Some (buf j))
    \<and> (\<forall>i j. i < FS_MAX_FILES \<and> file_byte s i j \<noteq> None \<and> (i \<noteq> ino \<or> j < off \<or> off + nat n \<le> j)
         \<longrightarrow> file_byte t i j = file_byte s i j)
    \<and> get_fd fd t = Some (e\<lparr>fd_offset := int off + n\<rparr>)
    \<and> isize (inodes t ino) = (if n = 0 then isize (inodes s ino) else max (isize (inodes s ino)) (int off + n))
    \<and> (n < len \<longrightarrow> 32768 \<le> int off + n \<or> free_block t = None)"
proof -
  let ?w = "write_loop True ino buf 0 off (nat len) s"
  have r: "n = int (fst ?w)" "t = set_fd (nat fd) (e\<lparr>fd_offset := int off + int (fst ?w)\<rparr>) (snd ?w)"
    using assms by (auto simp: fs_write_def Let_def split_beta)
  have w: "fst ?w \<le> nat len" "wrote ino buf 0 off (fst ?w) s (snd ?w)"
    using write_loop_content [OF assms(5,6,1,7), of 0 True buf off "nat len"] by simp_all
  have m: "same_meta s (snd ?w)" by (rule write_loop_meta)
  have "get_fd fd (snd ?w) = get_fd fd s" by (rule get_fd_meta) (use m in \<open>simp_all only: same_meta_def\<close>)
  then have "get_fd fd (snd ?w) = Some e" using assms(2) by simp
  then have g: "get_fd fd t = Some (e\<lparr>fd_offset := int off + n\<rparr>)"
    unfolding r by (rule get_set_fd) (use get_fd_valid [OF assms(2)] in simp)
  have b: "file_byte t i j = file_byte (snd ?w) i j" for i j by (simp add: r)
  have sz: "isize (inodes t ino) = (if n = 0 then isize (inodes s ino) else max (isize (inodes s ino)) (int off + n))"
    using write_loop_size [of True ino buf 0 off "nat len" s ino] by (simp add: r)
  have sh: "n < len \<longrightarrow> 32768 \<le> int off + n \<or> free_block t = None"
  proof
    assume "n < len"
    then have "fst ?w < 0 + nat len" using r(1) by simp
    then have "32768 \<le> off + (fst ?w - 0) \<or> free_block (snd ?w) = None" by (rule write_loop_short)
    moreover have "free_block t = free_block (snd ?w)" by (rule free_block_layout) (simp add: r)
    ultimately show "32768 \<le> int off + n \<or> free_block t = None" using r(1) by auto
  qed
  have "\<forall>j < nat n. file_byte t ino (off + j) = Some (buf j)"
    using w(2) unfolding b by (simp add: wrote_def r(1))
  moreover have "\<forall>i j. i < FS_MAX_FILES \<and> file_byte s i j \<noteq> None \<and> (i \<noteq> ino \<or> j < off \<or> off + nat n \<le> j)
      \<longrightarrow> file_byte t i j = file_byte s i j"
    using w(2) unfolding b wrote_def by (simp add: r(1))
  moreover have "0 \<le> n" "n \<le> len" using r(1) w(1) assms(9) by simp_all
  ultimately show ?thesis using g sz sh by blast
qed

section \<open>A small file system\<close>

definition user_task :: task where
  "user_task = task_zero\<lparr>uid := 1000, gid := 1000\<rparr>"

definition demo_fs :: fsys where
  "demo_fs = chfs_init \<lparr>inodes = (\<lambda>_. inode_zero), iused = (\<lambda>_. False), pool = (\<lambda>_ _. 0), bused = (\<lambda>_. False),
     ktasks = (\<lambda>_. user_task), kcur = Some 0, kpipes = (\<lambda>_. None)\<rparr>"

definition demo_open :: fsys where
  "demo_open = snd (fs_open (Some ''/a'') 7 demo_fs)"

lemma demo_open_fd: "map_option (\<lambda>e. (fd_kind e, fd_inode e, fd_offset e)) (get_fd 0 demo_open) = Some (FD_FILE, 1, 0)"
  by code_simp

lemma demo_open_used: "iused demo_open 1"
  by code_simp

theorem fs_write_functional_witness:
  "\<exists>n t. fs_write 0 (\<lambda>j. of_nat j) 5 demo_open = (n, t) \<and> 0 \<le> n \<and> n \<le> 5
     \<and> (\<forall>j < nat n. file_byte t 1 (0 + j) = Some (of_nat j))"
proof -
  obtain e where e: "get_fd 0 demo_open = Some e" "fd_kind e = FD_FILE" "fd_inode e = int 1" "fd_offset e = int 0"
    using demo_open_fd by auto
  have inv: "chfs_inv demo_open"
    unfolding demo_open_def demo_fs_def by (rule inv_fs_open [OF inv_chfs_init])
  obtain n t where r: "fs_write 0 (\<lambda>j. of_nat j) 5 demo_open = (n, t)" by fastforce
  show ?thesis
    using fs_write_functional [OF inv e(1-3) _ _ demo_open_used e(4) _ r] r by auto
qed

section \<open>Saving and reading back\<close>

lemma fs_create_names:
  assumes "fs_create (Some p) s = (r, t)" "0 \<le> r"
  shows "length p < 32 \<and> iused t = (iused s)(nat r := True)
    \<and> (\<forall>j. iname (inodes t j) = (if j = nat r then p else iname (inodes s j)))"
proof -
  obtain i where p: "length p \<noteq> 0" "length p < 32" and ff: "first_from (\<lambda>i. \<not> iused s i) 1 (FS_MAX_FILES - 1) = Some i"
    using assms by (auto simp: fs_create_def simp del: One_nat_def split: if_splits option.splits)
  show ?thesis
    using assms p ff by (auto simp: fs_create_def Let_def first_block_def split_beta upd_inode_def claim_block_def
        simp del: One_nat_def split: option.splits)
qed

lemma find_name_created:
  assumes "fs_create (Some p) s = (r, t)" "0 \<le> r" "r < 64" "find_name p s = None"
  shows "find_name p t = Some (nat r)"
proof -
  have n: "\<not> (iused s j \<and> iname (inodes s j) = p)" if "j < 64" for j
    using assms(4) that by (simp add: find_name_def first_from_None_iff)
  have t: "iused t = (iused s)(nat r := True)" "iname (inodes t j) = (if j = nat r then p else iname (inodes s j))" for j
    using fs_create_names [OF assms(1,2)] by blast+
  have "nat r < 64" using assms(3) by simp
  then show ?thesis using n t by (auto simp: find_name_def first_from_Some_iff)
qed

lemma read_loop_all:
  assumes "\<And>j. j < n \<Longrightarrow> byte_at pl blks j = Some (buf j)"
  shows "read_loop pl blks 0 n = List.map buf [0..<n]"
proof -
  have m: "List.map (byte_at pl blks) [0..<n] = List.map (\<lambda>j. Some (buf j)) [0..<n]" using assms by simp
  have t: "takeWhile (\<lambda>x. x \<noteq> None) (List.map (\<lambda>j. Some (buf j)) xs) = List.map (\<lambda>j. Some (buf j)) xs" for xs :: "nat list"
    by (induction xs) auto
  show ?thesis unfolding read_loop_bytes add_0 m t by simp
qed

text \<open>C12.  What is saved under a name is what is read back under it: after \<open>chfs_write_file\<close> reports \<open>n\<close> bytes
  for a path that is not the root's, the file's size is \<open>n\<close> and reading it returns exactly the
  first \<open>n\<close> bytes of the buffer, whether the file existed before or was created.\<close>
theorem chfs_save_read_roundtrip:
  assumes "chfs_inv s" "chfs_write_file (Some p) (Some buf) len s = (n, t)" "0 \<le> n" "find_name p s \<noteq> Some 0"
  shows "chfs_get_size p t = n \<and> chfs_read_file p n t = (n, List.map buf [0..<nat n])"
proof -
  obtain i0 s0 where r: "(case find_name p s of Some i \<Rightarrow> (int i, s) | None \<Rightarrow> fs_create (Some p) s) = (i0, s0)"
    by (cases "case find_name p s of Some i \<Rightarrow> (int i, s) | None \<Rightarrow> fs_create (Some p) s")
  note w0 = assms(2) [unfolded chfs_write_file_def prod.case option.case r Let_def]
  have "\<not> len < 0" and r0: "\<not> i0 < 0" using w0 assms(3) by (auto split: if_splits)
  define ino where "ino = nat i0"
  have base: "chfs_inv s0 \<and> 1 \<le> ino \<and> ino < 64 \<and> iused s0 ino \<and> find_name p s0 = Some ino"
  proof (cases "find_name p s")
    case None
    then have fc: "fs_create (Some p) s = (i0, s0)" using r by simp
    have "i0 < 64" "chfs_inv s0" "1 \<le> i0" "iused s0 (nat i0)"
      using inv_fs_create [OF assms(1), of "Some p"] r0 unfolding fc by auto
    then show ?thesis using find_name_created [OF fc _ _ None] r0 unfolding ino_def by auto
  next
    case (Some i)
    then have "i0 = int i" "s0 = s" using r by auto
    then show ?thesis using assms(1,4) Some find_nameD [OF Some] by (auto simp: ino_def)
  qed
  let ?s1 = "upd_inode ino (\<lambda>n. n\<lparr>isize := 0\<rparr>) s0"
  let ?w = "write_loop False ino buf 0 0 (nat len) ?s1"
  have nt: "n = int (fst ?w)" "t = upd_inode ino (\<lambda>nd. nd\<lparr>isize := int (fst ?w)\<rparr>) (snd ?w)"
    using w0 \<open>\<not> len < 0\<close> r0 unfolding ino_def by (auto simp: split_beta)
  have i1: "chfs_inv ?s1" by (rule inv_layout [of s0]) (use base in \<open>simp_all add: layout_upd_inode\<close>)
  have u1: "iused ?s1 ino" using base by (simp add: upd_inode_def)
  have "wrote ino buf 0 0 (fst ?w) ?s1 (snd ?w)"
    using write_loop_content [OF _ _ i1 u1, of 0 False buf 0 "nat len"] base by simp
  then have bt: "byte_at (pool t) (iblocks (inodes t ino)) j = Some (buf j)" if "j < nat n" for j
    using that nt file_byte_upd_inode [of "\<lambda>nd. nd\<lparr>isize := int (fst ?w)\<rparr>" ino "snd ?w" ino j]
    by (simp add: wrote_def file_byte_def)
  have sm: "same_meta (upd_inode ino (\<lambda>nd. nd\<lparr>isize := k\<rparr>) u) u" "same_meta u (upd_inode ino (\<lambda>nd. nd\<lparr>isize := k\<rparr>) u)" for k u
    by (simp_all add: same_meta_def upd_inode_def meta_def)
  have "same_meta s0 t"
    unfolding nt(2) using same_meta_trans [OF sm(2) same_meta_trans [OF write_loop_meta sm(2)]] by blast
  then have f: "find_name p t = Some ino" using find_name_meta base by metis
  moreover have "isize (inodes t ino) = n" using nt by (simp add: upd_inode_def)
  ultimately show ?thesis
    using read_loop_all [OF bt] assms(3) by (simp add: chfs_get_size_def chfs_read_file_def Let_def)
qed

theorem chfs_save_read_roundtrip_witness:
  "\<exists>n t. chfs_write_file (Some ''/b'') (Some (\<lambda>j. of_nat j)) 600 demo_fs = (n, t) \<and> 0 \<le> n
     \<and> chfs_read_file ''/b'' n t = (n, List.map (\<lambda>j. of_nat j) [0..<nat n])"
proof -
  obtain n t where t: "chfs_write_file (Some ''/b'') (Some (\<lambda>j. of_nat j)) 600 demo_fs = (n, t)" by fastforce
  have f: "find_name ''/b'' demo_fs = None" by code_simp
  have "fst (fs_create (Some ''/b'') demo_fs) = 1" by code_simp
  then have "0 \<le> n" using t f by (simp add: chfs_write_file_def split_beta Let_def)
  moreover have "chfs_inv demo_fs" unfolding demo_fs_def by (rule inv_chfs_init)
  ultimately show ?thesis using chfs_save_read_roundtrip [OF _ t] t f by auto
qed

section \<open>Permissions\<close>

text \<open>The nine permission bits, read as Unix does: one class applies, owner before group before
  others; supplementary groups count as group.\<close>

datatype perm_class = Owner | Group | Other

definition class_of :: "task \<Rightarrow> inode \<Rightarrow> perm_class" where
  "class_of t n =
     (if uid t = iuid n then Owner
      else if gid t = igid n \<or> igid n \<in> groups t ` {..<TASK_NGROUPS} then Group else Other)"

fun class_bits :: "perm_class \<Rightarrow> u32 \<Rightarrow> u32" where
  "class_bits Owner md = drop_bit 6 md AND 7"
| "class_bits Group md = drop_bit 3 md AND 7"
| "class_bits Other md = md AND 7"

definition unix_allows :: "task \<Rightarrow> inode \<Rightarrow> u32 \<Rightarrow> bool" where
  "unix_allows t n req \<longleftrightarrow> uid t = 0 \<or> class_bits (class_of t n) (imode n) AND req = req"

lemma fs_can_unix: "fs_can (Some t) (uid t) (gid t) n req = unix_allows t n req"
proof -
  have "list_ex (\<lambda>i. groups t i = igid n) [0..<TASK_NGROUPS] \<longleftrightarrow> igid n \<in> groups t ` {..<TASK_NGROUPS}"
    unfolding list_ex_iff set_upt atLeast0LessThan image_iff by metis
  then show ?thesis by (simp add: fs_can_def unix_allows_def class_of_def Let_def)
qed


lemma demo_open_again:
  "fst (fs_open (Some ''/a'') 1 demo_open) = 1 \<and> find_name ''/a'' demo_open = Some 1
     \<and> itype (inodes demo_open 1) = FT_FILE"
  by code_simp


section \<open>Where the file system departs from what it means to do\<close>

text \<open>The access mode 0 asks for no right, so it opens any file; and \<open>fs_read\<close> and \<open>fs_write\<close> never
  look at the mode of a descriptor.  User 1000 overwrites a file of the super-user whose mode
  is 0600: the open succeeds and the write reports its byte.\<close>

definition root_file :: fsys where
  "root_file = upd_inode 1 (\<lambda>n. n\<lparr>iuid := 0, igid := 0, imode := 0x180\<rparr>) (snd (fs_close 0 demo_open))"

theorem mode_zero_bypasses_permissions:
  "fst (fs_open (Some ''/a'') 1 root_file) = -1 \<and> fst (fs_open (Some ''/a'') 2 root_file) = -1
     \<and> fst (fs_open (Some ''/a'') 0 root_file) = 0
     \<and> fst (fs_write 0 (\<lambda>_. 7) 1 (snd (fs_open (Some ''/a'') 0 root_file))) = 1"
  by code_simp

text \<open>A descriptor whose file was removed still writes: the freed inode's entries all name block 0, the
  root directory's block, so the write lands in the root directory.\<close>

definition unlinked_open :: fsys where
  "unlinked_open = snd (fs_unlink (Some ''/a'') demo_open)"

theorem stale_descriptor_hits_root_block:
  "file_byte unlinked_open 0 0 = Some 0x2F \<and> fst (fs_write 0 (\<lambda>_. 7) 1 unlinked_open) = 1
     \<and> file_byte (snd (fs_write 0 (\<lambda>_. 7) 1 unlinked_open)) 0 0 = Some 7"
  by code_simp

text \<open>\<open>fs_create\<close> does not look for the name: creating a path twice makes two inodes of that name, the second
  one unreachable by path.\<close>

theorem fs_create_allows_duplicates:
  "fst (fs_create (Some ''/a'') demo_open) = 2 \<and> find_name ''/a'' (snd (fs_create (Some ''/a'') demo_open)) = Some 1"
  by code_simp

text \<open>\<open>O_TRUNC\<close> is applied before a free descriptor is looked for, so an open that fails for want
  of one has already emptied the file.\<close>

theorem failed_open_truncates:
  assumes "itype (inodes s i) = FT_FILE" "fs_can_path (Some p) PERM_W s = 0" "cur_table s = Some tbl" "free_fd tbl = None"
  shows "fst (open_inode i p 0xA s) = -1 \<and> isize (inodes (snd (open_inode i p 0xA s)) i) = 0"
proof -
  have "need_perm 0xA = PERM_W" "(0xA :: u32) AND O_TRUNC \<noteq> 0" "(0xA :: u32) AND 3 \<noteq> O_RDONLY"
    by (simp_all add: need_perm_def)
  then show ?thesis using assms by (simp add: open_inode_def open_truncate_def upd_inode_def)
qed

text \<open>\<open>chfs_move\<close> searches the whole table, root included: the root directory can be renamed, after which the
  path / names nothing.\<close>

theorem root_can_be_renamed:
  "fst (chfs_move (Some ''/'') (Some ''/x'') demo_fs) = 0
     \<and> find_name ''/'' (snd (chfs_move (Some ''/'') (Some ''/x'') demo_fs)) = None"
  by code_simp

end
