(* ===== verification/Proc.thy ===== *)
theory Proc
  imports Chfs
begin

text \<open>
  Creation, exit, waiting and signals of processes (\<open>kernel/process/task.c\<close>, \<open>wait.c\<close>,
  \<open>signal.c\<close>).  The state adds to that of the file layer the linked list of tasks (the list
  of identities in link order), the idle task, the pid counter, the round-robin cursor and
  the legacy pending signal.  The outcome of \<open>kmalloc\<close> for a descriptor and its stack is an
  argument (the identity of the new object, if any).  The machine is the one CPU on which
  tasks are switched, so \<open>task_current()\<close>, \<open>current_task\<close> and \<open>current_per_cpu[0]\<close> are the same
  task, \<open>kcur\<close>.  A function that ends in \<open>schedule()\<close> is modelled up to that call.
\<close>

abbreviation SIG_MAX :: int where "SIG_MAX \<equiv> 32"
abbreviation CAP_ALL :: u32 where "CAP_ALL \<equiv> 0x1FFF"

record psys =
  pfs :: fsys
  plist :: "tid list"
  pidle :: tid
  pnext_pid :: int
  prr :: "tid option"
  psig :: int

abbreviation tk :: "psys \<Rightarrow> tid \<Rightarrow> task" where
  "tk s t \<equiv> ktasks (pfs s) t"

definition upd_task :: "tid \<Rightarrow> (task \<Rightarrow> task) \<Rightarrow> psys \<Rightarrow> psys" where
  "upd_task t f s = s\<lparr>pfs := (pfs s)\<lparr>ktasks := (ktasks (pfs s))(t := f (tk s t))\<rparr>\<rparr>"

definition on_fs :: "(fsys \<Rightarrow> fsys) \<Rightarrow> psys \<Rightarrow> psys" where
  "on_fs f s = s\<lparr>pfs := f (pfs s)\<rparr>"

section \<open>Creation\<close>

definition sb_allow_all :: "nat \<Rightarrow> u32" where
  "sb_allow_all = (\<lambda>_. 0xFFFFFFFF)"

definition fd_table_init :: "task \<Rightarrow> task" where
  "fd_table_init t = t\<lparr>
     fd_table := (\<lambda>i. let e = (fd_table t i)\<lparr>fd_valid := False, fd_kind := FD_NONE, fd_pipe := None\<rparr>
       in if i < 3 then e\<lparr>fd_valid := True, fd_kind := FD_CONSOLE, fd_inode := -1\<rparr> else e),
     sig_handlers := (\<lambda>_. 0), sig_pending := 0, sig_mask := 0, vmas := [], brk_base := 0, brk_cur := 0,
     uid := 0, gid := 0, caps := CAP_ALL, ngroups := 0, sb_mask := sb_allow_all, sb_on := False,
     priority := 2, ticks_left := 10, exit_status := 0, is_thread := False, pgid := 0\<rparr>"

text \<open>\<open>fd_table_copy\<close>: every descriptor is shared, with its inode or pipe end counted once more.\<close>

definition copy_entry :: "tid \<Rightarrow> tid \<Rightarrow> nat \<Rightarrow> fsys \<Rightarrow> fsys" where
  "copy_entry dst src i s =
     (let e = fd_table (ktasks s src) i; s1 = set_fd_of dst i e s in
      if \<not> fd_valid e then s1
      else if fd_kind e = FD_FILE
      then (if 0 \<le> fd_inode e \<and> fd_inode e < 64 \<and> iused s1 (nat (fd_inode e)) then ref_inode 1 (fd_inode e) s1 else s1)
      else if fd_kind e = FD_PIPE then dup_pipe (fd_pipe e) (fd_pipe_write e) s1
      else s1)"

definition fd_table_copy :: "tid \<Rightarrow> tid \<Rightarrow> fsys \<Rightarrow> fsys" where
  "fd_table_copy dst src s = fold (copy_entry dst src) [0..<TASK_NFD] s"

text \<open>\<open>alloc\<close> is what \<open>kmalloc(sizeof(struct task))\<close> returns, \<open>stack_ok\<close> whether the stack was had.\<close>

definition new_task :: "string \<Rightarrow> tid option \<Rightarrow> bool \<Rightarrow> psys \<Rightarrow> tid option \<times> psys" where
  "new_task nm alloc stack_ok s =
     (case alloc of None \<Rightarrow> (None, s)
      | Some t \<Rightarrow>
          let s1 = (upd_task t (\<lambda>_. (fd_table_init task_zero)\<lparr>pid := pnext_pid s, pgid := pnext_pid s,
                      tname := take 31 nm\<rparr>) s)\<lparr>pnext_pid := pnext_pid s + 1\<rparr>
          in if \<not> stack_ok then (None, s1) else (Some t, upd_task t (\<lambda>x. x\<lparr>has_stack := True\<rparr>) s1))"

definition list_append :: "tid \<Rightarrow> psys \<Rightarrow> psys" where
  "list_append t s = s\<lparr>plist := plist s @ [t]\<rparr>"

definition task_prepare :: "string \<Rightarrow> tid option \<Rightarrow> bool \<Rightarrow> psys \<Rightarrow> tid option \<times> psys" where
  "task_prepare nm alloc stack_ok s =
     (case new_task nm alloc stack_ok s of (None, s1) \<Rightarrow> (None, s1)
      | (Some t, s1) \<Rightarrow> (Some t, list_append t (upd_task t (\<lambda>x. x\<lparr>tstate := TASK_READY\<rparr>) s1)))"

definition task_create :: "string \<Rightarrow> tid option \<Rightarrow> bool \<Rightarrow> psys \<Rightarrow> tid option \<times> psys" where
  "task_create nm alloc stack_ok s =
     (case new_task nm alloc stack_ok s of (None, s1) \<Rightarrow> (None, s1)
      | (Some t, s1) \<Rightarrow> (Some t, upd_task t (\<lambda>x. x\<lparr>tstate := TASK_READY\<rparr>) (list_append t s1)))"

text \<open>\<open>space\<close> is what \<open>paging_create_space()\<close> returns (0: out of memory).  Unlike its siblings this function
  leaves \<open>pgid\<close> at 0.\<close>

definition task_create_user :: "u32 \<Rightarrow> string \<Rightarrow> tid option \<Rightarrow> bool \<Rightarrow> u32 \<Rightarrow> psys \<Rightarrow> tid option \<times> psys" where
  "task_create_user entry nm alloc stack_ok space s =
     (case new_task nm alloc stack_ok s of (None, s1) \<Rightarrow> (None, s1)
      | (Some t, s1) \<Rightarrow>
          let s2 = upd_task t (\<lambda>x. x\<lparr>pgid := 0, tstate := TASK_READY, cr3 := space\<rparr>) s1 in
          if space = 0 then (None, s2)
          else (Some t, list_append t (upd_task t (\<lambda>x. x\<lparr>user_eip := entry, user_eflags := 0x202, user_esp := 0\<rparr>) s2)))"

text \<open>\<open>fork_task\<close> and \<open>task_clone_thread\<close>, up to the page tables: the descriptor of the child.  The child's pages
  are the business of \<^theory_text>\<open>Vm\<close>.  The area list of a thread is its parent's, here copied.\<close>

definition fork_fields :: "task \<Rightarrow> u32 \<Rightarrow> u32 \<Rightarrow> u32 \<Rightarrow> u32 \<Rightarrow> task \<Rightarrow> task" where
  "fork_fields parent space eip esp eflags t = t\<lparr>
     cr3 := space, user_regions := take TASK_MAX_REGIONS (user_regions parent),
     parent_pid := pid parent, uid := uid parent, gid := gid parent,
     caps := caps parent, sb_mask := (\<lambda>i. if i < 8 then sb_mask parent i else sb_mask t i), sb_on := sb_on parent,
     brk_base := brk_base parent, brk_cur := brk_cur parent, user_tls := user_tls parent, vmas := vmas parent,
     priority := priority parent, ticks_left := ticks_left parent,
     user_eip := eip, user_esp := esp, user_eflags := (eflags AND 0x8D7) OR 0x202\<rparr>"

definition clone_fields :: "task \<Rightarrow> u32 \<Rightarrow> u32 \<Rightarrow> task \<Rightarrow> task" where
  "clone_fields parent entry stack t = t\<lparr>
     cr3 := cr3 parent, is_thread := True, pgid := pgid parent, parent_pid := pid parent,
     uid := uid parent, gid := gid parent, brk_base := brk_base parent, brk_cur := brk_cur parent, user_tls := 0,
     vmas := vmas parent, priority := priority parent, ticks_left := ticks_left parent, sleep_until := 0,
     user_eip := entry, user_esp := stack, user_eflags := 0x202\<rparr>"

definition fork_task :: "tid \<Rightarrow> tid option \<Rightarrow> bool \<Rightarrow> u32 \<Rightarrow> u32 \<Rightarrow> u32 \<Rightarrow> u32 \<Rightarrow> psys \<Rightarrow> tid option \<times> psys" where
  "fork_task me alloc stack_ok space eip esp eflags s =
     (if cr3 (tk s me) = 0 then (None, s)
      else case task_prepare ''fork_child'' alloc stack_ok s of (None, s1) \<Rightarrow> (None, s1)
      | (Some c, s1) \<Rightarrow>
          if space = 0 then (None, upd_task c (\<lambda>x. x\<lparr>tstate := TASK_DEAD\<rparr>) s1)
          else (Some c, upd_task c (fork_fields (tk s1 me) space eip esp eflags) (on_fs (fd_table_copy c me) s1)))"

definition task_clone_thread :: "tid \<Rightarrow> tid option \<Rightarrow> bool \<Rightarrow> u32 \<Rightarrow> u32 \<Rightarrow> psys \<Rightarrow> tid option \<times> psys" where
  "task_clone_thread me alloc stack_ok entry stack s =
     (if cr3 (tk s me) = 0 then (None, s)
      else case task_prepare ''thread'' alloc stack_ok s of (None, s1) \<Rightarrow> (None, s1)
      | (Some c, s1) \<Rightarrow> (Some c, upd_task c (clone_fields (tk s1 me) entry stack) (on_fs (fd_table_copy c me) s1)))"

text \<open>\<open>task_init\<close>: the main task \<open>m\<close> is built by hand around the boot stack, and the idle task created.
  \<open>f\<close> is the kernel before: no task yet.\<close>

definition task_init :: "tid \<Rightarrow> tid \<Rightarrow> fsys \<Rightarrow> psys" where
  "task_init m idle f =
     (let main = (fd_table_init task_zero)\<lparr>pid := 1, pgid := 1, tstate := TASK_RUNNING\<rparr>;
          s = \<lparr>pfs = f\<lparr>ktasks := (ktasks f)(m := main), kcur := Some m\<rparr>, plist = [m], pidle = idle,
               pnext_pid = 2, prr = None, psig = 0\<rparr>
      in upd_task idle (\<lambda>x. x\<lparr>priority := 0\<rparr>) (snd (task_create ''idle'' (Some idle) True s)))"

section \<open>Waiting\<close>

definition reapable :: "int \<Rightarrow> int \<Rightarrow> psys \<Rightarrow> tid \<Rightarrow> bool" where
  "reapable me want s t \<longleftrightarrow> tstate (tk s t) = TASK_DEAD \<and> parent_pid (tk s t) = me
     \<and> (want = -1 \<or> pid (tk s t) = want)"

datatype wait_result = Reaped int int | NoChild | StillRunning | MustBlock

text \<open>One pass of the loop of \<open>wait_task\<close>, up to \<open>schedule()\<close>.\<close>

definition wait_pass :: "int \<Rightarrow> tid \<Rightarrow> psys \<Rightarrow> wait_result \<times> psys" where
  "wait_pass want me s =
     (let my = pid (tk s me) in
      case find (reapable my want s) (plist s) of
        Some t \<Rightarrow> (Reaped (pid (tk s t)) (exit_status (tk s t)), s\<lparr>plist := remove1 t (plist s)\<rparr>)
      | None \<Rightarrow>
          if list_ex (\<lambda>t. parent_pid (tk s t) = my) (plist s)
          then (MustBlock, upd_task me (\<lambda>x. x\<lparr>tstate := TASK_BLOCKED\<rparr>) s)
          else (NoChild, s))"

definition wait_task_wnohang :: "int \<Rightarrow> tid \<Rightarrow> psys \<Rightarrow> wait_result \<times> psys" where
  "wait_task_wnohang want me s =
     (let my = pid (tk s me) in
      case find (reapable my want s) (plist s) of
        Some t \<Rightarrow> (Reaped (pid (tk s t)) (exit_status (tk s t)), s\<lparr>plist := remove1 t (plist s)\<rparr>)
      | None \<Rightarrow>
          if list_ex (\<lambda>t. parent_pid (tk s t) = my \<and> (want = -1 \<or> pid (tk s t) = want)) (plist s)
          then (StillRunning, s) else (NoChild, s))"

definition wake_if_waiting :: "int \<Rightarrow> tid \<Rightarrow> psys \<Rightarrow> psys" where
  "wake_if_waiting ppid t s =
     (if tstate (tk s t) = TASK_BLOCKED \<and> sleep_until (tk s t) = 0 \<and> pid (tk s t) = ppid
      then upd_task t (\<lambda>x. x\<lparr>tstate := TASK_READY\<rparr>) s else s)"

definition wait_wakeup_parent :: "tid \<Rightarrow> psys \<Rightarrow> psys" where
  "wait_wakeup_parent child s = fold (wake_if_waiting (parent_pid (tk s child))) (plist s) s"

section \<open>Exit\<close>

definition exit_close :: "tid \<Rightarrow> nat \<Rightarrow> psys \<Rightarrow> psys" where
  "exit_close me i s =
     (if fd_valid (fd_table (tk s me) i) then on_fs (\<lambda>f. snd (fs_close (int i) f)) s else s)"

text \<open>\<open>task_exit\<close>, in the two stretches between which an interrupt may switch tasks: closing the
  descriptors and waking the parent, and then, under the lock, dying.\<close>

definition exit_notify :: "tid \<Rightarrow> psys \<Rightarrow> psys" where
  "exit_notify me s = wait_wakeup_parent me (fold (exit_close me) [0..<TASK_NFD] s)"

definition exit_die :: "tid \<Rightarrow> psys \<Rightarrow> psys" where
  "exit_die me s = upd_task me (\<lambda>x. x\<lparr>tstate := TASK_DEAD\<rparr>) s"

definition task_exit :: "tid \<Rightarrow> psys \<Rightarrow> psys" where
  "task_exit me s = exit_die me (exit_notify me s)"

section \<open>Signals\<close>

definition sig_bit :: "int \<Rightarrow> u32" where
  "sig_bit sig = push_bit (nat sig) 1"

text \<open>What \<open>signal_send\<close> does to one matching task other than the sender.\<close>

definition signal_one :: "int \<Rightarrow> tid \<Rightarrow> psys \<Rightarrow> psys" where
  "signal_one sig t s =
     (if sig_handlers (tk s t) (nat sig) \<noteq> 0
      then upd_task t (\<lambda>x. x\<lparr>sig_pending := sig_pending x OR sig_bit sig,
             tstate := (if tstate x = TASK_BLOCKED then TASK_READY else tstate x)\<rparr>) s
      else if tstate (tk s t) \<noteq> TASK_DEAD
      then wait_wakeup_parent t (upd_task t (\<lambda>x. x\<lparr>tstate := TASK_DEAD, exit_status := 128 + sig,
             sig_pending := sig_pending x AND NOT (sig_bit sig)\<rparr>) (on_fs (fs_close_table (Some t)) s))
      else s)"

text \<open>The walk; the flag says that the sender killed itself, and then nothing more runs.\<close>

fun signal_walk :: "int \<Rightarrow> int \<Rightarrow> tid \<Rightarrow> tid list \<Rightarrow> psys \<Rightarrow> bool \<times> psys" where
  "signal_walk want sig me [] s = (False, s)"
| "signal_walk want sig me (t # ts) s =
     (if pid (tk s t) = want \<or> want = -1
      then (if sig_handlers (tk s t) (nat sig) = 0 \<and> t = me then (True, task_exit me s)
            else if want \<noteq> -1 then (False, signal_one sig t s)
            else signal_walk want sig me ts (signal_one sig t s))
      else signal_walk want sig me ts s)"

definition signal_send :: "int \<Rightarrow> int \<Rightarrow> tid \<Rightarrow> psys \<Rightarrow> bool \<times> psys" where
  "signal_send want sig me s =
     (if sig < 0 \<or> sig \<ge> SIG_MAX then (False, s)
      else let (gone, s1) = signal_walk want sig me (plist s) s in
        if gone then (True, s1)
        else (False, if want = -1 then s1\<lparr>psig := sig\<rparr> else s1))"

definition signal_check :: "psys \<Rightarrow> int \<times> psys" where
  "signal_check s = (psig s, s\<lparr>psig := 0\<rparr>)"

definition sys_signal_handler :: "int \<Rightarrow> u32 \<Rightarrow> psys \<Rightarrow> int \<times> psys" where
  "sys_signal_handler sig h s =
     (if sig < 0 \<or> sig \<ge> SIG_MAX then (-1, s)
      else case kcur (pfs s) of None \<Rightarrow> (-1, s)
        | Some me \<Rightarrow> (0, upd_task me (\<lambda>x. x\<lparr>sig_handlers := (sig_handlers x)(nat sig := h)\<rparr>) s))"

definition deliverable :: "task \<Rightarrow> nat option" where
  "deliverable t = first_from (\<lambda>i. bit (sig_pending t) i \<and> sig_handlers t i \<noteq> 0) 0 32"

definition signal_has_pending :: "task option \<Rightarrow> bool" where
  "signal_has_pending t = (case t of None \<Rightarrow> False | Some x \<Rightarrow> deliverable x \<noteq> None)"

text \<open>The interrupted user registers, and the frame \<open>signal_deliver\<close> pushes on the user stack.\<close>

record regs =
  r_eip :: u32
  r_cs :: u32
  r_eflags :: u32
  r_useresp :: u32
  r_ss :: u32

definition signal_deliver :: "task \<Rightarrow> regs \<Rightarrow> (u32 \<times> u32) list \<times> task \<times> regs" where
  "signal_deliver t r =
     (case deliverable t of None \<Rightarrow> ([], t, r)
      | Some i \<Rightarrow>
          let h = sig_handlers t i; esp = user_esp t - 32
          in ([(esp, r_eip r), (esp + 4, r_cs r), (esp + 8, r_eflags r), (esp + 12, r_useresp r),
               (esp + 16, r_ss r), (esp + 20, of_nat i), (esp + 24, 0x1500000), (esp + 28, h)],
              t\<lparr>sig_pending := sig_pending t AND NOT (push_bit i 1), user_esp := esp\<rparr>,
              r\<lparr>r_eip := h, r_useresp := esp\<rparr>))"

end
