(* ===== verification/Pipe_Ends.thy ===== *)
theory Pipe_Ends
  imports Proc Chfs_Inv
begin

text \<open>
  The life of pipes.  A pipe counts its readers and writers; it is freed when both counts reach
  zero, while descriptors hold a bare pointer to it.  The theory models the system call that
  creates a pipe (\<open>sys_pipe\<close> of \<open>core/syscall.c\<close>) and proves, for every mixture of pipe creation,
  \<open>dup2\<close>, \<open>open\<close>, \<open>close\<close>, fork's table copy, exit and kill, that the counts are exactly the
  numbers of open descriptors of each end over all tasks: no descriptor dangles and no pipe leaks.
\<close>

section \<open>Creating a pipe\<close>

text \<open>\<open>buf_ok\<close> is \<open>is_user_buf_valid(pipefd, 8)\<close>, \<open>copy_ok\<close> whether \<open>copy_to_user\<close> succeeds, and
  \<open>alloc\<close> the address \<open>kmalloc\<close> gives the pipe.  The result is the descriptor pair on success.\<close>

definition second_fd :: "(nat \<Rightarrow> fd_entry) \<Rightarrow> nat \<Rightarrow> nat option" where
  "second_fd tbl fd0 =
     (case first_from (\<lambda>i. \<not> fd_valid (tbl i)) (Suc fd0) (TASK_NFD - Suc fd0) of
        Some i \<Rightarrow> Some i
      | None \<Rightarrow> first_from (\<lambda>i. i \<noteq> fd0 \<and> \<not> fd_valid (tbl i)) 0 TASK_NFD)"

definition pipe_fd :: "nat \<Rightarrow> bool \<Rightarrow> fd_entry \<Rightarrow> fd_entry" where
  "pipe_fd a w e = e\<lparr>fd_valid := True, fd_kind := FD_PIPE, fd_pipe := Some a, fd_pipe_write := w, fd_offset := 0\<rparr>"

definition drop_fd :: "fd_entry \<Rightarrow> fd_entry" where
  "drop_fd e = e\<lparr>fd_valid := False\<rparr>"

definition sys_pipe :: "u32 \<Rightarrow> bool \<Rightarrow> bool \<Rightarrow> nat option \<Rightarrow> fsys \<Rightarrow> (nat \<times> nat) option \<times> fsys" where
  "sys_pipe pipefd buf_ok copy_ok alloc s =
     (if pipefd = 0 \<or> \<not> buf_ok then (None, s)
      else case alloc of None \<Rightarrow> (None, s) | Some a \<Rightarrow>
        let s1 = s\<lparr>kpipes := (kpipes s)(a \<mapsto> pipe_create)\<rparr>;
            free = (\<lambda>s. s\<lparr>kpipes := (kpipes s)(a := None)\<rparr>) in
        case kcur s of None \<Rightarrow> (None, free s1) | Some t \<Rightarrow>
        let tbl = fd_table (ktasks s t) in
        case free_fd tbl of None \<Rightarrow> (None, free s1) | Some fd0 \<Rightarrow>
        let e0 = pipe_fd a False (tbl fd0); s2 = set_fd_of t fd0 e0 s1 in
        case second_fd (tbl(fd0 := e0)) fd0 of
          None \<Rightarrow> (None, free (set_fd_of t fd0 (drop_fd e0) s2))
        | Some fd1 \<Rightarrow>
            let e1 = pipe_fd a True (tbl fd1); s3 = set_fd_of t fd1 e1 s2 in
            if \<not> copy_ok
            then (None, free (set_fd_of t fd1 (drop_fd e1) (set_fd_of t fd0 (drop_fd e0) s3)))
            else (Some (fd0, fd1), s3))"

section \<open>Counting descriptors\<close>

definition holds_end :: "fd_entry \<Rightarrow> nat \<Rightarrow> bool \<Rightarrow> bool" where
  "holds_end e p w \<longleftrightarrow> fd_valid e \<and> fd_kind e = FD_PIPE \<and> fd_pipe e = Some p \<and> fd_pipe_write e = w"

definition ends :: "tasks \<Rightarrow> tid set \<Rightarrow> nat \<Rightarrow> bool \<Rightarrow> nat" where
  "ends ts L p w = card {(t, i). (t, i) \<in> L \<times> {..<TASK_NFD} \<and> holds_end (fd_table (ts t) i) p w}"

text \<open>The counts of a pipe against its descriptors, up to a difference \<open>d\<close> in the middle of an
  operation; a pipe nobody counts does not exist.\<close>

definition count_ok :: "pipe option \<Rightarrow> int \<Rightarrow> int \<Rightarrow> bool" where
  "count_ok q r w = (case q of None \<Rightarrow> r = 0 \<and> w = 0
     | Some q \<Rightarrow> int (readers q) = r \<and> int (writers q) = w \<and> r + w > 0)"

definition counted :: "fsys \<Rightarrow> tid set \<Rightarrow> (nat \<Rightarrow> bool \<Rightarrow> int) \<Rightarrow> bool" where
  "counted s L d \<longleftrightarrow> finite L \<and> (\<forall>p. count_ok (kpipes s p)
     (int (ends (ktasks s) L p False) + d p False) (int (ends (ktasks s) L p True) + d p True))"

abbreviation pipe_ends_counted :: "fsys \<Rightarrow> tid set \<Rightarrow> bool" where
  "pipe_ends_counted s L \<equiv> counted s L (\<lambda>_ _. 0)"

lemma card_flip:
  assumes "finite A" "x \<in> A"
  shows "int (card {y \<in> A. if y = x then b else P y}) = int (card {y \<in> A. P y}) + of_bool b - of_bool (P x)"
proof -
  let ?R = "{y \<in> A. y \<noteq> x \<and> P y}"
  have "{y \<in> A. P y} = (if P x then insert x ?R else ?R)"
    "{y \<in> A. if y = x then b else P y} = (if b then insert x ?R else ?R)" using assms(2) by auto
  moreover have "finite ?R" "x \<notin> ?R" using assms(1) by auto
  ultimately show ?thesis by simp
qed

lemma ends_slot:
  assumes "finite L" "t \<in> L" "i < TASK_NFD"
    "\<And>u j. holds_end (fd_table (ts' u) j) p w \<longleftrightarrow>
       (if u = t \<and> j = i then b else holds_end (fd_table (ts u) j) p w)"
  shows "int (ends ts' L p w) = int (ends ts L p w) + of_bool b - of_bool (holds_end (fd_table (ts t) i) p w)"
proof -
  let ?A = "L \<times> {..<TASK_NFD}" and ?P = "\<lambda>y. holds_end (fd_table (ts (fst y)) (snd y)) p w"
  have "{(t, i). (t, i) \<in> ?A \<and> holds_end (fd_table (ts' t) i) p w} = {y \<in> ?A. if y = (t, i) then b else ?P y}"
    unfolding assms(4) by auto
  moreover have "{(t, i). (t, i) \<in> ?A \<and> holds_end (fd_table (ts t) i) p w} = {y \<in> ?A. ?P y}" by auto
  ultimately show ?thesis using card_flip [of ?A "(t, i)" b ?P] assms(1-3) by (simp add: ends_def)
qed

lemma ends_cong:
  "(\<And>t i. t \<in> L \<Longrightarrow> fd_table (ts' t) i = fd_table (ts t) i) \<Longrightarrow> ends ts' L p w = ends ts L p w"
  unfolding ends_def by (rule arg_cong [where f = card]) auto

lemma counted_slot:
  assumes "counted s L d" "t \<in> L" "i < TASK_NFD"
    "\<And>p w. d' p w = d p w + of_bool (holds_end (fd_table (ktasks s t) i) p w) - of_bool (holds_end e p w)"
  shows "counted (set_fd_of t i e s) L d'"
proof -
  have e: "int (ends (ktasks (set_fd_of t i e s)) L p w) + d' p w = int (ends (ktasks s) L p w) + d p w" for p w
    using ends_slot [of L t i "ktasks (set_fd_of t i e s)" p w "holds_end e p w" "ktasks s"] assms
    by (auto simp: counted_def set_fd_of_def)
  have "kpipes (set_fd_of t i e s) = kpipes s" by (simp add: set_fd_of_def)
  then show ?thesis using assms(1) unfolding counted_def by (simp only: e simp_thms)
qed

lemma countedD: "counted s L d \<Longrightarrow> finite L"
  "counted s L d \<Longrightarrow> count_ok (kpipes s p) (int (ends (ktasks s) L p False) + d p False) (int (ends (ktasks s) L p True) + d p True)"
  by (simp_all add: counted_def)

lemma counted_exists:
  assumes "counted s L d" "int (ends (ktasks s) L p w) + d p w > 0"
  obtains q where "kpipes s p = Some q"
proof (cases "kpipes s p")
  case None
  then have "int (ends (ktasks s) L p False) + d p False = 0" "int (ends (ktasks s) L p True) + d p True = 0"
    using countedD(2) [OF assms(1), of p] by (simp_all add: count_ok_def)
  then show ?thesis using assms(2) by (cases w) simp_all
qed (rule that)

lemma wake_fd_table [simp]: "fd_table (wake w ts t) = fd_table (ts t)"
  by (simp add: wake_def set_state_def split: option.split)

lemma pipe_close_end_effect:
  assumes "pipe_close_end w ts q = (f, ts', q')" "count_ok (Some q) nr nw" "(if w then nw else nr) > 0"
  shows "fd_table (ts' t) = fd_table (ts t)"
    "count_ok (if f then None else Some q') (nr - of_bool (\<not> w)) (nw - of_bool w)"
  using assms by (cases w; auto simp: pipe_close_end_def count_ok_def)+

lemma counted_close_pipe:
  assumes c: "counted s L d" and pos: "int (ends (ktasks s) L a w) + d a w > 0"
    and d': "\<And>p v. d' p v = d p v - of_bool (p = a \<and> v = w)"
  shows "counted (close_pipe (Some a) w s) L d'"
proof -
  obtain q where Some: "kpipes s a = Some q" by (rule counted_exists [OF c pos])
  obtain f ts q' where r: "pipe_close_end w (ktasks s) q = (f, ts, q')" by (metis prod_cases3)
  note eff = pipe_close_end_effect [OF r countedD(2) [OF c, of a, unfolded Some]]
  have "(if w then int (ends (ktasks s) L a True) + d a True else int (ends (ktasks s) L a False) + d a False) > 0"
    using pos by (cases w) simp_all
  note eff = eff [OF this]
  have e: "ends ts L p v = ends (ktasks s) L p v" for p v by (rule ends_cong, subst eff(1), rule refl)
  have k: "close_pipe (Some a) w s = s\<lparr>ktasks := ts, kpipes := (kpipes s)(a := if f then None else Some q')\<rparr>"
    by (simp add: close_pipe_def Some r)
  have "count_ok (((kpipes s)(a := if f then None else Some q')) p)
      (int (ends (ktasks s) L p False) + d' p False) (int (ends (ktasks s) L p True) + d' p True)" for p
  proof (cases "p = a")
    case True
    then show ?thesis using eff(2) by (simp add: d' algebra_simps)
  next
    case False
    then show ?thesis using countedD(2) [OF c, of p] by (simp add: d')
  qed
  then show ?thesis using countedD(1) [OF c] unfolding k counted_def by (simp add: e)
qed

lemma counted_dup_pipe:
  assumes c: "counted s L d" and ex: "kpipes s a = Some q"
    and d': "\<And>p v. d' p v = d p v + of_bool (p = a \<and> v = w)"
  shows "counted (dup_pipe (Some a) w s) L d'"
proof -
  have "count_ok (kpipes (dup_pipe (Some a) w s) p)
      (int (ends (ktasks s) L p False) + d' p False) (int (ends (ktasks s) L p True) + d' p True)" for p
  proof (cases "p = a")
    case True
    then show ?thesis using countedD(2) [OF c, of a] ex
      by (cases w) (simp_all add: dup_pipe_def count_ok_def d')
  next
    case False
    then show ?thesis using countedD(2) [OF c, of p] by (simp add: d' dup_pipe_def)
  qed
  then show ?thesis using c by (simp add: counted_def dup_pipe_def)
qed

text \<open>A descriptor in use proves that the pipe is there.\<close>

lemma card_pos: "\<lbrakk>x \<in> X; finite X\<rbrakk> \<Longrightarrow> card X > 0"
  by (auto simp: card_gt_0_iff)

lemma ends_pos:
  assumes "finite L" "t \<in> L" "i < TASK_NFD" "holds_end (fd_table (ts t) i) p w"
  shows "ends ts L p w > 0"
proof -
  let ?X = "{(t, i). (t, i) \<in> L \<times> {..<TASK_NFD} \<and> holds_end (fd_table (ts t) i) p w}"
  have "(t, i) \<in> ?X" using assms by auto
  moreover have "finite ?X"
  proof (rule finite_subset)
    show "?X \<subseteq> L \<times> {..<TASK_NFD}" by auto
    show "finite (L \<times> {..<TASK_NFD})" using assms(1) by simp
  qed
  ultimately have "card ?X > 0" by (rule_tac card_pos)
  then show ?thesis by (simp add: ends_def)
qed

section \<open>Every operation keeps the counts\<close>

lemma counted_same:
  assumes "kpipes s' = kpipes s" "\<And>t i. t \<in> L \<Longrightarrow> fd_table (ktasks s' t) i = fd_table (ktasks s t) i"
  shows "counted s' L d = counted s L d"
  using assms(1) ends_cong [of L "ktasks s'" "ktasks s"] assms(2) by (simp add: counted_def)

lemma ref_inode_frame [simp]: "kpipes (ref_inode k i s) = kpipes s" "ktasks (ref_inode k i s) = ktasks s"
  by (simp_all add: ref_inode_def upd_inode_def)

lemma counted_ref_inode [simp]: "counted (ref_inode k i s) L d = counted s L d"
  by (rule counted_same) simp_all

lemma set_fd_cur: "kcur s = Some t \<Longrightarrow> set_fd i e s = set_fd_of t i e s"
  by (simp add: set_fd_def set_fd_of_def)

lemma close_pipe_tables [simp]: "fd_table (ktasks (close_pipe p w s) t) = fd_table (ktasks s t)"
  by (auto simp: close_pipe_def pipe_close_end_def Let_def split: option.split)

lemma close_pipe_kcur [simp]: "kcur (close_pipe p w s) = kcur s"
  by (simp add: close_pipe_def split: option.split prod.split)

lemma set_fd_of_frame [simp]: "kpipes (set_fd_of t i e s) = kpipes s" "kcur (set_fd_of t i e s) = kcur s"
  "fd_table (ktasks (set_fd_of t i e s) u) j = (if u = t \<and> j = i then e else fd_table (ktasks s u) j)"
  by (simp_all add: set_fd_of_def)

lemma holds_end_not [simp]: "\<not> fd_valid e \<Longrightarrow> \<not> holds_end e p w" "fd_kind e \<noteq> FD_PIPE \<Longrightarrow> \<not> holds_end e p w"
  by (simp_all add: holds_end_def)

lemma holds_end_iff:
  assumes "fd_valid e" "fd_kind e = FD_PIPE"
  shows "holds_end e p w \<longleftrightarrow> fd_pipe e = Some p \<and> fd_pipe_write e = w"
  using assms by (simp add: holds_end_def)

text \<open>Putting an end down, while the slot still names it, and then clearing the slot; or the other way round.\<close>

lemma counted_close_held:
  assumes "counted s L d" "t \<in> L" "i < TASK_NFD" "fd_table (ktasks s t) i = e" "\<And>p w. d p w \<ge> 0"
    and "fd_valid e" "fd_kind e = FD_PIPE"
  shows "counted (close_pipe (fd_pipe e) (fd_pipe_write e) s) L (\<lambda>p w. d p w - of_bool (holds_end e p w))"
proof (cases "fd_pipe e")
  case None
  then show ?thesis using assms by (simp add: close_pipe_def holds_end_iff)
next
  case (Some a)
  have h: "holds_end e p v = (p = a \<and> v = fd_pipe_write e)" for p v
    using assms(6,7) Some by (auto simp: holds_end_def)
  have "ends (ktasks s) L a (fd_pipe_write e) > 0"
    by (rule ends_pos [OF countedD(1) [OF assms(1)] assms(2,3)]) (simp add: assms(4) h)
  moreover have "0 \<le> d a (fd_pipe_write e)" by (rule assms(5))
  ultimately have "int (ends (ktasks s) L a (fd_pipe_write e)) + d a (fd_pipe_write e) > 0" by linarith
  then show ?thesis unfolding Some by (rule counted_close_pipe [OF assms(1)]) (simp add: h)
qed

lemma counted_clear_close:
  assumes "pipe_ends_counted s L" "t \<in> L" "i < TASK_NFD" "fd_table (ktasks s t) i = e"
    and "fd_valid e" "fd_kind e = FD_PIPE" "\<not> fd_valid e'"
  shows "pipe_ends_counted (close_pipe (fd_pipe e) (fd_pipe_write e) (set_fd_of t i e' s)) L"
proof -
  have c: "counted (set_fd_of t i e' s) L (\<lambda>p w. of_bool (holds_end e p w))"
    by (rule counted_slot [OF assms(1-3)]) (simp add: assms(4,7))
  show ?thesis
  proof (cases "fd_pipe e")
    case None
    then show ?thesis using c assms(5,6) by (simp add: close_pipe_def holds_end_iff)
  next
    case (Some a)
    show ?thesis unfolding Some
      by (rule counted_close_pipe [OF c]) (use assms(5,6) Some in \<open>auto simp: holds_end_def\<close>)
  qed
qed

lemma counted_set_plain:
  assumes "counted s L d" "t \<in> L" "i < TASK_NFD" "\<And>p w. \<not> holds_end (fd_table (ktasks s t) i) p w" "\<And>p w. \<not> holds_end e p w"
  shows "counted (set_fd_of t i e s) L d"
  by (rule counted_slot [OF assms(1-3)]) (simp add: assms(4,5))

lemma counted_fs_close:
  assumes "pipe_ends_counted s L" "kcur s = Some t" "t \<in> L"
  shows "pipe_ends_counted (snd (fs_close fd s)) L"
proof (cases "get_fd fd s")
  case (Some e)
  then have e: "fd_table (ktasks s t) (nat fd) = e" "fd_valid e" "nat fd < TASK_NFD"
    using assms(2) by (auto simp: get_fd_def cur_table_def cur_task_def split: if_splits)
  consider "fd_kind e = FD_CONSOLE" | "fd_kind e = FD_PIPE" | "fd_kind e \<noteq> FD_PIPE" "fd_kind e \<noteq> FD_CONSOLE" by blast
  then show ?thesis
  proof cases
    case 2
    then show ?thesis
      using counted_clear_close [OF assms(1,3) e(3,1,2) 2, of "e\<lparr>fd_valid := False, fd_kind := FD_NONE, fd_pipe := None\<rparr>"]
      by (simp add: fs_close_def Some set_fd_cur [OF assms(2)])
  next
    case 3
    then have "pipe_ends_counted (set_fd_of t (nat fd) (e\<lparr>fd_valid := False, fd_kind := FD_NONE\<rparr>) s) L"
      by (intro counted_set_plain) (use assms e in simp_all)
    then show ?thesis using 3 by (simp add: fs_close_def Some set_fd_cur [OF assms(2)])
  qed (use assms in \<open>simp add: fs_close_def Some\<close>)
qed (use assms in \<open>simp add: fs_close_def\<close>)

lemma counted_close_entry:
  assumes "pipe_ends_counted s L" "t \<in> L" "i < TASK_NFD"
  shows "pipe_ends_counted (close_entry t i s) L"
proof -
  define e where "e = fd_table (ktasks s t) i"
  have e: "fd_table (ktasks s t) i = e" by (simp add: e_def)
  consider "\<not> fd_valid e \<or> fd_kind e = FD_CONSOLE" | "fd_valid e" "fd_kind e = FD_PIPE"
    | "fd_valid e" "fd_kind e \<noteq> FD_PIPE" "fd_kind e \<noteq> FD_CONSOLE" by blast
  then show ?thesis
  proof cases
    case 2
    then show ?thesis
      using counted_clear_close [OF assms e 2, of "e\<lparr>fd_valid := False, fd_kind := FD_NONE, fd_pipe := None\<rparr>"]
      by (simp add: close_entry_def Let_def e)
  next
    case 3
    then have "pipe_ends_counted (set_fd_of t i (e\<lparr>fd_valid := False, fd_kind := FD_NONE\<rparr>) s) L"
      by (intro counted_set_plain) (use assms e in simp_all)
    then show ?thesis using 3 by (simp add: close_entry_def Let_def e)
  qed (use assms in \<open>simp add: close_entry_def Let_def e\<close>)
qed

lemma counted_fold_slots:
  assumes "pipe_ends_counted s L" "\<And>s i. \<lbrakk>pipe_ends_counted s L; i \<in> set is\<rbrakk> \<Longrightarrow> pipe_ends_counted (f i s) L"
  shows "pipe_ends_counted (fold f is s) L"
  using assms by (induction "is" arbitrary: s) simp_all

lemma counted_fs_close_table:
  "\<lbrakk>pipe_ends_counted s L; t \<in> L\<rbrakk> \<Longrightarrow> pipe_ends_counted (fs_close_table (Some t) s) L"
  unfolding fs_close_table_def by (simp, rule counted_fold_slots) (simp_all add: counted_close_entry)

text \<open>\<open>dup2\<close> and fork's table copy name an end once more.\<close>

definition share_fd :: "fd_entry \<Rightarrow> fsys \<Rightarrow> fsys" where
  "share_fd e s = (if fd_valid e \<and> fd_kind e = FD_PIPE then dup_pipe (fd_pipe e) (fd_pipe_write e) s else s)"

lemma counted_share:
  assumes "counted s L (\<lambda>p w. - of_bool (holds_end e p w))"
    and "\<And>a. fd_pipe e = Some a \<Longrightarrow> fd_valid e \<Longrightarrow> fd_kind e = FD_PIPE \<Longrightarrow> kpipes s a \<noteq> None"
  shows "pipe_ends_counted (share_fd e s) L"
proof (cases "fd_valid e \<and> fd_kind e = FD_PIPE \<and> fd_pipe e \<noteq> None")
  case True
  then obtain a q where a: "fd_pipe e = Some a" "kpipes s a = Some q" using assms(2) by blast
  have "share_fd e s = dup_pipe (Some a) (fd_pipe_write e) s" using True a by (simp add: share_fd_def)
  then show ?thesis
    by (simp, intro counted_dup_pipe [OF assms(1) a(2)]) (use True a in \<open>auto simp: holds_end_def\<close>)
next
  case False
  then have "\<not> holds_end e p w" for p w by (auto simp: holds_end_def)
  moreover have "share_fd e s = s" using False by (auto simp: share_fd_def dup_pipe_def)
  ultimately show ?thesis using assms(1) by simp
qed

lemma held_pipe_exists:
  assumes "counted s L (\<lambda>_ _. 0)" "t \<in> L" "i < TASK_NFD" "fd_valid (fd_table (ktasks s t) i)"
    "fd_kind (fd_table (ktasks s t) i) = FD_PIPE" "fd_pipe (fd_table (ktasks s t) i) = Some a"
  shows "kpipes s a \<noteq> None"
proof -
  have "holds_end (fd_table (ktasks s t) i) a (fd_pipe_write (fd_table (ktasks s t) i))"
    using assms by (simp add: holds_end_def)
  then have "ends (ktasks s) L a (fd_pipe_write (fd_table (ktasks s t) i)) > 0"
    by (intro ends_pos [of _ t i] countedD(1) [OF assms(1)] assms(2,3))
  then show ?thesis
    using counted_exists [OF assms(1), of a] by (metis add_0_right of_nat_0_less_iff option.distinct(1))
qed

lemma counted_fs_dup2:
  assumes c: "pipe_ends_counted s L" and t: "kcur s = Some t" "t \<in> L"
  shows "pipe_ends_counted (snd (fs_dup2 a b s)) L"
proof -
  define src where "src = fd_table (ktasks s t) (nat a)"
  define dst where "dst = fd_table (ktasks s t) (nat b)"
  define s1 where "s1 = (if fd_valid dst then
      (if fd_kind dst = FD_FILE then ref_inode (-1) (fd_inode dst) s
       else if fd_kind dst = FD_PIPE then close_pipe (fd_pipe dst) (fd_pipe_write dst) s else s) else s)"
  show ?thesis
  proof (cases "0 \<le> a \<and> a < 16 \<and> 0 \<le> b \<and> b < 16 \<and> fd_valid src \<and> a \<noteq> b")
    case True
    then have ix: "nat a < TASK_NFD" "nat b < TASK_NFD" "nat a \<noteq> nat b" by auto
    have s1: "counted s1 L (\<lambda>p w. - of_bool (holds_end dst p w))"
      using counted_close_held [OF c t(2) ix(2) dst_def [symmetric]] c unfolding s1_def by auto
    have tab: "fd_table (ktasks s1 u) j = fd_table (ktasks s u) j" for u j by (simp add: s1_def)
    have "pipe_ends_counted (set_fd_of t (nat b) fd_zero s1) L"
      by (rule counted_slot [OF s1 t(2) ix(2)]) (simp add: tab dst_def fd_zero_def)
    then have ex: "kpipes s1 p \<noteq> None" if "fd_pipe src = Some p" "fd_kind src = FD_PIPE" for p
      using held_pipe_exists [of "set_fd_of t (nat b) fd_zero s1" L t "nat a" p] t(2) ix that True
      by (simp add: tab src_def [symmetric])
    have s2: "counted (set_fd_of t (nat b) src s1) L (\<lambda>p w. - of_bool (holds_end src p w))"
      by (rule counted_slot [OF s1 t(2) ix(2)]) (simp add: tab dst_def)
    have k1: "kcur s1 = Some t" using t(1) by (simp add: s1_def ref_inode_def upd_inode_def)
    have "pipe_ends_counted (share_fd src (set_fd_of t (nat b) src s1)) L"
      by (rule counted_share [OF s2]) (simp add: ex)
    moreover have "snd (fs_dup2 a b s) = (if fd_kind src = FD_FILE then ref_inode 1 (fd_inode src) (set_fd_of t (nat b) src s1)
        else share_fd src (set_fd_of t (nat b) src s1))"
      using True t(1) k1
      by (simp add: fs_dup2_def cur_table_def cur_task_def Let_def src_def [symmetric] dst_def [symmetric]
          s1_def [symmetric] set_fd_cur share_fd_def)
    moreover have "pipe_ends_counted (set_fd_of t (nat b) src s1) L" if "fd_kind src = FD_FILE"
      using s2 that by simp
    ultimately show ?thesis by simp
  next
    case False
    then have "snd (fs_dup2 a b s) = s"
      using t(1) by (auto simp: fs_dup2_def cur_table_def cur_task_def Let_def src_def [symmetric])
    then show ?thesis using c by simp
  qed
qed

lemma dup_pipe_tables [simp]: "ktasks (dup_pipe p w s) = ktasks s"
  by (simp add: dup_pipe_def split: option.split)

lemma copy_entry_tables:
  "fd_table (ktasks (copy_entry d src i s) u) j = (if u = d \<and> j = i then fd_table (ktasks s src) i else fd_table (ktasks s u) j)"
  by (simp add: copy_entry_def Let_def)

lemma counted_copy_entry:
  assumes c: "pipe_ends_counted s L" and t: "d \<in> L" "src \<in> L" "d \<noteq> src" "i < TASK_NFD"
    and free: "\<And>p w. \<not> holds_end (fd_table (ktasks s d) i) p w"
  shows "pipe_ends_counted (copy_entry d src i s) L"
proof -
  define e where "e = fd_table (ktasks s src) i"
  have s1: "counted (set_fd_of d i e s) L (\<lambda>p w. - of_bool (holds_end e p w))"
    by (rule counted_slot [OF c t(1,4)]) (simp add: free)
  have ex: "kpipes s p \<noteq> None" if "fd_pipe e = Some p" "fd_valid e" "fd_kind e = FD_PIPE" for p
    using held_pipe_exists [OF c t(2,4)] that by (simp add: e_def)
  have "pipe_ends_counted (share_fd e (set_fd_of d i e s)) L"
    by (rule counted_share [OF s1]) (simp add: ex)
  moreover have "pipe_ends_counted (set_fd_of d i e s) L" if "\<not> fd_valid e \<or> fd_kind e \<noteq> FD_PIPE"
    using s1 that by auto
  ultimately show ?thesis by (auto simp: copy_entry_def Let_def e_def [symmetric] share_fd_def)
qed

lemma counted_fd_table_copy:
  assumes c: "pipe_ends_counted s L" and t: "d \<in> L" "src \<in> L" "d \<noteq> src"
    and free: "\<And>i p w. i < TASK_NFD \<Longrightarrow> \<not> holds_end (fd_table (ktasks s d) i) p w"
  shows "pipe_ends_counted (fd_table_copy d src s) L"
proof -
  have "pipe_ends_counted (fold (copy_entry d src) is s) L"
    if "distinct is" "set is \<subseteq> {..<TASK_NFD}" "pipe_ends_counted s L"
      "\<forall>i\<in>set is. \<forall>p w. \<not> holds_end (fd_table (ktasks s d) i) p w" for "is" s
    using that
  proof (induction "is" arbitrary: s)
    case (Cons i "is")
    have "pipe_ends_counted (copy_entry d src i s) L"
      by (rule counted_copy_entry) (use Cons.prems t in auto)
    moreover have "\<forall>j\<in>set is. \<forall>p w. \<not> holds_end (fd_table (ktasks (copy_entry d src i s) d) j) p w"
      using Cons.prems by (auto simp: copy_entry_tables)
    ultimately show ?case using Cons by simp
  qed simp
  from this [of "[0..<TASK_NFD]" s] have "pipe_ends_counted (fold (copy_entry d src) [0..<TASK_NFD] s) L"
    using c free by (simp add: atLeast0LessThan)
  then show ?thesis by (simp add: fd_table_copy_def)
qed

text \<open>Creating a pipe.\<close>

lemma free_fdD: "free_fd tbl = Some i \<Longrightarrow> i < TASK_NFD \<and> \<not> fd_valid (tbl i)"
  unfolding free_fd_def by (auto dest: first_from_SomeD)

lemma second_fdD:
  assumes "second_fd tbl i = Some j"
  shows "j < TASK_NFD \<and> \<not> fd_valid (tbl j) \<and> j \<noteq> i"
proof (cases "first_from (\<lambda>i. \<not> fd_valid (tbl i)) (Suc i) (TASK_NFD - Suc i)")
  case None
  then show ?thesis using assms by (auto simp: second_fd_def dest: first_from_SomeD)
next
  case (Some k)
  then have "k = j" using assms by (simp add: second_fd_def)
  then show ?thesis using first_from_SomeD [OF Some] by simp
qed

lemma counted_sys_pipe:
  assumes c: "pipe_ends_counted s L" and t: "kcur s = Some t" "t \<in> L" and fresh: "\<And>a. al = Some a \<Longrightarrow> kpipes s a = None"
  shows "pipe_ends_counted (snd (sys_pipe addr buf_ok copy_ok al s)) L"
proof (cases "addr = 0 \<or> \<not> buf_ok \<or> al = None")
  case False
  then obtain a where a: "al = Some a" "addr \<noteq> 0" buf_ok by auto
  note fr = fresh [OF a(1)]
  define s1 where "s1 = s\<lparr>kpipes := (kpipes s)(a \<mapsto> pipe_create)\<rparr>"
  define tbl where "tbl = fd_table (ktasks s t)"
  let ?free = "\<lambda>s. s\<lparr>kpipes := (kpipes s)(a := None)\<rparr>"
  have undo: "pipe_ends_counted (?free u) L"
    if "\<And>p. p \<noteq> a \<Longrightarrow> kpipes u p = kpipes s p"
      "\<And>x i p w. i < TASK_NFD \<Longrightarrow> holds_end (fd_table (ktasks u x) i) p w = holds_end (fd_table (ktasks s x) i) p w" for u
  proof -
    have "ends (ktasks u) L p w = ends (ktasks s) L p w" for p w
      unfolding ends_def by (rule arg_cong [where f = card]) (auto simp: that(2))
    moreover have "(kpipes u)(a := None) = kpipes s" using that(1) fr by auto
    ultimately show ?thesis using c by (simp add: counted_def)
  qed
  have z: "ends (ktasks s) L a w = 0" for w
    using countedD(2) [OF c, of a] fr by (cases w) (simp_all add: count_ok_def)
  have c1: "counted s1 L (\<lambda>p w. of_bool (p = a))"
    unfolding counted_def
  proof (intro conjI allI)
    fix p
    show "count_ok (kpipes s1 p) (int (ends (ktasks s1) L p False) + of_bool (p = a)) (int (ends (ktasks s1) L p True) + of_bool (p = a))"
    proof (cases "p = a")
      case True
      then show ?thesis using z by (simp add: s1_def pipe_create_def count_ok_def)
    next
      case False
      then show ?thesis using countedD(2) [OF c, of p] by (simp add: s1_def)
    qed
  qed (rule countedD(1) [OF c])
  have k1: "ktasks s1 = ktasks s" "kcur s1 = Some t" by (simp_all add: s1_def t(1))
  have r: "snd (sys_pipe addr buf_ok copy_ok al s) = snd (case free_fd tbl of None \<Rightarrow> (None :: (nat \<times> nat) option, ?free s1)
    | Some fd0 \<Rightarrow>
        let e0 = pipe_fd a False (tbl fd0); s2 = set_fd_of t fd0 e0 s1 in
        case second_fd (tbl(fd0 := e0)) fd0 of
          None \<Rightarrow> (None, ?free (set_fd_of t fd0 (drop_fd e0) s2))
        | Some fd1 \<Rightarrow>
            let e1 = pipe_fd a True (tbl fd1); s3 = set_fd_of t fd1 e1 s2 in
            if \<not> copy_ok
            then (None, ?free (set_fd_of t fd1 (drop_fd e1) (set_fd_of t fd0 (drop_fd e0) s3)))
            else (Some (fd0, fd1), s3))"
    unfolding tbl_def s1_def using a by (simp add: sys_pipe_def t(1) Let_def)
  show ?thesis
  proof (cases "free_fd tbl")
    case None
    then show ?thesis unfolding r using undo [of s1] by (simp add: s1_def)
  next
    case (Some i)
    note i = free_fdD [OF this]
    have hi: "\<not> holds_end (tbl i) p w" for p w using i by simp
    define e0 where "e0 = pipe_fd a False (tbl i)"
    define s2 where "s2 = set_fd_of t i e0 s1"
    have c2: "counted s2 L (\<lambda>p w. of_bool (p = a \<and> w))"
      unfolding s2_def
      by (rule counted_slot [OF c1 t(2)])
        (use i hi in \<open>auto simp: k1 tbl_def [symmetric] e0_def pipe_fd_def holds_end_def\<close>)
    have d0: "\<not> fd_valid (drop_fd e)" for e by (simp add: drop_fd_def)
    show ?thesis
    proof (cases "second_fd (tbl(i := e0)) i")
      case None
      have "pipe_ends_counted (?free (set_fd_of t i (drop_fd e0) s2)) L"
        by (rule undo) (use hi d0 in \<open>auto simp: s2_def s1_def tbl_def\<close>)
      then show ?thesis unfolding r by (simp add: Some Let_def e0_def [symmetric] s2_def [symmetric] None)
    next
      case j: (Some j)
      note jj = second_fdD [OF j]
      then have vj: "\<not> fd_valid (tbl j)" by auto
      then have hj: "\<not> holds_end (tbl j) p w" for p w by simp
      define e1 where "e1 = pipe_fd a True (tbl j)"
      define s3 where "s3 = set_fd_of t j e1 s2"
      have tj: "fd_table (ktasks s2 t) j = tbl j" using jj by (simp add: s2_def k1 tbl_def)
      have "pipe_ends_counted s3 L"
        unfolding s3_def
        by (rule counted_slot [OF c2 t(2)])
          (use jj hj in \<open>auto simp: tj e1_def pipe_fd_def holds_end_def\<close>)
      moreover have "pipe_ends_counted (?free (set_fd_of t j (drop_fd e1) (set_fd_of t i (drop_fd e0) s3))) L"
        by (rule undo) (use hi hj d0 in \<open>auto simp: s3_def s2_def s1_def tbl_def\<close>)
      ultimately show ?thesis unfolding r
        by (simp add: Some Let_def e0_def [symmetric] s2_def [symmetric] j e1_def [symmetric] s3_def [symmetric])
    qed
  qed
qed (use c in \<open>auto simp: sys_pipe_def\<close>)

text \<open>The other calls of the file layer touch at most one slot, which names no pipe.\<close>

lemma same_meta_counted: "same_meta s s' \<Longrightarrow> counted s' L d = counted s L d"
  by (rule counted_same) (simp_all add: same_meta_def)

lemma upd_inode_frame [simp]: "kpipes (upd_inode i f s) = kpipes s" "ktasks (upd_inode i f s) = ktasks s" "kcur (upd_inode i f s) = kcur s"
  by (simp_all add: upd_inode_def)

lemma fs_create_frame [simp]: "kpipes (snd (fs_create p s)) = kpipes s" "ktasks (snd (fs_create p s)) = ktasks s"
  "kcur (snd (fs_create p s)) = kcur s"
  by (simp_all add: fs_create_def first_block_def claim_block_def Let_def split_beta split: option.split)

lemma open_truncate_frame [simp]: "kpipes (open_truncate i md s) = kpipes s" "ktasks (open_truncate i md s) = ktasks s"
  "kcur (open_truncate i md s) = kcur s"
  by (simp_all add: open_truncate_def drop_blocks_eq)

lemma counted_set_free:
  assumes "pipe_ends_counted s L" "kcur s = Some t" "t \<in> L" "free_fd (fd_table (ktasks s t)) = Some i" "fd_kind e \<noteq> FD_PIPE"
  shows "pipe_ends_counted (set_fd i e s) L"
  using free_fdD [OF assms(4)] assms by (simp add: set_fd_cur [OF assms(2)] counted_set_plain)

lemma counted_set_moved:
  assumes "pipe_ends_counted s L" "kcur s = Some t" "t \<in> L" "get_fd fd s = Some e" "fd_kind e \<noteq> FD_PIPE" "fd_kind e' \<noteq> FD_PIPE"
  shows "pipe_ends_counted (set_fd (nat fd) e' s) L"
proof -
  have "nat fd < TASK_NFD" "fd_table (ktasks s t) (nat fd) = e"
    using assms(2,4) by (auto simp: get_fd_def cur_table_def cur_task_def split: if_splits)
  then show ?thesis using assms by (simp add: set_fd_cur [OF assms(2)] counted_set_plain)
qed

lemma counted_open_inode:
  assumes c: "pipe_ends_counted s L" and t: "kcur s = Some t" "t \<in> L"
  shows "pipe_ends_counted (snd (open_inode i p md s)) L"
proof -
  let ?s1 = "open_truncate i md s"
  have c1: "pipe_ends_counted ?s1 L" using c counted_same [of ?s1 s L] by simp
  have "pipe_ends_counted (set_fd j e ?s1) L" if "free_fd (fd_table (ktasks s t)) = Some j" "fd_kind e \<noteq> FD_PIPE" for j e
    by (rule counted_set_free [OF c1]) (use that t in simp_all)
  then have "pipe_ends_counted (upd_inode i f (set_fd j e ?s1)) L"
    if "free_fd (fd_table (ktasks s t)) = Some j" "fd_kind e \<noteq> FD_PIPE" for j e f
    using that counted_same [of "upd_inode i f (set_fd j e ?s1)" "set_fd j e ?s1" L] by simp
  then show ?thesis using c c1 t
    by (simp add: open_inode_def cur_table_def cur_task_def Let_def split: option.split)
qed

lemma counted_fs_open:
  assumes c: "pipe_ends_counted s L" and t: "kcur s = Some t" "t \<in> L"
  shows "pipe_ends_counted (snd (fs_open p md s)) L"
proof (cases p)
  case (Some q)
  have ps: "pipe_ends_counted (snd (open_pseudo q md s)) L"
    using c counted_set_free [OF c t]
    by (simp add: open_pseudo_def cur_table_def cur_task_def t(1) split: option.split)
  have c1: "pipe_ends_counted (snd (fs_create (Some q) s)) L" using c counted_same [of "snd (fs_create (Some q) s)" s L] by simp
  then have "pipe_ends_counted (snd (open_inode i q md (snd (fs_create (Some q) s)))) L" for i
    by (rule counted_open_inode) (use t in simp_all)
  then show ?thesis using ps c c1 counted_open_inode [OF c t]
    by (simp add: fs_open_def Some split_beta Let_def split: option.split)
qed (use c in \<open>simp add: fs_open_def\<close>)

lemma counted_fs_read:
  assumes c: "pipe_ends_counted s L" and t: "kcur s = Some t" "t \<in> L"
  shows "pipe_ends_counted (snd (snd (fs_read env fd len s))) L"
  using c counted_set_moved [OF c t]
  by (simp add: fs_read_def Let_def split_beta split: option.split)

lemma counted_fs_write:
  assumes c: "pipe_ends_counted s L" and t: "kcur s = Some t" "t \<in> L"
  shows "pipe_ends_counted (snd (fs_write fd buf len s)) L"
proof -
  have w: "same_meta s (snd (write_loop g ino buf a off r s))" for g ino a off r by (rule write_loop_meta)
  have "pipe_ends_counted (set_fd (nat fd) e' (snd (write_loop g ino buf a off r s))) L"
    if "get_fd fd s = Some e" "fd_kind e \<noteq> FD_PIPE" "fd_kind e' \<noteq> FD_PIPE" for e e' g ino a off r
  proof (rule counted_set_moved [of _ _ t fd e])
    note m = w [of g ino a off r, unfolded same_meta_def]
    show "pipe_ends_counted (snd (write_loop g ino buf a off r s)) L" using c by (simp only: same_meta_counted [OF w])
    show "kcur (snd (write_loop g ino buf a off r s)) = Some t" using m t(1) by simp
    show "get_fd fd (snd (write_loop g ino buf a off r s)) = Some e" using m that(1) get_fd_meta by metis
  qed (use that t in simp_all)
  then show ?thesis using c counted_set_moved [OF c t]
    by (simp add: fs_write_def Let_def split_beta split: option.split)
qed

lemma counted_chfs_write_file:
  assumes c: "pipe_ends_counted s L"
  shows "pipe_ends_counted (snd (chfs_write_file p buf len s)) L"
proof -
  have u: "counted (upd_inode i f u) L d = counted u L d" for i f u d by (rule counted_same) simp_all
  have w: "counted (snd (write_loop g ino b a off r u)) L d = counted u L d" for g ino b a off r u d
    by (rule same_meta_counted [OF write_loop_meta])
  have k: "counted (snd (fs_create q s)) L d = counted s L d" for q d by (rule counted_same) simp_all
  show ?thesis using c
    by (simp add: chfs_write_file_def Let_def split_beta u w k split: option.split)
qed

lemma small_frame:
  "kpipes (snd (fs_mkdir p s)) = kpipes s" "ktasks (snd (fs_mkdir p s)) = ktasks s"
  "kpipes (snd (fs_unlink p s)) = kpipes s" "ktasks (snd (fs_unlink p s)) = ktasks s"
  "kpipes (snd (fs_chmod p md s)) = kpipes s" "ktasks (snd (fs_chmod p md s)) = ktasks s"
  "kpipes (snd (chfs_truncate p s)) = kpipes s" "ktasks (snd (chfs_truncate p s)) = ktasks s"
  "kpipes (snd (chfs_move p q s)) = kpipes s" "ktasks (snd (chfs_move p q s)) = ktasks s"
  by (simp_all add: fs_mkdir_def put_dirent_def fs_unlink_def release_blocks_eq fs_chmod_def chfs_truncate_def
      chfs_move_def Let_def split_beta split: option.split)

lemma counted_small:
  assumes "pipe_ends_counted s L"
  shows "pipe_ends_counted (snd (fs_mkdir p s)) L" "pipe_ends_counted (snd (fs_unlink p s)) L"
    "pipe_ends_counted (snd (fs_chmod p md s)) L" "pipe_ends_counted (snd (chfs_truncate p s)) L"
    "pipe_ends_counted (snd (chfs_move p q s)) L" "pipe_ends_counted (snd (fs_create p s)) L"
proof -
  have u: "pipe_ends_counted s' L" if "kpipes s' = kpipes s" "ktasks s' = ktasks s" for s'
    using that assms counted_same [of s' s L] by simp
  show "pipe_ends_counted (snd (fs_mkdir p s)) L" "pipe_ends_counted (snd (fs_unlink p s)) L"
    "pipe_ends_counted (snd (fs_chmod p md s)) L" "pipe_ends_counted (snd (chfs_truncate p s)) L"
    "pipe_ends_counted (snd (chfs_move p q s)) L" "pipe_ends_counted (snd (fs_create p s)) L"
    by (rule u; simp add: small_frame)+
qed

lemma counted_fs_exec:
  assumes c: "pipe_ends_counted s L" and t: "kcur s = Some t" "t \<in> L"
    and a: "case a of FWorld _ _ _ \<Rightarrow> False | FCloseTable (Some u) \<Rightarrow> u \<in> L | _ \<Rightarrow> True"
  shows "pipe_ends_counted (fs_exec a s) L"
proof (cases a)
  case (FCloseTable u)
  then show ?thesis using a c counted_fs_close_table [OF c] by (cases u) (simp_all add: fs_close_table_def)
qed (use a counted_small [OF c] counted_fs_open [OF c t] counted_fs_read [OF c t] counted_fs_write [OF c t]
    counted_fs_dup2 [OF c t] counted_fs_close [OF c t] counted_chfs_write_file [OF c] in simp_all)

section \<open>Processes\<close>

lemma upd_task_frame [simp]: "kpipes (pfs (upd_task t f s)) = kpipes (pfs s)" "kcur (pfs (upd_task t f s)) = kcur (pfs s)"
  "plist (upd_task t f s) = plist s" "tk (upd_task t f s) u = (if u = t then f (tk s t) else tk s u)"
  by (simp_all add: upd_task_def)

text \<open>A change that leaves pipes, tables and the current task alone.\<close>

definition same_fds :: "psys \<Rightarrow> psys \<Rightarrow> bool" where
  "same_fds s s' \<longleftrightarrow> kpipes (pfs s') = kpipes (pfs s) \<and> kcur (pfs s') = kcur (pfs s) \<and> plist s' = plist s
     \<and> (\<forall>t. fd_table (tk s' t) = fd_table (tk s t))"

lemma same_fds_refl [simp]: "same_fds s s"
  by (simp add: same_fds_def)

lemma same_fds_trans: "\<lbrakk>same_fds s t; same_fds t u\<rbrakk> \<Longrightarrow> same_fds s u"
  by (simp add: same_fds_def)

lemma same_fds_upd: "(\<And>x. fd_table (f x) = fd_table x) \<Longrightarrow> same_fds s (upd_task t f s)"
  by (simp add: same_fds_def)

lemma same_fds_counted: "same_fds s s' \<Longrightarrow> counted (pfs s') L d = counted (pfs s) L d"
  by (rule counted_same) (simp_all add: same_fds_def)

lemma same_fds_wakeup: "same_fds s (wait_wakeup_parent c s)"
proof -
  have "same_fds s (fold (wake_if_waiting p) is s)" for p "is"
  proof (induction "is" arbitrary: s)
    case (Cons t "is")
    have "same_fds s (wake_if_waiting p t s)" by (simp add: wake_if_waiting_def same_fds_upd)
    then show ?case using same_fds_trans [OF _ Cons.IH] by simp
  qed simp
  then show ?thesis by (simp add: wait_wakeup_parent_def)
qed

lemma fs_close_kcur [simp]: "kcur (snd (fs_close fd s)) = kcur s"
  by (simp add: fs_close_def set_fd_def ref_inode_def upd_inode_def split: option.split)

lemma counted_task_exit:
  assumes c: "pipe_ends_counted (pfs s) L" and me: "kcur (pfs s) = Some me" "me \<in> L"
  shows "pipe_ends_counted (pfs (task_exit me s)) L"
proof -
  have "pipe_ends_counted (pfs (fold (exit_close me) is s)) L" for "is"
    using c me(1)
  proof (induction "is" arbitrary: s)
    case (Cons i "is")
    have "pipe_ends_counted (pfs (exit_close me i s)) L" "kcur (pfs (exit_close me i s)) = Some me"
      using Cons.prems counted_fs_close [OF Cons.prems(1,2) me(2)] by (simp_all add: exit_close_def on_fs_def)
    then show ?case using Cons.IH by simp
  qed simp
  then show ?thesis
    using same_fds_counted [OF same_fds_trans [OF same_fds_wakeup same_fds_upd], of "\<lambda>x. x\<lparr>tstate := TASK_DEAD\<rparr>"]
    by (simp add: task_exit_def exit_die_def exit_notify_def)
qed

lemma counted_signal_one:
  assumes c: "pipe_ends_counted (pfs s) L" and t: "t \<in> L"
  shows "pipe_ends_counted (pfs (signal_one sig t s)) L"
proof -
  have u: "pipe_ends_counted (pfs (upd_task t f v)) L"
    if "\<And>x. fd_table (f x) = fd_table x" "pipe_ends_counted (pfs v) L" for f v
    using that same_fds_counted [OF same_fds_upd] by blast
  have w: "pipe_ends_counted (pfs (wait_wakeup_parent t v)) L" if "pipe_ends_counted (pfs v) L" for v
    using that same_fds_counted [OF same_fds_wakeup] by blast
  have "pipe_ends_counted (pfs (on_fs (fs_close_table (Some t)) s)) L"
    using counted_fs_close_table [OF c t] by (simp add: on_fs_def)
  then show ?thesis using c u w by (simp add: signal_one_def)
qed

lemma signal_one_frame [simp]: "plist (signal_one sig t s) = plist s" "kcur (pfs (signal_one sig t s)) = kcur (pfs s)"
proof -
  have "kcur (fold (close_entry t) is f) = kcur f" for "is" f
    by (induction "is" arbitrary: f) (simp_all add: close_entry_def Let_def ref_inode_def upd_inode_def)
  then show "plist (signal_one sig t s) = plist s" "kcur (pfs (signal_one sig t s)) = kcur (pfs s)"
    using same_fds_wakeup [of _ t] by (simp_all add: signal_one_def same_fds_def on_fs_def fs_close_table_def)
qed

lemma counted_signal_walk:
  assumes "pipe_ends_counted (pfs s) L" "kcur (pfs s) = Some me" "me \<in> L" "set ts \<subseteq> L"
  shows "pipe_ends_counted (pfs (snd (signal_walk want sig me ts s))) L"
  using assms
proof (induction ts arbitrary: s)
  case (Cons t ts)
  then have "pipe_ends_counted (pfs (signal_one sig t s)) L" "pipe_ends_counted (pfs (task_exit me s)) L"
    using counted_signal_one counted_task_exit by simp_all
  then show ?case using Cons by (cases "want = -1") simp_all
qed simp

lemma counted_signal_send:
  assumes "pipe_ends_counted (pfs s) L" "kcur (pfs s) = Some me" "me \<in> L" "set (plist s) \<subseteq> L"
  shows "pipe_ends_counted (pfs (snd (signal_send want sig me s))) L"
  using counted_signal_walk [OF assms, of want sig] assms(1) by (cases "want = -1") (simp_all add: signal_send_def split_beta Let_def)

lemma counted_insert:
  assumes "pipe_ends_counted s L" "t \<notin> L" "\<And>i p w. \<not> holds_end (fd_table (ktasks s t) i) p w"
  shows "pipe_ends_counted s (insert t L)"
proof -
  have "{(u, i). (u, i) \<in> insert t L \<times> {..<TASK_NFD} \<and> holds_end (fd_table (ktasks s u) i) p w}
      = {(u, i). (u, i) \<in> L \<times> {..<TASK_NFD} \<and> holds_end (fd_table (ktasks s u) i) p w}" for p w
    using assms(3) by auto
  then have "ends (ktasks s) (insert t L) p w = ends (ktasks s) L p w" for p w by (simp add: ends_def)
  then show ?thesis using assms(1) by (simp add: counted_def)
qed

lemma fresh_table_holds: "\<not> holds_end (fd_table (fd_table_init x) i) p w"
  by (auto simp: fd_table_init_def Let_def holds_end_def)

lemma new_task_tables:
  assumes "new_task nm (Some t) ok s = (r, s')"
  shows "kpipes (pfs s') = kpipes (pfs s)" "kcur (pfs s') = kcur (pfs s)" "plist s' = plist s"
    "u \<noteq> t \<Longrightarrow> tk s' u = tk s u" "fd_table (tk s' t) = fd_table (fd_table_init task_zero)" "r = None \<or> r = Some t"
  using assms by (auto simp: new_task_def Let_def split: if_splits)

lemma counted_new_task:
  assumes "pipe_ends_counted (pfs s) L" "new_task nm (Some t) ok s = (r, s')" "t \<notin> L"
  shows "pipe_ends_counted (pfs s') (insert t L)"
proof (rule counted_insert [OF _ assms(3)])
  note n = new_task_tables [OF assms(2)]
  have "fd_table (tk s' u) = fd_table (tk s u)" if "u \<in> L" for u by (subst n(4)) (use that assms(3) in auto)
  then show "pipe_ends_counted (pfs s') L" using assms(1) n(1) counted_same [of "pfs s'" "pfs s" L] by simp
  show "\<not> holds_end (fd_table (tk s' t) i) p w" for i p w unfolding n(5) by (rule fresh_table_holds)
qed

lemma counted_task_prepare:
  assumes "pipe_ends_counted (pfs s) L" "t \<notin> L"
  shows "pipe_ends_counted (pfs (snd (task_prepare nm (Some t) ok s))) (insert t L)"
proof -
  obtain r s' where n: "new_task nm (Some t) ok s = (r, s')" by fastforce
  have c: "pipe_ends_counted (pfs s') (insert t L)" by (rule counted_new_task [OF assms(1) n assms(2)])
  have "pipe_ends_counted (pfs (list_append u (upd_task u (\<lambda>x. x\<lparr>tstate := TASK_READY\<rparr>) s'))) (insert t L)" for u
    using c same_fds_counted [OF same_fds_upd, of "\<lambda>x. x\<lparr>tstate := TASK_READY\<rparr>" u s' "insert t L"]
    by (simp add: list_append_def)
  then show ?thesis using c by (simp add: task_prepare_def n split: option.split)
qed

text \<open>The moves of the system: creation of a task, fork and clone, pipe creation, any call of the file
  layer by the current task, exit, signals, waiting, a switch of tasks, and reads and writes of
  pipes (which change neither count).  \<open>L\<close> is the set of tasks created so far.\<close>

inductive life_step :: "psys \<times> tid set \<Rightarrow> psys \<times> tid set \<Rightarrow> bool" where
  create: "t \<notin> L \<Longrightarrow> life_step (s, L) (snd (task_prepare nm (Some t) ok s), insert t L)"
| forks: "\<lbrakk>t \<notin> L; kcur (pfs s) = Some me; cr3 (tk s me) \<noteq> 0\<rbrakk>
    \<Longrightarrow> life_step (s, L) (snd (fork_task me (Some t) ok space eip esp eflags s), insert t L)"
| clones: "\<lbrakk>t \<notin> L; kcur (pfs s) = Some me; cr3 (tk s me) \<noteq> 0\<rbrakk>
    \<Longrightarrow> life_step (s, L) (snd (task_clone_thread me (Some t) ok entry stack s), insert t L)"
| make_pipe: "\<forall>a. al = Some a \<longrightarrow> kpipes (pfs s) a = None
    \<Longrightarrow> life_step (s, L) (on_fs (\<lambda>f. snd (sys_pipe addr buf_ok copy_ok al f)) s, L)"
| file_call: "case a of FWorld _ _ _ \<Rightarrow> False | FCloseTable (Some u) \<Rightarrow> u \<in> L | _ \<Rightarrow> True
    \<Longrightarrow> life_step (s, L) (on_fs (fs_exec a) s, L)"
| exits: "kcur (pfs s) = Some me \<Longrightarrow> life_step (s, L) (task_exit me s, L)"
| signals: "kcur (pfs s) = Some me \<Longrightarrow> life_step (s, L) (snd (signal_send want sig me s), L)"
| waits: "kcur (pfs s) = Some me \<Longrightarrow> life_step (s, L) (snd (wait_pass want me s), L)"
| switch: "t \<in> L \<Longrightarrow> life_step (s, L) (on_fs (\<lambda>f. f\<lparr>kcur := Some t\<rparr>) s, L)"
| write_pipe: "\<lbrakk>kpipes (pfs s) a = Some q; pipe_write_pass me (ktasks (pfs s)) q bs n = (res, bs', n', ts, q')\<rbrakk>
    \<Longrightarrow> life_step (s, L) (on_fs (\<lambda>f. f\<lparr>ktasks := ts, kpipes := (kpipes f)(a \<mapsto> q')\<rparr>) s, L)"
| read_pipe: "\<lbrakk>kpipes (pfs s) a = Some q; pipe_read_pass me (ktasks (pfs s)) q n = (res, cs, ts, q')\<rbrakk>
    \<Longrightarrow> life_step (s, L) (on_fs (\<lambda>f. f\<lparr>ktasks := ts, kpipes := (kpipes f)(a \<mapsto> q')\<rparr>) s, L)"

definition life_ok :: "psys \<times> tid set \<Rightarrow> bool" where
  "life_ok c \<longleftrightarrow> (case c of (s, L) \<Rightarrow> pipe_ends_counted (pfs s) L \<and> set (plist s) \<subseteq> L
     \<and> (\<exists>me\<in>L. kcur (pfs s) = Some me))"

lemma pipe_pass_counts:
  "pipe_write_pass me ts q bs n = (res, bs', n', ts', q') \<Longrightarrow>
     readers q' = readers q \<and> writers q' = writers q \<and> fd_table (ts' t) = fd_table (ts t)"
  "pipe_read_pass me ts q m = (res', cs, ts', q') \<Longrightarrow>
     readers q' = readers q \<and> writers q' = writers q \<and> fd_table (ts' t) = fd_table (ts t)"
  by (auto simp: pipe_write_pass_def pipe_read_pass_def set_state_def Let_def split_beta frame_simps split: if_splits)

lemma counted_pipe_pass:
  assumes "pipe_ends_counted f L" "kpipes f a = Some q" "readers q' = readers q" "writers q' = writers q"
    "\<And>t. fd_table (ts t) = fd_table (ktasks f t)"
  shows "pipe_ends_counted (f\<lparr>ktasks := ts, kpipes := (kpipes f)(a \<mapsto> q')\<rparr>) L"
proof -
  have e: "ends ts L p w = ends (ktasks f) L p w" for p w by (rule ends_cong) (simp add: assms(5))
  have "count_ok (((kpipes f)(a \<mapsto> q')) p) (int (ends (ktasks f) L p False)) (int (ends (ktasks f) L p True))" for p
    using countedD(2) [OF assms(1), of p] assms(2-4) by (cases "p = a") (simp_all add: count_ok_def)
  then show ?thesis using countedD(1) [OF assms(1)] by (simp add: counted_def e)
qed

lemma wait_pass_fds: "kpipes (pfs (snd (wait_pass w me s))) = kpipes (pfs s)" "kcur (pfs (snd (wait_pass w me s))) = kcur (pfs s)"
  "set (plist (snd (wait_pass w me s))) \<subseteq> set (plist s)" "fd_table (tk (snd (wait_pass w me s)) t) = fd_table (tk s t)"
  using set_remove1_subset [of _ "plist s"] by (auto simp: wait_pass_def Let_def split: option.splits)

lemma task_exit_frame: "kcur (pfs s) = Some me \<Longrightarrow> kcur (pfs (task_exit me s)) = Some me \<and> plist (task_exit me s) = plist s"
proof -
  assume k: "kcur (pfs s) = Some me"
  have "kcur (pfs (fold (exit_close me) is s)) = Some me \<and> plist (fold (exit_close me) is s) = plist s" for "is"
    using k by (induction "is" arbitrary: s) (simp_all add: exit_close_def on_fs_def)
  then show ?thesis using same_fds_wakeup by (simp add: task_exit_def exit_die_def exit_notify_def same_fds_def)
qed

lemma signal_frame:
  assumes "kcur (pfs s) = Some me"
  shows "kcur (pfs (snd (signal_send want sig me s))) = Some me" "plist (snd (signal_send want sig me s)) = plist s"
proof -
  have w: "kcur (pfs (snd (signal_walk want sig me ts s))) = Some me \<and> plist (snd (signal_walk want sig me ts s)) = plist s" for ts
    using assms
  proof (induction ts arbitrary: s)
    case (Cons t ts)
    have "kcur (pfs (signal_one sig t s)) = Some me" using Cons.prems by simp
    note Cons.IH [OF this] Cons.IH [OF Cons.prems] task_exit_frame [OF Cons.prems]
    then show ?case using Cons.prems by (cases "want = -1") simp_all
  qed simp
  have "snd (signal_send want sig me s) = s \<or> pfs (snd (signal_send want sig me s)) = pfs (snd (signal_walk want sig me (plist s) s))
      \<and> plist (snd (signal_send want sig me s)) = plist (snd (signal_walk want sig me (plist s) s))"
    by (cases "want = -1") (simp_all add: signal_send_def split_beta Let_def)
  then show "kcur (pfs (snd (signal_send want sig me s))) = Some me" "plist (snd (signal_send want sig me s)) = plist s"
    using w [of "plist s"] assms by auto
qed

lemma fs_exec_kcur:
  assumes "case a of FWorld _ _ _ \<Rightarrow> False | _ \<Rightarrow> True"
  shows "kcur (fs_exec a s) = kcur s"
proof -
  have u [simp]: "kcur (set_fd i e s) = kcur s" for i e s by (simp add: set_fd_def split: option.split)
  have w [simp]: "kcur (snd (write_loop g ino buf a off r s)) = kcur s" for g ino buf a off r s
    using write_loop_meta [of s g ino buf a off r] by (simp add: same_meta_def)
  have d [simp]: "kcur (dup_pipe p b s) = kcur s" "kcur (ref_inode x y s) = kcur s" for p b x y s
    by (simp_all add: dup_pipe_def ref_inode_def split: option.split)
  have o [simp]: "kcur (snd (open_inode i p md s)) = kcur s" for i p md s
    by (simp add: open_inode_def Let_def split: option.split)
  have c: "kcur (fold (close_entry t) is f) = kcur f" for t "is" f
    by (induction "is" arbitrary: f) (simp_all add: close_entry_def Let_def)
  show ?thesis
    using assms
    by (cases a) (simp_all add: fs_open_def open_pseudo_def fs_read_def fs_write_def fs_dup2_def fs_close_table_def
        fs_mkdir_def put_dirent_def fs_unlink_def release_blocks_eq fs_chmod_def chfs_truncate_def chfs_move_def
        chfs_write_file_def c Let_def split_beta split: option.split)
qed

lemma life_ok_prepare:
  assumes "life_ok (s, L)" "t \<notin> L"
  shows "life_ok (snd (task_prepare nm (Some t) ok s), insert t L)"
proof -
  obtain r s' where n: "new_task nm (Some t) ok s = (r, s')" by fastforce
  let ?p = "snd (task_prepare nm (Some t) ok s)"
  have ok: "pipe_ends_counted (pfs s) L" "set (plist s) \<subseteq> L" "\<exists>me\<in>L. kcur (pfs s) = Some me"
    using assms by (simp_all add: life_ok_def)
  have "pipe_ends_counted (pfs ?p) (insert t L)" by (rule counted_task_prepare [OF ok(1) assms(2)])
  moreover have "kcur (pfs ?p) = kcur (pfs s)" "set (plist ?p) \<subseteq> insert t (set (plist s))"
    using new_task_tables [OF n] by (auto simp: task_prepare_def n list_append_def split: option.split)
  ultimately show ?thesis using ok by (auto simp: life_ok_def)
qed

lemma life_ok_upd: "\<lbrakk>life_ok (s, L); \<And>x. fd_table (f x) = fd_table x\<rbrakk> \<Longrightarrow> life_ok (upd_task c f s, L)"
  using same_fds_counted [OF same_fds_upd, of f c s L] by (simp add: life_ok_def)

lemma copy_kcur: "kcur (fd_table_copy d src f) = kcur f"
proof -
  have "kcur (fold (copy_entry d src) is f) = kcur f" for "is"
    by (induction "is" arbitrary: f) (auto simp: copy_entry_def Let_def dup_pipe_def ref_inode_def split: option.split)
  then show ?thesis by (simp add: fd_table_copy_def)
qed

text \<open>Fork and clone share this: a prepared child takes a copy of the table.\<close>

lemma life_ok_child:
  assumes ok: "life_ok (s, L)" "t \<notin> L" "kcur (pfs s) = Some me"
    and p: "task_prepare nm (Some t) alloc s = (Some c, s1)" and f: "\<And>x. fd_table (f x) = fd_table x"
  shows "life_ok (upd_task c f (on_fs (fd_table_copy c me) s1), insert t L)"
proof -
  obtain r s' where n: "new_task nm (Some t) alloc s = (r, s')" by fastforce
  then have c: "c = t" "fd_table (tk s1 c) = fd_table (fd_table_init task_zero)"
    using p new_task_tables(5,6) [OF n] by (auto simp: task_prepare_def list_append_def split: option.splits)
  have s1: "life_ok (s1, insert t L)" using life_ok_prepare [OF ok(1,2), of nm alloc] p by simp
  have k: "kcur (pfs s1) = Some me" "me \<in> L"
    using p ok new_task_tables(2) [OF n] n by (auto simp: task_prepare_def list_append_def life_ok_def split: option.splits)
  have "pipe_ends_counted (fd_table_copy c me (pfs s1)) (insert t L)"
    by (rule counted_fd_table_copy) (use s1 c k ok(2) fresh_table_holds in \<open>auto simp: life_ok_def\<close>)
  then have "life_ok (on_fs (fd_table_copy c me) s1, insert t L)"
    using s1 k by (simp add: life_ok_def on_fs_def copy_kcur)
  then show ?thesis by (rule life_ok_upd) (rule f)
qed

lemma life_step_ok:
  assumes "life_step c c'" "life_ok c"
  shows "life_ok c'"
  using assms
proof (induction rule: life_step.induct)
  case (create t L s nm ok)
  then show ?case using life_ok_prepare by simp
next
  case (forks t L s me ok space eip esp eflags)
  obtain r s1 where p: "task_prepare ''fork_child'' (Some t) ok s = (r, s1)" by fastforce
  have s1: "life_ok (s1, insert t L)" using life_ok_prepare [OF forks(4,1), of "''fork_child''" ok] p by simp
  have "life_ok (upd_task c (fork_fields (tk s1 me) space eip esp eflags) (on_fs (fd_table_copy c me) s1), insert t L)"
    if "r = Some c" for c
    by (rule life_ok_child [OF forks(4,1,2)]) (use p that in \<open>simp_all add: fork_fields_def\<close>)
  then show ?case using s1 forks(3) life_ok_upd [OF s1, of "\<lambda>x. x\<lparr>tstate := TASK_DEAD\<rparr>"]
    by (simp add: fork_task_def p split: option.split)
next
  case (clones t L s me ok entry stack)
  obtain r s1 where p: "task_prepare ''thread'' (Some t) ok s = (r, s1)" by fastforce
  have s1: "life_ok (s1, insert t L)" using life_ok_prepare [OF clones(4,1), of "''thread''" ok] p by simp
  have "life_ok (upd_task c (clone_fields (tk s1 me) entry stack) (on_fs (fd_table_copy c me) s1), insert t L)"
    if "r = Some c" for c
    by (rule life_ok_child [OF clones(4,1,2)]) (use p that in \<open>simp_all add: clone_fields_def\<close>)
  then show ?case using s1 clones(3) by (simp add: task_clone_thread_def p split: option.split)
next
  case (make_pipe al s L addr buf_ok copy_ok)
  then obtain me where me: "me \<in> L" "kcur (pfs s) = Some me" by (auto simp: life_ok_def)
  have "kcur (snd (sys_pipe addr buf_ok copy_ok al (pfs s))) = Some me"
    using me(2) by (simp add: sys_pipe_def Let_def split: option.split)
  then show ?case
    using make_pipe me counted_sys_pipe [OF _ me(2,1)] by (auto simp: life_ok_def on_fs_def)
next
  case (file_call a L s)
  then obtain me where me: "me \<in> L" "kcur (pfs s) = Some me" by (auto simp: life_ok_def)
  have "kcur (fs_exec a (pfs s)) = Some me"
    by (subst fs_exec_kcur) (use file_call me in \<open>auto split: fs_op.splits\<close>)
  then show ?case using file_call me counted_fs_exec [OF _ me(2,1)] by (auto simp: life_ok_def on_fs_def)
next
  case (exits s me L)
  then show ?case using counted_task_exit [of s L me] task_exit_frame [of s me] by (auto simp: life_ok_def)
next
  case (signals s me L want sig)
  then show ?case using counted_signal_send [of s L me] signal_frame [of s me] by (auto simp: life_ok_def)
next
  case (waits s me L want)
  then show ?case using wait_pass_fds [of want me s] counted_same [of "pfs (snd (wait_pass want me s))" "pfs s" L "\<lambda>_ _. 0"]
    by (auto simp: life_ok_def)
next
  case (switch t L s)
  then show ?case using counted_same [of "(pfs s)\<lparr>kcur := Some t\<rparr>" "pfs s" L "\<lambda>_ _. 0"] by (simp add: life_ok_def on_fs_def)
next
  case (write_pipe s a q me bs n res bs' n' ts q' L)
  then show ?case using pipe_pass_counts(1) [OF write_pipe(2)] counted_pipe_pass [of "pfs s" L a q q' ts]
    by (simp add: life_ok_def on_fs_def)
next
  case (read_pipe s a q me n res cs ts q' L)
  then show ?case using pipe_pass_counts(2) [OF read_pipe(2)] counted_pipe_pass [of "pfs s" L a q q' ts]
    by (simp add: life_ok_def on_fs_def)
qed

lemma life_run_ok: "life_step\<^sup>*\<^sup>* c c' \<Longrightarrow> life_ok c \<Longrightarrow> life_ok c'"
  by (induction rule: rtranclp_induct) (simp_all add: life_step_ok)

lemma task_init_ok:
  assumes "m \<noteq> idle" "kpipes f = Map.empty"
  shows "life_ok (task_init m idle f, {m, idle})"
proof -
  have "\<not> holds_end (fd_table (tk (task_init m idle f) t) i) p w" if "t = m \<or> t = idle" for t i p w
    using that assms(1) fresh_table_holds [of task_zero i p w]
    by (auto simp: task_init_def task_create_def new_task_def list_append_def Let_def)
  then have "{(t, i). (t, i) \<in> {m, idle} \<times> {..<TASK_NFD} \<and> holds_end (fd_table (tk (task_init m idle f) t) i) p w} = {}" for p w
    by blast
  then have "ends (ktasks (pfs (task_init m idle f))) {m, idle} p w = 0" for p w
    by (simp only: ends_def card.empty)
  moreover have "kpipes (pfs (task_init m idle f)) = Map.empty" "kcur (pfs (task_init m idle f)) = Some m"
    "plist (task_init m idle f) = [m, idle]"
    using assms by (simp_all add: task_init_def task_create_def new_task_def list_append_def Let_def)
  ultimately show ?thesis by (simp add: life_ok_def counted_def count_ok_def)
qed

text \<open>C15.  From boot, after any sequence of process and file operations, a pipe exists exactly while some task has a
  descriptor on it, and its reader and writer counts are the numbers of descriptors open on each end over
  all tasks: a pipe is freed with its last descriptor, never before, and never leaked.\<close>

theorem pipe_ends_exact:
  assumes "life_step\<^sup>*\<^sup>* (task_init m idle f, {m, idle}) (s, L)" "m \<noteq> idle" "kpipes f = Map.empty"
  shows "case kpipes (pfs s) p of
      None \<Rightarrow> ends (ktasks (pfs s)) L p False = 0 \<and> ends (ktasks (pfs s)) L p True = 0
    | Some q \<Rightarrow> readers q = ends (ktasks (pfs s)) L p False \<and> writers q = ends (ktasks (pfs s)) L p True
        \<and> readers q + writers q > 0"
proof -
  have "pipe_ends_counted (pfs s) L"
    using life_run_ok [OF assms(1) task_init_ok [OF assms(2,3)]] by (simp add: life_ok_def)
  from countedD(2) [OF this, of p] show ?thesis by (auto simp: count_ok_def split: option.split)
qed

definition no_files :: fsys where
  "no_files = chfs_init \<lparr>inodes = (\<lambda>_. inode_zero), iused = (\<lambda>_. False), pool = (\<lambda>_ _. 0), bused = (\<lambda>_. False),
     ktasks = (\<lambda>_. task_zero), kcur = None, kpipes = Map.empty\<rparr>"

theorem pipe_ends_exact_witness:
  "\<exists>s L q. life_step\<^sup>*\<^sup>* (task_init 0 1 no_files, {0, 1}) (s, L) \<and> kpipes (pfs s) 7 = Some q
     \<and> readers q = ends (ktasks (pfs s)) L 7 False \<and> readers q = 1"
proof -
  define s where "s = on_fs (\<lambda>f. snd (sys_pipe 0x500000 True True (Some 7) f)) (task_init 0 1 no_files)"
  have k: "kpipes no_files = Map.empty"
    by (simp add: no_files_def chfs_init_def put_dirent_def upd_inode_def Let_def)
  then have "kpipes (pfs (task_init 0 1 no_files)) = Map.empty"
    by (simp add: task_init_def task_create_def new_task_def list_append_def Let_def)
  then have run: "life_step\<^sup>*\<^sup>* (task_init 0 1 no_files, {0, 1}) (s, {0, 1})"
    unfolding s_def by (intro r_into_rtranclp life_step.make_pipe) simp
  have "map_option readers (kpipes (pfs s) 7) = Some 1" unfolding s_def by code_simp
  then obtain q where q: "kpipes (pfs s) 7 = Some q" "readers q = 1" by auto
  have "readers q = ends (ktasks (pfs s)) {0, 1} 7 False"
    using pipe_ends_exact [OF run _ k, of 7] q by simp
  then show ?thesis using run q by blast
qed

end
