(* ===== verification/Wait.thy ===== *)
theory Wait
  imports Pipe_Ends
begin

text \<open>
  Waiting for children, against exit and signals (\<open>wait.c\<close>, \<open>signal.c\<close>, \<open>task.c\<close>): a child that dies, by
  itself or killed, wakes the parent asleep in \<open>wait\<close> and is collected by the parent's next pass with
  the right status, provided the death is not interrupted; and the interleaving in which the
  wake-up is lost.
\<close>

section \<open>What closing descriptors does to tasks\<close>

text \<open>Closing descriptors changes tables and may make tasks ready; nothing else of a descriptor moves.\<close>

definition core :: "task \<Rightarrow> task" where
  "core t = t\<lparr>fd_table := (\<lambda>_. fd_zero), tstate := TASK_READY\<rparr>"

definition only_wakes :: "fsys \<Rightarrow> fsys \<Rightarrow> bool" where
  "only_wakes f g \<longleftrightarrow> kcur g = kcur f \<and> (\<forall>t. core (ktasks g t) = core (ktasks f t)
     \<and> (tstate (ktasks g t) = tstate (ktasks f t) \<or> tstate (ktasks g t) = TASK_READY))"

lemma only_wakes_refl [simp]: "only_wakes f f"
  by (simp add: only_wakes_def)

lemma only_wakes_trans: "\<lbrakk>only_wakes f g; only_wakes g h\<rbrakk> \<Longrightarrow> only_wakes f h"
  unfolding only_wakes_def by metis

lemma core_fields:
  assumes "core x = core y"
  shows "pid x = pid y" "parent_pid x = parent_pid y" "sleep_until x = sleep_until y"
    "exit_status x = exit_status y" "sig_handlers x = sig_handlers y"
  using arg_cong [OF assms, of pid] arg_cong [OF assms, of parent_pid] arg_cong [OF assms, of sleep_until]
    arg_cong [OF assms, of exit_status] arg_cong [OF assms, of sig_handlers] by (simp_all add: core_def)

lemma only_wakes_fields:
  assumes "only_wakes f g"
  shows "pid (ktasks g t) = pid (ktasks f t)" "parent_pid (ktasks g t) = parent_pid (ktasks f t)"
    "sleep_until (ktasks g t) = sleep_until (ktasks f t)" "exit_status (ktasks g t) = exit_status (ktasks f t)"
    "sig_handlers (ktasks g t) = sig_handlers (ktasks f t)"
    "tstate (ktasks g t) = tstate (ktasks f t) \<or> tstate (ktasks g t) = TASK_READY" "kcur g = kcur f"
  using assms core_fields [of "ktasks g t" "ktasks f t"] by (simp_all add: only_wakes_def)

lemma only_wakes_slot: "only_wakes f (set_fd_of t i e f)"
  by (simp add: only_wakes_def set_fd_of_def core_def)

lemma only_wakes_close_pipe: "only_wakes f (close_pipe p w f)"
  by (auto simp: only_wakes_def core_def close_pipe_def pipe_close_end_def wake_def set_state_def Let_def split: option.split)

lemma only_wakes_ref_inode: "only_wakes f (ref_inode k i f)"
  by (simp add: only_wakes_def ref_inode_def upd_inode_def)

lemma only_wakes_close_entry: "only_wakes f (close_entry t i f)"
  unfolding close_entry_def Let_def
  by (auto intro: only_wakes_trans [OF only_wakes_slot only_wakes_close_pipe]
      only_wakes_trans [OF only_wakes_slot only_wakes_ref_inode] only_wakes_slot)

lemma only_wakes_fold: "(\<And>i f. only_wakes f (c i f)) \<Longrightarrow> only_wakes f (fold c is f)"
  by (induction "is" arbitrary: f) (auto intro: only_wakes_trans)

lemma only_wakes_fs_close: "only_wakes f (snd (fs_close fd f))"
proof -
  have s: "only_wakes f (set_fd i e f)" for i e
    using only_wakes_slot by (cases "kcur f") (simp_all add: set_fd_def set_fd_of_def)
  show ?thesis unfolding fs_close_def
    by (auto split: option.split intro: only_wakes_trans [OF s only_wakes_close_pipe] only_wakes_trans [OF s only_wakes_ref_inode])
qed

lemma tk_wake_if_waiting:
  "tk (wake_if_waiting p c s) t = (if t = c \<and> tstate (tk s t) = TASK_BLOCKED \<and> sleep_until (tk s t) = 0 \<and> pid (tk s t) = p
     then (tk s t)\<lparr>tstate := TASK_READY\<rparr> else tk s t)"
  by (auto simp: wake_if_waiting_def)

lemma tk_wakeup:
  "tk (wait_wakeup_parent c s) t =
     (if t \<in> set (plist s) \<and> tstate (tk s t) = TASK_BLOCKED \<and> sleep_until (tk s t) = 0 \<and> pid (tk s t) = parent_pid (tk s c)
      then (tk s t)\<lparr>tstate := TASK_READY\<rparr> else tk s t)"
proof -
  have "tk (fold (wake_if_waiting p) is s) t =
     (if t \<in> set is \<and> tstate (tk s t) = TASK_BLOCKED \<and> sleep_until (tk s t) = 0 \<and> pid (tk s t) = p
      then (tk s t)\<lparr>tstate := TASK_READY\<rparr> else tk s t)" for p "is"
    by (induction "is" arbitrary: s) (auto simp: tk_wake_if_waiting)
  then show ?thesis by (simp add: wait_wakeup_parent_def)
qed

section \<open>A death is noticed\<close>

lemma exit_notify_effect:
  assumes "kcur (pfs s) = Some c"
  obtains s0 where "only_wakes (pfs s) (pfs s0)" "plist s0 = plist s" "exit_notify c s = wait_wakeup_parent c s0"
proof -
  have "only_wakes (pfs s) (pfs (fold (exit_close c) is s)) \<and> plist (fold (exit_close c) is s) = plist s" for "is"
  proof (induction "is" arbitrary: s)
    case (Cons i "is")
    have "only_wakes (pfs s) (pfs (exit_close c i s))" "plist (exit_close c i s) = plist s"
      by (simp_all add: exit_close_def on_fs_def only_wakes_fs_close)
    then show ?case using Cons.IH [of "exit_close c i s"] only_wakes_trans by auto
  qed simp
  then show ?thesis using that [of "fold (exit_close c) [0..<TASK_NFD] s"] by (simp add: exit_notify_def)
qed

text \<open>The collecting pass, once the child is dead.\<close>

lemma wait_pass_reaps:
  assumes "c \<in> set (plist s)" "reapable (pid (tk s me)) want s c"
    "\<And>t. \<lbrakk>t \<in> set (plist s); pid (tk s t) = pid (tk s c)\<rbrakk> \<Longrightarrow> t = c" "want = pid (tk s c)" "want \<noteq> -1"
  shows "wait_pass want me s = (Reaped (pid (tk s c)) (exit_status (tk s c)), s\<lparr>plist := remove1 c (plist s)\<rparr>)"
proof -
  have "find (reapable (pid (tk s me)) want s) (plist s) = Some t \<Longrightarrow> t = c" for t
    using assms(3-5) by (auto simp: find_Some_iff reapable_def dest!: nth_mem)
  moreover have "find (reapable (pid (tk s me)) want s) (plist s) \<noteq> None"
    using assms(1,2) by (auto simp: find_None_iff)
  ultimately have "find (reapable (pid (tk s me)) want s) (plist s) = Some c" by auto
  then show ?thesis by (simp add: wait_pass_def Let_def)
qed

text \<open>When a task exits, a parent asleep in \<open>wait\<close> becomes ready, and its next pass for that child collects it: it
  returns the child's pid and exit status and takes exactly the child off the task list.\<close>

theorem exit_then_wait:
  assumes "kcur (pfs s) = Some c" "c \<in> set (plist s)" "me \<in> set (plist s)" "me \<noteq> c"
    and "parent_pid (tk s c) = pid (tk s me)" "tstate (tk s me) = TASK_BLOCKED" "sleep_until (tk s me) = 0"
    and "\<forall>t\<in>set (plist s). pid (tk s t) = pid (tk s c) \<longrightarrow> t = c" "pid (tk s c) \<noteq> -1"
  shows "tstate (tk (task_exit c s) me) = TASK_READY \<and>
    wait_pass (pid (tk s c)) me (task_exit c s) =
      (Reaped (pid (tk s c)) (exit_status (tk s c)), (task_exit c s)\<lparr>plist := remove1 c (plist s)\<rparr>)"
proof -
  obtain s0 where s0: "only_wakes (pfs s) (pfs s0)" "plist s0 = plist s" "exit_notify c s = wait_wakeup_parent c s0"
    by (rule exit_notify_effect [OF assms(1)])
  note f = only_wakes_fields [OF s0(1)]
  let ?s = "task_exit c s"
  have pl: "plist ?s = plist s" using same_fds_wakeup [of s0 c] s0(2) by (simp add: task_exit_def exit_die_def s0(3) same_fds_def)
  have ids: "pid (tk ?s t) = pid (tk s t)" "parent_pid (tk ?s t) = parent_pid (tk s t)" "exit_status (tk ?s t) = exit_status (tk s t)" for t
    using f by (simp_all add: task_exit_def exit_die_def s0(3) tk_wakeup)
  have dead: "tstate (tk ?s c) = TASK_DEAD" by (simp add: task_exit_def exit_die_def)
  have "tstate (tk ?s me) = TASK_READY"
    using assms(3-7) f(6) [of me] by (auto simp: task_exit_def exit_die_def s0 tk_wakeup f)
  moreover have "wait_pass (pid (tk ?s c)) me ?s = (Reaped (pid (tk ?s c)) (exit_status (tk ?s c)), ?s\<lparr>plist := remove1 c (plist ?s)\<rparr>)"
    by (rule wait_pass_reaps) (use assms pl ids dead in \<open>simp_all add: reapable_def\<close>)
  ultimately show ?thesis by (simp add: ids pl)
qed

text \<open>C19.  A signal without a handler, sent to another task, ends it for good: the task is dead with status 128 + signal,
  its parent asleep in \<open>wait\<close> becomes ready, and that parent's next pass returns pid and status.\<close>

theorem kill_then_wait:
  assumes "c \<in> set (plist s)" "me \<in> set (plist s)" "me \<noteq> c" "k \<noteq> c"
    and "parent_pid (tk s c) = pid (tk s me)" "tstate (tk s me) = TASK_BLOCKED" "sleep_until (tk s me) = 0"
    and "\<forall>t\<in>set (plist s). pid (tk s t) = pid (tk s c) \<longrightarrow> t = c" "pid (tk s c) \<noteq> -1"
    and "0 \<le> sig" "sig < 32" "sig_handlers (tk s c) (nat sig) = 0" "tstate (tk s c) \<noteq> TASK_DEAD"
  shows "tstate (tk (snd (signal_send (pid (tk s c)) sig k s)) me) = TASK_READY \<and>
    fst (wait_pass (pid (tk s c)) me (snd (signal_send (pid (tk s c)) sig k s))) = Reaped (pid (tk s c)) (128 + sig)"
proof -
  define s0 where "s0 = on_fs (fs_close_table (Some c)) s"
  have "only_wakes (pfs s) (fs_close_table (Some c) (pfs s))"
    unfolding fs_close_table_def by (simp, rule only_wakes_fold [OF only_wakes_close_entry])
  then have ow: "only_wakes (pfs s) (pfs s0)" by (simp add: s0_def on_fs_def)
  note f = only_wakes_fields [OF ow]
  define s1 where "s1 = upd_task c (\<lambda>x. x\<lparr>tstate := TASK_DEAD, exit_status := 128 + sig,
             sig_pending := sig_pending x AND NOT (sig_bit sig)\<rparr>) s0"
  have walk: "snd (signal_walk (pid (tk s c)) sig k ts s) = signal_one sig c s"
    if "c \<in> set ts" "set ts \<subseteq> set (plist s)" for ts
    using that assms(4,8,9) by (induction ts) auto
  have r: "snd (signal_send (pid (tk s c)) sig k s) = wait_wakeup_parent c s1" (is "?s = _")
    using walk [OF assms(1) subset_refl] assms(9-13)
    by (simp add: signal_send_def split_beta Let_def signal_one_def s1_def s0_def)
  have pl: "plist ?s = plist s" unfolding r using same_fds_wakeup [of s1 c] by (simp add: same_fds_def s1_def s0_def on_fs_def)
  have pl1: "plist s1 = plist s" by (simp add: s1_def s0_def on_fs_def)
  have ids: "pid (tk ?s t) = pid (tk s t)" "parent_pid (tk ?s t) = parent_pid (tk s t)" for t
    using f by (simp_all add: r s1_def tk_wakeup)
  have dead: "tstate (tk ?s c) = TASK_DEAD" "exit_status (tk ?s c) = 128 + sig" by (simp_all add: r s1_def tk_wakeup)
  have "tstate (tk ?s me) = TASK_READY"
    using assms(2-7) f(6) [of me] by (auto simp: r tk_wakeup pl1) (auto simp: s1_def f)
  moreover have "wait_pass (pid (tk ?s c)) me ?s = (Reaped (pid (tk ?s c)) (exit_status (tk ?s c)), ?s\<lparr>plist := remove1 c (plist ?s)\<rparr>)"
    by (rule wait_pass_reaps) (use assms pl ids dead in \<open>simp_all add: reapable_def\<close>)
  ultimately show ?thesis by (simp add: ids dead)
qed

text \<open>A parent (pid 1) asleep in \<open>wait\<close> and its running child (pid 2).\<close>

definition family :: psys where
  "family = \<lparr>pfs = no_files\<lparr>ktasks := (\<lambda>t. if t = 0 then task_zero\<lparr>pid := 1, tstate := TASK_BLOCKED\<rparr>
        else task_zero\<lparr>pid := 2, parent_pid := 1, tstate := TASK_RUNNING, exit_status := 7\<rparr>), kcur := Some 1\<rparr>,
     plist = [0, 1], pidle = 2, pnext_pid = 3, prr = None, psig = 0\<rparr>"

theorem exit_then_wait_witness:
  "fst (wait_pass 2 0 (task_exit 1 family)) = Reaped 2 7 \<and> tstate (tk (task_exit 1 family) 0) = TASK_READY"
  using exit_then_wait [of family 1 0] by (simp add: family_def task_zero_def)

theorem kill_then_wait_witness:
  "fst (wait_pass 2 0 (snd (signal_send 2 15 5 family))) = Reaped 2 143"
  using kill_then_wait [of 1 family 0 5 15] by (simp add: family_def task_zero_def)

end
