(* ===== verification/Security.thy ===== *)
theory Security
  imports Wait
begin

text \<open>
  Privileges: capability sets and their audit ring (\<open>process/cap.c\<close>), the per-task system call filter
  (\<open>process/sandbox.c\<close>), the contract counter (\<open>core/verify.c\<close>), tokens (\<open>core/auth.c\<close>), the calls of
  \<open>core/syscall.c\<close> that change credentials or act on other tasks by credential, and the gate
  every system call passes (\<open>syscall_handler\<close>).  The global state is the record \<open>ksec\<close>; the
  calling task (\<open>task_current()\<close>) is an argument, \<open>None\<close> when there is none.  The hook that
  \<open>verify_require\<close> calls only logs.  A pointer argument that may be null is an option.
\<close>

abbreviation CAP_VALID_MASK :: u32 where "CAP_VALID_MASK \<equiv> CAP_ALL"
abbreviation CAP_SETGID :: u32 where "CAP_SETGID \<equiv> 0x40"
abbreviation CAP_SETUID :: u32 where "CAP_SETUID \<equiv> 0x80"
abbreviation CAP_AUDIT_LEN :: nat where "CAP_AUDIT_LEN \<equiv> 16"
abbreviation SB_MAX_NR :: u32 where "SB_MAX_NR \<equiv> 256"

record ksec =
  audit_ring :: "nat \<Rightarrow> u32 \<times> u32"
  audit_pos :: u32
  vfail :: u32
  auth_active :: bool

section \<open>Contracts\<close>

definition verify_require :: "bool \<Rightarrow> ksec \<Rightarrow> int \<times> ksec" where
  "verify_require cond k = (if cond then (0, k) else (-1, k\<lparr>vfail := vfail k + 1\<rparr>))"

section \<open>Capabilities\<close>

definition cap_valid :: "u32 \<Rightarrow> bool" where
  "cap_valid cap = (if cap = 0 then False else if cap AND NOT CAP_VALID_MASK \<noteq> 0 then False
     else cap AND (cap - 1) = 0)"

definition cap_has :: "u32 \<Rightarrow> u32 \<Rightarrow> bool" where
  "cap_has cs cap = (if \<not> cap_valid cap then False else cs AND cap \<noteq> 0)"

definition cap_grant :: "u32 option \<Rightarrow> u32 \<Rightarrow> ksec \<Rightarrow> int \<times> u32 option \<times> ksec" where
  "cap_grant cs cap k =
     (let (r, k) = verify_require (cs \<noteq> None) k in if r \<noteq> 0 then (-1, cs, k) else
      let (r, k) = verify_require (cap_valid cap) k in if r \<noteq> 0 then (-1, cs, k) else
      (0, map_option (\<lambda>x. x OR cap) cs, k))"

definition cap_revoke :: "u32 option \<Rightarrow> u32 \<Rightarrow> ksec \<Rightarrow> int \<times> u32 option \<times> ksec" where
  "cap_revoke cs cap k =
     (let (r, k) = verify_require (cs \<noteq> None) k in if r \<noteq> 0 then (-1, cs, k) else
      let (r, k) = verify_require (cap_valid cap) k in if r \<noteq> 0 then (-1, cs, k) else
      (0, map_option (\<lambda>x. x AND NOT cap) cs, k))"

definition cap_drop_all :: "u32 option \<Rightarrow> ksec \<Rightarrow> int \<times> u32 option \<times> ksec" where
  "cap_drop_all cs k =
     (let (r, k) = verify_require (cs \<noteq> None) k in if r \<noteq> 0 then (-1, cs, k) else
      (0, map_option (\<lambda>_. 0) cs, k))"

definition cap_is_subset :: "u32 \<Rightarrow> u32 \<Rightarrow> bool" where
  "cap_is_subset a b \<longleftrightarrow> a AND NOT b = 0"

definition cap_allow_only :: "u32 \<Rightarrow> u32 \<Rightarrow> u32" where
  "cap_allow_only cur want =
     (if want AND NOT CAP_VALID_MASK \<noteq> 0 then cur else if \<not> cap_is_subset want cur then cur else want)"

definition cap_audit :: "u32 \<Rightarrow> u32 \<Rightarrow> ksec \<Rightarrow> ksec" where
  "cap_audit cap granted k =
     k\<lparr>audit_ring := (audit_ring k)(unat (audit_pos k) mod CAP_AUDIT_LEN := (cap, if granted \<noteq> 0 then 1 else 0)),
       audit_pos := audit_pos k + 1\<rparr>"

definition cap_audit_read :: "u32 \<Rightarrow> ksec \<Rightarrow> (u32 \<times> u32) option" where
  "cap_audit_read idx k =
     (if unat idx \<ge> CAP_AUDIT_LEN \<or> idx \<ge> audit_pos k then None
      else Some (audit_ring k (unat (audit_pos k - 1 - idx) mod CAP_AUDIT_LEN)))"

section \<open>The system call filter\<close>

definition sb_lockdown :: "nat \<Rightarrow> u32" where
  "sb_lockdown = (\<lambda>_. 0)"

definition sb_bit :: "u32 \<Rightarrow> u32" where
  "sb_bit nr = push_bit (unat nr mod 32) 1"

definition sb_allow :: "(nat \<Rightarrow> u32) option \<Rightarrow> u32 \<Rightarrow> ksec \<Rightarrow> int \<times> (nat \<Rightarrow> u32) option \<times> ksec" where
  "sb_allow msk nr k =
     (let (r, k) = verify_require (msk \<noteq> None) k in if r \<noteq> 0 then (-1, msk, k) else
      let (r, k) = verify_require (nr < SB_MAX_NR) k in if r \<noteq> 0 then (-1, msk, k) else
      (0, map_option (\<lambda>m. m(unat nr div 32 := m (unat nr div 32) OR sb_bit nr)) msk, k))"

definition sb_deny :: "(nat \<Rightarrow> u32) option \<Rightarrow> u32 \<Rightarrow> ksec \<Rightarrow> int \<times> (nat \<Rightarrow> u32) option \<times> ksec" where
  "sb_deny msk nr k =
     (let (r, k) = verify_require (msk \<noteq> None) k in if r \<noteq> 0 then (-1, msk, k) else
      let (r, k) = verify_require (nr < SB_MAX_NR) k in if r \<noteq> 0 then (-1, msk, k) else
      (0, map_option (\<lambda>m. m(unat nr div 32 := m (unat nr div 32) AND NOT (sb_bit nr))) msk, k))"

definition sb_check :: "(nat \<Rightarrow> u32) option \<Rightarrow> u32 \<Rightarrow> bool" where
  "sb_check msk nr =
     (case msk of None \<Rightarrow> False
      | Some m \<Rightarrow> if nr \<ge> SB_MAX_NR then False else m (unat nr div 32) AND sb_bit nr \<noteq> 0)"

section \<open>Tokens\<close>

definition auth_init :: "ksec \<Rightarrow> ksec" where
  "auth_init k = k\<lparr>auth_active := True\<rparr>"

definition auth_token_gen :: "string option \<Rightarrow> u32 \<Rightarrow> ksec \<Rightarrow> u32 \<times> ksec" where
  "auth_token_gen name seed k =
     (let tok = seed XOR 0x8C7A; (r, k) = verify_require (name \<noteq> None) k in
      if r \<noteq> 0 then (0, k)
      else let tok = tok XOR of_nat (length (the name)) in (push_bit 3 tok OR drop_bit 29 tok, k))"

definition auth_check :: "string option \<Rightarrow> u32 \<Rightarrow> ksec \<Rightarrow> int \<times> ksec" where
  "auth_check name token k =
     (let (r, k) = verify_require (auth_active k) k in if r \<noteq> 0 then (-1, k) else
      let (r, k) = verify_require (name \<noteq> None) k in if r \<noteq> 0 then (-1, k) else
      let (exp, k) = auth_token_gen name 0xDEADBEEF k; match = (if token = exp then 1 else 0)
      in (if match = 1 then 0 else -1, cap_audit CAP_SETUID match k))"

section \<open>Credential calls\<close>

text \<open>\<open>(int)x\<close> is \<open>sint x\<close>, and \<open>(uint32_t)i\<close> is \<open>of_int i\<close>; \<open>(uint32_t)-1\<close> is \<open>- 1\<close>.\<close>

definition sys_setuid :: "u32 \<Rightarrow> task option \<Rightarrow> ksec \<Rightarrow> u32 \<times> task option \<times> ksec" where
  "sys_setuid u ct k =
     (case ct of None \<Rightarrow> (- 1, None, k) | Some t \<Rightarrow>
      if sint u = uid t then (of_int (uid t), Some t, k)
      else if \<not> cap_has (caps t) CAP_SETUID then (- 1, Some t, cap_audit CAP_SETUID 0 k)
      else let was_root = (uid t = 0); t1 = t\<lparr>uid := sint u\<rparr>;
               (t2, k2) = (if was_root \<and> uid t1 \<noteq> 0
                  then (let (_, c, k') = cap_drop_all (Some (caps t1)) k in (t1\<lparr>caps := the c\<rparr>, k'))
                  else (t1, k))
           in (of_int (uid t2), Some t2, cap_audit CAP_SETUID 1 k2))"

definition sys_setgid :: "u32 \<Rightarrow> task option \<Rightarrow> ksec \<Rightarrow> u32 \<times> task option \<times> ksec" where
  "sys_setgid g ct k =
     (case ct of None \<Rightarrow> (- 1, None, k) | Some t \<Rightarrow>
      if sint g = gid t then (of_int (gid t), Some t, k)
      else if \<not> cap_has (caps t) CAP_SETGID then (- 1, Some t, cap_audit CAP_SETGID 0 k)
      else (g, Some (t\<lparr>gid := sint g\<rparr>), cap_audit CAP_SETGID 1 k))"

text \<open>\<open>buf_ok\<close>: the checks of the user buffer and the copy succeed; \<open>kg\<close>: the ids it holds.\<close>

definition sys_setgroups :: "u32 \<Rightarrow> u32 \<Rightarrow> bool \<Rightarrow> (nat \<Rightarrow> int) \<Rightarrow> task option \<Rightarrow> u32 \<times> task option" where
  "sys_setgroups ubuf usize buf_ok kg ct =
     (case ct of None \<Rightarrow> (- 1, None) | Some t \<Rightarrow>
      if \<not> cap_has (caps t) CAP_SETGID then (- 1, Some t)
      else if ubuf = 0 \<or> usize = 0 then (0, Some (t\<lparr>ngroups := 0\<rparr>))
      else if usize > of_nat TASK_NGROUPS * 4 then (- 1, Some t)
      else if \<not> buf_ok then (- 1, Some t)
      else let cnt = unat usize div 4 in
        (0, Some (t\<lparr>groups := (\<lambda>i. if i < cnt then kg i else groups t i), ngroups := int cnt\<rparr>)))"

definition sys_getgroups :: "u32 \<Rightarrow> u32 \<Rightarrow> bool \<Rightarrow> task option \<Rightarrow> u32" where
  "sys_getgroups ubuf usize buf_ok ct =
     (case ct of None \<Rightarrow> 0 | Some t \<Rightarrow>
      if ubuf = 0 then of_int (ngroups t * 4)
      else if ngroups t \<le> 0 then 0
      else let nb = min 128 (min usize (of_int (ngroups t) * 4)) in if buf_ok then nb else - 1)"

definition sys_capget :: "u32 \<Rightarrow> task option \<Rightarrow> psys \<Rightarrow> u32" where
  "sys_capget p ct s =
     (case ct of None \<Rightarrow> 0 | Some t \<Rightarrow>
      if p \<noteq> 0 then (case find (\<lambda>x. pid (tk s x) = sint p) (plist s) of None \<Rightarrow> - 1 | Some x \<Rightarrow> caps (tk s x))
      else caps t)"

definition sys_capset :: "u32 \<Rightarrow> task option \<Rightarrow> ksec \<Rightarrow> u32 \<times> task option \<times> ksec" where
  "sys_capset c ct k =
     (case ct of None \<Rightarrow> (- 1, None, k) | Some t \<Rightarrow>
      if uid t = 0
      then (if c AND NOT CAP_VALID_MASK \<noteq> 0 then (- 1, Some t, k) else (c, Some (t\<lparr>caps := c\<rparr>), cap_audit c 1 k))
      else let n = cap_allow_only (caps t) c in
        if n \<noteq> c then (- 1, Some t, cap_audit c 0 k)
        else (n, Some (t\<lparr>caps := n\<rparr>), cap_audit c 1 k))"

definition sys_sb_allow :: "u32 \<Rightarrow> task option \<Rightarrow> ksec \<Rightarrow> u32 \<times> task option \<times> ksec" where
  "sys_sb_allow nr ct k =
     (case ct of None \<Rightarrow> (- 1, None, k) | Some t \<Rightarrow>
      let (r, m, k') = sb_allow (Some (sb_mask t)) nr k in (of_int r, Some (t\<lparr>sb_mask := the m\<rparr>), k'))"

definition sys_sb_deny :: "u32 \<Rightarrow> task option \<Rightarrow> ksec \<Rightarrow> u32 \<times> task option \<times> ksec" where
  "sys_sb_deny nr ct k =
     (case ct of None \<Rightarrow> (- 1, None, k) | Some t \<Rightarrow>
      let (r, m, k') = sb_deny (Some (sb_mask t)) nr k in (of_int r, Some (t\<lparr>sb_mask := the m\<rparr>), k'))"

definition sys_sb_on :: "task option \<Rightarrow> u32 \<times> task option" where
  "sys_sb_on ct = (case ct of None \<Rightarrow> (- 1, None) | Some t \<Rightarrow> (0, Some (t\<lparr>sb_on := True\<rparr>)))"

definition sys_capaudit :: "u32 \<Rightarrow> task option \<Rightarrow> ksec \<Rightarrow> u32" where
  "sys_capaudit idx ct k =
     (case ct of None \<Rightarrow> - 1 | Some _ \<Rightarrow>
      (case cap_audit_read idx k of None \<Rightarrow> - 1 | Some (_, granted) \<Rightarrow> if granted \<noteq> 0 then 1 else 0))"

definition sys_auth :: "u32 \<Rightarrow> ksec \<Rightarrow> u32 \<times> ksec" where
  "sys_auth token k = (let (_, k) = auth_token_gen (Some ''host'') 0xDEADBEEF k;
     (r, k) = auth_check (Some ''host'') token k in (of_int r, k))"

text \<open>\<open>sys_kill\<close>: a task that is not root may signal the first task of that pid if it has the same uid.\<close>

definition kill_allowed :: "int \<Rightarrow> tid option \<Rightarrow> psys \<Rightarrow> bool" where
  "kill_allowed p me s =
     (case me of None \<Rightarrow> True | Some c \<Rightarrow>
      if uid (tk s c) = 0 then True
      else let found = (case find (\<lambda>x. pid (tk s x) = p) (plist s) of None \<Rightarrow> -1 | Some x \<Rightarrow> uid (tk s x))
           in \<not> (found < 0 \<or> found \<noteq> uid (tk s c)))"

definition sys_kill :: "u32 \<Rightarrow> u32 \<Rightarrow> tid \<Rightarrow> psys \<Rightarrow> u32 \<times> psys" where
  "sys_kill p sig me s =
     (if kill_allowed (sint p) (Some me) s then (0, snd (signal_send (sint p) (sint sig) me s)) else (- 1, s))"

text \<open>\<open>sys_nice\<close>; the addition is assumed not to overflow an \<open>int\<close>.\<close>

definition sys_nice :: "u32 \<Rightarrow> task option \<Rightarrow> u32 \<times> task option" where
  "sys_nice inc ct =
     (case ct of None \<Rightarrow> (- 1, None) | Some t \<Rightarrow>
      let p = priority t + sint inc; p = (if p < 1 then 1 else p); p = (if p > 3 then 3 else p)
      in (of_int p, Some (t\<lparr>priority := p, ticks_left := (p + 1) * 5\<rparr>)))"

section \<open>The gate\<close>

text \<open>What \<open>syscall_handler\<close> does before the handler runs: \<open>known nr\<close> says that the table has an entry.\<close>

datatype gate = Refused | Dispatch

definition syscall_gate :: "(u32 \<Rightarrow> bool) \<Rightarrow> u32 \<Rightarrow> task option \<Rightarrow> gate" where
  "syscall_gate known nr ct =
     (if nr \<ge> 256 \<or> \<not> known nr then Refused
      else case ct of None \<Rightarrow> Dispatch
        | Some t \<Rightarrow> if sb_on t \<and> \<not> sb_check (Some (sb_mask t)) nr then Refused else Dispatch)"

section \<open>Capability sets as sets of bits\<close>

lemma nat_single_bit: "\<lbrakk>(m :: nat) AND (m - 1) = 0; m > 0\<rbrakk> \<Longrightarrow> \<exists>n. m = 2 ^ n"
proof (induction m rule: less_induct)
  case (less m)
  show ?case
  proof (cases "even m")
    case True
    then obtain k where k: "m = 2 * k" by blast
    then have "k > 0" using less.prems by simp
    have m1: "m - 1 = Suc (2 * (k - 1))" using k \<open>k > 0\<close> by simp
    then have "(m - 1) div 2 = k - 1" "m div 2 = k" using k by simp_all
    then have "m AND (m - 1) = 2 * (k AND (k - 1))"
      by (subst and_rec) (simp add: k)
    then have "k AND (k - 1) = 0" using less.prems by simp
    then obtain n where "k = 2 ^ n" using less.IH [of k] k \<open>k > 0\<close> by auto
    then show ?thesis using k by (auto intro: exI [of _ "Suc n"])
  next
    case False
    then obtain k where k: "m = 2 * k + 1" by (auto elim: oddE)
    have "m AND (m - 1) = 2 * (k AND k)"
      by (subst and_rec) (simp add: k)
    then have "k = 0" using less.prems by simp
    then show ?thesis using k by (auto intro: exI [of _ 0])
  qed
qed

lemma bit_pow2: "n < 32 \<Longrightarrow> bit ((2 :: u32) ^ n) m = (n = m)"
  by (auto simp: bit_exp_iff possible_bit_def)

lemma and_pow2: "n < 32 \<Longrightarrow> ((x :: u32) AND 2 ^ n \<noteq> 0) = bit x n"
proof -
  assume n: "n < 32"
  have "x AND 2 ^ n = (if bit x n then 2 ^ n else 0)"
    by (rule bit_word_eqI) (auto simp: bit_and_iff bit_pow2 n)
  moreover have "(2 :: u32) ^ n \<noteq> 0" using bit_pow2 [OF n, of n] by (metis bit_0_eq bot_apply bot_bool_def)
  ultimately show ?thesis by simp
qed

lemma cap_validD:
  assumes "cap_valid c"
  obtains n where "n < 13" "c = 2 ^ n"
proof -
  have c: "c \<noteq> 0" "c AND NOT 0x1FFF = 0" "c AND (c - 1) = 0"
    using assms by (auto simp: cap_valid_def split: if_splits)
  have "unat (c - 1) = unat c - 1" using c(1) by (simp add: unat_minus_one)
  then have "unat c AND (unat c - 1) = 0" using c(3) by (metis unsigned_0 unsigned_and_eq)
  moreover have "unat c > 0" using c(1) by (simp add: unat_gt_0)
  ultimately obtain n where n: "unat c = 2 ^ n" using nat_single_bit by blast
  have "(2 :: nat) ^ n < 2 ^ 32" using u32_less [of c] unfolding n .
  then have n32: "n < 32" by (rule power_less_imp_less_exp [rotated]) simp
  have "of_nat (unat c) = (of_nat (2 ^ n) :: u32)" using n by simp
  then have e: "c = 2 ^ n" by simp
  have "\<not> bit (c AND NOT 0x1FFF) n" using c(2) by simp
  moreover have "(0x1FFF :: u32) = mask 13" by (simp add: mask_eq_exp_minus_1)
  ultimately have "n < 13" using n32 by (simp add: e bit_and_iff bit_not_iff bit_mask_iff bit_pow2)
  then show ?thesis using that e by blast
qed

lemma cap_has_bit: "n < 13 \<Longrightarrow> cap_valid (2 ^ n) \<Longrightarrow> cap_has x (2 ^ n) = bit x n"
  using and_pow2 [of n x] by (simp add: cap_has_def)

text \<open>Granting and revoking a valid capability changes exactly that capability, for every query; an invalid one (no
  bit, several bits, a bit outside the 13 defined) is refused, changes no set, and is never held.\<close>

theorem cap_set_algebra:
  shows "(case cap_grant (Some cs) c k of (r, cs', _) \<Rightarrow>
      r = (if cap_valid c then 0 else -1) \<and> cap_has (the cs') d = (cap_has cs d \<or> cap_valid c \<and> c = d)) \<and>
    (case cap_revoke (Some cs) c k of (r, cs', _) \<Rightarrow>
      r = (if cap_valid c then 0 else -1) \<and> cap_has (the cs') d = (cap_has cs d \<and> \<not> (cap_valid c \<and> c = d)))"
proof (cases "cap_valid c \<and> cap_valid d")
  case True
  then obtain n m where n: "n < 13" "c = 2 ^ n" and m: "m < 13" "d = 2 ^ m"
    by (meson cap_validD)
  have v: "cap_valid (2 ^ n)" "cap_valid (2 ^ m)" using True n m by auto
  have eq: "((2 :: u32) ^ n = 2 ^ m) = (n = m)"
    using bit_pow2 [of n m] bit_pow2 [of m m] n(1) m(1) by auto
  have "bit (cs OR 2 ^ n) m = (bit cs m \<or> n = m)" "bit (cs AND NOT (2 ^ n)) m = (bit cs m \<and> n \<noteq> m)"
    using n(1) m(1) by (auto simp: bit_or_iff bit_and_iff bit_not_iff bit_pow2)
  then show ?thesis
    using v n(1) m(1) by (simp add: cap_grant_def cap_revoke_def verify_require_def n(2) m(2) cap_has_bit eq)
next
  case False
  then show ?thesis by (auto simp: cap_grant_def cap_revoke_def verify_require_def cap_has_def)
qed

section \<open>The filter\<close>

lemma sb_check_bit: "nr < 256 \<Longrightarrow> sb_check (Some m) nr = bit (m (unat nr div 32)) (unat nr mod 32)"
  using and_pow2 [of "unat nr mod 32" "m (unat nr div 32)"] by (auto simp: sb_check_def sb_bit_def)

lemma sb_allow_check:
  assumes "nr < 256"
  shows "sb_check (fst (snd (sb_allow (Some m) nr k))) x = (sb_check (Some m) x \<or> x = nr)"
    "sb_check (fst (snd (sb_deny (Some m) nr k))) x = (sb_check (Some m) x \<and> x \<noteq> nr)"
proof -
  have a: "fst (snd (sb_allow (Some m) nr k)) = Some (m(unat nr div 32 := m (unat nr div 32) OR 2 ^ (unat nr mod 32)))"
    "fst (snd (sb_deny (Some m) nr k)) = Some (m(unat nr div 32 := m (unat nr div 32) AND NOT (2 ^ (unat nr mod 32))))"
    using assms by (simp_all add: sb_allow_def sb_deny_def verify_require_def sb_bit_def)
  have eq: "x = nr \<longleftrightarrow> unat x div 32 = unat nr div 32 \<and> unat x mod 32 = unat nr mod 32"
    by (metis div_mult_mod_eq word_unat_eq_iff)
  show "sb_check (fst (snd (sb_allow (Some m) nr k))) x = (sb_check (Some m) x \<or> x = nr)"
    "sb_check (fst (snd (sb_deny (Some m) nr k))) x = (sb_check (Some m) x \<and> x \<noteq> nr)"
  proof -
    have b: "bit ((2 :: u32) ^ (unat nr mod 32)) (unat x mod 32) = (unat nr mod 32 = unat x mod 32)" by (rule bit_pow2) simp
    have out: "\<not> sb_check (Some m') x" if "\<not> x < 256" for m' using that by (simp add: sb_check_def not_less)
    show "sb_check (fst (snd (sb_allow (Some m) nr k))) x = (sb_check (Some m) x \<or> x = nr)"
    proof (cases "x < 256")
      case True
      then show ?thesis unfolding a eq sb_check_bit [OF True] by (auto simp: bit_or_iff b)
    qed (use assms in \<open>auto simp: a out\<close>)
    show "sb_check (fst (snd (sb_deny (Some m) nr k))) x = (sb_check (Some m) x \<and> x \<noteq> nr)"
    proof (cases "x < 256")
      case True
      then show ?thesis unfolding a eq sb_check_bit [OF True] by (auto simp: bit_and_iff bit_not_iff b)
    qed (simp add: a out)
  qed
qed

section \<open>The audit ring keeps the last sixteen decisions\<close>

definition audits :: "(u32 \<times> u32) list \<Rightarrow> ksec \<Rightarrow> ksec" where
  "audits xs k = fold (\<lambda>(c, g). cap_audit c g) xs k"

lemma audits_snoc: "audits (xs @ [x]) k = cap_audit (fst x) (snd x) (audits xs k)"
  by (simp add: audits_def split_beta)

lemma audits_ring:
  assumes "audit_pos k = 0" "length xs < 2 ^ 32"
  shows "audit_pos (audits xs k) = of_nat (length xs) \<and>
    (\<forall>i < length xs. length xs \<le> i + 16 \<longrightarrow>
       audit_ring (audits xs k) (i mod 16) = (fst (xs ! i), if snd (xs ! i) \<noteq> 0 then 1 else 0))"
  using assms
proof (induction xs rule: rev_induct)
  case Nil
  then show ?case by (simp add: audits_def)
next
  case (snoc x xs)
  then have IH: "audit_pos (audits xs k) = of_nat (length xs)"
    "\<And>i. \<lbrakk>i < length xs; length xs \<le> i + 16\<rbrakk> \<Longrightarrow>
       audit_ring (audits xs k) (i mod 16) = (fst (xs ! i), if snd (xs ! i) \<noteq> 0 then 1 else 0)" by simp_all
  have u: "unat (of_nat (length xs) :: u32) = length xs" using snoc.prems by (intro unat_of_nat_u32) simp
  have "audit_ring (audits (xs @ [x]) k) (i mod 16) = (fst ((xs @ [x]) ! i), if snd ((xs @ [x]) ! i) \<noteq> 0 then 1 else 0)"
    if i: "i < Suc (length xs)" "Suc (length xs) \<le> i + 16" for i
  proof (cases "i = length xs")
    case True
    then show ?thesis by (simp add: audits_snoc cap_audit_def IH(1) u)
  next
    case False
    then have lt: "i < length xs" using i(1) by simp
    have "i mod 16 \<noteq> length xs mod 16"
    proof
      assume "i mod 16 = length xs mod 16"
      then have "16 dvd length xs - i" using lt by (metis mod_eq_dvd_iff_nat less_imp_le)
      then show False using lt i(2) by (auto dest: dvd_imp_le)
    qed
    then show ?thesis using IH(2) [OF lt] i(2) lt by (simp add: audits_snoc cap_audit_def IH(1) u nth_append)
  qed
  then show ?case by (simp add: audits_snoc cap_audit_def IH(1))
qed

text \<open>The audit ring is a window on the history of decisions: index \<open>i\<close> reads the \<open>i\<close>-th newest decision, for the newest
  sixteen, and nothing beyond the history or the window.\<close>

theorem audit_ring_history:
  assumes "audit_pos k = 0" "length xs < 2 ^ 32"
  shows "cap_audit_read idx (audits xs k) =
    (if unat idx < min 16 (length xs)
     then Some (fst (rev xs ! unat idx), if snd (rev xs ! unat idx) \<noteq> 0 then 1 else 0) else None)"
proof -
  note r = audits_ring [OF assms]
  have u: "unat (of_nat (length xs) :: u32) = length xs" using assms(2) by (rule unat_of_nat_u32)
  show ?thesis
  proof (cases "unat idx < min 16 (length xs)")
    case True
    then have one: "1 \<le> (of_nat (length xs) :: u32)" using u by (simp add: word_le_nat_alt)
    then have "unat ((of_nat (length xs) :: u32) - 1) = length xs - 1" using u by (simp add: unat_sub)
    then have le: "1 \<le> (of_nat (length xs) :: u32)" "idx \<le> of_nat (length xs) - 1"
      using True one by (simp_all add: word_le_nat_alt) linarith
    have "unat (of_nat (length xs) - 1 - idx) = length xs - 1 - unat idx"
      using le u by (simp add: unat_sub)
    moreover have "audit_ring (audits xs k) ((length xs - 1 - unat idx) mod 16) =
        (fst (xs ! (length xs - 1 - unat idx)), if snd (xs ! (length xs - 1 - unat idx)) \<noteq> 0 then 1 else 0)"
    proof -
      let ?i = "length xs - 1 - unat idx"
      have "?i < length xs" "length xs \<le> ?i + 16" using True by auto
      then show ?thesis using r by blast
    qed
    moreover have "idx < of_nat (length xs)" using True u by (simp add: word_less_nat_alt)
    ultimately show ?thesis using True conjunct1 [OF r] by (simp add: cap_audit_read_def rev_nth not_le)
  next
    case False
    then show ?thesis using r u by (auto simp: cap_audit_read_def word_le_nat_alt min_def split: if_splits)
  qed
qed

definition ksec0 :: ksec where
  "ksec0 = \<lparr>audit_ring = (\<lambda>_. (0, 0)), audit_pos = 0, vfail = 0, auth_active = False\<rparr>"

theorem audit_ring_history_witness:
  "cap_audit_read 0 (audits [(0x80, 0), (0x40, 5)] ksec0) = Some (0x40, 1)"
  using audit_ring_history [of ksec0 "[(0x80, 0), (0x40, 5)]" 0] by (simp add: ksec0_def)

section \<open>Privileges only shrink\<close>

text \<open>The calls by which a task changes its own credentials and filter, and their numbers.\<close>

datatype cred_call = CallSetuid u32 | CallSetgid u32 | CallSetgroups u32 u32 bool "nat \<Rightarrow> int" | CallCapset u32
  | CallSbAllow u32 | CallSbDeny u32 | CallSbOn | CallNice u32

fun call_nr :: "cred_call \<Rightarrow> u32" where
  "call_nr (CallSetuid _) = 141" | "call_nr (CallSetgid _) = 143" | "call_nr (CallSetgroups _ _ _ _) = 160"
| "call_nr (CallCapset _) = 162" | "call_nr (CallSbAllow _) = 163" | "call_nr (CallSbDeny _) = 164"
| "call_nr CallSbOn = 165" | "call_nr (CallNice _) = 24"

definition keep :: "u32 \<times> task option \<times> ksec \<Rightarrow> task \<times> ksec" where
  "keep r = (the (fst (snd r)), snd (snd r))"

fun cred_exec :: "cred_call \<Rightarrow> task \<times> ksec \<Rightarrow> task \<times> ksec" where
  "cred_exec (CallSetuid u) (t, k) = keep (sys_setuid u (Some t) k)"
| "cred_exec (CallSetgid g) (t, k) = keep (sys_setgid g (Some t) k)"
| "cred_exec (CallSetgroups b n ok kg) (t, k) = (the (snd (sys_setgroups b n ok kg (Some t))), k)"
| "cred_exec (CallCapset c) (t, k) = keep (sys_capset c (Some t) k)"
| "cred_exec (CallSbAllow n) (t, k) = keep (sys_sb_allow n (Some t) k)"
| "cred_exec (CallSbDeny n) (t, k) = keep (sys_sb_deny n (Some t) k)"
| "cred_exec CallSbOn (t, k) = (the (snd (sys_sb_on (Some t))), k)"
| "cred_exec (CallNice n) (t, k) = (the (snd (sys_nice n (Some t))), k)"

text \<open>A call reaches its handler only through the gate.\<close>

definition gated :: "cred_call \<Rightarrow> task \<times> ksec \<Rightarrow> task \<times> ksec" where
  "gated c s = (if syscall_gate (\<lambda>_. True) (call_nr c) (Some (fst s)) = Dispatch then cred_exec c s else s)"

lemma cap_is_subset_bit: "cap_is_subset a b = (\<forall>n<32. bit a n \<longrightarrow> bit b n)"
proof
  assume "cap_is_subset a b"
  then have "\<not> bit (a AND NOT b) n" for n by (simp add: cap_is_subset_def)
  then show "\<forall>n<32. bit a n \<longrightarrow> bit b n" by (simp add: bit_and_iff bit_not_iff)
next
  assume "\<forall>n<32. bit a n \<longrightarrow> bit b n"
  then have "a AND NOT b = 0" by (intro bit_word_eqI) (auto simp: bit_and_iff bit_not_iff)
  then show "cap_is_subset a b" by (simp add: cap_is_subset_def)
qed

lemma cap_has_setid: "cap_has x CAP_SETUID = bit x 7" "cap_has x CAP_SETGID = bit x 6"
proof -
  have "cap_valid CAP_SETUID" "cap_valid CAP_SETGID" by code_simp+
  then show "cap_has x CAP_SETUID = bit x 7" "cap_has x CAP_SETGID = bit x 6"
    using and_pow2 [of 7 x] and_pow2 [of 6 x] by (simp_all add: cap_has_def)
qed

lemma cap_allow_only_subset: "cap_allow_only cur want = want \<Longrightarrow> cap_is_subset want cur"
  by (auto simp: cap_allow_only_def cap_is_subset_def split: if_splits)

definition weaker :: "task \<Rightarrow> task \<Rightarrow> bool" where
  "weaker t t' \<longleftrightarrow> uid t' = uid t \<and> cap_is_subset (caps t') (caps t)
     \<and> (\<not> cap_has (caps t) CAP_SETGID \<longrightarrow> gid t' = gid t \<and> groups t' = groups t)"

lemma weaker_step:
  assumes "uid t \<noteq> 0" "\<not> cap_has (caps t) CAP_SETUID"
  shows "weaker t (fst (cred_exec c (t, k)))"
proof -
  have refl: "cap_is_subset x x" for x by (simp add: cap_is_subset_def)
  show ?thesis
    using assms refl cap_allow_only_subset [of "caps t"]
    by (cases c) (auto simp: weaker_def keep_def sys_setuid_def sys_setgid_def sys_setgroups_def sys_capset_def
        sys_sb_allow_def sys_sb_deny_def sys_sb_on_def sys_nice_def Let_def split_beta)
qed

lemma weaker_trans: "\<lbrakk>weaker t u; weaker u v\<rbrakk> \<Longrightarrow> weaker t v"
  unfolding weaker_def cap_has_setid cap_is_subset_bit by auto



text \<open>C21.  A task whose filter is on and denies the call that relaxes filters (163) is confined for good: whatever
  credential and filter calls it makes through the gate, a call denied at the start stays refused.\<close>

theorem sandbox_tightens:
  assumes "sb_on t" "\<not> sb_check (Some (sb_mask t)) 163" "\<not> sb_check (Some (sb_mask t)) nr"
  shows "syscall_gate known nr (Some (fst (fold gated calls (t, k)))) = Refused"
proof -
  have "sb_on (fst (fold gated calls (t, k))) \<and> \<not> sb_check (Some (sb_mask (fst (fold gated calls (t, k))))) nr"
    using assms
  proof (induction calls arbitrary: t k)
    case (Cons c calls)
    obtain u k' where u: "gated c (t, k) = (u, k')" by fastforce
    have m: "sb_on u \<and> (\<forall>n. sb_check (Some (sb_mask u)) n \<longrightarrow> sb_check (Some (sb_mask t)) n)"
    proof (cases c)
      case (CallSbAllow n)
      then show ?thesis using u Cons.prems by (simp add: gated_def syscall_gate_def)
    next
      case (CallSbDeny n)
      have "sb_check (fst (snd (sb_deny (Some (sb_mask t)) n k))) x \<longrightarrow> sb_check (Some (sb_mask t)) x" for x
        using sb_allow_check(2) [of n "sb_mask t" k x]
        by (cases "n < 256") (auto simp: sb_deny_def verify_require_def)
      moreover have "\<exists>m'. fst (snd (sb_deny (Some (sb_mask t)) n k)) = Some m'"
        by (simp add: sb_deny_def verify_require_def)
      ultimately show ?thesis using u Cons.prems CallSbDeny
        by (auto simp: gated_def keep_def sys_sb_deny_def split_beta Let_def split: if_splits)
    qed (use u Cons.prems in \<open>auto simp: gated_def keep_def sys_setuid_def sys_setgid_def sys_setgroups_def sys_capset_def
        sys_sb_on_def sys_nice_def Let_def split_beta split: if_splits\<close>)
    then have "sb_on u" "\<not> sb_check (Some (sb_mask u)) 163" "\<not> sb_check (Some (sb_mask u)) nr"
      using Cons.prems by blast+
    from Cons.IH [OF this, of k'] show ?case by (simp add: u)
  qed simp
  then show ?thesis by (simp add: syscall_gate_def)
qed

theorem sandbox_tightens_witness:
  "syscall_gate (\<lambda>_. True) 12 (Some (fst (fold gated [CallSbAllow 12] (task_zero\<lparr>sb_on := True\<rparr>, ksec0)))) = Refused"
  by (rule sandbox_tightens) (simp_all add: sb_check_def task_zero_def)

section \<open>Where privileges leak\<close>

lemma only_wakes_copy_entry: "only_wakes f (copy_entry d src i f)"
proof -
  have "only_wakes g (dup_pipe p w g)" for p w g by (simp add: only_wakes_def dup_pipe_def split: option.split)
  then show ?thesis unfolding copy_entry_def Let_def
    by (auto intro: only_wakes_trans [OF only_wakes_slot] only_wakes_ref_inode only_wakes_slot)
qed

lemma fd_table_copy_core: "core (ktasks (fd_table_copy d src f) t) = core (ktasks f t)"
  using only_wakes_fold [of "copy_entry d src" f "[0..<TASK_NFD]", OF only_wakes_copy_entry] by (simp add: fd_table_copy_def only_wakes_def)

lemma core_creds:
  assumes "core x = core y"
  shows "caps x = caps y" "sb_on x = sb_on y" "groups x = groups y" "ngroups x = ngroups y"
  using arg_cong [OF assms, of caps] arg_cong [OF assms, of sb_on] arg_cong [OF assms, of groups]
    arg_cong [OF assms, of ngroups] by (simp_all add: core_def)

lemma prepared_child:
  assumes "task_prepare nm al ok s = (Some c, s1)"
  shows "caps (tk s1 c) = CAP_ALL" "\<not> sb_on (tk s1 c)" "ngroups (tk s1 c) = 0" "groups (tk s1 c) = (\<lambda>_. 0)"
  using assms
  by (auto simp: task_prepare_def new_task_def list_append_def fd_table_init_def task_zero_def Let_def split: option.splits if_splits)

text \<open>A thread starts with every capability and no filter, whatever its creator had.\<close>

theorem clone_resets_privileges:
  assumes "task_clone_thread me al ok entry stack s = (Some c, s')"
  shows "caps (tk s' c) = CAP_ALL \<and> \<not> sb_on (tk s' c)"
proof -
  obtain r s1 where p: "task_prepare ''thread'' al ok s = (r, s1)" by fastforce
  then have "r = Some c" "s' = upd_task c (clone_fields (tk s1 me) entry stack) (on_fs (fd_table_copy c me) s1)"
    using assms by (auto simp: task_clone_thread_def split: if_splits option.splits)
  then show ?thesis
    using prepared_child [of _ al ok s c s1] p core_creds [OF fd_table_copy_core, of c me "pfs s1" c]
    by (simp add: clone_fields_def on_fs_def)
qed

text \<open>A forked child keeps its parent's capabilities and filter, but not its supplementary groups.\<close>

theorem fork_loses_groups:
  assumes "fork_task me al ok space eip esp ef s = (Some c, s')"
  shows "ngroups (tk s' c) = 0 \<and> groups (tk s' c) = (\<lambda>_. 0)"
proof -
  obtain r s1 where p: "task_prepare ''fork_child'' al ok s = (r, s1)" by fastforce
  then have "r = Some c" "s' = upd_task c (fork_fields (tk s1 me) space eip esp ef) (on_fs (fd_table_copy c me) s1)"
    using assms by (auto simp: fork_task_def split: if_splits option.splits)
  then show ?thesis
    using prepared_child [of _ al ok s c s1] p core_creds [OF fd_table_copy_core, of c me "pfs s1" c]
    by (simp add: fork_fields_def on_fs_def)
qed

text \<open>The group test looks at all eight slots and not at \<open>ngroups\<close>: dropping the groups does not drop the rights, and a
  task that never had any (all slots 0) counts as a member of group 0.\<close>

theorem groups_survive_drop:
  assumes "cap_has (caps t) CAP_SETGID"
  shows "sys_setgroups 0 0 ok kg (Some t) = (0, Some (t\<lparr>ngroups := 0\<rparr>)) \<and>
    fs_can (Some (t\<lparr>ngroups := 0\<rparr>)) u g n req = fs_can (Some t) u g n req"
  using assms by (simp add: sys_setgroups_def fs_can_def)

theorem no_groups_is_group_zero:
  "fs_can (Some (task_zero\<lparr>uid := 5, gid := 5\<rparr>)) 5 5 (inode_zero\<lparr>iuid := 0, igid := 0, imode := 0x1B0\<rparr>) PERM_W"
  by code_simp

text \<open>Without the confining denial of call 163, the filter is undone by the task itself.\<close>

theorem sandbox_undone:
  assumes "sb_check (Some (sb_mask t)) 163" "nr < 256"
  shows "syscall_gate (\<lambda>_. True) nr (Some (fst (gated (CallSbAllow nr) (t, k)))) = Dispatch"
proof -
  have "fst (snd (sb_allow (Some (sb_mask t)) nr k)) = Some (the (fst (snd (sb_allow (Some (sb_mask t)) nr k))))"
    by (simp add: sb_allow_def verify_require_def)
  then have "sb_check (Some (the (fst (snd (sb_allow (Some (sb_mask t)) nr k))))) nr"
    using sb_allow_check(1) [OF assms(2), of "sb_mask t" k nr] by simp
  then show ?thesis using assms
    by (simp add: gated_def syscall_gate_def keep_def sys_sb_allow_def split_beta Let_def not_le)
qed

text \<open>After \<open>2 ^ 32\<close> decisions the position wraps to 0 and the ring reads as empty.\<close>

lemma audit_position_wraps:
  "audit_pos k = 0xFFFFFFFF \<Longrightarrow> cap_audit_read 0 (cap_audit c g k) = None"
  by (simp add: cap_audit_def cap_audit_read_def)

end
