(* ===== verification/Sched.thy ===== *)
theory Sched
  imports Proc
begin

text \<open>
  The scheduler (\<open>schedule\<close> in \<open>kernel/process/task.c\<close>) and the timer interrupt that wakes sleepers
  (\<open>kernel/drivers/timer.c\<close>), on the boot processor, the only one that switches tasks.  Lower
  priority numbers run first; \<open>prr\<close> is the round-robin cursor.  \<open>mapped\<close> stands for
  \<open>paging_get_phys(va) != 0\<close> in the address space being entered.  \<open>schedule\<close> returns the words it
  stores on the user stack of the next task (a signal frame) and the new state.
\<close>

section \<open>Choosing a task\<close>

definition candidate :: "psys \<Rightarrow> int \<Rightarrow> tid \<Rightarrow> bool" where
  "candidate s p t \<longleftrightarrow> tstate (tk s t) = TASK_READY \<and> priority (tk s t) = p"

text \<open>What follows the cursor in the list, if the cursor is still linked.\<close>

definition valid_cursor :: "psys \<Rightarrow> tid option" where
  "valid_cursor s = (case prr s of None \<Rightarrow> None | Some c \<Rightarrow> if c \<in> set (plist s) then Some c else None)"

definition behind :: "tid option \<Rightarrow> tid list \<Rightarrow> tid list" where
  "behind cur xs = (case cur of None \<Rightarrow> [] | Some c \<Rightarrow> tl (dropWhile (\<lambda>t. t \<noteq> c) xs))"

definition pick_level :: "tid option \<Rightarrow> psys \<Rightarrow> int \<Rightarrow> tid option" where
  "pick_level cur s p =
     (let start = (if cur = None \<or> behind cur (plist s) = [] then plist s else behind cur (plist s)) in
      case find (candidate s p) start of
        Some t \<Rightarrow> Some t
      | None \<Rightarrow> find (candidate s p)
          (case behind cur (plist s) of [] \<Rightarrow> plist s | stop # _ \<Rightarrow> takeWhile (\<lambda>t. t \<noteq> stop) (plist s)))"

definition pick :: "tid option \<Rightarrow> psys \<Rightarrow> tid option" where
  "pick cur s =
     (case pick_level cur s 1 of Some t \<Rightarrow> Some t | None \<Rightarrow>
      (case pick_level cur s 2 of Some t \<Rightarrow> Some t | None \<Rightarrow> pick_level cur s 3))"

section \<open>The scheduler\<close>

text \<open>The time slice; the flag says that the current task goes on running.\<close>

definition slice :: "tid \<Rightarrow> psys \<Rightarrow> bool \<times> psys" where
  "slice cur s =
     (let t = tk s cur in
      if tstate t = TASK_RUNNING \<and> ticks_left t > 0 then
        (if ticks_left t - 1 > 0 then (True, upd_task cur (\<lambda>x. x\<lparr>ticks_left := ticks_left x - 1\<rparr>) s)
         else (False, upd_task cur (\<lambda>x. x\<lparr>ticks_left := (priority x + 1) * 5,
                 priority := (if priority x < 3 then priority x + 1 else priority x)\<rparr>) s))
      else (False, s))"

text \<open>The choice, with the cursor moved, the fall back to any ready task and then to the idle task.\<close>

definition choose_next :: "psys \<Rightarrow> tid \<times> psys" where
  "choose_next s =
     (let cur = valid_cursor s; s0 = s\<lparr>prr := cur\<rparr> in
      case pick cur s0 of
        Some t \<Rightarrow> (t, s0\<lparr>prr := Some t\<rparr>)
      | None \<Rightarrow>
          (case find (\<lambda>t. tstate (tk s0 t) = TASK_READY) (plist s0) of
             Some t \<Rightarrow> (t, s0)
           | None \<Rightarrow> (pidle s0, (if tstate (tk s0 (pidle s0)) \<noteq> TASK_READY \<and> tstate (tk s0 (pidle s0)) \<noteq> TASK_RUNNING
                       then upd_task (pidle s0) (\<lambda>x. x\<lparr>tstate := TASK_READY\<rparr>) s0 else s0))))"

definition refill :: "tid \<Rightarrow> psys \<Rightarrow> psys" where
  "refill t s = upd_task t (\<lambda>x. if ticks_left x \<le> 0 then x\<lparr>ticks_left := (priority x + 1) * 5\<rparr> else x) s"

definition switch_to :: "tid \<Rightarrow> tid \<Rightarrow> psys \<Rightarrow> psys" where
  "switch_to prev nxt s =
     (let s1 = upd_task prev (\<lambda>x. x\<lparr>tstate := (if tstate x = TASK_RUNNING then TASK_READY else tstate x)\<rparr>) s;
          s2 = upd_task nxt (\<lambda>x. x\<lparr>tstate := TASK_RUNNING\<rparr>) s1
      in s2\<lparr>pfs := (pfs s2)\<lparr>kcur := Some nxt\<rparr>\<rparr>)"

text \<open>A signal frame for the task being entered; the signal is dropped when the stack is not mapped.\<close>

definition push_signal :: "(u32 \<Rightarrow> bool) \<Rightarrow> task \<Rightarrow> (u32 \<times> u32) list \<times> task" where
  "push_signal mapped t =
     (case deliverable t of None \<Rightarrow> ([], t)
      | Some i \<Rightarrow>
          let h = sig_handlers t i; t1 = t\<lparr>sig_pending := sig_pending t AND NOT (push_bit i 1)\<rparr>; esp = user_esp t - 32 in
          if \<not> mapped esp \<or> \<not> mapped (user_esp t - 1) then ([], t1)
          else ([(esp, user_eip t), (esp + 4, user_esp t), (esp + 8, user_eflags t), (esp + 12, of_nat i)],
                t1\<lparr>user_esp := esp, user_eip := h\<rparr>))"

definition schedule :: "(u32 \<Rightarrow> bool) \<Rightarrow> psys \<Rightarrow> (u32 \<times> u32) list \<times> psys" where
  "schedule mapped s =
     (case kcur (pfs s) of None \<Rightarrow> ([], s) | Some cur \<Rightarrow>
      (case slice cur s of (True, s1) \<Rightarrow> ([], s1)
       | (False, s1) \<Rightarrow>
          let (nxt, s2) = choose_next s1; s3 = refill nxt s2 in
          if nxt = cur then ([], s3)
          else let s4 = switch_to cur nxt s3; (ws, t) = push_signal mapped (tk s4 nxt)
               in (ws, upd_task nxt (\<lambda>_. t) s4)))"

section \<open>The timer\<close>

definition wake_sleeper :: "u32 \<Rightarrow> tid \<Rightarrow> psys \<Rightarrow> psys" where
  "wake_sleeper now t s =
     (if tstate (tk s t) = TASK_BLOCKED \<and> sleep_until (tk s t) \<noteq> 0 \<and> now \<ge> sleep_until (tk s t)
      then upd_task t (\<lambda>x. x\<lparr>sleep_until := 0, tstate := TASK_READY\<rparr>) s else s)"

definition timer_tick :: "u32 \<Rightarrow> psys \<Rightarrow> u32 \<times> psys" where
  "timer_tick tick s = (tick + 1, fold (wake_sleeper (tick + 1)) (plist s) s)"

text \<open>\<open>sleep_until\<close> up to its \<open>schedule()\<close>, and the two calls that compute the time.\<close>

definition go_to_sleep :: "u32 \<Rightarrow> psys \<Rightarrow> psys" where
  "go_to_sleep t s = (case kcur (pfs s) of None \<Rightarrow> s
     | Some me \<Rightarrow> upd_task me (\<lambda>x. x\<lparr>sleep_until := t, tstate := TASK_BLOCKED\<rparr>) s)"

definition task_sleep :: "u32 \<Rightarrow> u32 \<Rightarrow> psys \<Rightarrow> psys" where
  "task_sleep tick n s = go_to_sleep (tick + n) s"

text \<open>\<open>sys_nanosleep\<close>; \<open>None\<close> means that it only yields.\<close>

definition sys_nanosleep :: "u32 \<Rightarrow> u32 \<Rightarrow> psys \<Rightarrow> psys option" where
  "sys_nanosleep tick n s =
     (if n = 0 then None else Some (go_to_sleep (tick + (if n > 10000 then 10000 else n)) s))"

section \<open>The cyclic order\<close>

text \<open>The list as seen from behind the cursor.\<close>

definition cyclic :: "tid option \<Rightarrow> tid list \<Rightarrow> tid list" where
  "cyclic cur xs = (case cur of None \<Rightarrow> xs
     | Some c \<Rightarrow> tl (dropWhile (\<lambda>t. t \<noteq> c) xs) @ takeWhile (\<lambda>t. t \<noteq> c) xs @ [c])"

lemma split_at:
  assumes "c \<in> set xs" "distinct xs"
  obtains pre post where "xs = pre @ c # post" "c \<notin> set pre" "c \<notin> set post"
    "dropWhile (\<lambda>t. t \<noteq> c) xs = c # post" "takeWhile (\<lambda>t. t \<noteq> c) xs = pre"
proof -
  obtain pre post where xs: "xs = pre @ c # post" "c \<notin> set pre"
    using assms(1) by (meson split_list_first)
  then have "\<forall>t\<in>set pre. t \<noteq> c" by auto
  then have "dropWhile (\<lambda>t. t \<noteq> c) xs = c # post" "takeWhile (\<lambda>t. t \<noteq> c) xs = pre"
    unfolding xs by (simp_all add: dropWhile_append takeWhile_append dropWhile_eq_Nil_conv takeWhile_eq_all_conv)
  then show ?thesis using that xs assms(2) by auto
qed

lemma set_cyclic: "\<lbrakk>distinct xs; case cur of None \<Rightarrow> True | Some c \<Rightarrow> c \<in> set xs\<rbrakk> \<Longrightarrow> set (cyclic cur xs) = set xs"
proof (cases cur)
  case (Some c)
  assume d: "distinct xs" and m: "case cur of None \<Rightarrow> True | Some c \<Rightarrow> c \<in> set xs"
  have "c \<in> set xs" using m Some by simp
  from split_at [OF this d] obtain pre post where "xs = pre @ c # post"
    "dropWhile (\<lambda>t. t \<noteq> c) xs = c # post" "takeWhile (\<lambda>t. t \<noteq> c) xs = pre" by metis
  then show ?thesis using Some by (auto simp: cyclic_def)
qed (simp add: cyclic_def)

lemma find_append: "find P (xs @ ys) = (case find P xs of Some x \<Rightarrow> Some x | None \<Rightarrow> find P ys)"
  by (induction xs) auto

text \<open>The two scans of a level amount to one scan of the cyclic order.\<close>

lemma pick_level_cyclic:
  assumes "distinct (plist s)" "case cur of None \<Rightarrow> True | Some c \<Rightarrow> c \<in> set (plist s)"
  shows "pick_level cur s p = find (candidate s p) (cyclic cur (plist s))"
proof (cases cur)
  case None
  then show ?thesis by (simp add: pick_level_def behind_def cyclic_def Let_def split: option.split)
next
  case (Some c)
  have "c \<in> set (plist s)" using assms(2) Some by simp
  from split_at [OF this assms(1)] obtain pre post where x: "plist s = pre @ c # post"
      "dropWhile (\<lambda>t. t \<noteq> c) (plist s) = c # post" "takeWhile (\<lambda>t. t \<noteq> c) (plist s) = pre" by metis
  have cyc: "cyclic cur (plist s) = post @ pre @ [c]" by (simp add: cyclic_def Some x(2,3))
  have b: "behind cur (plist s) = post" by (simp add: behind_def Some x(2))
  show ?thesis
  proof (cases post)
    case Nil
    then have "cyclic cur (plist s) = plist s" "behind cur (plist s) = []" using cyc b x(1) by simp_all
    then show ?thesis by (simp add: pick_level_def Let_def split: option.split)
  next
    case (Cons q rest)
    have "q \<notin> set (pre @ [c])" using assms(1) x Cons by auto
    then have "takeWhile (\<lambda>t. t \<noteq> q) (plist s) = pre @ [c]"
      unfolding x(1) Cons by (simp add: takeWhile_append takeWhile_eq_all_conv)
    then have cs: "(case post of [] \<Rightarrow> plist s | stop # _ \<Rightarrow> takeWhile (\<lambda>t. t \<noteq> stop) (plist s)) = pre @ [c]"
      using Cons by simp
    have ne: "post \<noteq> []" using Cons by simp
    have "pick_level (Some c) s p = (case find (candidate s p) post of Some t \<Rightarrow> Some t | None \<Rightarrow> find (candidate s p) (pre @ [c]))"
      unfolding pick_level_def b [unfolded Some] cs using ne by simp
    then show ?thesis unfolding Some cyc [unfolded Some] by (simp only: find_append)
  qed
qed

lemma split_unique: "\<lbrakk>n \<notin> set a; n \<notin> set a'; a @ n # b = a' @ n # b'\<rbrakk> \<Longrightarrow> a = a' \<and> b = b'"
proof (induction a arbitrary: a')
  case Nil
  then show ?case by (cases a') auto
next
  case (Cons x a)
  then show ?case by (cases a') auto
qed

lemma cyclic_rotate:
  assumes "distinct xs" "cyclic cur xs = a @ n # b" "case cur of None \<Rightarrow> True | Some c \<Rightarrow> c \<in> set xs"
  shows "cyclic (Some n) xs = b @ a @ [n]"
proof (cases cur)
  case None
  then have xs: "xs = a @ n # b" using assms(2) by (simp add: cyclic_def)
  then have "\<forall>t\<in>set a. t \<noteq> n" using assms(1) by auto
  then show ?thesis unfolding cyclic_def xs
    by (simp add: dropWhile_append takeWhile_append dropWhile_eq_Nil_conv takeWhile_eq_all_conv)
next
  case (Some c)
  have "c \<in> set xs" using assms(3) Some by simp
  from split_at [OF this assms(1)] obtain pre post where x: "xs = pre @ c # post"
      "dropWhile (\<lambda>t. t \<noteq> c) xs = c # post" "takeWhile (\<lambda>t. t \<noteq> c) xs = pre" by metis
  have cyc: "post @ pre @ [c] = a @ n # b" using assms(2) by (simp add: cyclic_def Some x(2,3))
  have "n \<in> set xs" using arg_cong [OF cyc, of set] x(1) by auto
  then obtain pre' post' where y: "xs = pre' @ n # post'" "dropWhile (\<lambda>t. t \<noteq> n) xs = n # post'"
      "takeWhile (\<lambda>t. t \<noteq> n) xs = pre'" "n \<notin> set pre'" "n \<notin> set post'"
    using split_at [OF _ assms(1), of n] by metis
  have d: "distinct (post @ pre @ [c])" using assms(1) x(1) by auto
  have "\<exists>a' b'. post @ pre @ [c] = a' @ n # b' \<and> b' @ a' = post' @ pre'"
  proof -
    have "pre @ c # post = pre' @ n # post'" using x(1) y(1) by simp
    then consider us where "pre = pre' @ us" "us @ c # post = n # post'" | us where "pre @ us = pre'" "c # post = us @ n # post'"
      by (auto simp: append_eq_append_conv2)
    then show ?thesis
    proof cases
      case 1
      show ?thesis
      proof (cases us)
        case Nil
        then have "n = c" "post' = post" "pre = pre'" using 1 by auto
        then show ?thesis by (intro exI [of _ "post @ pre"] exI [of _ "[]"]) simp
      next
        case (Cons u us')
        then have "u = n" "post' = us' @ c # post" "pre = pre' @ n # us'" using 1 by auto
        then show ?thesis by (intro exI [of _ "post @ pre'"] exI [of _ "us' @ [c]"]) simp
      qed
    next
      case 2
      show ?thesis
      proof (cases us)
        case Nil
        then have "n = c" "post' = post" "pre = pre'" using 2 by auto
        then show ?thesis by (intro exI [of _ "post @ pre"] exI [of _ "[]"]) simp
      next
        case (Cons u us')
        then have "u = c" "post = us' @ n # post'" "pre' = pre @ c # us'" using 2 by auto
        then show ?thesis by (intro exI [of _ "us'"] exI [of _ "post' @ pre @ [c]"]) simp
      qed
    qed
  qed
  then obtain a' b' where ab: "post @ pre @ [c] = a' @ n # b'" "b' @ a' = post' @ pre'" by blast
  have "n \<notin> set a" "n \<notin> set a'" using d cyc ab(1) by (auto dest: arg_cong [of _ _ distinct])
  then have "a = a'" "b = b'" using cyc ab(1) split_unique [of n a a' b b'] by auto
  then show ?thesis using ab(2) by (simp add: cyclic_def y(2,3))
qed

section \<open>What schedule guarantees\<close>

lemma find_first:
  "find P xs = Some n \<Longrightarrow> \<exists>a b. xs = a @ n # b \<and> P n \<and> (\<forall>u\<in>set a. \<not> P u)"
proof (induction xs)
  case (Cons x xs)
  show ?case
  proof (cases "P x")
    case True
    then show ?thesis using Cons.prems by (intro exI [of _ "[]"] exI [of _ xs]) auto
  next
    case False
    then obtain a b where "xs = a @ n # b" "P n" "\<forall>u\<in>set a. \<not> P u" using Cons by auto
    then show ?thesis using False by (intro exI [of _ "x # a"] exI [of _ b]) auto
  qed
qed simp

lemma valid_cursor_in: "case valid_cursor s of None \<Rightarrow> True | Some c \<Rightarrow> c \<in> set (plist s)"
  by (simp add: valid_cursor_def split: option.split)

lemma tk_prr [simp]: "tk (s\<lparr>prr := c\<rparr>) t = tk s t" "candidate (s\<lparr>prr := c\<rparr>) = candidate s"
  by (simp_all add: candidate_def fun_eq_iff)

lemma pick_best:
  assumes "distinct (plist s)" "u \<in> set (plist s)" "candidate s r u" "1 \<le> r" "r \<le> 3"
  obtains n p a b where "pick (valid_cursor s) (s\<lparr>prr := valid_cursor s\<rparr>) = Some n" "candidate s p n" "1 \<le> p" "p \<le> r"
    "cyclic (valid_cursor s) (plist s) = a @ n # b" "\<forall>v\<in>set a. \<not> candidate s p v"
    "\<And>q v. \<lbrakk>v \<in> set (plist s); candidate s q v; 1 \<le> q\<rbrakk> \<Longrightarrow> p \<le> q"
proof -
  let ?cyc = "cyclic (valid_cursor s) (plist s)"
  have lvl: "pick_level (valid_cursor s) (s\<lparr>prr := valid_cursor s\<rparr>) q = find (candidate s q) ?cyc" for q
    using pick_level_cyclic [of "s\<lparr>prr := valid_cursor s\<rparr>" "valid_cursor s" q] assms(1) valid_cursor_in [of s] by (auto split: option.splits)
  have sc: "set ?cyc = set (plist s)" using set_cyclic [OF assms(1) valid_cursor_in] .
  define found where "found q = (find (candidate s q) ?cyc \<noteq> None)" for q
  have ex: "found q = (\<exists>v\<in>set (plist s). candidate s q v)" for q
    using sc by (auto simp: found_def find_None_iff)
  have "found r" using assms ex by blast
  define p :: int where "p = (if found 1 then 1 else if found 2 then 2 else 3)"
  have r: "r = 1 \<or> r = 2 \<or> r = 3" using assms(4,5) by auto
  have p: "1 \<le> p" "p \<le> r" "found p" "\<And>q. \<lbrakk>1 \<le> q; q < p\<rbrakk> \<Longrightarrow> \<not> found q"
  proof -
    show "1 \<le> p" by (simp add: p_def)
    show "p \<le> r" "found p" using r \<open>found r\<close> by (auto simp: p_def)
    fix q :: int
    assume "1 \<le> q" "q < p"
    then have "q = 1 \<and> p \<noteq> 1 \<or> q = 2 \<and> p = 3" by (auto simp: p_def split: if_splits)
    then show "\<not> found q" by (auto simp: p_def split: if_splits)
  qed
  obtain n where n: "find (candidate s p) ?cyc = Some n" using p(3) by (auto simp: found_def)
  have "pick (valid_cursor s) (s\<lparr>prr := valid_cursor s\<rparr>) = Some n"
  proof -
    have c: "p = 1 \<or> p = 2 \<or> p = 3" using p(1,2) assms(5) by auto
    moreover have "p \<noteq> 1 \<Longrightarrow> find (candidate s 1) ?cyc = None" using p(1) p(4) [of 1] by (auto simp: found_def)
    moreover have "p = 3 \<Longrightarrow> find (candidate s 2) ?cyc = None" using p(4) [of 2] by (auto simp: found_def)
    ultimately show ?thesis using n by (auto simp: pick_def lvl split: option.split)
  qed
  moreover obtain a b where "?cyc = a @ n # b" "candidate s p n" "\<forall>v\<in>set a. \<not> candidate s p v"
    using find_first [OF n] by blast
  moreover have "p \<le> q" if "v \<in> set (plist s)" "candidate s q v" "1 \<le> q" for q v
    using p(4) [of q] ex that by (meson not_le)
  ultimately show ?thesis using that p by blast
qed

lemma slice_frame: "slice cur s = (b, s1) \<Longrightarrow> plist s1 = plist s \<and> kcur (pfs s1) = kcur (pfs s) \<and> prr s1 = prr s"
  by (auto simp: slice_def upd_task_def Let_def split: if_splits)

lemma kcur_schedule:
  assumes "kcur (pfs s) = Some cur" "slice cur s = (False, s1)"
  shows "kcur (pfs (snd (schedule mapped s))) = Some (fst (choose_next s1))"
proof -
  obtain n s2 where c: "choose_next s1 = (n, s2)" by fastforce
  have "kcur (pfs s2) = kcur (pfs s1)"
    using c by (auto simp: choose_next_def upd_task_def Let_def split: option.splits if_splits)
  then show ?thesis using assms slice_frame [OF assms(2)]
    by (simp add: schedule_def c switch_to_def refill_def upd_task_def Let_def split: prod.split)
qed

text \<open>C17.  When the slice is over, the processor goes to a ready task of the best priority level that has one, and among
  the ready tasks of that level to the first in cyclic order behind the cursor.\<close>

theorem schedule_picks_best:
  assumes "distinct (plist s)" "kcur (pfs s) = Some cur" "slice cur s = (False, s1)"
    and "u \<in> set (plist s)" "candidate s1 r u" "1 \<le> r" "r \<le> 3"
  shows "\<exists>n p a b. kcur (pfs (snd (schedule mapped s))) = Some n \<and> candidate s1 p n \<and> 1 \<le> p \<and>
    (\<forall>v\<in>set (plist s). \<forall>q\<ge>1. candidate s1 q v \<longrightarrow> p \<le> q) \<and>
    cyclic (valid_cursor s1) (plist s) = a @ n # b \<and> (\<forall>v\<in>set a. \<not> candidate s1 p v)"
proof -
  have pl: "plist s1 = plist s" using slice_frame [OF assms(3)] by simp
  then obtain n p a b where n: "pick (valid_cursor s1) (s1\<lparr>prr := valid_cursor s1\<rparr>) = Some n" "candidate s1 p n" "1 \<le> p"
    "cyclic (valid_cursor s1) (plist s) = a @ n # b" "\<forall>v\<in>set a. \<not> candidate s1 p v"
    "\<And>q v. \<lbrakk>v \<in> set (plist s); candidate s1 q v; 1 \<le> q\<rbrakk> \<Longrightarrow> p \<le> q"
    using pick_best [of s1 u r] assms by metis
  have "fst (choose_next s1) = n" by (simp add: choose_next_def n(1) Let_def)
  then have "kcur (pfs (snd (schedule mapped s))) = Some n" using kcur_schedule [OF assms(2,3)] by simp
  then show ?thesis using n by blast
qed

definition no_tasks :: fsys where
  "no_tasks = \<lparr>inodes = (\<lambda>_. inode_zero), iused = (\<lambda>_. False), pool = (\<lambda>_ _. 0), bused = (\<lambda>_. False),
     ktasks = (\<lambda>_. task_zero), kcur = None, kpipes = Map.empty\<rparr>"

text \<open>Three tasks: 0 runs with an expired slice, 1 and 2 are ready at level 2; 9 is idle.\<close>

definition three :: psys where
  "three = \<lparr>pfs = no_tasks\<lparr>ktasks := (\<lambda>t. if t = 0 then task_zero\<lparr>tstate := TASK_RUNNING, priority := 2, ticks_left := 1\<rparr>
        else if t = 9 then task_zero\<lparr>priority := 0\<rparr> else task_zero\<lparr>priority := 2, ticks_left := 10\<rparr>), kcur := Some 0\<rparr>,
     plist = [0, 9, 1, 2], pidle = 9, pnext_pid = 5, prr = Some 1, psig = 0\<rparr>"

theorem schedule_picks_best_witness:
  "\<exists>n p. kcur (pfs (snd (schedule (\<lambda>_. True) three))) = Some n \<and> candidate (snd (slice 0 three)) p n \<and> p \<le> 2"
proof -
  have "slice 0 three = (False, snd (slice 0 three))" by (simp add: slice_def three_def)
  then obtain n p a b where "kcur (pfs (snd (schedule (\<lambda>_. True) three))) = Some n" "candidate (snd (slice 0 three)) p n"
      "\<forall>v\<in>set (plist three). \<forall>q\<ge>1. candidate (snd (slice 0 three)) q v \<longrightarrow> p \<le> q"
    using schedule_picks_best [of three 0 "snd (slice 0 three)" 2 2 "\<lambda>_. True"]
    by (auto simp: three_def slice_def candidate_def upd_task_def Let_def task_zero_def)
  moreover have "candidate (snd (slice 0 three)) 2 2" "2 \<in> set (plist three)"
    by (simp_all add: three_def slice_def candidate_def upd_task_def Let_def task_zero_def)
  ultimately show ?thesis by (meson one_le_numeral)
qed

definition pos :: "tid \<Rightarrow> tid list \<Rightarrow> nat" where
  "pos t xs = length (takeWhile (\<lambda>u. u \<noteq> t) xs)"

lemma pos_append: "t \<in> set ys \<Longrightarrow> t \<notin> set xs \<Longrightarrow> pos t (xs @ ys) = length xs + pos t ys"
  unfolding pos_def by (subst takeWhile_append2) auto

lemma pos_front: "t \<in> set xs \<Longrightarrow> pos t (xs @ ys) = pos t xs"
  unfolding pos_def by (subst takeWhile_append1) auto

text \<open>C20.  Round robin: a ready task passed over in favour of another task of its level moves strictly closer to the front
  of the cyclic order, so it can be passed over fewer times than there are tasks.\<close>

theorem schedule_round_robin:
  assumes "distinct (plist s)" "kcur (pfs s) = Some cur" "slice cur s = (False, s1)"
    and "t \<in> set (plist s)" "candidate s1 p t" "1 \<le> p" "p \<le> 3"
    and "kcur (pfs (snd (schedule mapped s))) = Some n" "n \<noteq> t" "priority (tk s1 n) = p"
  shows "prr (snd (schedule mapped s)) = Some n \<and>
    pos t (cyclic (Some n) (plist s)) < pos t (cyclic (valid_cursor s1) (plist s))"
proof -
  have pl: "plist s1 = plist s" using slice_frame [OF assms(3)] by simp
  obtain m q a b where m: "pick (valid_cursor s1) (s1\<lparr>prr := valid_cursor s1\<rparr>) = Some m" "candidate s1 q m"
    "cyclic (valid_cursor s1) (plist s) = a @ m # b" "\<forall>v\<in>set a. \<not> candidate s1 q v"
    using pick_best [of s1 t p] assms pl by metis
  have ch: "choose_next s1 = (m, s1\<lparr>prr := Some m\<rparr>)" by (simp add: choose_next_def m(1) Let_def)
  then have mn: "m = n" using kcur_schedule [OF assms(2,3), of mapped] assms(8) by simp
  then have "q = p" using m(2) assms(10) by (simp add: candidate_def)
  then have ta: "t \<notin> set a" using m(4) assms(5) by blast
  have cur: "case valid_cursor s1 of None \<Rightarrow> True | Some c \<Rightarrow> c \<in> set (plist s)" using valid_cursor_in [of s1] pl by (auto split: option.splits)
  have "set (a @ n # b) = set (plist s)" using set_cyclic [OF assms(1) cur] m(3) mn by simp
  then have tb: "t \<in> set b" using assms(4,9) ta by auto
  have "cyclic (Some n) (plist s) = b @ a @ [n]" using cyclic_rotate [OF assms(1) m(3) cur] mn by simp
  then have "pos t (cyclic (Some n) (plist s)) = pos t b" using pos_front [OF tb] by simp
  moreover have "pos t (a @ n # b) = length a + Suc (pos t b)"
    using pos_append [of t "n # b" a] tb ta assms(9) by (simp add: pos_def)
  moreover have "prr (snd (schedule mapped s)) = Some n"
    using assms(2,3) by (simp add: schedule_def ch mn refill_def switch_to_def upd_task_def Let_def split: prod.split)
  ultimately show ?thesis using m(3) mn by simp
qed

theorem schedule_round_robin_witness:
  "pos 1 (cyclic (Some 2) [0, 9, 1, 2]) < pos 1 (cyclic (Some 1) [0, 9, 1, 2])"
proof -
  have sl: "slice 0 three = (False, snd (slice 0 three))" by (simp add: slice_def three_def)
  have k: "kcur (pfs (snd (schedule (\<lambda>_. True) three))) = Some 2"
    using kcur_schedule [of three 0 "snd (slice 0 three)" "\<lambda>_. True"]
    by (simp add: three_def slice_def choose_next_def pick_def pick_level_def behind_def valid_cursor_def candidate_def upd_task_def Let_def task_zero_def)
  have c: "valid_cursor (snd (slice 0 three)) = Some 1"
    by (simp add: three_def slice_def valid_cursor_def upd_task_def)
  show ?thesis
    using schedule_round_robin [OF _ _ sl _ _ _ _ k, of 1 2] c
    by (simp add: three_def slice_def candidate_def upd_task_def Let_def task_zero_def)
qed

text \<open>At most one task is running, and it is the current one: if that holds before a call of the scheduler it holds after,
  whatever the scheduler does; and the task it enters by a switch is running.\<close>

theorem schedule_one_running:
  assumes "kcur (pfs s) = Some cur" "\<forall>t. tstate (tk s t) = TASK_RUNNING \<longrightarrow> t = cur"
  shows "\<exists>n. kcur (pfs (snd (schedule mapped s))) = Some n \<and>
    (\<forall>t. tstate (tk (snd (schedule mapped s)) t) = TASK_RUNNING \<longrightarrow> t = n) \<and>
    (n = cur \<or> tstate (tk (snd (schedule mapped s)) n) = TASK_RUNNING)"
proof -
  obtain b s1 where sl: "slice cur s = (b, s1)" by fastforce
  have st1: "tstate (tk s1 t) = tstate (tk s t)" for t
    using sl by (auto simp: slice_def Let_def upd_task_def split: if_splits)
  show ?thesis
  proof (cases b)
    case True
    then show ?thesis using assms st1 sl slice_frame [OF sl] by (simp add: schedule_def)
  next
    case False
    obtain n s2 where c: "choose_next s1 = (n, s2)" by fastforce
    have run: "tstate (tk s2 t) = TASK_RUNNING \<longleftrightarrow> tstate (tk s1 t) = TASK_RUNNING" for t
      using c by (auto simp: choose_next_def upd_task_def Let_def split: option.splits if_splits)
    have k: "kcur (pfs (snd (schedule mapped s))) = Some n" using kcur_schedule [OF assms(1)] sl False c by simp
    define s3 where "s3 = refill n s2"
    have run3: "tstate (tk s3 t) = tstate (tk s2 t)" for t by (simp add: s3_def refill_def upd_task_def)
    have frame: "tstate (snd (push_signal mapped x)) = tstate x" for x
      by (simp add: push_signal_def Let_def split: option.split)
    have r: "snd (schedule mapped s) = (if n = cur then s3 else
        upd_task n (\<lambda>_. snd (push_signal mapped (tk (switch_to cur n s3) n))) (switch_to cur n s3))"
      unfolding s3_def using assms(1) sl False by (simp add: schedule_def c Let_def split_beta)
    have only: "tstate (tk s3 t) = TASK_RUNNING \<Longrightarrow> t = cur" for t
      using assms(2) by (simp only: run3 run st1)
    have sw: "tstate (tk (switch_to cur n s3) t) = (if t = n then TASK_RUNNING
        else if t = cur \<and> tstate (tk s3 t) = TASK_RUNNING then TASK_READY else tstate (tk s3 t))" for t
      by (simp add: switch_to_def Let_def upd_task_def)
    have fin: "tstate (tk (snd (schedule mapped s)) t) = (if n = cur then tstate (tk s3 t) else tstate (tk (switch_to cur n s3) t))" for t
      unfolding r by (simp add: upd_task_def frame)
    have "\<forall>t. tstate (tk (snd (schedule mapped s)) t) = TASK_RUNNING \<longrightarrow> t = n"
    proof (intro allI impI)
      fix t
      assume "tstate (tk (snd (schedule mapped s)) t) = TASK_RUNNING"
      then show "t = n" using only [of t] unfolding fin sw by (auto split: if_splits)
    qed
    moreover have "n = cur \<or> tstate (tk (snd (schedule mapped s)) n) = TASK_RUNNING" by (simp add: fin sw)
    ultimately show ?thesis using k by blast
  qed
qed

theorem schedule_one_running_witness:
  "\<exists>n. kcur (pfs (snd (schedule (\<lambda>_. True) three))) = Some n \<and>
    (\<forall>t. tstate (tk (snd (schedule (\<lambda>_. True) three)) t) = TASK_RUNNING \<longrightarrow> t = n)"
proof -
  have "kcur (pfs three) = Some 0" "\<forall>t. tstate (tk three t) = TASK_RUNNING \<longrightarrow> t = 0"
    by (simp_all add: three_def task_zero_def)
  from schedule_one_running [OF this] show ?thesis by blast
qed

section \<open>Sleeping\<close>

definition ticks :: "nat \<Rightarrow> u32 \<times> psys \<Rightarrow> u32 \<times> psys" where
  "ticks k c = ((\<lambda>(n, s). timer_tick n s) ^^ k) c"

lemma tk_wake_sleepers:
  "tk (fold (wake_sleeper now) is s) t =
     (if t \<in> set is \<and> tstate (tk s t) = TASK_BLOCKED \<and> sleep_until (tk s t) \<noteq> 0 \<and> now \<ge> sleep_until (tk s t)
      then (tk s t)\<lparr>sleep_until := 0, tstate := TASK_READY\<rparr> else tk s t)"
proof (induction "is" arbitrary: s)
  case (Cons u "is")
  have "tk (wake_sleeper now u s) t = (if t = u \<and> tstate (tk s t) = TASK_BLOCKED \<and> sleep_until (tk s t) \<noteq> 0 \<and> now \<ge> sleep_until (tk s t)
      then (tk s t)\<lparr>sleep_until := 0, tstate := TASK_READY\<rparr> else tk s t)"
    by (simp add: wake_sleeper_def upd_task_def)
  then show ?case using Cons by auto
qed simp

lemma wake_sleepers_plist: "plist (fold (wake_sleeper now) is s) = plist s"
  by (induction "is" arbitrary: s) (auto simp: wake_sleeper_def upd_task_def)



section \<open>Irregularities\<close>

text \<open>A sleep that would end exactly when the counter wraps stores 0, which means no time limit: no timer interrupt
  ever wakes the task.\<close>

theorem sleep_to_wrap_is_forever:
  assumes "kcur (pfs s) = Some me" "tick + n = 0"
  shows "tstate (tk (snd (ticks k (t, task_sleep tick n s))) me) = TASK_BLOCKED"
proof -
  have "tstate (tk (snd (ticks k (t, task_sleep tick n s))) me) = TASK_BLOCKED
      \<and> sleep_until (tk (snd (ticks k (t, task_sleep tick n s))) me) = 0"
  proof (induction k)
    case 0
    then show ?case using assms by (simp add: ticks_def task_sleep_def go_to_sleep_def upd_task_def)
  next
    case (Suc k)
    then show ?case by (simp add: ticks_def timer_tick_def tk_wake_sleepers split_beta)
  qed
  then show ?thesis by simp
qed

text \<open>The idle task, at priority 0 outside the levels, is moved to level 1, the best one, when its slice expires.\<close>

theorem idle_is_promoted:
  assumes "tstate (tk s t) = TASK_RUNNING" "priority (tk s t) = 0" "ticks_left (tk s t) = 1"
  shows "priority (tk (snd (slice t s)) t) = 1"
  using assms by (simp add: slice_def Let_def upd_task_def)

text \<open>The task whose slice expires is not a candidate: alone with the idle task, it must hand over to it.\<close>

theorem lone_task_yields_to_idle:
  "kcur (pfs (snd (schedule (\<lambda>_. True) (three\<lparr>plist := [0, 9]\<rparr>)))) = Some 9"
  by code_simp

end
