(* ===== verification/Sync.thy ===== *)
theory Sync
  imports Proc
begin

text \<open>
  Semaphores and futexes (\<open>kernel/process/semaphore.c\<close>, \<open>futex.c\<close>).  Every call runs under the lock of its object
  with interrupts off, up to \<open>schedule()\<close>: the loop of \<open>sem_wait_id\<close> is split there into passes.  The
  wait queue array with its counter is the list of its entries.  Semaphore values are \<open>int\<close>,
  assumed to stay below \<open>2 ^ 31\<close>.
\<close>

abbreviation SEM_MAX :: int where "SEM_MAX \<equiv> 16"
abbreviation FUTEX_MAX :: nat where "FUTEX_MAX \<equiv> 16"

section \<open>Semaphores\<close>

record sem =
  sem_valid :: bool
  sem_value :: int
  sem_queue :: "tid list"

type_synonym sems = "nat \<Rightarrow> sem"

definition sem_init_all :: sems where
  "sem_init_all = (\<lambda>_. \<lparr>sem_valid = False, sem_value = 0, sem_queue = []\<rparr>)"

definition sem_create :: "int \<Rightarrow> sems \<Rightarrow> int \<times> sems" where
  "sem_create v ss =
     (case first_from (\<lambda>i. \<not> sem_valid (ss i)) 0 (nat SEM_MAX) of None \<Rightarrow> (-1, ss)
      | Some i \<Rightarrow> (int i, ss(i := \<lparr>sem_valid = True, sem_value = v, sem_queue = []\<rparr>)))"

datatype sem_pass = SemReturns int | SemBlocks

definition sem_wait_pass :: "int \<Rightarrow> tid \<Rightarrow> tasks \<times> sems \<Rightarrow> sem_pass \<times> tasks \<times> sems" where
  "sem_wait_pass i me c =
     (case c of (ts, ss) \<Rightarrow>
      if i < 0 \<or> i \<ge> SEM_MAX then (SemReturns (-1), ts, ss)
      else let s = ss (nat i) in
        if \<not> sem_valid s then (SemReturns (-1), ts, ss)
        else if sem_value s > 0 then (SemReturns 0, ts, ss(nat i := s\<lparr>sem_value := sem_value s - 1\<rparr>))
        else if length (sem_queue s) \<ge> 16 then (SemReturns (-1), ts, ss)
        else (SemBlocks, set_state me TASK_BLOCKED ts, ss(nat i := s\<lparr>sem_queue := sem_queue s @ [me]\<rparr>)))"

definition sem_post_id :: "int \<Rightarrow> tasks \<times> sems \<Rightarrow> int \<times> tasks \<times> sems" where
  "sem_post_id i c =
     (case c of (ts, ss) \<Rightarrow>
      if i < 0 \<or> i \<ge> SEM_MAX then (-1, ts, ss)
      else let s = ss (nat i) in
        if \<not> sem_valid s then (-1, ts, ss)
        else let s1 = s\<lparr>sem_value := sem_value s + 1\<rparr> in
          (case sem_queue s of [] \<Rightarrow> (0, ts, ss(nat i := s1))
           | t # q \<Rightarrow> (0, set_state t TASK_READY ts, ss(nat i := s1\<lparr>sem_queue := q\<rparr>))))"

definition sem_destroy_id :: "int \<Rightarrow> tasks \<times> sems \<Rightarrow> int \<times> tasks \<times> sems" where
  "sem_destroy_id i c =
     (case c of (ts, ss) \<Rightarrow>
      if i < 0 \<or> i \<ge> SEM_MAX then (-1, ts, ss)
      else let s = ss (nat i) in
        if \<not> sem_valid s then (-1, ts, ss)
        else (0, fold (\<lambda>t. set_state t TASK_READY) (sem_queue s) ts, ss(nat i := s\<lparr>sem_queue := [], sem_valid := False\<rparr>)))"

section \<open>Futexes\<close>

record futex_slot =
  fut_used :: bool
  fut_uaddr :: u32
  fut_asid :: u32
  fut_waiter :: "tid option"

record futexes =
  fut_slots :: "nat \<Rightarrow> futex_slot"
  futex_on :: bool

definition futex_init :: "futexes \<Rightarrow> int \<times> futexes" where
  "futex_init f = (0, \<lparr>fut_slots = (\<lambda>_. \<lparr>fut_used = False, fut_uaddr = 0, fut_asid = 0, fut_waiter = None\<rparr>), futex_on = True\<rparr>)"

text \<open>User memory: which addresses are mapped and the word at an address.\<close>

definition futex_get_user :: "(u32 \<Rightarrow> bool) \<Rightarrow> (u32 \<Rightarrow> u32) \<Rightarrow> u32 \<Rightarrow> u32 option" where
  "futex_get_user mapped mem a =
     (if a = 0 then None else if \<not> mapped a then None else if \<not> mapped (a + 3) then None else Some (mem a))"

text \<open>\<open>futex_wait\<close> up to \<open>schedule()\<close>, after which it returns 0.\<close>

definition futex_wait :: "(u32 \<Rightarrow> bool) \<Rightarrow> (u32 \<Rightarrow> u32) \<Rightarrow> u32 \<Rightarrow> u32 \<Rightarrow> tid option \<Rightarrow> tasks \<times> futexes
    \<Rightarrow> sem_pass \<times> tasks \<times> futexes" where
  "futex_wait mapped mem a v cur c =
     (case c of (ts, f) \<Rightarrow>
      if \<not> futex_on f \<or> a = 0 then (SemReturns (-1), ts, f)
      else case cur of None \<Rightarrow> (SemReturns (-1), ts, f) | Some me \<Rightarrow>
      (case futex_get_user mapped mem a of None \<Rightarrow> (SemReturns (-1), ts, f)
       | Some x \<Rightarrow>
          if x \<noteq> v then (SemReturns (-1), ts, f)
          else (case first_from (\<lambda>i. \<not> fut_used (fut_slots f i)) 0 FUTEX_MAX of None \<Rightarrow> (SemReturns (-1), ts, f)
            | Some i \<Rightarrow> (SemBlocks, set_state me TASK_BLOCKED ts,
                f\<lparr>fut_slots := (fut_slots f)(i := \<lparr>fut_used = True, fut_uaddr = a, fut_asid = cr3 (ts me),
                    fut_waiter = Some me\<rparr>)\<rparr>))))"

definition fut_match :: "u32 \<Rightarrow> u32 \<Rightarrow> futexes \<Rightarrow> nat \<Rightarrow> bool" where
  "fut_match a asid f i \<longleftrightarrow> fut_used (fut_slots f i) \<and> fut_uaddr (fut_slots f i) = a
     \<and> fut_asid (fut_slots f i) = asid \<and> fut_waiter (fut_slots f i) \<noteq> None"

definition fut_release :: "nat \<Rightarrow> tasks \<times> futexes \<Rightarrow> tasks \<times> futexes" where
  "fut_release i c =
     (case c of (ts, f) \<Rightarrow> (set_state (the (fut_waiter (fut_slots f i))) TASK_READY ts,
        f\<lparr>fut_slots := (fut_slots f)(i := (fut_slots f i)\<lparr>fut_waiter := None, fut_used := False\<rparr>)\<rparr>))"

text \<open>The loop of \<open>futex_wake\<close>, from slot \<open>i\<close> over \<open>k\<close> slots, \<open>woken\<close> waiters already woken.\<close>

fun wake_loop :: "u32 \<Rightarrow> u32 \<Rightarrow> int \<Rightarrow> nat \<Rightarrow> nat \<Rightarrow> int \<Rightarrow> tasks \<times> futexes \<Rightarrow> int \<times> tasks \<times> futexes" where
  "wake_loop a asid n i 0 woken c = (woken, c)"
| "wake_loop a asid n i (Suc k) woken c =
     (if woken \<ge> n then (woken, c)
      else if fut_match a asid (snd c) i then wake_loop a asid n (Suc i) k (woken + 1) (fut_release i c)
      else wake_loop a asid n (Suc i) k woken c)"

definition futex_wake :: "u32 \<Rightarrow> int \<Rightarrow> tid option \<Rightarrow> tasks \<times> futexes \<Rightarrow> int \<times> tasks \<times> futexes" where
  "futex_wake a n cur c =
     (if \<not> futex_on (snd c) \<or> a = 0 \<or> n \<le> 0 then (if n \<le> 0 then -1 else 0, c)
      else let n = (if n > int FUTEX_MAX then int FUTEX_MAX else n);
               asid = (case cur of None \<Rightarrow> 0 | Some t \<Rightarrow> cr3 (fst c t))
           in wake_loop a asid n 0 FUTEX_MAX 0 c)"

text \<open>\<open>sys_futex_wrap\<close>: \<open>op\<close> 0 waits, 1 wakes; the result of a wait that blocks is 0.\<close>

definition sys_futex :: "(u32 \<Rightarrow> bool) \<Rightarrow> (u32 \<Rightarrow> u32) \<Rightarrow> u32 \<Rightarrow> u32 \<Rightarrow> u32 \<Rightarrow> tid option \<Rightarrow> tasks \<times> futexes
    \<Rightarrow> u32 \<times> tasks \<times> futexes" where
  "sys_futex mapped mem a op v cur c =
     (if op = 0 then (case futex_wait mapped mem a v cur c of (r, c') \<Rightarrow>
         (case r of SemReturns x \<Rightarrow> of_int x | SemBlocks \<Rightarrow> 0, c'))
      else if op = 1 then (case futex_wake a (sint v) cur c of (r, c') \<Rightarrow> (of_int r, c'))
      else (- 1, c))"

section \<open>Semaphores lose no wake-up\<close>

text \<open>One semaphore used by any number of tasks: \<open>inside\<close> are the tasks within \<open>sem_wait_id\<close>, \<open>posts\<close> and \<open>grants\<close>
  count the completed posts and the successful waits.\<close>

record sem_run =
  sr_tasks :: tasks
  sr_sems :: sems
  inside :: "tid set"
  posts :: nat
  grants :: nat

inductive sem_step :: "int \<Rightarrow> sem_run \<Rightarrow> sem_run \<Rightarrow> bool" for i where
  enter: "\<lbrakk>t \<notin> inside r; tstate (sr_tasks r t) \<noteq> TASK_BLOCKED\<rbrakk> \<Longrightarrow> sem_step i r (r\<lparr>inside := insert t (inside r)\<rparr>)"
| leave: "\<lbrakk>t \<in> inside r; tstate (sr_tasks r t) \<noteq> TASK_BLOCKED;
      sem_wait_pass i t (sr_tasks r, sr_sems r) = (SemReturns x, ts, ss)\<rbrakk>
    \<Longrightarrow> sem_step i r (r\<lparr>sr_tasks := ts, sr_sems := ss, inside := inside r - {t},
          grants := (if x = 0 then grants r + 1 else grants r)\<rparr>)"
| block: "\<lbrakk>t \<in> inside r; tstate (sr_tasks r t) \<noteq> TASK_BLOCKED;
      sem_wait_pass i t (sr_tasks r, sr_sems r) = (SemBlocks, ts, ss)\<rbrakk>
    \<Longrightarrow> sem_step i r (r\<lparr>sr_tasks := ts, sr_sems := ss\<rparr>)"
| post: "sem_post_id i (sr_tasks r, sr_sems r) = (0, ts, ss)
    \<Longrightarrow> sem_step i r (r\<lparr>sr_tasks := ts, sr_sems := ss, posts := posts r + 1\<rparr>)"

definition sem_inv :: "int \<Rightarrow> int \<Rightarrow> sem_run \<Rightarrow> bool" where
  "sem_inv i v r \<longleftrightarrow> (let s = sr_sems r (nat i); q = set (sem_queue s) in
     0 \<le> i \<and> i < SEM_MAX \<and> sem_valid s \<and> distinct (sem_queue s) \<and> q \<subseteq> inside r \<and> finite (inside r)
     \<and> (\<forall>t\<in>inside r. tstate (sr_tasks r t) = TASK_BLOCKED \<longleftrightarrow> t \<in> q)
     \<and> 0 \<le> sem_value s \<and> sem_value s = v + int (posts r) - int (grants r)
     \<and> (sem_queue s = [] \<or> sem_value s \<le> int (card (inside r - q))))"

lemma sem_invD:
  assumes "sem_inv i v r"
  shows "0 \<le> i" "i < SEM_MAX" "sem_valid (sr_sems r (nat i))" "distinct (sem_queue (sr_sems r (nat i)))"
    "set (sem_queue (sr_sems r (nat i))) \<subseteq> inside r" "finite (inside r)"
    "\<And>t. t \<in> inside r \<Longrightarrow> tstate (sr_tasks r t) = TASK_BLOCKED \<longleftrightarrow> t \<in> set (sem_queue (sr_sems r (nat i)))"
    "0 \<le> sem_value (sr_sems r (nat i))" "sem_value (sr_sems r (nat i)) = v + int (posts r) - int (grants r)"
    "sem_queue (sr_sems r (nat i)) \<noteq> [] \<Longrightarrow> sem_value (sr_sems r (nat i)) \<le> int (card (inside r - set (sem_queue (sr_sems r (nat i)))))"
  using assms by (auto simp: sem_inv_def Let_def)

lemma sem_step_inv: "sem_step i r r' \<Longrightarrow> sem_inv i v r \<Longrightarrow> sem_inv i v r'"
proof (induction rule: sem_step.induct)
  case (enter t r)
  note d = sem_invD [OF enter(3)]
  let ?q = "set (sem_queue (sr_sems r (nat i)))"
  have "t \<notin> ?q" using d(5) enter(1) by auto
  then have "insert t (inside r) - ?q = insert t (inside r - ?q)" by auto
  then have "card (insert t (inside r) - ?q) = Suc (card (inside r - ?q))" using d(6) enter(1) by simp
  then show ?case using d enter \<open>t \<notin> ?q\<close> by (auto simp: sem_inv_def Let_def)
next
  case (leave t r x ts ss)
  note d = sem_invD [OF leave(4)]
  let ?s = "sr_sems r (nat i)"
  have tq: "t \<notin> set (sem_queue ?s)" using d(7) [OF leave(1)] leave(2) by simp
  have rm: "inside r - {t} - set (sem_queue ?s) = inside r - set (sem_queue ?s) - {t}" by auto
  have "t \<in> inside r - set (sem_queue ?s)" using leave(1) tq by simp
  then have cd: "int (card (inside r - set (sem_queue ?s) - {t})) = int (card (inside r - set (sem_queue ?s))) - 1"
    using card_Suc_Diff1 [of "inside r - set (sem_queue ?s)" t] d(6) by simp
  show ?case
  proof (cases "sem_value ?s > 0")
    case True
    then have "x = 0" "ts = sr_tasks r" "ss = (sr_sems r)(nat i := ?s\<lparr>sem_value := sem_value ?s - 1\<rparr>)"
      using leave(3) d by (auto simp: sem_wait_pass_def Let_def)
    then show ?thesis using d tq True cd rm by (auto simp: sem_inv_def Let_def)
  next
    case False
    then have "x = -1" "ts = sr_tasks r" "ss = sr_sems r" using leave(3) d by (auto simp: sem_wait_pass_def Let_def split: if_splits)
    then show ?thesis using d tq False cd rm by (auto simp: sem_inv_def Let_def)
  qed
next
  case (block t r ts ss)
  note d = sem_invD [OF block(4)]
  let ?s = "sr_sems r (nat i)"
  have tq: "t \<notin> set (sem_queue ?s)" using d(7) [OF block(1)] block(2) by simp
  have e: "sem_value ?s \<le> 0" "ts = set_state t TASK_BLOCKED (sr_tasks r)" "ss = (sr_sems r)(nat i := ?s\<lparr>sem_queue := sem_queue ?s @ [t]\<rparr>)"
    using block(3) d by (auto simp: sem_wait_pass_def Let_def split: if_splits)
  then show ?case using d tq block(1) by (auto simp: sem_inv_def Let_def)
next
  case (post r ts ss)
  note d = sem_invD [OF post(2)]
  let ?s = "sr_sems r (nat i)"
  show ?case
  proof (cases "sem_queue ?s")
    case Nil
    then have "ts = sr_tasks r" "ss = (sr_sems r)(nat i := ?s\<lparr>sem_value := sem_value ?s + 1\<rparr>)"
      using post(1) d by (auto simp: sem_post_id_def Let_def)
    then show ?thesis using d Nil by (auto simp: sem_inv_def Let_def)
  next
    case (Cons h q)
    then have e: "ts = set_state h TASK_READY (sr_tasks r)"
      "ss = (sr_sems r)(nat i := ?s\<lparr>sem_value := sem_value ?s + 1, sem_queue := q\<rparr>)"
      using post(1) d by (auto simp: sem_post_id_def Let_def)
    have h: "h \<in> inside r" "h \<notin> set q" "set q \<subseteq> inside r" using d(4,5) Cons by auto
    have "inside r - set q = insert h (inside r - set (sem_queue ?s))" using h Cons by auto
    moreover have "h \<notin> inside r - set (sem_queue ?s)" using Cons by simp
    ultimately have "card (inside r - set q) = Suc (card (inside r - set (sem_queue ?s)))" using d(6) by simp
    then have "sem_value ?s + 1 \<le> int (card (inside r - set q))" using d(10) Cons by simp
    then show ?thesis using d e h Cons by (auto simp: sem_inv_def Let_def)
  qed
qed

definition sem_start :: "int \<Rightarrow> int \<Rightarrow> tasks \<Rightarrow> sem_run" where
  "sem_start i v ts = \<lparr>sr_tasks = ts,
     sr_sems = sem_init_all(nat i := \<lparr>sem_valid = True, sem_value = v, sem_queue = []\<rparr>), inside = {}, posts = 0, grants = 0\<rparr>"



section \<open>What futex-wake wakes\<close>

definition woken_effect :: "nat set \<Rightarrow> tasks \<times> futexes \<Rightarrow> tasks \<times> futexes \<Rightarrow> bool" where
  "woken_effect W c c' \<longleftrightarrow>
     (\<forall>i. fut_slots (snd c') i = (if i \<in> W then (fut_slots (snd c) i)\<lparr>fut_waiter := None, fut_used := False\<rparr> else fut_slots (snd c) i))
     \<and> (\<forall>t. tstate (fst c' t) = (if \<exists>i\<in>W. fut_waiter (fut_slots (snd c) i) = Some t then TASK_READY else tstate (fst c t)))"

lemma fut_match_slot: "fut_slots f i = fut_slots g i \<Longrightarrow> fut_match a asid f i = fut_match a asid g i"
  by (simp add: fut_match_def)

lemma fut_release_slots: "j \<noteq> i \<Longrightarrow> fut_slots (snd (fut_release i c)) j = fut_slots (snd c) j"
  by (simp add: fut_release_def split_beta)

lemma wake_loop_spec:
  "\<lbrakk>wake_loop a asid n i k w c = (r, c'); w \<le> n\<rbrakk> \<Longrightarrow>
     \<exists>W. W \<subseteq> {j. i \<le> j \<and> j < i + k \<and> fut_match a asid (snd c) j} \<and> r = w + int (card W)
       \<and> int (card W) = min (n - w) (int (card {j. i \<le> j \<and> j < i + k \<and> fut_match a asid (snd c) j}))
       \<and> woken_effect W c c' \<and> (\<forall>x\<in>W. \<forall>j. i \<le> j \<and> j < x \<and> fut_match a asid (snd c) j \<longrightarrow> j \<in> W)"
proof (induction k arbitrary: i w c)
  case 0
  have e: "{j. i \<le> j \<and> j < i \<and> fut_match a asid x j} = {}" for x by auto
  show ?case using 0 by (intro exI [of _ "{}"]) (simp add: woken_effect_def e)
next
  case (Suc k)
  let ?M = "{j. i \<le> j \<and> j < i + Suc k \<and> fut_match a asid (snd c) j}"
  have fin: "finite ?M" by (rule finite_subset [of _ "{..<i + Suc k}"]) auto
  consider "w = n" | "w < n" "fut_match a asid (snd c) i" | "w < n" "\<not> fut_match a asid (snd c) i" using Suc.prems(2) by linarith
  then show ?case
  proof cases
    case 1
    then show ?thesis using Suc.prems by (intro exI [of _ "{}"]) (auto simp: woken_effect_def)
  next
    case 3
    have shift: "i \<le> j \<and> Q \<and> fut_match a asid (snd c) j \<longleftrightarrow> Suc i \<le> j \<and> Q \<and> fut_match a asid (snd c) j" for j Q
      using 3(2) by (cases "j = i") auto
    have M: "{j. Suc i \<le> j \<and> j < Suc i + k \<and> fut_match a asid (snd c) j} = ?M"
      using shift by (simp add: add_Suc_right)
    have "wake_loop a asid n (Suc i) k w c = (r, c')" using 3 Suc.prems by simp
    from Suc.IH [OF this Suc.prems(2), unfolded M] show ?thesis by (simp only: shift)
  next
    case 2
    let ?c1 = "fut_release i c"
    let ?M1 = "{j. Suc i \<le> j \<and> j < Suc i + k \<and> fut_match a asid (snd ?c1) j}"
    have same: "fut_match a asid (snd ?c1) j = fut_match a asid (snd c) j" if "i < j" for j
      using that by (intro fut_match_slot fut_release_slots) simp
    have "x \<in> ?M \<longleftrightarrow> x \<in> insert i ?M1" for x
    proof (cases "i < x")
      case True
      then show ?thesis using same [of x] by simp
    next
      case False
      then show ?thesis using 2(2) by auto
    qed
    then have M: "?M = insert i ?M1" "i \<notin> ?M1" by blast simp
    have "finite ?M1" using fin unfolding M(1) by simp
    then have cM: "card ?M = Suc (card ?M1)" unfolding M(1) using M(2) by (rule card_insert_disjoint)
    have "wake_loop a asid n (Suc i) k (w + 1) ?c1 = (r, c')" using 2 Suc.prems by simp
    from Suc.IH [OF this] 2(1) obtain W where W: "W \<subseteq> ?M1" "r = w + 1 + int (card W)"
      "int (card W) = min (n - (w + 1)) (int (card ?M1))" "woken_effect W ?c1 c'"
      "\<forall>x\<in>W. \<forall>j. Suc i \<le> j \<and> j < x \<and> fut_match a asid (snd ?c1) j \<longrightarrow> j \<in> W" by auto
    have "finite ?M1" using fin unfolding M(1) by simp
    then have iW: "i \<notin> W" "finite W" using W(1) M(2) finite_subset by blast+
    then have cW: "card (insert i W) = Suc (card W)" by simp
    obtain t where t: "fut_waiter (fut_slots (snd c) i) = Some t" using 2(2) by (auto simp: fut_match_def)
    have Wne: "j \<noteq> i" if "j \<in> W" for j using that iW by auto
    have eff: "woken_effect (insert i W) c c'"
      unfolding woken_effect_def
    proof (intro conjI allI)
      fix j
      show "fut_slots (snd c') j = (if j \<in> insert i W then (fut_slots (snd c) j)\<lparr>fut_waiter := None, fut_used := False\<rparr> else fut_slots (snd c) j)"
        using W(4) iW by (cases "j = i") (simp_all add: woken_effect_def fut_release_def split_beta)
      fix u
      have "tstate (fst ?c1 u) = (if u = t then TASK_READY else tstate (fst c u))" by (simp add: fut_release_def split_beta t)
      moreover have "(\<exists>x\<in>W. fut_waiter (fut_slots (snd ?c1) x) = Some u) = (\<exists>x\<in>W. fut_waiter (fut_slots (snd c) x) = Some u)"
        using fut_release_slots [of _ i c] Wne by auto
      ultimately show "tstate (fst c' u) = (if \<exists>x\<in>insert i W. fut_waiter (fut_slots (snd c) x) = Some u then TASK_READY else tstate (fst c u))"
        using W(4) t by (auto simp: woken_effect_def)
    qed
    have order: "\<forall>x\<in>insert i W. \<forall>j. i \<le> j \<and> j < x \<and> fut_match a asid (snd c) j \<longrightarrow> j \<in> insert i W"
    proof (intro ballI allI impI)
      fix x j
      assume x: "x \<in> insert i W" and j: "i \<le> j \<and> j < x \<and> fut_match a asid (snd c) j"
      show "j \<in> insert i W"
      proof (cases "j = i")
        case False
        then have "i < j" "x \<in> W" using x j by auto
        then show ?thesis using W(5) same [of j] j by (simp add: Suc_le_eq)
      qed simp
    qed
    have "insert i W \<subseteq> ?M" using W(1) M(1) by blast
    moreover have "r = w + int (card (insert i W))" using W(2) cW by simp
    moreover have "int (card (insert i W)) = min (n - w) (int (card ?M))" using W(3) cW cM by linarith
    ultimately show ?thesis using eff order by (intro exI [of _ "insert i W"] conjI)
  qed
qed

text \<open>\<open>futex_wake\<close> reports exactly how many waiters it woke: the number asked for or all there are on this address
  in this address space, lowest slots first; their slots are freed and they become ready, and no other slot
  and no other task is touched.\<close>

theorem futex_wake_exact:
  assumes "futex_on f" "a \<noteq> 0" "0 < n" "futex_wake a n (Some me) (ts, f) = (r, ts', f')"
  shows "\<exists>W \<subseteq> {i. i < FUTEX_MAX \<and> fut_match a (cr3 (ts me)) f i}.
    r = int (card W) \<and> r = min n (int (card {i. i < FUTEX_MAX \<and> fut_match a (cr3 (ts me)) f i})) \<and>
    (\<forall>x\<in>W. \<forall>i<x. fut_match a (cr3 (ts me)) f i \<longrightarrow> i \<in> W) \<and> woken_effect W (ts, f) (ts', f')"
proof -
  let ?M = "{i. i < FUTEX_MAX \<and> fut_match a (cr3 (ts me)) f i}"
  have le: "card ?M \<le> 16" using card_upto_le [of 16 "fut_match a (cr3 (ts me)) f"] by simp
  have "wake_loop a (cr3 (ts me)) (min n 16) 0 FUTEX_MAX 0 (ts, f) = (r, ts', f')"
    using assms by (simp add: futex_wake_def Let_def min_def split: if_splits)
  from wake_loop_spec [OF this] assms(3) obtain W where "W \<subseteq> ?M" "r = int (card W)"
    "int (card W) = min (min n 16) (int (card ?M))" "woken_effect W (ts, f) (ts', f')"
    "\<forall>x\<in>W. \<forall>j. j < x \<and> fut_match a (cr3 (ts me)) f j \<longrightarrow> j \<in> W" by auto
  then show ?thesis using le by (intro exI [of _ W]) auto
qed

definition one_waiter :: "tasks \<times> futexes" where
  "one_waiter = (\<lambda>_. task_zero, \<lparr>fut_slots = (\<lambda>i. if i = 0
     then \<lparr>fut_used = True, fut_uaddr = 0x400000, fut_asid = 0, fut_waiter = Some 7\<rparr>
     else \<lparr>fut_used = False, fut_uaddr = 0, fut_asid = 0, fut_waiter = None\<rparr>), futex_on = True\<rparr>)"

theorem futex_wake_exact_witness:
  "fst (futex_wake 0x400000 3 (Some 1) one_waiter) = 1"
proof -
  let ?f = "snd one_waiter" and ?ts = "fst one_waiter"
  obtain r ts' f' where w: "futex_wake 0x400000 3 (Some 1) (?ts, ?f) = (r, ts', f')" by (metis prod_cases3)
  have on: "futex_on ?f" by code_simp
  have m: "fut_match 0x400000 (cr3 (?ts 1)) ?f i = (i = 0)" for i
    by (simp add: one_waiter_def fut_match_def task_zero_def)
  have M: "{i. i < FUTEX_MAX \<and> fut_match 0x400000 (cr3 (?ts 1)) ?f i} = {0}" by (simp only: m) auto
  have "(0x400000 :: u32) \<noteq> 0" "0 < (3 :: int)" by simp_all
  from futex_wake_exact [OF on this w] have "r = min 3 (int (card {0 :: nat}))" by (elim exE conjE) (simp only: M)
  then have "r = 1" by simp
  then show ?thesis using w by simp
qed

section \<open>Waking the dead\<close>

text \<open>Wake-ups set the state without looking at it.  A task killed while it waits stays in the queue, and the next post makes
  it ready again; likewise in a futex slot.\<close>

theorem sem_post_revives:
  assumes "0 \<le> i" "i < SEM_MAX" "sem_valid (ss (nat i))" "sem_queue (ss (nat i)) = t # q" "tstate (ts t) = TASK_DEAD"
  shows "tstate (fst (snd (sem_post_id i (ts, ss))) t) = TASK_READY"
  using assms by (simp add: sem_post_id_def Let_def)

text \<open>A waiter that a signal makes ready queues itself again when it finds no unit: it is in the queue twice.\<close>

theorem sem_waiter_twice:
  assumes "0 \<le> i" "i < SEM_MAX" "sem_valid (ss (nat i))" "sem_queue (ss (nat i)) = [t]" "sem_value (ss (nat i)) = 0"
  shows "sem_queue (snd (snd (sem_wait_pass i t (ts, ss))) (nat i)) = [t, t]"
  using assms by (simp add: sem_wait_pass_def Let_def)

end
