(* ===== verification/Vm.thy ===== *)
theory Vm
  imports Proc Pmm "HOL-Library.Monad_Syntax"
begin

text \<open>
  Virtual memory: the page tables (\<open>kernel/memory/paging.c\<close>), the areas of \<open>mmap\<close> (\<open>memory/mmap.c\<close>), the heap
  break (\<open>memory/brk.c\<close>) and the page loops of \<open>fork_task\<close> and \<open>task_clone_thread\<close>.  The state \<open>vm\<close> is the
  physical memory (a frame number and the index of a 32-bit word in the frame), the register CR3, the frame
  allocator and the global \<open>mmap_next\<close>.  The kernel reaches page tables only through virtual addresses: the
  recursive entry 1023 and the scratch window at \<open>0xF8000000\<close>.  So every access of the model goes through the
  two-level walk \<open>mmu\<close>, and an access to an address that is not mapped is \<open>None\<close>: the ring-0 page fault ends in
  \<open>cli; hlt\<close>, the machine has stopped.  Protection bits do not restrict the kernel (CR0.WP is never set).
  The TLB is not modelled: each change is followed by an invalidation of the page.  A processor's current task
  is an argument.
\<close>

abbreviation PAGE_PRESENT :: u32 where "PAGE_PRESENT \<equiv> 1"
abbreviation PAGE_RW :: u32 where "PAGE_RW \<equiv> 2"
abbreviation PAGE_USER :: u32 where "PAGE_USER \<equiv> 4"
abbreviation PAGE_COW :: u32 where "PAGE_COW \<equiv> 0x200"
abbreviation PAGE_RECURSIVE_BASE :: u32 where "PAGE_RECURSIVE_BASE \<equiv> 0xFFC00000"
abbreviation PAGE_DIR_SELF :: u32 where "PAGE_DIR_SELF \<equiv> 0xFFFFF000"
abbreviation SCRATCH_VADDR :: u32 where "SCRATCH_VADDR \<equiv> 0xF8000000"
abbreviation SCRATCH_DIR :: nat where "SCRATCH_DIR \<equiv> 992"
abbreviation FRAME_MASK :: u32 where "FRAME_MASK \<equiv> 0xFFFFF000"

type_synonym page = "nat \<Rightarrow> u32"

record vm =
  frames :: "nat \<Rightarrow> page"
  loaded :: u32
  vpmm :: pmm
  mmap_next :: u32

section \<open>The memory management unit\<close>

definition fno :: "u32 \<Rightarrow> nat" where
  "fno x = unat (drop_bit 12 x)"

definition dir_idx :: "u32 \<Rightarrow> nat" where
  "dir_idx va = unat (drop_bit 22 va)"

definition tbl_idx :: "u32 \<Rightarrow> nat" where
  "tbl_idx va = unat (drop_bit 12 va AND 0x3FF)"

definition word_idx :: "u32 \<Rightarrow> nat" where
  "word_idx va = unat (drop_bit 2 va AND 0x3FF)"

definition present :: "u32 \<Rightarrow> bool" where
  "present e \<longleftrightarrow> e AND PAGE_PRESENT \<noteq> 0"

definition mmu :: "vm \<Rightarrow> u32 \<Rightarrow> nat option" where
  "mmu v va =
     (let pde = frames v (fno (loaded v)) (dir_idx va) in
      if \<not> present pde then None
      else let pte = frames v (fno pde) (tbl_idx va) in
        if present pte then Some (fno pte) else None)"

definition set_word :: "nat \<Rightarrow> nat \<Rightarrow> u32 \<Rightarrow> vm \<Rightarrow> vm" where
  "set_word f i x v = v\<lparr>frames := (frames v)(f := (frames v f)(i := x))\<rparr>"

definition set_frame :: "nat \<Rightarrow> page \<Rightarrow> vm \<Rightarrow> vm" where
  "set_frame f pg v = v\<lparr>frames := (frames v)(f := pg)\<rparr>"

definition rd :: "u32 \<Rightarrow> vm \<Rightarrow> u32 option" where
  "rd va v = map_option (\<lambda>f. frames v f (word_idx va)) (mmu v va)"

definition wr :: "u32 \<Rightarrow> u32 \<Rightarrow> vm \<Rightarrow> vm option" where
  "wr va x v = map_option (\<lambda>f. set_word f (word_idx va) x v) (mmu v va)"

text \<open>A whole page, \<open>memset(p, 0, 4096)\<close> and \<open>memcpy\<close> of 4096 bytes at a page boundary.\<close>

definition rd_page :: "u32 \<Rightarrow> vm \<Rightarrow> page option" where
  "rd_page va v = map_option (frames v) (mmu v va)"

definition wr_page :: "u32 \<Rightarrow> page \<Rightarrow> vm \<Rightarrow> vm option" where
  "wr_page va pg v = map_option (\<lambda>f. set_frame f pg v) (mmu v va)"

definition zero_page :: page where
  "zero_page = (\<lambda>_. 0)"

definition alloc :: "vm \<Rightarrow> u32 \<times> vm" where
  "alloc v = (case pmm_alloc_frame (vpmm v) of (f, p) \<Rightarrow> (f, v\<lparr>vpmm := p\<rparr>))"

definition on_pmm :: "(pmm \<Rightarrow> pmm) \<Rightarrow> vm \<Rightarrow> vm" where
  "on_pmm g v = v\<lparr>vpmm := g (vpmm v)\<rparr>"

fun each :: "('a \<Rightarrow> 'b \<Rightarrow> 'b option) \<Rightarrow> 'a list \<Rightarrow> 'b \<Rightarrow> 'b option" where
  "each f [] s = Some s"
| "each f (x # xs) s = (case f x s of None \<Rightarrow> None | Some s1 \<Rightarrow> each f xs s1)"

section \<open>Page tables\<close>

text \<open>\<open>&cur_pd()[i]\<close> and \<open>&cur_table(d)[t]\<close>.\<close>

definition pd_at :: "nat \<Rightarrow> u32" where
  "pd_at i = PAGE_DIR_SELF + 4 * of_nat i"

definition table_at :: "nat \<Rightarrow> nat \<Rightarrow> u32" where
  "table_at d t = PAGE_RECURSIVE_BASE + of_nat d * 4096 + 4 * of_nat t"

definition paging_get_phys_current :: "u32 \<Rightarrow> vm \<Rightarrow> u32 option" where
  "paging_get_phys_current va v =
     do { pde \<leftarrow> rd (pd_at (dir_idx va)) v;
          if \<not> present pde then Some 0
          else do { pte \<leftarrow> rd (table_at (dir_idx va) (tbl_idx va)) v;
                    if \<not> present pte then Some 0
                    else Some ((pte AND FRAME_MASK) OR (va AND 0xFFF)) } }"

definition paging_get_phys :: "u32 \<Rightarrow> vm \<Rightarrow> u32 option" where
  "paging_get_phys va v = paging_get_phys_current va v"

definition paging_get_pte_flags :: "u32 \<Rightarrow> vm \<Rightarrow> u32 option" where
  "paging_get_pte_flags va v =
     do { pde \<leftarrow> rd (pd_at (dir_idx va)) v;
          if \<not> present pde then Some 0
          else do { pte \<leftarrow> rd (table_at (dir_idx va) (tbl_idx va)) v; Some (pte AND 0xFFF) } }"

text \<open>\<open>paging_scratch_phys\<close>: first the table of the window, allocated on demand (\<open>False\<close>: no frame),
  then the entry; the result is the address of the window, or the null pointer.\<close>

definition scratch_table :: "vm \<Rightarrow> (bool \<times> vm) option" where
  "scratch_table v =
     do { pde \<leftarrow> rd (pd_at (dir_idx SCRATCH_VADDR)) v;
          if present pde then Some (True, v)
          else case alloc v of (f, v1) \<Rightarrow>
            if f = 0 then Some (False, v1)
            else do { v2 \<leftarrow> wr (pd_at (dir_idx SCRATCH_VADDR)) (f OR PAGE_PRESENT OR PAGE_RW) v1;
                      v3 \<leftarrow> wr_page (table_at (dir_idx SCRATCH_VADDR) 0) zero_page v2;
                      Some (True, v3) } }"

definition paging_scratch_phys :: "u32 \<Rightarrow> vm \<Rightarrow> (u32 \<times> vm) option" where
  "paging_scratch_phys phys v =
     do { (ok, v1) \<leftarrow> scratch_table v;
          if \<not> ok then Some (0, v1)
          else do { v2 \<leftarrow> wr (table_at (dir_idx SCRATCH_VADDR) (tbl_idx SCRATCH_VADDR))
                            ((phys AND FRAME_MASK) OR PAGE_PRESENT OR PAGE_RW) v1;
                    Some (SCRATCH_VADDR, v2) } }"

text \<open>\<open>paging_map\<close> and \<open>paging_unmap\<close> edit the boot directory at its own address \<open>kpd\<close>.\<close>

definition paging_map :: "u32 \<Rightarrow> u32 \<Rightarrow> u32 \<Rightarrow> u32 \<Rightarrow> vm \<Rightarrow> vm option" where
  "paging_map kpd virt phys flags v =
     do { pde \<leftarrow> rd (kpd + 4 * of_nat (dir_idx virt)) v;
          (t, v1) \<leftarrow>
            (if present pde then Some (pde AND FRAME_MASK, v)
             else case alloc v of (f, v1) \<Rightarrow>
               if f = 0 then None
               else do { (p, v2) \<leftarrow> paging_scratch_phys f v1;
                         v3 \<leftarrow> wr_page p zero_page v2;
                         v4 \<leftarrow> wr (kpd + 4 * of_nat (dir_idx virt))
                                 (f OR PAGE_PRESENT OR PAGE_RW OR (flags AND PAGE_USER)) v3;
                         Some (f, v4) });
          (p, v2) \<leftarrow> paging_scratch_phys t v1;
          wr (p + 4 * of_nat (tbl_idx virt)) ((phys AND FRAME_MASK) OR (flags AND 0xFFF) OR PAGE_PRESENT) v2 }"

definition paging_unmap :: "u32 \<Rightarrow> u32 \<Rightarrow> vm \<Rightarrow> vm option" where
  "paging_unmap kpd virt v =
     do { pde \<leftarrow> rd (kpd + 4 * of_nat (dir_idx virt)) v;
          if \<not> present pde then Some v
          else wr ((pde AND FRAME_MASK) + 4 * of_nat (tbl_idx virt)) 0 v }"

definition share_entry :: "nat \<Rightarrow> vm \<Rightarrow> vm option" where
  "share_entry i v =
     (if i = dir_idx SCRATCH_VADDR then Some v
      else do { e \<leftarrow> rd (pd_at i) v;
                if present e \<and> e AND PAGE_USER = 0
                then wr (SCRATCH_VADDR + 4 * of_nat i) e v else Some v })"

definition paging_create_space :: "vm \<Rightarrow> (u32 \<times> vm) option" where
  "paging_create_space v =
     (case alloc v of (f, v1) \<Rightarrow>
      if f = 0 then Some (0, v1)
      else do { (p, v2) \<leftarrow> paging_scratch_phys f v1;
                if p = 0 then Some (0, on_pmm (pmm_free_frame f) v2)
                else do { v3 \<leftarrow> wr_page p zero_page v2;
                          v4 \<leftarrow> each share_entry [0..<1023] v3;
                          v5 \<leftarrow> wr (p + 4 * 1023) (f OR PAGE_PRESENT OR PAGE_RW) v4;
                          Some (f, v5) } })"

definition paging_switch_space :: "u32 \<Rightarrow> vm \<Rightarrow> vm" where
  "paging_switch_space c v = v\<lparr>loaded := c\<rparr>"

text \<open>\<open>paging_map_in_space\<close>: through the recursive entry when \<open>c\<close> is the loaded directory, through the scratch
  window otherwise.  Out of memory it returns without a word.\<close>

definition map_here :: "u32 \<Rightarrow> u32 \<Rightarrow> u32 \<Rightarrow> vm \<Rightarrow> vm option" where
  "map_here virt pte flags v =
     do { pde \<leftarrow> rd (pd_at (dir_idx virt)) v;
          if present pde then wr (table_at (dir_idx virt) (tbl_idx virt)) pte v
          else case alloc v of (f, v1) \<Rightarrow>
            if f = 0 then Some v1
            else do { v2 \<leftarrow> wr (pd_at (dir_idx virt)) (f OR PAGE_PRESENT OR PAGE_RW OR (flags AND PAGE_USER)) v1;
                      v3 \<leftarrow> wr_page (table_at (dir_idx virt) 0) zero_page v2;
                      wr (table_at (dir_idx virt) (tbl_idx virt)) pte v3 } }"

definition put_entry :: "u32 \<Rightarrow> nat \<Rightarrow> u32 \<Rightarrow> vm \<Rightarrow> vm option" where
  "put_entry tphys i pte v =
     do { (p, v1) \<leftarrow> paging_scratch_phys tphys v;
          if p = 0 then Some v1 else wr (p + 4 * of_nat i) pte v1 }"

definition map_there :: "u32 \<Rightarrow> u32 \<Rightarrow> u32 \<Rightarrow> u32 \<Rightarrow> vm \<Rightarrow> vm option" where
  "map_there c virt pte flags v =
     do { (p, v1) \<leftarrow> paging_scratch_phys c v;
          if p = 0 then Some v1
          else do { pde \<leftarrow> rd (p + 4 * of_nat (dir_idx virt)) v1;
            if present pde then put_entry (pde AND FRAME_MASK) (tbl_idx virt) pte v1
            else case alloc v1 of (f, v2) \<Rightarrow>
              if f = 0 then Some v2
              else do { (p, v3) \<leftarrow> paging_scratch_phys f v2;
                if p = 0 then Some v3
                else do { v4 \<leftarrow> wr_page p zero_page v3;
                          (p, v5) \<leftarrow> paging_scratch_phys c v4;
                          if p = 0 then Some v5
                          else do { v6 \<leftarrow> wr (p + 4 * of_nat (dir_idx virt))
                                      (f OR PAGE_PRESENT OR PAGE_RW OR (flags AND PAGE_USER)) v5;
                                    put_entry f (tbl_idx virt) pte v6 } } } } }"

definition paging_map_in_space :: "u32 \<Rightarrow> u32 \<Rightarrow> u32 \<Rightarrow> u32 \<Rightarrow> vm \<Rightarrow> vm option" where
  "paging_map_in_space c virt phys flags v =
     (let pte = (phys AND FRAME_MASK) OR PAGE_PRESENT OR (flags AND 0xFFF) in
      if c = loaded v then map_here virt pte flags v else map_there c virt pte flags v)"

definition paging_unmap_in_space :: "u32 \<Rightarrow> u32 \<Rightarrow> vm \<Rightarrow> vm option" where
  "paging_unmap_in_space c virt v =
     (if c = loaded v then
        do { pde \<leftarrow> rd (pd_at (dir_idx virt)) v;
             if \<not> present pde then Some v else wr (table_at (dir_idx virt) (tbl_idx virt)) 0 v }
      else
        do { (p, v1) \<leftarrow> paging_scratch_phys c v;
             if p = 0 then Some v1
             else do { pde \<leftarrow> rd (p + 4 * of_nat (dir_idx virt)) v1;
                       if \<not> present pde then Some v1
                       else put_entry (pde AND FRAME_MASK) (tbl_idx virt) 0 v1 } })"

text \<open>\<open>paging_init\<close>, before paging is on: the directory \<open>kpd\<close> and the two identity tables are written at their
  physical addresses.\<close>

definition paging_init :: "u32 \<Rightarrow> u32 \<Rightarrow> u32 \<Rightarrow> vm \<Rightarrow> vm" where
  "paging_init kpd fpt kpt v =
     (let v1 = set_frame (fno kpt) (\<lambda>i. (0x400000 + of_nat i * 4096) OR PAGE_PRESENT OR PAGE_RW)
                 (set_frame (fno fpt) (\<lambda>i. (of_nat i * 4096) OR PAGE_PRESENT OR PAGE_RW)
                   (set_frame (fno kpd) zero_page v));
          v2 = set_word (fno kpd) 0 (fpt OR PAGE_PRESENT OR PAGE_RW) v1;
          v3 = set_word (fno kpd) 1 (kpt OR PAGE_PRESENT OR PAGE_RW) v2;
          v4 = set_word (fno kpd) 1023 (kpd OR PAGE_PRESENT OR PAGE_RW) v3
      in v4\<lparr>loaded := kpd\<rparr>)"

section \<open>Areas\<close>

abbreviation PROT_READ :: u32 where "PROT_READ \<equiv> 1"
abbreviation PROT_WRITE :: u32 where "PROT_WRITE \<equiv> 2"
abbreviation MAP_FIXED :: u32 where "MAP_FIXED \<equiv> 0x10"
abbreviation MAP_ANONYMOUS :: u32 where "MAP_ANONYMOUS \<equiv> 0x20"
abbreviation MAP_FAILED :: u32 where "MAP_FAILED \<equiv> - 1"
abbreviation MMAP_BASE :: u32 where "MMAP_BASE \<equiv> 0x3000000"
abbreviation MMAP_MAX :: u32 where "MMAP_MAX \<equiv> 0x4000000"

text \<open>The addresses visited by \<open>for (va = a; va < e; va += 0x1000)\<close>.\<close>

definition pages_between :: "u32 \<Rightarrow> u32 \<Rightarrow> u32 list" where
  "pages_between a e = map (\<lambda>i. a + of_nat i * 0x1000) [0..<(unat e - unat a + 4095) div 4096]"

definition find_vma :: "vm_area list \<Rightarrow> u32 \<Rightarrow> vm_area option" where
  "find_vma vs va = find (\<lambda>w. va \<ge> vm_start w \<and> va < vm_end w) vs"

definition vma_overlap :: "vm_area list \<Rightarrow> u32 \<Rightarrow> u32 \<Rightarrow> bool" where
  "vma_overlap vs start len = list_ex (\<lambda>w. \<not> (start + len \<le> vm_start w \<or> start \<ge> vm_end w)) vs"

fun mmap_place :: "nat \<Rightarrow> u32 \<Rightarrow> vm_area list \<Rightarrow> u32 \<Rightarrow> u32 option" where
  "mmap_place 0 len vs start = Some start"
| "mmap_place (Suc n) len vs start =
     (if \<not> vma_overlap vs start len then Some start
      else let s = start + 0x100000 in if s + len \<ge> MMAP_MAX then None else mmap_place n len vs s)"

text \<open>\<open>node\<close>: whether \<open>kmalloc(sizeof(struct vm_area))\<close> succeeds.\<close>

definition sys_mmap :: "u32 \<Rightarrow> u32 \<Rightarrow> u32 \<Rightarrow> u32 \<Rightarrow> int \<Rightarrow> u32 \<Rightarrow> bool \<Rightarrow> task option \<Rightarrow> vm
    \<Rightarrow> u32 \<times> task option \<times> vm" where
  "sys_mmap addr len0 prot flags fd off node cur v =
     (case cur of None \<Rightarrow> (MAP_FAILED, cur, v) | Some t \<Rightarrow>
      if cr3 t = 0 then (MAP_FAILED, cur, v)
      else if len0 = 0 then (MAP_FAILED, cur, v)
      else
        let len = page_up len0;
            (start, v1) =
              (if flags AND MAP_FIXED \<noteq> 0 \<and> addr \<noteq> 0 then (Some (page_down addr), v)
               else let nx = mmap_next v + len
                    in (mmap_place 8 len (vmas t) (mmap_next v),
                        v\<lparr>mmap_next := (if nx \<ge> MMAP_MAX then MMAP_BASE else nx)\<rparr>))
        in (case start of None \<Rightarrow> (MAP_FAILED, cur, v1) | Some a \<Rightarrow>
            if \<not> node then (MAP_FAILED, cur, v1)
            else let w = \<lparr>vm_start = a, vm_end = a + len, vm_prot = prot, vm_flags = flags, vm_fd = fd,
                          vm_file_offset = off\<rparr>
                 in (a, Some (task_add_region a (len div 0x1000) (t\<lparr>vmas := w # vmas t\<rparr>)), v1)))"

definition release_page :: "u32 \<Rightarrow> u32 \<Rightarrow> vm \<Rightarrow> vm option" where
  "release_page c va v =
     do { phys \<leftarrow> paging_get_phys va v;
          if phys \<noteq> 0 then paging_unmap_in_space c va (on_pmm (pmm_free_frame (page_down phys)) v)
          else Some v }"

definition sys_munmap :: "u32 \<Rightarrow> u32 \<Rightarrow> task option \<Rightarrow> vm \<Rightarrow> (int \<times> task option \<times> vm) option" where
  "sys_munmap addr0 len0 cur v =
     (case cur of None \<Rightarrow> Some (-1, cur, v) | Some t \<Rightarrow>
      let addr = page_down addr0; len = page_up len0 in
      case find (\<lambda>w. vm_start w = addr \<and> vm_end w = addr + len) (vmas t) of
        None \<Rightarrow> Some (-1, cur, v)
      | Some w \<Rightarrow> do { v1 \<leftarrow> each (release_page (cr3 t)) (pages_between addr (addr + len)) v;
                       Some (0, Some (t\<lparr>vmas := remove1 w (vmas t)\<rparr>), v1) })"

text \<open>The bytes a file-backed fault copies: at most the rest of one 512-byte block.\<close>

definition le_page :: "(nat \<Rightarrow> u8) \<Rightarrow> page" where
  "le_page b = (\<lambda>i. ucast (b (4 * i)) OR push_bit 8 (ucast (b (4 * i + 1)))
     OR push_bit 16 (ucast (b (4 * i + 2))) OR push_bit 24 (ucast (b (4 * i + 3))))"

definition file_bytes :: "vm_area \<Rightarrow> u32 \<Rightarrow> task \<Rightarrow> fsys \<Rightarrow> nat \<Rightarrow> u8" where
  "file_bytes w page_va t fs =
     (let file_off = unat (vm_file_offset w + (page_va - vm_start w));
          blk_idx = file_off div 512; blk_off = file_off mod 512; e = fd_table t (nat (vm_fd w)) in
      if vm_fd w \<ge> 0 \<and> vm_fd w < 16 \<and> fd_valid e \<and> fd_inode e \<ge> 0 \<and> fd_inode e < 64
         \<and> iused fs (nat (fd_inode e)) \<and> blk_idx < CHFS_DATABLOCKS
      then let blk = iblocks (inodes fs (nat (fd_inode e))) blk_idx in
        if valid_blk blk then (\<lambda>j. if j < 512 - blk_off then pool fs (nat blk) (blk_off + j) else 0)
        else (\<lambda>_. 0)
      else (\<lambda>_. 0))"

definition fresh_page :: "u32 \<Rightarrow> page \<Rightarrow> vm \<Rightarrow> vm option" where
  "fresh_page f pg v =
     do { (p, v1) \<leftarrow> paging_scratch_phys f v; wr_page p pg v1 }"

definition mmap_handle_fault :: "u32 \<Rightarrow> bool \<Rightarrow> task option \<Rightarrow> fsys \<Rightarrow> vm \<Rightarrow> (bool \<times> vm) option" where
  "mmap_handle_fault va writing cur fs v =
     (case cur of None \<Rightarrow> Some (False, v) | Some t \<Rightarrow>
      if cr3 t = 0 then Some (False, v)
      else case find_vma (vmas t) (page_down va) of None \<Rightarrow> Some (False, v)
      | Some w \<Rightarrow>
          if writing \<and> vm_prot w AND PROT_WRITE = 0 then Some (False, v)
          else let page_va = page_down va;
                   fl = (if vm_prot w AND PROT_WRITE \<noteq> 0 then PAGE_USER OR PAGE_RW else PAGE_USER) in
            (case alloc v of (f, v1) \<Rightarrow>
              if f = 0 then Some (False, v1)
              else do { v2 \<leftarrow> fresh_page f
                          (if vm_flags w AND MAP_ANONYMOUS = 0 \<and> vm_fd w \<ge> 0
                           then le_page (file_bytes w page_va t fs) else zero_page) v1;
                        v3 \<leftarrow> paging_map_in_space (cr3 t) page_va f fl v2;
                        Some (True, v3) }))"

section \<open>Page faults\<close>

datatype fault_result = FaultResume | FaultKill | FaultHalt

definition demand_fault :: "u32 \<Rightarrow> bool \<Rightarrow> task option \<Rightarrow> fsys \<Rightarrow> vm \<Rightarrow> (bool \<times> vm) option" where
  "demand_fault va writing ft fs v =
     (case ft of None \<Rightarrow> Some (False, v) | Some t \<Rightarrow>
      do { (done, v1) \<leftarrow> mmap_handle_fault va writing ft fs v;
           if done then Some (True, v1)
           else if cr3 t \<noteq> 0 \<and> (va \<ge> 0x1400000 \<and> va < 0x1404000
                \<or> list_ex (\<lambda>(b, pages). va \<ge> b \<and> va < b + pages * 0x1000) (user_regions t))
           then (case alloc v1 of (f, v2) \<Rightarrow>
             if f = 0 then Some (False, v2)
             else do { v3 \<leftarrow> fresh_page f zero_page v2;
                       v4 \<leftarrow> paging_map_in_space (cr3 t) va f (PAGE_USER OR PAGE_RW) v3;
                       Some (True, v4) })
           else Some (False, v1) })"

definition cow_fault :: "u32 \<Rightarrow> u32 \<Rightarrow> task option \<Rightarrow> vm \<Rightarrow> (bool \<times> vm) option" where
  "cow_fault va fl ft v =
     do { old_phys \<leftarrow> paging_get_phys va v;
          let old = page_down old_phys;
          let new_fl = (fl AND NOT PAGE_COW) OR PAGE_RW;
          let c = (case ft of None \<Rightarrow> loaded v | Some t \<Rightarrow> cr3 t);
          if pmm_get_ref old (vpmm v) > 1
          then (case alloc v of (f, v1) \<Rightarrow>
            if f = 0 then Some (False, v1)
            else do { (src, v2) \<leftarrow> paging_scratch_phys old v1;
                      tmp \<leftarrow> rd_page src v2;
                      (dst, v3) \<leftarrow> paging_scratch_phys f v2;
                      v4 \<leftarrow> wr_page dst tmp v3;
                      v5 \<leftarrow> paging_map_in_space c va f new_fl (on_pmm (pmm_dec_ref old) v4);
                      Some (True, v5) })
          else do { v1 \<leftarrow> paging_map_in_space c va old new_fl v; Some (True, v1) } }"

definition page_fault_handler :: "u32 \<Rightarrow> u32 \<Rightarrow> task option \<Rightarrow> fsys \<Rightarrow> vm \<Rightarrow> (fault_result \<times> vm) option" where
  "page_fault_handler cr2 err ft fs v =
     (let np = (err AND 1 = 0); rw = (err AND 2 \<noteq> 0); us = (err AND 4 \<noteq> 0);
          die = (if us \<and> ft \<noteq> None then FaultKill else FaultHalt);
          va = page_down cr2 in
      if \<not> us then Some (die, v)
      else do { fl \<leftarrow> paging_get_pte_flags va v;
                let is_cow = (fl AND PAGE_COW \<noteq> 0 \<and> fl AND PAGE_PRESENT \<noteq> 0);
                (done, v1) \<leftarrow> (if np \<and> \<not> is_cow then demand_fault va rw ft fs v else Some (False, v));
                if done then Some (FaultResume, v1)
                else if is_cow \<and> rw
                then do { (done, v2) \<leftarrow> cow_fault va fl ft v1;
                          Some (if done then FaultResume else die, v2) }
                else Some (die, v1) })"

section \<open>The heap break\<close>

abbreviation BRK_BASE :: u32 where "BRK_BASE \<equiv> 0x5000000"
abbreviation BRK_MAX :: u32 where "BRK_MAX \<equiv> 0x6000000"

text \<open>The growing loop, over the pages it visits; \<open>Some va\<close>: it broke off there for lack of a frame.\<close>

fun brk_grow :: "u32 list \<Rightarrow> task \<times> vm \<Rightarrow> (u32 option \<times> task \<times> vm) option" where
  "brk_grow [] (t, v) = Some (None, t, v)"
| "brk_grow (va # vas) (t, v) =
     do { phys \<leftarrow> paging_get_phys va v;
          if phys \<noteq> 0 then brk_grow vas (t, v)
          else case alloc v of (f, v1) \<Rightarrow>
            if f = 0 then Some (Some va, t, v1)
            else do { v2 \<leftarrow> paging_map_in_space (cr3 t) va f (PAGE_PRESENT OR PAGE_RW OR PAGE_USER) v1;
                      v3 \<leftarrow> wr_page va zero_page v2;
                      brk_grow vas (task_add_region va 1 t, v3) } }"

definition sys_brk :: "u32 \<Rightarrow> task option \<Rightarrow> vm \<Rightarrow> (u32 \<times> task option \<times> vm) option" where
  "sys_brk new_brk cur v =
     (case cur of None \<Rightarrow> Some (0, cur, v) | Some t0 \<Rightarrow>
      if cr3 t0 = 0 then Some (0, cur, v)
      else let t = (if brk_base t0 = 0 then t0\<lparr>brk_base := BRK_BASE, brk_cur := BRK_BASE\<rparr> else t0);
               old = brk_cur t in
        if new_brk = 0 then Some (old, Some t, v)
        else if new_brk < BRK_BASE \<or> new_brk > BRK_MAX then Some (old, Some t, v)
        else if new_brk > old then
          do { (stop, t1, v1) \<leftarrow> brk_grow (pages_between (page_down old) new_brk) (t, v);
               let b = (case stop of None \<Rightarrow> new_brk | Some va \<Rightarrow> va);
               Some (b, Some (t1\<lparr>brk_cur := b\<rparr>), v1) }
        else if new_brk < old then
          do { v1 \<leftarrow> each (release_page (cr3 t)) (pages_between (page_up new_brk) (page_up old)) v;
               Some (new_brk, Some (t\<lparr>brk_cur := new_brk\<rparr>), v1) }
        else Some (old, Some t, v))"

section \<open>Fork and clone\<close>

definition fork_page :: "u32 \<Rightarrow> u32 \<Rightarrow> u32 \<Rightarrow> vm \<Rightarrow> vm option" where
  "fork_page child parent va v =
     do { phys \<leftarrow> paging_get_phys va v;
          if phys = 0 then Some v
          else do { fl \<leftarrow> paging_get_pte_flags va v;
                    let f = page_down phys;
                    let new_fl = (fl OR PAGE_COW) AND NOT PAGE_RW OR PAGE_PRESENT OR PAGE_USER;
                    v1 \<leftarrow> paging_map_in_space child va f new_fl (on_pmm (pmm_inc_ref f) v);
                    paging_map_in_space parent va f new_fl v1 } }"

definition region_pages :: "(u32 \<times> u32) list \<Rightarrow> u32 list" where
  "region_pages rs = concat (map (\<lambda>(b, n). map (\<lambda>i. b + of_nat i * 0x1000) [0..<unat n]) rs)"

definition fork_pages :: "u32 \<Rightarrow> task \<Rightarrow> vm \<Rightarrow> vm option" where
  "fork_pages child parent v = each (fork_page child (cr3 parent)) (region_pages (user_regions parent)) v"

text \<open>\<open>clone_pmap_thread_stack\<close>: the page of the stack pointer and the one below it (only the first when that
  would be page 0).  Source and destination of the copy are the same window.\<close>

definition clone_stack_page :: "u32 \<Rightarrow> u32 \<Rightarrow> vm \<Rightarrow> vm option" where
  "clone_stack_page c va v =
     do { fl \<leftarrow> paging_get_pte_flags va v;
          phys \<leftarrow> paging_get_phys va v;
          if fl AND PAGE_PRESENT \<noteq> 0 \<and> fl AND PAGE_COW \<noteq> 0 then
            (let old = page_down phys in case alloc v of (f, v1) \<Rightarrow>
              if f = 0 then Some v1
              else do { (src, v2) \<leftarrow> paging_scratch_phys old v1;
                        (dst, v3) \<leftarrow> paging_scratch_phys f v2;
                        v4 \<leftarrow> (if src \<noteq> 0 \<and> dst \<noteq> 0
                              then do { pg \<leftarrow> rd_page src v3; wr_page dst pg v3 } else Some v3);
                        let v5 = (if pmm_get_ref old (vpmm v4) > 1 then on_pmm (pmm_dec_ref old) v4 else v4);
                        paging_map_in_space c va f (PAGE_USER OR PAGE_RW) v5 })
          else if fl AND PAGE_PRESENT = 0 then
            (case alloc v of (f, v1) \<Rightarrow>
              if f = 0 then Some v1
              else do { (p, v2) \<leftarrow> paging_scratch_phys f v1;
                        v3 \<leftarrow> (if p \<noteq> 0 then wr_page p zero_page v2 else Some v2);
                        paging_map_in_space c va f (PAGE_USER OR PAGE_RW) v3 })
          else Some v }"

definition clone_pmap_thread_stack :: "u32 \<Rightarrow> u32 \<Rightarrow> vm \<Rightarrow> vm option" where
  "clone_pmap_thread_stack c sp v =
     (let va0 = page_down sp;
          first_page = (if page_down (sp - 4096) \<noteq> 0 then page_down (sp - 4096) else va0)
      in each (clone_stack_page c) (if va0 = first_page then [va0] else [va0, va0 - 0x1000]) v)"

text \<open>\<open>fork_task\<close> and \<open>task_clone_thread\<close> complete: descriptor (\<^theory_text>\<open>Proc\<close>) and address space.  \<open>None\<close>: the
  kernel faulted.\<close>

definition fork_whole :: "tid \<Rightarrow> tid option \<Rightarrow> bool \<Rightarrow> u32 \<Rightarrow> u32 \<Rightarrow> u32 \<Rightarrow> psys \<Rightarrow> vm
    \<Rightarrow> (tid option \<times> psys \<times> vm) option" where
  "fork_whole me node stack_ok eip esp eflags s v =
     (if cr3 (tk s me) = 0 \<or> fst (task_prepare ''fork_child'' node stack_ok s) = None
      then (case fork_task me node stack_ok 0 eip esp eflags s of (r, s1) \<Rightarrow> Some (r, s1, v))
      else do { (space, v1) \<leftarrow> paging_create_space v;
                v2 \<leftarrow> (if space = 0 then Some v1 else fork_pages space (tk s me) v1);
                (case fork_task me node stack_ok space eip esp eflags s of (r, s1) \<Rightarrow> Some (r, s1, v2)) })"

definition clone_whole :: "tid \<Rightarrow> tid option \<Rightarrow> bool \<Rightarrow> u32 \<Rightarrow> u32 \<Rightarrow> psys \<Rightarrow> vm
    \<Rightarrow> (tid option \<times> psys \<times> vm) option" where
  "clone_whole me node stack_ok entry stack s v =
     (case task_clone_thread me node stack_ok entry stack s of
        (None, s1) \<Rightarrow> Some (None, s1, v)
      | (Some c, s1) \<Rightarrow> do { v1 \<leftarrow> clone_pmap_thread_stack (cr3 (tk s1 c)) stack v; Some (Some c, s1, v1) })"

end
