(* ===== verification/Vm_Inv.thy ===== *)
theory Vm_Inv
  imports Vm
begin

text \<open>
  Correctness of the page tables.  \<open>vm_wf Gs v\<close> is the invariant of a set \<open>Gs\<close> of page directories: each has
  itself at entry 1023, tables lie in allocated frames, and two entries share a table only when they are the
  same supervisor entry of two directories.  Under it the accesses through the recursive entry and the scratch
  window reach exactly the tables meant, and mapping a page changes that page alone (\<open>maps\<close>).
\<close>

section \<open>Addresses and entries\<close>

lemma fno_nat: "fno x = unat x div 4096"
  by (simp add: fno_def unat_drop_bit_eq drop_bit_eq_div unat_div)

lemma dir_idx_nat: "dir_idx va = unat va div 4194304"
  by (simp add: dir_idx_def unat_drop_bit_eq drop_bit_eq_div unat_div)

lemma mask_10: "(0x3FF :: u32) = mask 10"
  by (simp add: mask_eq_exp_minus_1)

lemma unat_and_mask_10: "unat (x AND 0x3FF :: u32) = unat x mod 1024"
  by (simp add: mask_10 take_bit_eq_mask [symmetric] unsigned_take_bit_eq take_bit_eq_mod unat_mod)

lemma tbl_idx_nat: "tbl_idx va = unat va div 4096 mod 1024"
  by (simp add: tbl_idx_def unat_and_mask_10 unat_drop_bit_eq drop_bit_eq_div unat_div)

lemma word_idx_nat: "word_idx va = unat va div 4 mod 1024"
  by (simp add: word_idx_def unat_and_mask_10 unat_drop_bit_eq drop_bit_eq_div unat_div)

lemma idx_bounds [simp]: "dir_idx va < 1024" "tbl_idx va < 1024"
  using u32_less [of va] by (auto simp: dir_idx_nat tbl_idx_nat)

lemma idx_split:
  assumes "unat va = 4194304 * d + 4096 * t + 4 * w" "t < 1024" "w < 1024"
  shows "dir_idx va = d" "tbl_idx va = t" "word_idx va = w"
proof -
  show "dir_idx va = d"
    unfolding dir_idx_nat assms(1) using assms(2,3) by (intro div_nat_eqI) simp_all
  have "(4194304 * d + 4096 * t + 4 * w) div 4096 = 1024 * d + t"
    using assms(2,3) by (intro div_nat_eqI) simp_all
  then show "tbl_idx va = t"
    unfolding tbl_idx_nat assms(1) using assms(2) by simp
  have "(4194304 * d + 4096 * t + 4 * w) div 4 = 1024 * (1024 * d + t) + w"
    by (intro div_nat_eqI) simp_all
  then show "word_idx va = w"
    unfolding word_idx_nat assms(1) using assms(3) by (simp only: mod_mult_self4 mod_less)
qed

lemma unat_plus: "unat x + unat y < 2 ^ 32 \<Longrightarrow> unat (x + y :: u32) = unat x + unat y"
  by (subst unat_word_ariths) simp

lemma unat_scaled: "n < 1024 \<Longrightarrow> unat (4 * of_nat n :: u32) = 4 * n" "n < 1024 \<Longrightarrow> unat (of_nat n * 4096 :: u32) = 4096 * n"
  by (simp_all add: unat_word_ariths unat_of_nat)

lemma pd_at_idx [simp]:
  assumes "i < 1024"
  shows "dir_idx (pd_at i) = 1023" "tbl_idx (pd_at i) = 1023" "word_idx (pd_at i) = i"
proof -
  have "unat (pd_at i) = 4194304 * 1023 + 4096 * 1023 + 4 * i"
    unfolding pd_at_def using assms by (subst unat_plus) (simp_all add: unat_scaled)
  from idx_split [OF this] show "dir_idx (pd_at i) = 1023" "tbl_idx (pd_at i) = 1023" "word_idx (pd_at i) = i"
    using assms by simp_all
qed

lemma table_at_idx [simp]:
  assumes "d < 1024" "t < 1024"
  shows "dir_idx (table_at d t) = 1023" "tbl_idx (table_at d t) = d" "word_idx (table_at d t) = t"
proof -
  have "unat (PAGE_RECURSIVE_BASE + of_nat d * 4096) = 4194304 * 1023 + 4096 * d"
    using assms by (subst unat_plus) (simp_all add: unat_scaled)
  then have "unat (table_at d t) = 4194304 * 1023 + 4096 * d + 4 * t"
    unfolding table_at_def using assms by (subst unat_plus) (simp_all add: unat_scaled)
  from idx_split [OF this] show "dir_idx (table_at d t) = 1023" "tbl_idx (table_at d t) = d" "word_idx (table_at d t) = t"
    using assms by simp_all
qed

lemma scratch_idx [simp]:
  assumes "i < 1024"
  shows "dir_idx (SCRATCH_VADDR + 4 * of_nat i) = 992" "tbl_idx (SCRATCH_VADDR + 4 * of_nat i) = 0"
    "word_idx (SCRATCH_VADDR + 4 * of_nat i) = i"
proof -
  have "unat (SCRATCH_VADDR + 4 * of_nat i) = 4194304 * 992 + 4096 * 0 + 4 * i"
    using assms by (subst unat_plus) (simp_all add: unat_scaled)
  from idx_split [OF this] show "dir_idx (SCRATCH_VADDR + 4 * of_nat i) = 992" "tbl_idx (SCRATCH_VADDR + 4 * of_nat i) = 0"
    "word_idx (SCRATCH_VADDR + 4 * of_nat i) = i"
    using assms by simp_all
qed

lemma scratch_idx0 [simp]:
  "dir_idx SCRATCH_VADDR = 992" "tbl_idx SCRATCH_VADDR = 0" "word_idx SCRATCH_VADDR = 0"
  using scratch_idx [of 0] by simp_all

lemma frame_mask: "FRAME_MASK = NOT (mask 12)"
  by (simp add: mask_eq_exp_minus_1)

lemma fno_OR: "fno (x OR y) = fno x OR fno y"
  by (simp add: fno_def unsigned_or_eq)

lemma fno_small: "x < 4096 \<Longrightarrow> fno x = 0"
  by (simp add: fno_nat word_less_nat_alt)

lemma fno_mask [simp]: "fno (x AND FRAME_MASK) = fno x"
proof -
  have "drop_bit 12 (x AND FRAME_MASK) = drop_bit 12 x"
    by (rule bit_word_eqI) (auto simp: frame_mask bit_drop_bit_eq bit_and_iff bit_not_iff bit_mask_iff
        dest: bit_imp_possible_bit)
  then show ?thesis by (simp add: fno_def)
qed

lemma and_FFF_small: "(x AND 0xFFF :: u32) < 4096"
  by (simp add: mask_12_u32 word_less_nat_alt take_bit_eq_mask [symmetric] unsigned_take_bit_eq
      take_bit_eq_mod unat_mod)

lemma fno_low [simp]: "fno (x AND 0xFFF) = 0"
  by (rule fno_small [OF and_FFF_small])

lemma fno_flag [simp]: "fno PAGE_PRESENT = 0" "fno PAGE_RW = 0" "fno (x AND PAGE_USER) = 0"
proof -
  have "unat (x AND PAGE_USER) \<le> unat PAGE_USER"
    by (metis word_and_le1 word_le_nat_alt)
  then show "fno (x AND PAGE_USER) = 0" by (simp add: fno_nat)
qed (simp_all add: fno_nat)

lemma present_OR [simp]: "present (x OR y) \<longleftrightarrow> present x \<or> present y"
  by (simp add: present_def bit.conj_disj_distrib2 or_eq_0_iff)

lemma present_one [simp]: "present PAGE_PRESENT"
  by (simp add: present_def)

lemma not_present_0 [simp]: "\<not> present 0"
  by (simp add: present_def)

lemma fno_frame: "i < 1048576 \<Longrightarrow> fno (of_nat i * 4096) = i"
  by (simp add: fno_nat unat_word_ariths unat_of_nat)

section \<open>The invariant\<close>

text \<open>The table of entry \<open>d\<close> of the directory \<open>G\<close>, allocated frames, and the page table entry of a page.\<close>

definition tab :: "vm \<Rightarrow> nat \<Rightarrow> nat \<Rightarrow> nat option" where
  "tab v G d = (if present (frames v G d) then Some (fno (frames v G d)) else None)"

definition used :: "vm \<Rightarrow> nat \<Rightarrow> bool" where
  "used v F \<longleftrightarrow> F < PMM_MAX_FRAMES \<and> bitmap_test (vpmm v) F"

definition shared :: "vm \<Rightarrow> nat \<Rightarrow> nat \<Rightarrow> bool" where
  "shared v G d \<longleftrightarrow> d \<noteq> SCRATCH_DIR \<and> frames v G d AND PAGE_USER = 0"

definition pte :: "vm \<Rightarrow> nat \<Rightarrow> u32 \<Rightarrow> u32" where
  "pte v G va = (case tab v G (dir_idx va) of None \<Rightarrow> 0 | Some T \<Rightarrow> frames v T (tbl_idx va))"

abbreviation cur_dir :: "vm \<Rightarrow> nat" where
  "cur_dir v \<equiv> fno (loaded v)"

definition vm_wf :: "nat set \<Rightarrow> vm \<Rightarrow> bool" where
  "vm_wf Gs v \<longleftrightarrow> cur_dir v \<in> Gs \<and> pmm_ready (vpmm v)
     \<and> (\<forall>G\<in>Gs. used v G \<and> tab v G 1023 = Some G)
     \<and> (\<forall>G\<in>Gs. \<forall>d T. d < 1023 \<and> tab v G d = Some T \<longrightarrow> used v T \<and> T \<notin> Gs)
     \<and> (\<forall>G\<in>Gs. \<forall>H\<in>Gs. \<forall>d e T. d < 1023 \<and> e < 1023 \<and> tab v G d = Some T \<and> tab v H e = Some T
          \<longrightarrow> d = e \<and> (G = H \<or> shared v G d))"

definition full :: "vm \<Rightarrow> bool" where
  "full v \<longleftrightarrow> (\<forall>F. 256 \<le> F \<and> F < PMM_MAX_FRAMES \<longrightarrow> used v F)"

text \<open>Frames that are neither directories nor tables hold data.\<close>

definition data :: "nat set \<Rightarrow> vm \<Rightarrow> nat \<Rightarrow> bool" where
  "data Gs v F \<longleftrightarrow> used v F \<and> F \<notin> Gs \<and> (\<forall>G\<in>Gs. \<forall>d<1023. tab v G d \<noteq> Some F)"

abbreviation refs :: "vm \<Rightarrow> nat \<Rightarrow> u16" where
  "refs v \<equiv> pmm_refcount (vpmm v)"

lemma vm_wfD:
  assumes "vm_wf Gs v"
  shows "cur_dir v \<in> Gs" "G \<in> Gs \<Longrightarrow> used v G" "G \<in> Gs \<Longrightarrow> tab v G 1023 = Some G"
    "G \<in> Gs \<Longrightarrow> d < 1023 \<Longrightarrow> tab v G d = Some T \<Longrightarrow> used v T"
    "G \<in> Gs \<Longrightarrow> d < 1023 \<Longrightarrow> tab v G d = Some T \<Longrightarrow> T \<notin> Gs"
    "G \<in> Gs \<Longrightarrow> H \<in> Gs \<Longrightarrow> d < 1023 \<Longrightarrow> e < 1023 \<Longrightarrow> tab v G d = Some T \<Longrightarrow> tab v H e = Some T
      \<Longrightarrow> d = e \<and> (G = H \<or> shared v G d)"
    "pmm_ready (vpmm v)"
  using assms unfolding vm_wf_def by blast+

lemma full_mono: "full v \<Longrightarrow> (\<And>F. used v F \<Longrightarrow> used v' F) \<Longrightarrow> full v'"
  unfolding full_def by blast

lemma tab_SomeD: "tab v G d = Some T \<Longrightarrow> present (frames v G d) \<and> fno (frames v G d) = T"
  by (auto simp: tab_def split: if_splits)

lemma tab_None: "tab v G d = None \<longleftrightarrow> \<not> present (frames v G d)"
  by (simp add: tab_def)

section \<open>The walk\<close>

lemma mmu_pd_at [simp]:
  assumes "vm_wf Gs v" "i < 1024"
  shows "mmu v (pd_at i) = Some (cur_dir v)"
  using tab_SomeD [OF vm_wfD(3) [OF assms(1) vm_wfD(1) [OF assms(1)]]] assms(2)
  by (simp add: mmu_def Let_def)

lemma mmu_table_at:
  assumes "vm_wf Gs v" "d < 1023" "t < 1024"
  shows "mmu v (table_at d t) = tab v (cur_dir v) d"
  using tab_SomeD [OF vm_wfD(3) [OF assms(1) vm_wfD(1) [OF assms(1)]]] assms(2,3)
  by (simp add: mmu_def Let_def tab_def)

lemma rd_pd_at:
  "vm_wf Gs v \<Longrightarrow> i < 1024 \<Longrightarrow> rd (pd_at i) v = Some (frames v (cur_dir v) i)"
  by (simp add: rd_def)

lemma wr_pd_at:
  "vm_wf Gs v \<Longrightarrow> i < 1024 \<Longrightarrow> wr (pd_at i) x v = Some (set_word (cur_dir v) i x v)"
  by (simp add: wr_def)

lemma rd_table_at:
  "vm_wf Gs v \<Longrightarrow> d < 1023 \<Longrightarrow> t < 1024 \<Longrightarrow> tab v (cur_dir v) d = Some T
    \<Longrightarrow> rd (table_at d t) v = Some (frames v T t)"
  by (simp add: rd_def mmu_table_at)

lemma wr_table_at:
  "vm_wf Gs v \<Longrightarrow> d < 1023 \<Longrightarrow> t < 1024 \<Longrightarrow> tab v (cur_dir v) d = Some T
    \<Longrightarrow> wr (table_at d t) x v = Some (set_word T t x v)"
  by (simp add: wr_def mmu_table_at)

lemma wr_page_table_at:
  "vm_wf Gs v \<Longrightarrow> d < 1023 \<Longrightarrow> tab v (cur_dir v) d = Some T
    \<Longrightarrow> wr_page (table_at d 0) pg v = Some (set_frame T pg v)"
  by (simp add: wr_page_def mmu_table_at)

definition window :: "vm \<Rightarrow> nat option" where
  "window v = mmu v SCRATCH_VADDR"

lemma window_io:
  "window v = Some F \<Longrightarrow> i < 1024 \<Longrightarrow> rd (SCRATCH_VADDR + 4 * of_nat i) v = Some (frames v F i)"
  "window v = Some F \<Longrightarrow> i < 1024 \<Longrightarrow> wr (SCRATCH_VADDR + 4 * of_nat i) x v = Some (set_word F i x v)"
  "window v = Some F \<Longrightarrow> rd_page SCRATCH_VADDR v = Some (frames v F)"
  "window v = Some F \<Longrightarrow> wr_page SCRATCH_VADDR pg v = Some (set_frame F pg v)"
  by (simp_all add: window_def mmu_def rd_def wr_def rd_page_def wr_page_def Let_def split: if_splits)

lemma alloc_cases:
  assumes a: "alloc v = (f, v1)" and r: "pmm_ready (vpmm v)"
  obtains (none) "f = 0" "v1 = v" "full v"
  | (frame) i where "f = of_nat i * 4096" "f \<noteq> 0" "fno f = i" "256 \<le> i" "i < 65536" "\<not> used v i"
      "\<And>F. used v1 F \<longleftrightarrow> F = i \<or> used v F" "frames v1 = frames v" "loaded v1 = loaded v"
      "mmap_next v1 = mmap_next v" "refs v1 = (refs v)(i := 1)" "pmm_ready (vpmm v1)"
proof (cases "first_from (\<lambda>i. \<not> bitmap_test (vpmm v) i) 256 (PMM_MAX_FRAMES - 256)")
  case None
  moreover have "full v" using None by (auto simp: full_def used_def first_from_None_iff)
  ultimately show ?thesis using assms by (intro none) (auto simp: alloc_def pmm_alloc_frame_def)
next
  case (Some i)
  have b: "256 \<le> i" "i < 65536" "\<not> bitmap_test (vpmm v) i"
    using first_from_SomeD [OF Some] by auto
  have e: "f = of_nat i * 4096" "frames v1 = frames v" "loaded v1 = loaded v" "mmap_next v1 = mmap_next v"
      "refs v1 = (refs v)(i := 1)" "\<And>F. used v1 F \<longleftrightarrow> F = i \<or> used v F" "pmm_ready (vpmm v1)"
    using a r Some b by (auto simp: alloc_def pmm_alloc_frame_def used_def)
  have "fno f = i" using b by (simp add: e(1) fno_frame)
  moreover from this have "f \<noteq> 0" using b by (auto simp: fno_nat)
  moreover have "\<not> used v i" using b by (simp add: used_def)
  ultimately show ?thesis using e b by (intro frame [of i]) auto
qed

section \<open>What keeps the invariant\<close>

lemma tab_same: "frames v' G = frames v G \<Longrightarrow> tab v' G d = tab v G d"
  by (simp add: tab_def)

lemma vm_wf_same:
  assumes "vm_wf Gs v" "\<forall>G\<in>Gs. frames v' G = frames v G" "loaded v' = loaded v" "\<And>F. used v F \<Longrightarrow> used v' F"
    "pmm_ready (vpmm v')"
  shows "vm_wf Gs v'"
proof -
  have t: "tab v' G d = tab v G d" "shared v' G d = shared v G d" if "G \<in> Gs" for G d
    using assms(2) that by (simp_all add: tab_def shared_def)
  show ?thesis
    using assms(1,4,5) unfolding vm_wf_def assms(3) by (simp add: t) blast
qed

lemma set_word_simps [simp]:
  "loaded (set_word F i x v) = loaded v" "vpmm (set_word F i x v) = vpmm v"
  "mmap_next (set_word F i x v) = mmap_next v"
  "frames (set_word F i x v) G = (if G = F then (frames v F)(i := x) else frames v G)"
  "used (set_word F i x v) = used v" "alloc (set_word F i x v) = (fst (alloc v), set_word F i x (snd (alloc v)))"
  by (simp_all add: set_word_def used_def alloc_def fun_eq_iff split: prod.split)

lemma set_frame_simps [simp]:
  "loaded (set_frame F pg v) = loaded v" "vpmm (set_frame F pg v) = vpmm v"
  "mmap_next (set_frame F pg v) = mmap_next v"
  "frames (set_frame F pg v) G = (if G = F then pg else frames v G)"
  "used (set_frame F pg v) = used v" "alloc (set_frame F pg v) = (fst (alloc v), set_frame F pg (snd (alloc v)))"
  by (simp_all add: set_frame_def used_def alloc_def fun_eq_iff split: prod.split)

lemma vm_wf_write:
  "vm_wf Gs v \<Longrightarrow> F \<notin> Gs \<Longrightarrow> vm_wf Gs (set_word F i x v)"
  "vm_wf Gs v \<Longrightarrow> F \<notin> Gs \<Longrightarrow> vm_wf Gs (set_frame F pg v)"
  by (rule vm_wf_same, assumption, auto dest: vm_wfD(7))+

lemma vm_wf_new_entry:
  assumes w: "vm_wf Gs v" and G: "G \<in> Gs" and d: "d < 1023" "tab v G d = None" and i: "data Gs v i"
    and e: "present e" "fno e = i"
  shows "vm_wf Gs (set_word G d e v)"
proof -
  let ?v = "set_word G d e v"
  have t: "tab ?v H k = (if H = G \<and> k = d then Some i else tab v H k)" for H k
    using e by (simp add: tab_def)
  have s: "shared ?v H k = shared v H k" if "H \<noteq> G \<or> k \<noteq> d" for H k
    using that by (auto simp: shared_def)
  note D = vm_wfD [OF w]
  have i': "used v i" "i \<notin> Gs" "\<And>H k. H \<in> Gs \<Longrightarrow> k < 1023 \<Longrightarrow> tab v H k \<noteq> Some i"
    using i by (auto simp: data_def)
  have "cur_dir ?v \<in> Gs" "pmm_ready (vpmm ?v)" using D(1,7) by simp_all
  moreover have "used ?v H \<and> tab ?v H 1023 = Some H" if "H \<in> Gs" for H
    using D(2,3) that d by (simp add: t)
  moreover have "used ?v T \<and> T \<notin> Gs" if "H \<in> Gs" "k < 1023" "tab ?v H k = Some T" for H k T
    using that D(4,5) i' by (auto simp: t split: if_splits)
  moreover have "k = l \<and> (H = K \<or> shared ?v H k)"
    if "H \<in> Gs" "K \<in> Gs" "k < 1023" "l < 1023" "tab ?v H k = Some T" "tab ?v K l = Some T" for H K k l T
  proof (cases "H = G \<and> k = d")
    case True
    then have "T = i" using that(5) by (simp add: t)
    then have "K = G \<and> l = d" using that(2,4,6) i'(3) by (auto simp: t split: if_splits)
    then show ?thesis using True by simp
  next
    case False
    then have T: "tab v H k = Some T" using that(5) by (auto simp: t split: if_splits)
    then have "T \<noteq> i" using that(1,3) i'(3) by auto
    then have "tab v K l = Some T" using that(6) by (auto simp: t split: if_splits)
    then show ?thesis using D(6) [OF that(1-4) T] s [of H k] False by auto
  qed
  ultimately show ?thesis unfolding vm_wf_def by blast
qed

lemma vm_wf_alloc:
  assumes "vm_wf Gs v" "\<not> used v i" "\<And>F. used v1 F \<longleftrightarrow> F = i \<or> used v F" "frames v1 = frames v"
    "loaded v1 = loaded v" "pmm_ready (vpmm v1)"
  shows "vm_wf Gs v1" "data Gs v1 i"
proof -
  show "vm_wf Gs v1" by (rule vm_wf_same [OF assms(1)]) (use assms in auto)
  have "tab v1 = tab v" using assms(4) by (simp add: tab_def fun_eq_iff)
  then show "data Gs v1 i"
    using vm_wfD(2,4) [OF assms(1)] assms(2,3) by (auto simp: data_def)
qed

section \<open>The scratch window\<close>

text \<open>What the use of the window changes: the window's own entry and tables, and frames not yet in use.\<close>

definition quiet :: "nat set \<Rightarrow> vm \<Rightarrow> vm \<Rightarrow> bool" where
  "quiet Gs v v' \<longleftrightarrow> loaded v' = loaded v \<and> mmap_next v' = mmap_next v
     \<and> (\<forall>G\<in>Gs. \<forall>d. d \<noteq> SCRATCH_DIR \<longrightarrow> frames v' G d = frames v G d)
     \<and> (\<forall>F. used v F \<longrightarrow> used v' F \<and> refs v' F = refs v F)
     \<and> (\<forall>F. used v F \<and> F \<notin> Gs \<and> (\<forall>G\<in>Gs. tab v G SCRATCH_DIR \<noteq> Some F) \<longrightarrow> frames v' F = frames v F)
     \<and> (\<forall>G\<in>Gs. tab v' G SCRATCH_DIR = tab v G SCRATCH_DIR
          \<or> tab v G SCRATCH_DIR = None \<and> (\<forall>T. tab v' G SCRATCH_DIR = Some T \<longrightarrow> \<not> used v T))"

lemma quietD:
  assumes "quiet Gs v v'"
  shows "loaded v' = loaded v" "mmap_next v' = mmap_next v"
    "G \<in> Gs \<Longrightarrow> d \<noteq> SCRATCH_DIR \<Longrightarrow> frames v' G d = frames v G d"
    "used v F \<Longrightarrow> used v' F" "used v F \<Longrightarrow> refs v' F = refs v F"
    "used v F \<Longrightarrow> F \<notin> Gs \<Longrightarrow> (\<And>G. G \<in> Gs \<Longrightarrow> tab v G SCRATCH_DIR \<noteq> Some F) \<Longrightarrow> frames v' F = frames v F"
    "G \<in> Gs \<Longrightarrow> tab v' G SCRATCH_DIR = Some T \<Longrightarrow> used v T \<Longrightarrow> tab v G SCRATCH_DIR = Some T"
    "G \<in> Gs \<Longrightarrow> tab v G SCRATCH_DIR = Some T \<Longrightarrow> tab v' G SCRATCH_DIR = Some T"
  using assms unfolding quiet_def by (blast | force)+

lemma quiet_refl: "quiet Gs v v"
  by (simp add: quiet_def)

lemma quiet_trans:
  assumes a: "quiet Gs v v'" and b: "quiet Gs v' v''"
  shows "quiet Gs v v''"
proof -
  have "frames v'' F = frames v F"
    if F: "used v F" "F \<notin> Gs" "\<forall>G\<in>Gs. tab v G SCRATCH_DIR \<noteq> Some F" for F
  proof -
    have "tab v' G SCRATCH_DIR \<noteq> Some F" if "G \<in> Gs" for G
      using quietD(7) [OF a that] F that by blast
    then show ?thesis
      using quietD(6) [OF b quietD(4) [OF a F(1)] F(2)] quietD(6) [OF a F(1,2)] F(3) by simp
  qed
  moreover have "tab v'' G SCRATCH_DIR = tab v G SCRATCH_DIR
      \<or> tab v G SCRATCH_DIR = None \<and> (\<forall>T. tab v'' G SCRATCH_DIR = Some T \<longrightarrow> \<not> used v T)" if G: "G \<in> Gs" for G
  proof (cases "tab v G SCRATCH_DIR")
    case (Some T)
    then show ?thesis using quietD(8) [OF a G] quietD(8) [OF b G] by simp
  next
    case None
    have "\<not> used v T" if "tab v'' G SCRATCH_DIR = Some T" for T
      using quietD(7) [OF b G that] quietD(7) [OF a G] quietD(4) [OF a] None by auto
    then show ?thesis using None by blast
  qed
  ultimately show ?thesis
    using quietD(1-5) [OF a] quietD(1-5) [OF b] unfolding quiet_def by simp
qed

lemma small_consts [simp]:
  "fno 2 = 0" "fno 3 = 0" "fno 4 = 0" "fno 5 = 0" "fno 6 = 0" "fno 7 = 0" "present 3" "present 5" "present 7"
  by (simp_all add: fno_nat present_def)

lemma quiet_alloc:
  assumes "\<And>F. used v1 F \<longleftrightarrow> F = i \<or> used v F" "frames v1 = frames v" "loaded v1 = loaded v"
    "mmap_next v1 = mmap_next v" "refs v1 = (refs v)(i := 1)" "\<not> used v i"
  shows "quiet Gs v v1"
  using assms by (auto simp: quiet_def tab_def)

lemma quiet_scratch_word:
  assumes w: "vm_wf Gs v1" and q: "quiet Gs v v1" and T: "tab v1 G SCRATCH_DIR = Some T" "G \<in> Gs"
  shows "quiet Gs v (set_word T i x v1)"
proof -
  let ?v = "set_word T i x v1"
  have nG: "T \<notin> Gs" using vm_wfD(5) [OF w T(2) _ T(1)] by simp
  have t: "tab ?v H d = tab v1 H d" if "H \<in> Gs" for H d
    using nG that by (auto simp: tab_def)
  have "frames ?v F = frames v F" if F: "used v F" "F \<notin> Gs" "\<forall>H\<in>Gs. tab v H SCRATCH_DIR \<noteq> Some F" for F
  proof -
    have "F \<noteq> T" using quietD(7) [OF q T(2,1)] F(1,3) T(2) by blast
    then show ?thesis using quietD(6) [OF q F(1,2)] F(3) by simp
  qed
  moreover have "frames ?v H d = frames v H d" if "H \<in> Gs" "d \<noteq> SCRATCH_DIR" for H d
    using quietD(3) [OF q that] nG that(1) by auto
  ultimately show ?thesis
    using q unfolding quiet_def by (simp add: t)
qed

lemma quiet_unused_frame:
  assumes q: "quiet Gs v v1" and i: "\<not> used v i" "i \<notin> Gs"
  shows "quiet Gs v (set_frame i pg v1)"
proof -
  let ?v = "set_frame i pg v1"
  have t: "tab ?v H d = tab v1 H d" if "H \<in> Gs" for H d
    using i(2) that by (auto simp: tab_def)
  have "frames ?v F = frames v F" if F: "used v F" "F \<notin> Gs" "\<forall>H\<in>Gs. tab v H SCRATCH_DIR \<noteq> Some F" for F
    using quietD(6) [OF q F(1,2)] F(1,3) i(1) by auto
  moreover have "frames ?v H d = frames v H d" if "H \<in> Gs" "d \<noteq> SCRATCH_DIR" for H d
    using quietD(3) [OF q that] i(2) that(1) by auto
  ultimately show ?thesis
    using q unfolding quiet_def by (simp add: t)
qed

lemma quiet_new_scratch:
  assumes q: "quiet Gs v v1" and i: "\<not> used v i" and G: "G \<in> Gs" "tab v G SCRATCH_DIR = None" "vm_wf Gs v"
    and e: "present e" "fno e = i"
  shows "quiet Gs v (set_word G SCRATCH_DIR e v1)"
proof -
  let ?v = "set_word G SCRATCH_DIR e v1"
  have t: "tab ?v H SCRATCH_DIR = (if H = G then Some i else tab v1 H SCRATCH_DIR)" for H
    using e by (simp add: tab_def)
  show ?thesis
    using q G i unfolding quiet_def by (auto simp: t)
qed

lemma dir_scratch_lt [simp]: "dir_idx SCRATCH_VADDR = SCRATCH_DIR" by simp

lemma scratch_table_ok:
  assumes w: "vm_wf Gs v"
  obtains (none) "scratch_table v = Some (False, v)" "tab v (cur_dir v) SCRATCH_DIR = None" "full v"
  | (table) v' where "scratch_table v = Some (True, v')" "vm_wf Gs v'" "quiet Gs v v'"
      "tab v' (cur_dir v') SCRATCH_DIR \<noteq> None" "tab v (cur_dir v) SCRATCH_DIR \<noteq> None \<Longrightarrow> v' = v"
proof (cases "tab v (cur_dir v) SCRATCH_DIR")
  case (Some T)
  then show ?thesis
    using tab_SomeD [OF Some] by (intro table [of v]) (simp_all add: scratch_table_def rd_pd_at [OF w] w quiet_refl)
next
  case None
  have C: "cur_dir v \<in> Gs" by (rule vm_wfD(1) [OF w])
  obtain f v1 where a: "alloc v = (f, v1)" by fastforce
  from a vm_wfD(7) [OF w] show ?thesis
  proof (cases rule: alloc_cases)
    case none
    then show ?thesis
      using None a by (intro that(1)) (simp_all add: scratch_table_def rd_pd_at [OF w] tab_None)
  next
    case (frame i)
    define e where "e = (f OR PAGE_PRESENT OR PAGE_RW)"
    have e: "present e" "fno e = i" using frame(3) by (simp_all add: e_def fno_OR)
    have w1: "vm_wf Gs v1" "data Gs v1 i"
      using vm_wf_alloc [OF w frame(6) _ frame(8,9,12)] frame(7) by auto
    have n1: "tab v1 (cur_dir v) SCRATCH_DIR = None" using None tab_same [of v1 "cur_dir v" v] frame(8) by simp
    define v2 where "v2 = set_word (cur_dir v) SCRATCH_DIR e v1"
    have w2: "vm_wf Gs v2" unfolding v2_def by (rule vm_wf_new_entry [OF w1(1) C _ n1 w1(2) e]) simp
    have t2: "tab v2 (cur_dir v2) SCRATCH_DIR = Some i"
      using e frame(9) by (simp add: v2_def tab_def)
    have nG: "i \<notin> Gs" using w1(2) by (simp add: data_def)
    define v3 where "v3 = set_frame i zero_page v2"
    have "wr (pd_at SCRATCH_DIR) e v1 = Some v2"
      using frame(9) by (simp add: v2_def wr_pd_at [OF w1(1)])
    moreover have "wr_page (table_at SCRATCH_DIR 0) zero_page v2 = Some v3"
      unfolding v3_def by (rule wr_page_table_at [OF w2 _ t2]) simp
    ultimately have "scratch_table v = Some (True, v3)"
      using None frame(2) by (simp add: scratch_table_def rd_pd_at [OF w] tab_None a e_def)
    moreover have "vm_wf Gs v3" unfolding v3_def by (rule vm_wf_write(2) [OF w2 nG])
    moreover have "quiet Gs v v2" unfolding v2_def
      by (rule quiet_new_scratch [OF quiet_alloc [OF frame(7-11,6)] frame(6) C None w e])
    then have "quiet Gs v v3" unfolding v3_def by (rule quiet_unused_frame [OF _ frame(6) nG])
    moreover have "tab v3 (cur_dir v3) SCRATCH_DIR \<noteq> None"
    proof -
      have "cur_dir v2 \<noteq> i" using vm_wfD(1) [OF w2] nG by auto
      then show ?thesis using t2 by (simp add: v3_def tab_def split: if_splits)
    qed
    ultimately show ?thesis using None by (intro that(2)) auto
  qed
qed

lemma scratch_phys_ok:
  assumes w: "vm_wf Gs v"
  obtains (none) "paging_scratch_phys p v = Some (0, v)" "tab v (cur_dir v) SCRATCH_DIR = None" "full v"
  | (win) v' where "paging_scratch_phys p v = Some (SCRATCH_VADDR, v')" "vm_wf Gs v'" "quiet Gs v v'"
      "window v' = Some (fno p)" "tab v' (cur_dir v') SCRATCH_DIR \<noteq> None"
      "tab v (cur_dir v) SCRATCH_DIR \<noteq> None \<Longrightarrow> vpmm v' = vpmm v"
  using w
proof (cases rule: scratch_table_ok)
  case none
  then show ?thesis by (intro that(1)) (simp_all add: paging_scratch_phys_def)
next
  case (table v1)
  from table(4) obtain T where T: "tab v1 (cur_dir v1) SCRATCH_DIR = Some T" by auto
  let ?e = "(p AND FRAME_MASK) OR PAGE_PRESENT OR PAGE_RW"
  define v2 where "v2 = set_word T 0 ?e v1"
  have C: "cur_dir v1 \<in> Gs" by (rule vm_wfD(1) [OF table(2)])
  have nG: "T \<notin> Gs" by (rule vm_wfD(5) [OF table(2) C _ T]) simp
  have "wr (table_at SCRATCH_DIR 0) ?e v1 = Some v2"
    unfolding v2_def by (rule wr_table_at [OF table(2) _ _ T]) simp_all
  then have s: "paging_scratch_phys p v = Some (SCRATCH_VADDR, v2)"
    by (simp add: paging_scratch_phys_def table(1))
  have t2: "tab v2 (cur_dir v2) SCRATCH_DIR = Some T"
    using T C nG by (auto simp: v2_def tab_def split: if_splits)
  have "window v2 = Some (fno p)"
    using tab_SomeD [OF t2] by (simp add: window_def mmu_def v2_def Let_def fno_OR)
  then show ?thesis
    using s vm_wf_write(1) [OF table(2) nG] quiet_scratch_word [OF table(2,3) T C] t2 table(5)
    by (intro that(2) [of v2]) (simp_all add: v2_def)
qed

section \<open>Mapping a page\<close>

definition user :: "u32 \<Rightarrow> bool" where
  "user e \<longleftrightarrow> e AND PAGE_USER \<noteq> 0"

lemma user_OR [simp]: "user (x OR y) \<longleftrightarrow> user x \<or> user y"
  by (simp add: user_def bit.conj_disj_distrib2 or_eq_0_iff)

lemma user_AND [simp]: "user (x AND PAGE_USER) \<longleftrightarrow> user x"
  by (simp add: user_def and.assoc)

lemma user_const [simp]: "user 4" "user 5" "user 6" "user 7" "\<not> user 3" "\<not> user 0" "\<not> user 1" "\<not> user 2"
  by (simp_all add: user_def)

lemma not_shared_user: "user (frames v G d) \<Longrightarrow> \<not> shared v G d"
  by (simp add: user_def shared_def)

abbreviation plain_dir :: "u32 \<Rightarrow> bool" where
  "plain_dir va \<equiv> dir_idx va < 1023 \<and> dir_idx va \<noteq> SCRATCH_DIR"

text \<open>The page \<open>va\<close> may be mapped for the user in \<open>G\<close>: its directory entry is free or a user entry.\<close>

definition user_va :: "vm \<Rightarrow> nat \<Rightarrow> u32 \<Rightarrow> bool" where
  "user_va v G va \<longleftrightarrow> plain_dir va \<and> (tab v G (dir_idx va) \<noteq> None \<longrightarrow> user (frames v G (dir_idx va)))"

text \<open>Data frames, reference counts and linked tables stay; a new entry is a user entry.\<close>

definition calm :: "nat set \<Rightarrow> vm \<Rightarrow> vm \<Rightarrow> bool" where
  "calm Gs v v' \<longleftrightarrow> loaded v' = loaded v \<and> mmap_next v' = mmap_next v
     \<and> (\<forall>F. used v F \<longrightarrow> used v' F \<and> refs v' F = refs v F)
     \<and> (\<forall>F. data Gs v F \<longrightarrow> data Gs v' F \<and> frames v' F = frames v F)
     \<and> (\<forall>G\<in>Gs. \<forall>d. d \<noteq> SCRATCH_DIR \<longrightarrow> frames v' G d = frames v G d \<or> tab v G d = None \<and> user (frames v' G d))
     \<and> (\<forall>G\<in>Gs. tab v G SCRATCH_DIR \<noteq> None \<longrightarrow> tab v' G SCRATCH_DIR = tab v G SCRATCH_DIR)"

definition ptes_but :: "nat set \<Rightarrow> (nat \<times> u32) set \<Rightarrow> vm \<Rightarrow> vm \<Rightarrow> bool" where
  "ptes_but Gs X v v' \<longleftrightarrow> (\<forall>H\<in>Gs. \<forall>va. plain_dir va
     \<and> (\<forall>w. (H, w) \<in> X \<longrightarrow> dir_idx w \<noteq> dir_idx va \<or> tbl_idx w \<noteq> tbl_idx va) \<longrightarrow> pte v' H va = pte v H va)"

lemma calmD:
  assumes "calm Gs v v'"
  shows "loaded v' = loaded v" "mmap_next v' = mmap_next v" "used v F \<Longrightarrow> used v' F"
    "used v F \<Longrightarrow> refs v' F = refs v F" "data Gs v F \<Longrightarrow> data Gs v' F" "data Gs v F \<Longrightarrow> frames v' F = frames v F"
    "G \<in> Gs \<Longrightarrow> d \<noteq> SCRATCH_DIR \<Longrightarrow> frames v' G d = frames v G d \<or> tab v G d = None \<and> user (frames v' G d)"
    "G \<in> Gs \<Longrightarrow> tab v G SCRATCH_DIR = Some T \<Longrightarrow> tab v' G SCRATCH_DIR = Some T"
  using assms unfolding calm_def by (blast | force)+

lemma calm_refl: "calm Gs v v"
  by (simp add: calm_def)

lemma calm_tab:
  assumes c: "calm Gs v v'" and G: "G \<in> Gs" and t: "tab v G d = Some T"
  shows "tab v' G d = Some T"
proof (cases "d = SCRATCH_DIR")
  case True
  then show ?thesis using calmD(8) [OF c G] t by simp
next
  case False
  then have "frames v' G d = frames v G d" using calmD(7) [OF c G False] t by simp
  then have "tab v' G d = tab v G d" by (simp add: tab_def)
  then show ?thesis using t by simp
qed

lemma calm_trans:
  assumes a: "calm Gs v v'" and b: "calm Gs v' v''"
  shows "calm Gs v v''"
proof -
  have "frames v'' G d = frames v G d \<or> tab v G d = None \<and> user (frames v'' G d)"
    if "G \<in> Gs" "d \<noteq> SCRATCH_DIR" for G d
    using calmD(7) [OF a that] calmD(7) [OF b that] calm_tab [OF a that(1)] by (cases "tab v G d") auto
  moreover have "tab v'' G SCRATCH_DIR = tab v G SCRATCH_DIR" if "G \<in> Gs" "tab v G SCRATCH_DIR \<noteq> None" for G
    using calmD(8) [OF a that(1)] calmD(8) [OF b that(1)] that(2) by auto
  ultimately show ?thesis
    using calmD(1-6) [OF a] calmD(1-6) [OF b] unfolding calm_def by simp
qed

lemma ptes_but_trans: "ptes_but Gs X v v' \<Longrightarrow> ptes_but Gs X v' v'' \<Longrightarrow> ptes_but Gs X v v''"
  unfolding ptes_but_def by simp

lemma ptes_but_mono: "ptes_but Gs X v v' \<Longrightarrow> X \<subseteq> Y \<Longrightarrow> ptes_but Gs Y v v'"
  unfolding ptes_but_def by blast

lemma ptes_but_refl: "ptes_but Gs X v v"
  by (simp add: ptes_but_def)

lemma ptes_butD: "ptes_but Gs {} v v' \<Longrightarrow> H \<in> Gs \<Longrightarrow> plain_dir va \<Longrightarrow> pte v' H va = pte v H va"
  by (simp add: ptes_but_def)

lemma calm_user_va: "calm Gs v v' \<Longrightarrow> G \<in> Gs \<Longrightarrow> user_va v G va \<Longrightarrow> user_va v' G va"
  using calmD(7) [of Gs v v' G "dir_idx va"] by (auto simp: user_va_def tab_def split: if_splits)

lemma quiet_tab: "quiet Gs v v' \<Longrightarrow> G \<in> Gs \<Longrightarrow> d \<noteq> SCRATCH_DIR \<Longrightarrow> tab v' G d = tab v G d"
  by (simp add: tab_def quietD(3))

lemma quiet_calm:
  assumes w: "vm_wf Gs v" and q: "quiet Gs v v'"
  shows "calm Gs v v'" "ptes_but Gs {} v v'"
proof -
  have d: "data Gs v' F \<and> frames v' F = frames v F" if "data Gs v F" for F
  proof -
    have F: "used v F" "F \<notin> Gs" "\<And>G d. G \<in> Gs \<Longrightarrow> d < 1023 \<Longrightarrow> tab v G d \<noteq> Some F"
      using that by (auto simp: data_def)
    have "tab v' G d \<noteq> Some F" if "G \<in> Gs" "d < 1023" for G d
      using F(3) [OF that] quiet_tab [OF q that(1)] quietD(7) [OF q that(1) _ F(1)]
      by (cases "d = SCRATCH_DIR") auto
    moreover have "frames v' F = frames v F"
      by (rule quietD(6) [OF q F(1,2)]) (use F(3) in auto)
    ultimately show ?thesis using F(2) quietD(4) [OF q F(1)] by (simp add: data_def)
  qed
  moreover have "tab v' G SCRATCH_DIR = tab v G SCRATCH_DIR" if "G \<in> Gs" "tab v G SCRATCH_DIR \<noteq> None" for G
    using quietD(8) [OF q that(1)] that(2) by auto
  ultimately show "calm Gs v v'"
    using quietD(1-5) [OF q] unfolding calm_def by simp
  have "pte v' H va = pte v H va" if "H \<in> Gs" "plain_dir va" for H va
  proof (cases "tab v H (dir_idx va)")
    case None
    then show ?thesis using quiet_tab [OF q that(1)] that(2) by (simp add: pte_def)
  next
    case (Some T)
    have "frames v' T = frames v T"
    proof (rule quietD(6) [OF q])
      show "used v T" by (rule vm_wfD(4) [OF w that(1) _ Some]) (use that in simp)
      show "T \<notin> Gs" by (rule vm_wfD(5) [OF w that(1) _ Some]) (use that in simp)
      show "tab v G SCRATCH_DIR \<noteq> Some T" if "G \<in> Gs" for G
        using vm_wfD(6) [OF w \<open>H \<in> Gs\<close> that _ _ Some] \<open>plain_dir va\<close> by auto
    qed
    then show ?thesis using Some quiet_tab [OF q that(1)] that(2) by (simp add: pte_def)
  qed
  then show "ptes_but Gs {} v v'" by (simp add: ptes_but_def)
qed

lemma set_pte_ok:
  fixes x :: u32
  assumes w: "vm_wf Gs v" and G: "G \<in> Gs" and T: "tab v G (dir_idx va) = Some T"
    and u: "user (frames v G (dir_idx va))" and p: "plain_dir va"
  defines "v' \<equiv> set_word T (tbl_idx va) x v"
  shows "vm_wf Gs v'" "calm Gs v v'" "ptes_but Gs {(G, va)} v v'" "pte v' G va = x"
proof -
  have nG: "T \<notin> Gs" by (rule vm_wfD(5) [OF w G _ T]) (use p in simp)
  have t: "tab v' H d = tab v H d" if "H \<in> Gs" for H d
    using nG that by (auto simp: v'_def tab_def)
  show "vm_wf Gs v'" unfolding v'_def by (rule vm_wf_write(1) [OF w nG])
  have "data Gs v' F \<and> frames v' F = frames v F" if "data Gs v F" for F
    using that T G p by (auto simp: data_def t) (auto simp: v'_def)
  moreover have "frames v' H = frames v H" if "H \<in> Gs" for H
    using nG that by (auto simp: v'_def)
  moreover have "loaded v' = loaded v" "mmap_next v' = mmap_next v" "vpmm v' = vpmm v" "used v' = used v"
    by (simp_all add: v'_def)
  ultimately show "calm Gs v v'"
    by (simp add: calm_def t)
  have "pte v' H wa = pte v H wa"
    if "H \<in> Gs" "plain_dir wa" "H = G \<longrightarrow> dir_idx va \<noteq> dir_idx wa \<or> tbl_idx va \<noteq> tbl_idx wa" for H wa
  proof (cases "tab v H (dir_idx wa)")
    case None
    then show ?thesis using that by (simp add: pte_def t)
  next
    case (Some S)
    show ?thesis
    proof (cases "S = T")
      case False
      then show ?thesis using that Some by (simp add: pte_def t) (simp add: v'_def)
    next
      case True
      have "dir_idx va = dir_idx wa \<and> (G = H \<or> shared v G (dir_idx va))"
        by (rule vm_wfD(6) [OF w G that(1) _ _ T]) (use p that(2) Some True in auto)
      then have "tbl_idx va \<noteq> tbl_idx wa"
        using not_shared_user [OF u] that(3) by auto
      then show ?thesis using that(1) Some True by (simp add: pte_def t) (simp add: v'_def)
    qed
  qed
  then show "ptes_but Gs {(G, va)} v v'" by (auto simp: ptes_but_def)
  show "pte v' G va = x" using T G by (simp add: pte_def t) (simp add: v'_def)
qed

lemma link_table_ok:
  assumes c: "calm Gs v0 v" and w: "vm_wf Gs v" and i: "data Gs v i" "\<not> used v0 i" "frames v i = zero_page"
    and G: "G \<in> Gs" "tab v G d = None" "d < 1023" "d \<noteq> SCRATCH_DIR" and e: "present e" "fno e = i" "user e"
  defines "v' \<equiv> set_word G d e v"
  shows "vm_wf Gs v'" "calm Gs v0 v'" "ptes_but Gs {} v v'" "tab v' G d = Some i" "user (frames v' G d)"
proof -
  have nG: "i \<notin> Gs" using i(1) by (simp add: data_def)
  have t: "tab v' H k = (if H = G \<and> k = d then Some i else tab v H k)" for H k
    using e by (simp add: v'_def tab_def)
  show "vm_wf Gs v'" unfolding v'_def by (rule vm_wf_new_entry [OF w G(1,3,2) i(1) e(1,2)])
  show "tab v' G d = Some i" "user (frames v' G d)" using e by (simp_all add: t) (simp add: v'_def)
  have d: "data Gs v' F \<and> frames v' F = frames v0 F" if F: "data Gs v0 F" for F
  proof -
    have "data Gs v F" "F \<noteq> i" "F \<notin> Gs" using calmD(5) [OF c F] F i(2) by (auto simp: data_def)
    then show ?thesis
      using calmD(6) [OF c F] G(1) by (auto simp: data_def t) (auto simp: v'_def)
  qed
  have en: "frames v' H k = frames v0 H k \<or> tab v0 H k = None \<and> user (frames v' H k)"
    if "H \<in> Gs" "k \<noteq> SCRATCH_DIR" for H k
  proof (cases "H = G \<and> k = d")
    case True
    then have "tab v0 H k = None" using calm_tab [OF c that(1), of k] G(2) by (cases "tab v0 H k") auto
    then show ?thesis using True e by (simp add: v'_def)
  next
    case False
    then show ?thesis using calmD(7) [OF c that] by (auto simp: v'_def)
  qed
  have s: "tab v' H SCRATCH_DIR = tab v0 H SCRATCH_DIR" if "H \<in> Gs" "tab v0 H SCRATCH_DIR \<noteq> None" for H
    using calmD(8) [OF c that(1)] that(2) G(4) by (auto simp: t)
  have "loaded v' = loaded v" "mmap_next v' = mmap_next v" "vpmm v' = vpmm v" "used v' = used v"
    by (simp_all add: v'_def)
  then show "calm Gs v0 v'"
    using calmD(1-4) [OF c] d en s unfolding calm_def by simp
  have "pte v' H wa = pte v H wa" if "H \<in> Gs" "plain_dir wa" for H wa
  proof (cases "H = G \<and> dir_idx wa = d")
    case True
    then show ?thesis using G(1,2) i(3) nG by (auto simp: pte_def t) (auto simp: v'_def zero_page_def)
  next
    case False
    then have k: "tab v' H (dir_idx wa) = tab v H (dir_idx wa)" by (auto simp: t)
    show ?thesis
    proof (cases "tab v H (dir_idx wa)")
      case None
      then show ?thesis using k by (simp add: pte_def)
    next
      case (Some T)
      have "T \<notin> Gs" by (rule vm_wfD(5) [OF w that(1) _ Some]) (use that in simp)
      then have "T \<noteq> G" using G(1) by auto
      then show ?thesis using k Some by (simp add: pte_def) (simp add: v'_def)
    qed
  qed
  then show "ptes_but Gs {} v v'" by (simp add: ptes_but_def)
qed

text \<open>The outcome of a call that sets the entry of one page.\<close>

definition maps :: "nat set \<Rightarrow> nat \<Rightarrow> u32 \<Rightarrow> u32 \<Rightarrow> vm \<Rightarrow> vm \<Rightarrow> bool" where
  "maps Gs G va x v v' \<longleftrightarrow> vm_wf Gs v' \<and> calm Gs v v' \<and> ptes_but Gs {(G, va)} v v'
     \<and> (pte v' G va = x
        \<or> pte v' G va = pte v G va \<and> full v'
          \<and> (tab v G (dir_idx va) = None \<or> tab v (cur_dir v) SCRATCH_DIR = None))"

lemma put_entry_ok:
  assumes w: "vm_wf Gs v" and G: "G \<in> Gs" and T: "tab v G (dir_idx va) = Some (fno tphys)"
    and u: "user (frames v G (dir_idx va))" and p: "plain_dir va"
  obtains v' where "put_entry tphys (tbl_idx va) x v = Some v'" "maps Gs G va x v v'"
    "tab v (cur_dir v) SCRATCH_DIR \<noteq> None \<Longrightarrow> pte v' G va = x"
  using w
proof (cases rule: scratch_phys_ok [where p = tphys])
  case none
  then show ?thesis
    using w by (intro that [of v]) (simp_all add: put_entry_def maps_def calm_refl ptes_but_refl)
next
  case (win v1)
  note q = quiet_calm [OF w win(3)]
  have T1: "tab v1 G (dir_idx va) = Some (fno tphys)" using quiet_tab [OF win(3) G] p T by simp
  have u1: "user (frames v1 G (dir_idx va))" using quietD(3) [OF win(3) G] p u by simp
  note s = set_pte_ok [OF win(2) G T1 u1 p, of x]
  let ?v = "set_word (fno tphys) (tbl_idx va) x v1"
  have "put_entry tphys (tbl_idx va) x v = Some ?v"
    by (simp add: put_entry_def win(1) window_io(2) [OF win(4)])
  moreover have "maps Gs G va x v ?v"
    using s(1,4) calm_trans [OF q(1) s(2)] ptes_but_trans [OF ptes_but_mono [OF q(2)] s(3)]
    by (simp add: maps_def)
  ultimately show ?thesis using s(4) by (intro that [of ?v]) auto
qed

lemma mapsI:
  assumes "calm Gs v v1" "ptes_but Gs {} v v1" "maps Gs G va x v1 v2" "G \<in> Gs" "plain_dir va"
    "pte v2 G va = x \<or> tab v G (dir_idx va) = None \<or> tab v (cur_dir v) SCRATCH_DIR = None"
  shows "maps Gs G va x v v2"
  using assms calm_trans [OF assms(1)] ptes_but_trans [OF ptes_but_mono [OF assms(2), of "{(G, va)}"]]
    ptes_butD [OF assms(2,4,5)] by (auto simp: maps_def)

lemma quiet_zero_fresh:
  assumes w: "vm_wf Gs v" and q: "quiet Gs v v1" and w1: "vm_wf Gs v1" and i: "data Gs v1 i" "\<not> used v i"
  defines "v2 \<equiv> set_frame i zero_page v1"
  shows "vm_wf Gs v2" "quiet Gs v v2" "data Gs v2 i" "frames v2 i = zero_page"
proof -
  have nG: "i \<notin> Gs" using i(1) by (simp add: data_def)
  show "vm_wf Gs v2" unfolding v2_def by (rule vm_wf_write(2) [OF w1 nG])
  show "quiet Gs v v2" unfolding v2_def by (rule quiet_unused_frame [OF q i(2) nG])
  have "tab v2 H d = tab v1 H d" if "H \<in> Gs" for H d
    by (rule tab_same) (use nG that in \<open>auto simp: v2_def\<close>)
  then show "data Gs v2 i" using i(1) by (auto simp: data_def) (simp add: v2_def)
qed (simp add: v2_def)

lemma map_here_ok:
  assumes w: "vm_wf Gs v" and u: "user_va v (cur_dir v) va" and fl: "user fl"
  obtains v' j where "map_here va x fl v = Some v'" "maps Gs (cur_dir v) va x v v'"
    "\<not> full v \<Longrightarrow> pte v' (cur_dir v) va = x" "\<And>F. used v' F \<Longrightarrow> F = j \<or> used v F"
proof -
  let ?G = "cur_dir v" and ?d = "dir_idx va"
  have G: "?G \<in> Gs" by (rule vm_wfD(1) [OF w])
  have p: "plain_dir va" using u by (simp add: user_va_def)
  show ?thesis
  proof (cases "tab v ?G ?d")
    case (Some T)
    have us: "user (frames v ?G ?d)" using u Some by (simp add: user_va_def)
    note s = set_pte_ok [OF w G Some us p, of x]
    have "map_here va x fl v = Some (set_word T (tbl_idx va) x v)"
      using tab_SomeD [OF Some] p by (simp add: map_here_def rd_pd_at [OF w] wr_table_at [OF w _ _ Some])
    moreover have "maps Gs ?G va x v (set_word T (tbl_idx va) x v)"
      unfolding maps_def using s by blast
    moreover have "pte (set_word T (tbl_idx va) x v) ?G va = x" using s(4) by simp
    ultimately show ?thesis by (rule that) auto
  next
    case None
    obtain f v1 where a: "alloc v = (f, v1)" by fastforce
    from a vm_wfD(7) [OF w] show ?thesis
    proof (cases rule: alloc_cases)
      case none
      then have "map_here va x fl v = Some v"
        using None p a by (simp add: map_here_def rd_pd_at [OF w] tab_None)
      moreover have "maps Gs ?G va x v v"
        using none None w by (simp add: maps_def calm_refl ptes_but_refl)
      moreover have "pte v ?G va = x" if "\<not> full v" using that none(3) by simp
      ultimately show ?thesis by (rule that [of v]) auto
    next
      case (frame i)
      define e where "e = (f OR PAGE_PRESENT OR PAGE_RW OR (fl AND PAGE_USER))"
      have e: "present e" "fno e = i" "user e" using frame(3) fl by (simp_all add: e_def fno_OR)
      have w1: "vm_wf Gs v1" "data Gs v1 i"
        using vm_wf_alloc [OF w frame(6) _ frame(8,9,12)] frame(7) by auto
      note z = quiet_zero_fresh [OF w quiet_alloc [OF frame(7-11,6)] w1 frame(6)]
      let ?z = "set_frame i zero_page v1" and ?v3 = "set_word ?G ?d e (set_frame i zero_page v1)"
      have nz: "tab ?z ?G ?d = None" using quiet_tab [OF z(2) G] p None by simp
      note l = link_table_ok [OF quiet_calm(1) [OF w z(2)] z(1,3) frame(6) z(4) G nz _ _ e]
      have l: "vm_wf Gs ?v3" "calm Gs v ?v3" "ptes_but Gs {} v ?v3" "tab ?v3 ?G ?d = Some i" "user (frames ?v3 ?G ?d)"
        using l p ptes_but_trans [OF quiet_calm(2) [OF w z(2)]] by auto
      have iG: "i \<noteq> ?G" using z(3) G by (auto simp: data_def)
      have "?v3 = set_frame i zero_page (set_word ?G ?d e v1)"
        using iG by (auto simp: set_word_def set_frame_def fun_eq_iff)
      moreover have "vm_wf Gs (set_word ?G ?d e v1)"
        by (rule vm_wf_new_entry [OF w1(1) G _ _ w1(2) e(1,2)]) (use p None frame(8) tab_same [of v1 ?G v] in simp_all)
      moreover have "tab (set_word ?G ?d e v1) ?G ?d = Some i" using e by (simp add: tab_def)
      ultimately have st: "wr (pd_at ?d) e v1 = Some (set_word ?G ?d e v1)"
          "wr_page (table_at ?d 0) zero_page (set_word ?G ?d e v1) = Some ?v3"
        using p frame(9) wr_pd_at [OF w1(1), of ?d e] wr_page_table_at [of Gs "set_word ?G ?d e v1" ?d i zero_page]
        by simp_all
      have "wr (table_at ?d (tbl_idx va)) x ?v3 = Some (set_word i (tbl_idx va) x ?v3)"
        by (rule wr_table_at [OF l(1)]) (use p frame(9) l(4) in simp_all)
      then have "map_here va x fl v = Some (set_word i (tbl_idx va) x ?v3)"
        using None p frame(2) st by (simp add: map_here_def rd_pd_at [OF w] tab_None a e_def [symmetric])
      moreover note s = set_pte_ok [OF l(1) G l(4,5) p, of x]
      then have "maps Gs ?G va x v (set_word i (tbl_idx va) x ?v3)"
        using calm_trans [OF l(2) s(2)] ptes_but_trans [OF ptes_but_mono [OF l(3)] s(3)] by (simp add: maps_def)
      moreover have "pte (set_word i (tbl_idx va) x ?v3) ?G va = x" using s(4) by simp
      moreover have "F = i \<or> used v F" if "used (set_word i (tbl_idx va) x ?v3) F" for F
        using that frame(7) by simp
      ultimately show ?thesis by (rule that)
    qed
  qed
qed

lemma scratch_phys_hot:
  assumes w: "vm_wf Gs v" and h: "tab v (cur_dir v) SCRATCH_DIR \<noteq> None"
  obtains v' where "paging_scratch_phys p v = Some (SCRATCH_VADDR, v')" "vm_wf Gs v'" "quiet Gs v v'"
    "window v' = Some (fno p)" "tab v' (cur_dir v') SCRATCH_DIR \<noteq> None" "vpmm v' = vpmm v"
  using w
  by (cases rule: scratch_phys_ok [where p = p]) (use h that in auto)

lemma quiet_hot:
  "vm_wf Gs v \<Longrightarrow> quiet Gs v v' \<Longrightarrow> tab v (cur_dir v) SCRATCH_DIR \<noteq> None
    \<Longrightarrow> tab v' (cur_dir v') SCRATCH_DIR \<noteq> None"
  using quietD(1,8) [of Gs v v'] vm_wfD(1) [of Gs v] by auto

lemma calm_hot:
  "vm_wf Gs v \<Longrightarrow> calm Gs v v' \<Longrightarrow> tab v (cur_dir v) SCRATCH_DIR \<noteq> None
    \<Longrightarrow> tab v' (cur_dir v') SCRATCH_DIR \<noteq> None"
  using calmD(1,8) [of Gs v v'] vm_wfD(1) [of Gs v] by auto

lemma map_there_ok:
  assumes w: "vm_wf Gs v" and G: "fno c \<in> Gs" and u: "user_va v (fno c) va" and fl: "user fl"
  obtains v' where "map_there c va x fl v = Some v'" "maps Gs (fno c) va x v v'"
  using w
proof (cases rule: scratch_phys_ok [where p = c])
  case none
  then show ?thesis using w
    by (intro that [of v]) (simp_all add: map_there_def maps_def calm_refl ptes_but_refl)
next
  case (win v1)
  let ?G = "fno c" and ?d = "dir_idx va"
  have p: "plain_dir va" using u by (simp add: user_va_def)
  note q1 = quiet_calm [OF w win(3)]
  have e1: "rd (SCRATCH_VADDR + 4 * of_nat ?d) v1 = Some (frames v ?G ?d)" "tab v1 ?G ?d = tab v ?G ?d"
    using window_io(1) [OF win(4)] quietD(3) [OF win(3) G] quiet_tab [OF win(3) G] p by simp_all
  show ?thesis
  proof (cases "tab v ?G ?d")
    case (Some T)
    have us: "user (frames v1 ?G ?d)"
      using u Some quietD(3) [OF win(3) G] p by (simp add: user_va_def)
    have T: "fno (frames v ?G ?d AND FRAME_MASK) = T" "present (frames v ?G ?d)" using tab_SomeD [OF Some] by simp_all
    then have t1: "tab v1 ?G ?d = Some (fno (frames v ?G ?d AND FRAME_MASK))" using e1(2) Some by simp
    obtain v2 where v2: "put_entry (frames v ?G ?d AND FRAME_MASK) (tbl_idx va) x v1 = Some v2"
        "maps Gs ?G va x v1 v2" "pte v2 ?G va = x"
      by (rule put_entry_ok [OF win(2) G t1 us p, of x]) (use win(5) in auto)
    have "map_there c va x fl v = Some v2"
      using v2(1) T by (simp add: map_there_def win(1) e1(1))
    moreover have "maps Gs ?G va x v v2"
      by (rule mapsI [OF q1 v2(2) G p]) (simp add: v2(3))
    ultimately show ?thesis by (rule that)
  next
    case None
    obtain f v2 where a: "alloc v1 = (f, v2)" by fastforce
    from a vm_wfD(7) [OF win(2)] show ?thesis
    proof (cases rule: alloc_cases)
      case none
      then have "map_there c va x fl v = Some v1"
        using None by (simp add: map_there_def win(1) e1(1) tab_None a)
      moreover have "maps Gs ?G va x v v1"
        using q1 none(3) None p G win(2) ptes_butD [OF q1(2) G p] ptes_but_mono [OF q1(2)]
        by (simp add: maps_def)
      ultimately show ?thesis by (rule that)
    next
      case (frame i)
      define e where "e = (f OR PAGE_PRESENT OR PAGE_RW OR (fl AND PAGE_USER))"
      have e: "present e" "fno e = i" "user e" using frame(3) fl by (simp_all add: e_def fno_OR)
      have i0: "\<not> used v i" using quietD(4) [OF win(3)] frame(6) by blast
      have w2: "vm_wf Gs v2" "data Gs v2 i"
        using vm_wf_alloc [OF win(2) frame(6) _ frame(8,9,12)] frame(7) by auto
      have qa: "quiet Gs v1 v2" by (rule quiet_alloc [OF frame(7-11,6)])
      obtain v3 where s3: "paging_scratch_phys f v2 = Some (SCRATCH_VADDR, v3)" "vm_wf Gs v3" "quiet Gs v2 v3"
          "window v3 = Some (fno f)" "tab v3 (cur_dir v3) SCRATCH_DIR \<noteq> None"
        by (rule scratch_phys_hot [OF w2(1) quiet_hot [OF win(2) qa win(5)]])
      have d3: "data Gs v3 i" by (rule calmD(5) [OF quiet_calm(1) [OF w2(1) s3(3)] w2(2)])
      note z = quiet_zero_fresh [OF w quiet_trans [OF win(3) quiet_trans [OF qa s3(3)]] s3(2) d3 i0]
      let ?v4 = "set_frame i zero_page v3"
      have c4: "wr_page SCRATCH_VADDR zero_page v3 = Some ?v4"
        using window_io(4) [OF s3(4)] frame(3) by simp
      have h4: "tab ?v4 (cur_dir ?v4) SCRATCH_DIR \<noteq> None"
      proof -
        have "cur_dir v3 \<noteq> i" using vm_wfD(1) [OF s3(2)] d3 by (auto simp: data_def)
        then show ?thesis using s3(5) tab_same [of ?v4 "cur_dir v3" v3] by simp
      qed
      obtain v5 where s5: "paging_scratch_phys c ?v4 = Some (SCRATCH_VADDR, v5)" "vm_wf Gs v5" "quiet Gs ?v4 v5"
          "window v5 = Some ?G" "tab v5 (cur_dir v5) SCRATCH_DIR \<noteq> None"
        by (rule scratch_phys_hot [OF z(1) h4])
      note q5 = quiet_trans [OF z(2) s5(3)]
      note k5 = quiet_calm(1) [OF z(1) s5(3)]
      let ?v6 = "set_word ?G ?d e v5"
      have n5: "tab v5 ?G ?d = None" using quiet_tab [OF q5 G] p None by simp
      note l = link_table_ok [OF quiet_calm(1) [OF w q5] s5(2) calmD(5) [OF k5 z(3)] i0 _ G n5 _ _ e]
      have l: "vm_wf Gs ?v6" "calm Gs v ?v6" "ptes_but Gs {} v ?v6" "tab ?v6 ?G ?d = Some (fno f)"
          "user (frames ?v6 ?G ?d)"
        using l p calmD(6) [OF k5 z(3)] ptes_but_trans [OF quiet_calm(2) [OF w q5]] frame(3) z(4) by auto
      have h6: "tab ?v6 (cur_dir ?v6) SCRATCH_DIR \<noteq> None"
        using s5(5) p by (auto simp: tab_def split: if_splits)
      obtain v7 where v7: "put_entry f (tbl_idx va) x ?v6 = Some v7" "maps Gs ?G va x ?v6 v7" "pte v7 ?G va = x"
        by (rule put_entry_ok [OF l(1) G l(4,5) p, of x]) (use h6 in auto)
      have "map_there c va x fl v = Some v7"
        using None frame(2) c4 v7(1) window_io(2) [OF s5(4), of ?d]
        by (simp add: map_there_def win(1) e1(1) tab_None a s3(1) s5(1) e_def [symmetric])
      moreover have "maps Gs ?G va x v v7"
        by (rule mapsI [OF l(2,3) v7(2) G p]) (simp add: v7(3))
      ultimately show ?thesis by (rule that)
    qed
  qed
qed

lemma map_in_space_ok:
  assumes w: "vm_wf Gs v" and G: "fno c \<in> Gs" and u: "user_va v (fno c) va" and fl: "user fl"
  obtains v' where "paging_map_in_space c va phys fl v = Some v'"
    "maps Gs (fno c) va ((phys AND FRAME_MASK) OR PAGE_PRESENT OR (fl AND 0xFFF)) v v'"
proof (cases "c = loaded v")
  case True
  then show ?thesis
    using map_here_ok [OF w _ fl, of va] u that by (simp add: paging_map_in_space_def Let_def) metis
next
  case False
  then show ?thesis
    using map_there_ok [OF w G u fl] that by (auto simp: paging_map_in_space_def Let_def)
qed

section \<open>Entries and flags\<close>

lemma flag_bits:
  "(x :: u32) AND 1 = 0 \<longleftrightarrow> \<not> bit x 0" "x AND 2 = 0 \<longleftrightarrow> \<not> bit x 1" "x AND 4 = 0 \<longleftrightarrow> \<not> bit x 2" "x AND 0x200 = 0 \<longleftrightarrow> \<not> bit x 9"
  using and_exp_eq_0_iff_not_bit [of x 0] and_exp_eq_0_iff_not_bit [of x 1] and_exp_eq_0_iff_not_bit [of x 2]
    and_exp_eq_0_iff_not_bit [of x 9] by simp_all

lemma present_bit: "present x \<longleftrightarrow> bit x 0"
  by (simp add: present_def flag_bits)

lemma user_bit: "user x \<longleftrightarrow> bit x 2"
  by (simp add: user_def flag_bits)

lemma bit_FRAME_MASK [simp]: "bit (x AND FRAME_MASK) k \<longleftrightarrow> bit x k \<and> 12 \<le> k"
  by (auto simp: frame_mask bit_and_iff bit_not_iff bit_mask_iff dest: bit_imp_possible_bit)

lemma bit_FFF [simp]: "bit (x AND 0xFFF :: u32) k \<longleftrightarrow> bit x k \<and> k < 12"
  by (auto simp: mask_12_u32 bit_and_iff bit_mask_iff dest: bit_imp_possible_bit)

lemma bit_flag_consts [simp]:
  "bit (1 :: u32) k \<longleftrightarrow> k = 0" "bit (2 :: u32) k \<longleftrightarrow> k = 1" "bit (4 :: u32) k \<longleftrightarrow> k = 2" "bit (0x200 :: u32) k \<longleftrightarrow> k = 9"
  using bit_exp_iff [of 0 k, where 'a = "32 word"] bit_exp_iff [of 1 k, where 'a = "32 word"]
    bit_exp_iff [of 2 k, where 'a = "32 word"] bit_exp_iff [of 9 k, where 'a = "32 word"] by auto

lemma page_down_mask: "page_down x = x AND FRAME_MASK"
  by (simp only: page_down_def frame_mask mask_12_u32)

lemma page_down_phys: "page_down ((e AND FRAME_MASK) OR (va AND 0xFFF)) = e AND FRAME_MASK"
  unfolding page_down_mask by (rule bit_word_eqI) (auto simp: bit_or_iff)

lemma idx_fno: "dir_idx va = fno va div 1024" "tbl_idx va = fno va mod 1024"
  by (simp_all add: dir_idx_nat tbl_idx_nat fno_nat div_mult2_eq [symmetric])

lemma page_down_idx [simp]: "dir_idx (page_down va) = dir_idx va" "tbl_idx (page_down va) = tbl_idx va"
  by (simp_all add: idx_fno page_down_mask)

lemma page_down_low [simp]: "page_down va AND 0xFFF = 0"
  by (simp only: page_down_mask frame_mask mask_12_u32 and.assoc bit.conj_cancel_left bit.conj_zero_right)

lemma pte_page_down [simp]: "pte v G (page_down va) = pte v G va"
  by (simp add: pte_def split: option.split)

lemma frame_of_mask: "frame_of (e AND FRAME_MASK) = (if fno e < PMM_MAX_FRAMES then Some (fno e) else None)"
proof -
  have "unat (e AND FRAME_MASK) = 4096 * fno e"
    by (simp add: fno_nat page_down_mask [symmetric] unat_page_down)
  then have "unat ((e AND FRAME_MASK) mod 4096) = 0" "unat ((e AND FRAME_MASK) div 4096) = fno e"
    by (simp_all add: unat_mod unat_div del: unat_eq_0)
  then show ?thesis by (auto simp: frame_of_def Let_def unat_eq_0)
qed

lemma get_phys_ok:
  assumes w: "vm_wf Gs v" and p: "dir_idx va < 1023"
  shows "paging_get_phys va v = Some (if present (pte v (cur_dir v) va)
    then (pte v (cur_dir v) va AND FRAME_MASK) OR (va AND 0xFFF) else 0)"
proof (cases "tab v (cur_dir v) (dir_idx va)")
  case None
  then have "pte v (cur_dir v) va = 0" by (simp add: pte_def)
  then show ?thesis using p None
    by (simp add: paging_get_phys_def paging_get_phys_current_def rd_pd_at [OF w] tab_None)
next
  case (Some T)
  then show ?thesis using p tab_SomeD [OF Some]
    by (simp add: paging_get_phys_def paging_get_phys_current_def rd_pd_at [OF w] rd_table_at [OF w p _ Some] pte_def)
qed

lemma get_flags_ok:
  assumes w: "vm_wf Gs v" and p: "dir_idx va < 1023"
  shows "paging_get_pte_flags va v = Some (pte v (cur_dir v) va AND 0xFFF)"
proof (cases "tab v (cur_dir v) (dir_idx va)")
  case None
  then have "pte v (cur_dir v) va = 0" by (simp add: pte_def)
  then show ?thesis using p None by (simp add: paging_get_pte_flags_def rd_pd_at [OF w] tab_None)
next
  case (Some T)
  then show ?thesis using p tab_SomeD [OF Some]
    by (simp add: paging_get_pte_flags_def rd_pd_at [OF w] rd_table_at [OF w p _ Some] pte_def)
qed

lemma get_ref_ok: "used v (fno e) \<Longrightarrow> pmm_get_ref (e AND FRAME_MASK) (vpmm v) = uint (refs v (fno e))"
  by (simp add: pmm_get_ref_def frame_of_mask used_def)

section \<open>Copy on write\<close>

definition entry_for :: "u32 \<Rightarrow> u32 \<Rightarrow> u32" where
  "entry_for phys fl = (phys AND FRAME_MASK) OR PAGE_PRESENT OR (fl AND 0xFFF)"

lemma fno_entry_for [simp]: "fno (entry_for phys fl) = fno phys"
  by (simp add: entry_for_def fno_OR)

lemma bit_entry_for: "bit (entry_for phys fl) k \<longleftrightarrow> k = 0 \<or> (if k < 12 then bit fl k else bit phys k)"
  by (auto simp: entry_for_def bit_or_iff)

lemma bit_clear_flag [simp]:
  "bit (x AND - 513 :: u32) k \<longleftrightarrow> bit x k \<and> k \<noteq> 9" "bit (x AND - 3 :: u32) k \<longleftrightarrow> bit x k \<and> k \<noteq> 1"
proof -
  have "bit (x AND NOT 0x200) k \<longleftrightarrow> bit x k \<and> k \<noteq> 9" "bit (x AND NOT 2) k \<longleftrightarrow> bit x k \<and> k \<noteq> 1"
    by (auto simp only: bit_and_iff bit_not_iff bit_flag_consts dest: bit_imp_possible_bit)
  then show "bit (x AND - 513) k \<longleftrightarrow> bit x k \<and> k \<noteq> 9" "bit (x AND - 3) k \<longleftrightarrow> bit x k \<and> k \<noteq> 1" by simp_all
qed

lemma cow_entry:
  fixes phys :: u32
  assumes "user e"
  defines "n \<equiv> entry_for phys ((e AND 0xFFF) AND NOT PAGE_COW OR PAGE_RW)"
  shows "present n" "user n" "n AND PAGE_RW \<noteq> 0" "n AND PAGE_COW = 0" "fno n = fno phys"
    "user ((e AND 0xFFF) AND NOT PAGE_COW OR PAGE_RW)"
  using assms(1)
  by (simp_all add: n_def flag_bits present_bit user_bit bit_entry_for bit_or_iff)

text \<open>A write to a page marked copy-on-write: the task continues on a writable page with the same contents,
  its own when the frame was shared, and nothing else changes for anyone.\<close>

lemma on_pmm_dec [simp]:
  "frames (on_pmm g v) = frames v" "loaded (on_pmm g v) = loaded v" "mmap_next (on_pmm g v) = mmap_next v"
  "vpmm (on_pmm g v) = g (vpmm v)" "tab (on_pmm g v) = tab v" "pte (on_pmm g v) = pte v"
  by (simp_all add: on_pmm_def tab_def pte_def fun_eq_iff)

lemma used_dec [simp]: "used (on_pmm (pmm_dec_ref p) v) = used v" "used (on_pmm (pmm_inc_ref p) v) = used v"
  by (auto simp: used_def fun_eq_iff pmm_dec_ref_def pmm_inc_ref_def split: option.split)

lemma refs_dec:
  "used v (fno e) \<Longrightarrow> refs v (fno e) > 0
    \<Longrightarrow> refs (on_pmm (pmm_dec_ref (e AND FRAME_MASK)) v) = (refs v)(fno e := refs v (fno e) - 1)"
  by (auto simp: pmm_dec_ref_def frame_of_mask used_def)

lemma vm_wf_refs:
  "vm_wf Gs (on_pmm (pmm_dec_ref p) v) = vm_wf Gs v" "vm_wf Gs (on_pmm (pmm_inc_ref p) v) = vm_wf Gs v"
  by (auto simp: vm_wf_def shared_def pmm_dec_ref_def pmm_inc_ref_def split: option.splits)

lemma data_refs:
  "data Gs (on_pmm (pmm_dec_ref p) v) = data Gs v" "data Gs (on_pmm (pmm_inc_ref p) v) = data Gs v"
  by (simp_all add: data_def fun_eq_iff)

lemma copy_frame_ok:
  assumes w: "vm_wf Gs v" and h: "tab v (cur_dir v) SCRATCH_DIR \<noteq> None" and o: "data Gs v (fno old)"
    and i: "\<not> used v i" "\<And>F. used v1 F \<longleftrightarrow> F = i \<or> used v F" "frames v1 = frames v" "loaded v1 = loaded v"
      "mmap_next v1 = mmap_next v" "refs v1 = (refs v)(i := 1)" "fno f = i" "pmm_ready (vpmm v1)"
  obtains v2 v3 v4 where "paging_scratch_phys old v1 = Some (SCRATCH_VADDR, v2)"
    "rd_page SCRATCH_VADDR v2 = Some (frames v (fno old))"
    "paging_scratch_phys f v2 = Some (SCRATCH_VADDR, v3)"
    "wr_page SCRATCH_VADDR (frames v (fno old)) v3 = Some v4"
    "vm_wf Gs v4" "quiet Gs v v4" "data Gs v4 i" "frames v4 i = frames v (fno old)" "refs v4 = (refs v)(i := 1)"
    "tab v4 (cur_dir v4) SCRATCH_DIR \<noteq> None"
proof -
  have w1: "vm_wf Gs v1" "data Gs v1 i" using vm_wf_alloc [OF w i(1) _ i(3,4,8)] i(2) by auto
  have q1: "quiet Gs v v1" by (rule quiet_alloc [OF i(2-6,1)])
  obtain v2 where v2: "paging_scratch_phys old v1 = Some (SCRATCH_VADDR, v2)" "vm_wf Gs v2" "quiet Gs v1 v2"
      "window v2 = Some (fno old)" "tab v2 (cur_dir v2) SCRATCH_DIR \<noteq> None" "vpmm v2 = vpmm v1"
    by (rule scratch_phys_hot [OF w1(1) quiet_hot [OF w q1 h]])
  obtain v3 where v3: "paging_scratch_phys f v2 = Some (SCRATCH_VADDR, v3)" "vm_wf Gs v3" "quiet Gs v2 v3"
      "window v3 = Some (fno f)" "tab v3 (cur_dir v3) SCRATCH_DIR \<noteq> None" "vpmm v3 = vpmm v2"
    by (rule scratch_phys_hot [OF v2(2,5)])
  have o2: "frames v2 (fno old) = frames v (fno old)"
    by (rule calmD(6) [OF quiet_calm(1) [OF w quiet_trans [OF q1 v2(3)]] o])
  let ?v4 = "set_frame i (frames v (fno old)) v3"
  have d3: "data Gs v3 i"
    by (rule calmD(5) [OF quiet_calm(1) [OF w1(1) quiet_trans [OF v2(3) v3(3)]] w1(2)])
  have nG: "i \<notin> Gs" using d3 by (simp add: data_def)
  have t4: "tab ?v4 H d = tab v3 H d" if "H \<in> Gs" for H d
    by (rule tab_same) (use nG that in auto)
  show ?thesis
  proof (rule that [OF v2(1) _ v3(1)])
    show "rd_page SCRATCH_VADDR v2 = Some (frames v (fno old))" using window_io(3) [OF v2(4)] o2 by simp
    show "wr_page SCRATCH_VADDR (frames v (fno old)) v3 = Some ?v4" using window_io(4) [OF v3(4)] i(7) by simp
    show "vm_wf Gs ?v4" by (rule vm_wf_write(2) [OF v3(2) nG])
    show "quiet Gs v ?v4"
      by (rule quiet_unused_frame [OF quiet_trans [OF q1 quiet_trans [OF v2(3) v3(3)]] i(1) nG])
    show "data Gs ?v4 i" using d3 by (auto simp: data_def t4)
    show "refs ?v4 = (refs v)(i := 1)" using v3(6) v2(6) i(6) by simp
    show "tab ?v4 (cur_dir ?v4) SCRATCH_DIR \<noteq> None" using v3(5) t4 [OF vm_wfD(1) [OF v3(2)]] by simp
  qed simp
qed

lemma maps_pte:
  assumes "maps Gs G va x v v'" "tab v G (dir_idx va) \<noteq> None" "tab v (cur_dir v) SCRATCH_DIR \<noteq> None"
  shows "pte v' G va = x"
  using assms by (auto simp: maps_def)

lemma pte_tab: "pte v G va \<noteq> 0 \<Longrightarrow> tab v G (dir_idx va) \<noteq> None"
  by (auto simp: pte_def split: option.splits)

lemma user_va_page_down [simp]: "user_va v G (page_down va) = user_va v G va"
  by (simp add: user_va_def)

lemma map_entry_ok:
  assumes "vm_wf Gs v" "fno c \<in> Gs" "user_va v (fno c) va" "user fl"
  obtains v' where "paging_map_in_space c va phys fl v = Some v'" "maps Gs (fno c) va (entry_for phys fl) v v'"
  using map_in_space_ok [OF assms, of phys] unfolding entry_for_def by blast

lemma ptes_but_slot: "ptes_but Gs {(G, page_down va)} v v' = ptes_but Gs {(G, va)} v v'"
  by (simp add: ptes_but_def)

text \<open>What the fault leaves: \<open>n\<close> is the new entry of the page, \<open>o\<close> the old frame.\<close>

definition cow_resolved :: "nat set \<Rightarrow> u32 \<Rightarrow> vm \<Rightarrow> vm \<Rightarrow> bool" where
  "cow_resolved Gs va v v' \<longleftrightarrow>
     (let n = pte v' (cur_dir v) va; old = fno (pte v (cur_dir v) va) in
      present n \<and> user n \<and> n AND PAGE_RW \<noteq> 0 \<and> n AND PAGE_COW = 0
      \<and> frames v' (fno n) = frames v old
      \<and> (if uint (refs v old) > 1
         then \<not> used v (fno n) \<and> used v' (fno n) \<and> refs v' (fno n) = 1 \<and> refs v' old = refs v old - 1
         else fno n = old \<and> refs v' old = refs v old)
      \<and> (\<forall>F. data Gs v F \<longrightarrow> frames v' F = frames v F)
      \<and> (\<forall>F. used v F \<and> F \<noteq> old \<longrightarrow> refs v' F = refs v F)
      \<and> ptes_but Gs {(cur_dir v, va)} v v' \<and> loaded v' = loaded v \<and> vm_wf Gs v')"

lemma cow_fault_ok:
  assumes w: "vm_wf Gs v" and h: "tab v (cur_dir v) SCRATCH_DIR \<noteq> None" and u: "user_va v (cur_dir v) va"
    and e: "present (pte v (cur_dir v) va)" "user (pte v (cur_dir v) va)"
    and o: "data Gs v (fno (pte v (cur_dir v) va))" and c: "cr3 t = loaded v"
  obtains (served) v' where "cow_fault (page_down va) (pte v (cur_dir v) va AND 0xFFF) (Some t) v = Some (True, v')"
      "cow_resolved Gs va v v'"
  | (full) "cow_fault (page_down va) (pte v (cur_dir v) va AND 0xFFF) (Some t) v = Some (False, v)" "full v"
proof -
  let ?C = "cur_dir v"
  define e0 where "e0 = pte v ?C va"
  let ?old = "e0 AND FRAME_MASK" and ?fl = "(e0 AND 0xFFF) AND NOT PAGE_COW OR PAGE_RW"
  have C: "?C \<in> Gs" by (rule vm_wfD(1) [OF w])
  have p: "dir_idx va < 1023" using u by (simp add: user_va_def)
  have ph: "paging_get_phys (page_down va) v = Some ?old"
    using get_phys_ok [OF w, of "page_down va"] p e(1) by (simp add: e0_def)
  have pd: "page_down ?old = ?old" using page_down_phys [of e0 0] by simp
  have us: "used v (fno e0)" using o by (simp add: data_def e0_def)
  have rf: "pmm_get_ref ?old (vpmm v) = uint (refs v (fno e0))" by (rule get_ref_ok [OF us])
  have ue: "user e0" using e(2) by (simp add: e0_def)
  note n = cow_entry [OF ue]
  have tn: "tab v ?C (dir_idx va) \<noteq> None" using e(1) by (intro pte_tab) auto
  show ?thesis
  proof (cases "uint (refs v (fno e0)) > 1")
    case False
    obtain v1 where v1: "paging_map_in_space (loaded v) (page_down va) ?old ?fl v = Some v1"
        "maps Gs ?C (page_down va) (entry_for ?old ?fl) v v1"
      using map_entry_ok [OF w C _ n(6), of "page_down va" ?old] u by auto
    have pt: "pte v1 ?C va = entry_for ?old ?fl" using maps_pte [OF v1(2) _ h] tn by simp
    have m: "vm_wf Gs v1" "calm Gs v v1" "ptes_but Gs {(?C, va)} v v1"
      using v1(2) by (auto simp: maps_def ptes_but_slot)
    have "cow_resolved Gs va v v1"
      unfolding cow_resolved_def Let_def pt
      using n(1-5) [of ?old] False m(1,3) calmD(1,4,6) [OF m(2)] o us by (simp add: e0_def)
    moreover have "cow_fault (page_down va) (e0 AND 0xFFF) (Some t) v = Some (True, v1)"
      using v1(1) False by (simp add: cow_fault_def ph pd rf c)
    ultimately show ?thesis by (intro served [of v1]) (simp_all add: e0_def)
  next
    case True
    obtain f v1 where a: "alloc v = (f, v1)" by fastforce
    from a vm_wfD(7) [OF w] show ?thesis
    proof (cases rule: alloc_cases)
      case none
      then show ?thesis
        using True a by (intro full) (simp_all add: cow_fault_def ph pd rf Let_def e0_def [symmetric])
    next
      case (frame i)
      have o': "data Gs v (fno ?old)" using o by (simp add: e0_def)
      obtain v2 v3 v4 where s: "paging_scratch_phys ?old v1 = Some (SCRATCH_VADDR, v2)"
          "rd_page SCRATCH_VADDR v2 = Some (frames v (fno ?old))"
          "paging_scratch_phys f v2 = Some (SCRATCH_VADDR, v3)"
          "wr_page SCRATCH_VADDR (frames v (fno ?old)) v3 = Some v4"
          "vm_wf Gs v4" "quiet Gs v v4" "data Gs v4 i" "frames v4 i = frames v (fno ?old)"
          "refs v4 = (refs v)(i := 1)" "tab v4 (cur_dir v4) SCRATCH_DIR \<noteq> None"
        by (rule copy_frame_ok [OF w h o' frame(6-11,3,12)])
      define v5 where "v5 = on_pmm (pmm_dec_ref ?old) v4"
      note k4 = quiet_calm [OF w s(6)]
      have w5: "vm_wf Gs v5" using s(5) by (simp add: v5_def vm_wf_refs)
      have l5: "loaded v5 = loaded v" using quietD(1) [OF s(6)] by (simp add: v5_def)
      have u5: "user_va v5 ?C va" using calm_user_va [OF k4(1) C u] by (simp add: v5_def user_va_def)
      have ni: "fno e0 \<noteq> i" using us frame(6) by auto
      have r5: "refs v5 = (refs v)(i := 1, fno e0 := refs v (fno e0) - 1)"
        unfolding v5_def using refs_dec [of v4 e0] quietD(4) [OF s(6) us] True ni
        by (simp add: s(9) word_less_def)
      obtain v6 where v6: "paging_map_in_space (loaded v) (page_down va) f ?fl v5 = Some v6"
          "maps Gs ?C (page_down va) (entry_for f ?fl) v5 v6"
        using map_entry_ok [OF w5 C _ n(6), of "page_down va" f] u5 by auto
      have "tab v5 ?C (dir_idx va) \<noteq> None" "tab v5 (cur_dir v5) SCRATCH_DIR \<noteq> None"
        using tn calm_tab [OF k4(1) C] s(10) by (auto simp: v5_def)
      then have pt: "pte v6 ?C va = entry_for f ?fl" using maps_pte [OF v6(2)] by simp
      have m: "vm_wf Gs v6" "calm Gs v5 v6" "ptes_but Gs {(?C, va)} v5 v6"
        using v6(2) by (auto simp: maps_def ptes_but_slot)
      have d5: "data Gs v5 F \<and> frames v5 F = frames v F" if "data Gs v F" for F
        using calmD(5,6) [OF k4(1) that] by (simp add: v5_def data_refs)
      have i5: "data Gs v5 i" "frames v5 i = frames v (fno e0)" using s(7,8) by (simp_all add: v5_def data_refs)
      have u5': "used v5 F" if "used v F" for F using quietD(4) [OF s(6) that] by (simp add: v5_def)
      have ui: "used v5 i" using i5(1) by (simp add: data_def)
      have "ptes_but Gs {(?C, va)} v v6"
        using ptes_but_trans [OF ptes_but_mono [OF k4(2)], of "{(?C, va)}" v6] m(3) by (simp add: v5_def ptes_but_def)
      moreover have "\<forall>F. data Gs v F \<longrightarrow> frames v6 F = frames v F"
        using d5 calmD(6) [OF m(2)] by simp
      moreover have "\<forall>F. used v F \<and> F \<noteq> fno e0 \<longrightarrow> refs v6 F = refs v F"
        using calmD(4) [OF m(2) u5'] r5 frame(6) by auto
      moreover have "used v6 i" "refs v6 i = 1" "refs v6 (fno e0) = refs v (fno e0) - 1" "frames v6 i = frames v (fno e0)"
        using calmD(3,4) [OF m(2) ui] calmD(4) [OF m(2) u5' [OF us]] calmD(6) [OF m(2) i5(1)] r5 ni i5(2) by auto
      ultimately have "cow_resolved Gs va v v6"
        unfolding cow_resolved_def Let_def pt
        using n(1-5) [of f] True m(1) calmD(1) [OF m(2)] l5 frame(3,6) by (simp add: e0_def)
      moreover have "cow_fault (page_down va) (e0 AND 0xFFF) (Some t) v = Some (True, v6)"
        using v6(1) True frame(2) s(1-4) by (simp add: cow_fault_def ph pd rf c a v5_def)
      ultimately show ?thesis by (intro served [of v6]) (simp_all add: e0_def)
    qed
  qed
qed


end
