(* ===== verification/Vm_Fork.thy ===== *)
theory Vm_Fork
  imports Vm_Inv
begin

text \<open>
  What \<open>fork\<close> does to the pages of parent and child (\<open>fork_pages\<close>), page by page and for the whole list of
  regions, and the concrete machine \<open>demo_vm\<close> on which the theorems about page tables are exercised.
\<close>

section \<open>Sharing a page\<close>

text \<open>The entry both sides hold afterwards: the same frame, copy-on-write, not writable.\<close>

definition cowed :: "u32 \<Rightarrow> u32" where
  "cowed e = entry_for e (((e AND 0xFFF) OR PAGE_COW) AND NOT PAGE_RW OR PAGE_PRESENT OR PAGE_USER)"

lemma bit_cowed: "bit (cowed e) k \<longleftrightarrow> k \<in> {0, 2, 9} \<or> k \<noteq> 1 \<and> bit e k"
proof (cases "k < 12")
  case True
  then show ?thesis
    unfolding cowed_def bit_entry_for bit_or_iff bit_and_iff [of _ "NOT _"] bit_not_iff bit_flag_consts bit_FFF
    by (auto dest: bit_imp_possible_bit)
qed (auto simp: cowed_def bit_entry_for)

lemma cowed_facts [simp]:
  "present (cowed e)" "user (cowed e)" "fno (cowed e) = fno e" "cowed (cowed e) = cowed e"
proof -
  show "present (cowed e)" "user (cowed e)" by (simp_all add: present_bit user_bit bit_cowed)
  show "fno (cowed e) = fno e" by (simp add: cowed_def)
  show "cowed (cowed e) = cowed e" by (rule bit_word_eqI) (auto simp: bit_cowed)
qed

lemma cowed_bits: "cowed e AND PAGE_RW = 0" "cowed e AND PAGE_COW \<noteq> 0"
  by (simp_all add: flag_bits bit_cowed)

lemma entry_for_mask: "entry_for (e AND FRAME_MASK) fl = entry_for e fl"
  by (simp add: entry_for_def and.assoc)

abbreviation same_page :: "u32 \<Rightarrow> u32 \<Rightarrow> bool" where
  "same_page a b \<equiv> dir_idx a = dir_idx b \<and> tbl_idx a = tbl_idx b"

lemma pte_same: "same_page a b \<Longrightarrow> pte v G a = pte v G b"
  by (simp add: pte_def split: option.split)

lemma user_va_same: "same_page a b \<Longrightarrow> user_va v G a = user_va v G b"
  by (simp add: user_va_def)

lemma ptes_butI:
  "(\<And>H va. H \<in> Gs \<Longrightarrow> plain_dir va \<Longrightarrow> (\<And>w. (H, w) \<in> X \<Longrightarrow> \<not> same_page w va) \<Longrightarrow> pte v' H va = pte v H va)
    \<Longrightarrow> ptes_but Gs X v v'"
  unfolding ptes_but_def by blast

lemma ptes_but_apply:
  "ptes_but Gs X v v' \<Longrightarrow> H \<in> Gs \<Longrightarrow> plain_dir va \<Longrightarrow> (\<And>w. (H, w) \<in> X \<Longrightarrow> \<not> same_page w va)
    \<Longrightarrow> pte v' H va = pte v H va"
  unfolding ptes_but_def by blast

text \<open>The count \<open>pmm_inc_ref\<close> leaves: it sticks at \<open>0xFFFF\<close>.\<close>

definition raised :: "u16 \<Rightarrow> nat \<Rightarrow> u16" where
  "raised r n = of_nat (min 65535 (unat r + n))"

lemma unat_raised: "unat (raised r n) = min 65535 (unat r + n)"
  by (simp add: raised_def unat_of_nat)

lemma raised_0 [simp]: "raised r 0 = r"
  using u16_less [of r] by (simp add: word_unat_eq_iff unat_raised)

lemma raised_raised: "raised (raised r m) n = raised r (m + n)"
  by (simp add: word_unat_eq_iff unat_raised)

lemma refs_inc:
  assumes "used v (fno e)"
  shows "refs (on_pmm (pmm_inc_ref (e AND FRAME_MASK)) v) = (refs v)(fno e := raised (refs v (fno e)) 1)"
proof -
  have "raised r 1 = (if r < 0xFFFF then r + 1 else r)" for r :: u16
    using u16_less [of r]
    by (auto simp: word_unat_eq_iff unat_raised word_less_nat_alt unat_word_ariths)
  then show ?thesis using assms by (auto simp: pmm_inc_ref_def frame_of_mask used_def)
qed
text \<open>A page \<open>fork\<close> may be given: of the user in both spaces, and if mapped, on a frame of data.\<close>

definition forkable :: "nat set \<Rightarrow> vm \<Rightarrow> nat \<Rightarrow> nat \<Rightarrow> u32 \<Rightarrow> bool" where
  "forkable Gs v C G va \<longleftrightarrow> user_va v C va \<and> user_va v G va
     \<and> (present (pte v C va) \<longrightarrow> data Gs v (fno (pte v C va)) \<and> fno (pte v C va) \<noteq> 0)"

definition fork_step :: "nat set \<Rightarrow> nat \<Rightarrow> u32 \<Rightarrow> vm \<Rightarrow> vm \<Rightarrow> bool" where
  "fork_step Gs G va v v' \<longleftrightarrow> vm_wf Gs v' \<and> loaded v' = loaded v
     \<and> tab v' (cur_dir v') SCRATCH_DIR \<noteq> None
     \<and> (\<forall>F. data Gs v F \<longrightarrow> data Gs v' F \<and> frames v' F = frames v F)
     \<and> (\<forall>F. used v F \<longrightarrow> used v' F)
     \<and> (\<forall>H\<in>Gs. \<forall>wa. user_va v H wa \<longrightarrow> user_va v' H wa)
     \<and> (if present (pte v (cur_dir v) va)
        then pte v' (cur_dir v) va = cowed (pte v (cur_dir v) va)
          \<and> (pte v' G va = cowed (pte v (cur_dir v) va) \<or> pte v' G va = pte v G va \<and> full v')
          \<and> ptes_but Gs {(cur_dir v, va), (G, va)} v v'
          \<and> (\<forall>F. used v F \<longrightarrow> refs v' F = (if F = fno (pte v (cur_dir v) va) then raised (refs v F) 1 else refs v F))
        else v' = v)"

lemma fork_page_ok:
  assumes w: "vm_wf Gs v" and h: "tab v (cur_dir v) SCRATCH_DIR \<noteq> None" and c: "parent = loaded v"
    and G: "fno child \<in> Gs" "fno child \<noteq> cur_dir v" and f: "forkable Gs v (cur_dir v) (fno child) va"
  obtains v' where "fork_page child parent va v = Some v'" "fork_step Gs (fno child) va v v'"
proof (cases "present (pte v (cur_dir v) va)")
  case False
  have p: "dir_idx va < 1023" using f by (simp add: forkable_def user_va_def)
  have "fork_page child parent va v = Some v"
    using False get_phys_ok [OF w p] by (simp add: fork_page_def)
  moreover have "fork_step Gs (fno child) va v v" unfolding fork_step_def using False w h by auto
  ultimately show ?thesis by (rule that)
next
  case True
  let ?C = "cur_dir v" and ?G = "fno child"
  define e where "e = pte v ?C va"
  let ?fl = "((e AND 0xFFF) OR PAGE_COW) AND NOT PAGE_RW OR PAGE_PRESENT OR PAGE_USER"
  have C: "?C \<in> Gs" by (rule vm_wfD(1) [OF w])
  have u: "user_va v ?C va" "user_va v ?G va" and d: "data Gs v (fno e)" "fno e \<noteq> 0" "used v (fno e)"
    using f True by (auto simp: forkable_def e_def data_def)
  have p: "dir_idx va < 1023" "plain_dir va" using u(1) by (auto simp: user_va_def)
  let ?phys = "(e AND FRAME_MASK) OR (va AND 0xFFF)"
  have ph: "paging_get_phys va v = Some ?phys" using get_phys_ok [OF w p(1)] True by (simp add: e_def)
  have "fno ?phys = fno e" "fno 0 = 0" by (simp add: fno_OR) (simp add: fno_def)
  then have nz: "?phys \<noteq> 0" using d(2) by metis
  have fu: "user ?fl" by simp
  define v0 where "v0 = on_pmm (pmm_inc_ref (e AND FRAME_MASK)) v"
  have w0: "vm_wf Gs v0" using w by (simp add: v0_def vm_wf_refs)
  have s0: "loaded v0 = loaded v" "tab v0 = tab v" "pte v0 = pte v" "frames v0 = frames v" "used v0 = used v"
      "data Gs v0 = data Gs v" "\<And>H wa. user_va v0 H wa = user_va v H wa"
    by (simp_all add: v0_def data_refs user_va_def)
  have r0: "refs v0 = (refs v)(fno e := raised (refs v (fno e)) 1)"
    unfolding v0_def by (rule refs_inc [OF d(3)])
  obtain v1 where v1: "paging_map_in_space child va (e AND FRAME_MASK) ?fl v0 = Some v1"
      "maps Gs ?G va (cowed e) v0 v1"
    using map_entry_ok [OF w0 G(1) _ fu, of va "e AND FRAME_MASK"] u(2) s0(7) by (auto simp: cowed_def entry_for_mask)
  have m1: "vm_wf Gs v1" "calm Gs v0 v1" "ptes_but Gs {(?G, va)} v0 v1"
      "pte v1 ?G va = cowed e \<or> pte v1 ?G va = pte v ?G va \<and> full v1"
    using v1(2) s0 by (auto simp: maps_def)
  have C1: "fno parent = ?C" "fno parent \<in> Gs" using c C by simp_all
  have u1: "user_va v1 (fno parent) va" using calm_user_va [OF m1(2) C] u(1) s0(7) C1 by simp
  obtain v2 where v2: "paging_map_in_space parent va (e AND FRAME_MASK) ?fl v1 = Some v2"
      "maps Gs ?C va (cowed e) v1 v2"
    using map_entry_ok [OF m1(1) C1(2) u1 fu, of "e AND FRAME_MASK"] C1(1) by (auto simp: cowed_def entry_for_mask)
  have m2: "vm_wf Gs v2" "calm Gs v1 v2" "ptes_but Gs {(?C, va)} v1 v2"
    using v2(2) by (auto simp: maps_def)
  have h0: "tab v0 (cur_dir v0) SCRATCH_DIR \<noteq> None" using h s0 by simp
  have h1: "tab v1 (cur_dir v1) SCRATCH_DIR \<noteq> None" by (rule calm_hot [OF w0 m1(2) h0])
  have "e \<noteq> 0" using True by (auto simp: e_def)
  then have "tab v0 ?C (dir_idx va) \<noteq> None" using pte_tab [of v0 ?C va] s0 by (simp add: e_def)
  then have "tab v1 ?C (dir_idx va) \<noteq> None" using calm_tab [OF m1(2) C] by auto
  then have pC: "pte v2 ?C va = cowed e" by (rule maps_pte [OF v2(2) _ h1])
  have k: "calm Gs v0 v2" by (rule calm_trans [OF m1(2) m2(2)])
  have pG: "pte v2 ?G va = pte v1 ?G va"
    by (rule ptes_but_apply [OF m2(3) G(1) p(2)]) (use G(2) in auto)
  have "ptes_but Gs {(?C, va), (?G, va)} v v2"
    using ptes_but_trans [OF ptes_but_mono [OF m1(3), of "{(?C, va), (?G, va)}"] ptes_but_mono [OF m2(3)]] s0(3)
    by (simp add: ptes_but_def)
  then have "fork_step Gs ?G va v v2"
    unfolding fork_step_def
    using True m2(1) calmD(1) [OF k] s0 calm_hot [OF m1(1) m2(2) h1] calmD(3-6) [OF k] calm_user_va [OF k]
      pC pG m1(4) full_mono [of v1 v2] calmD(3) [OF m2(2)] r0 by (auto simp: e_def)
  moreover have "fork_page child parent va v = Some v2"
    using nz v1(1) v2(1) get_flags_ok [OF w p(1)]
    by (simp add: fork_page_def ph page_down_phys v0_def e_def [symmetric])
  ultimately show ?thesis by (intro that)
qed

section \<open>All the pages\<close>

definition visits :: "vm \<Rightarrow> nat \<Rightarrow> u32 list \<Rightarrow> nat \<Rightarrow> nat" where
  "visits v C vas F = length (filter (\<lambda>wa. present (pte v C wa) \<and> fno (pte v C wa) = F) vas)"

definition forked :: "nat set \<Rightarrow> nat \<Rightarrow> u32 list \<Rightarrow> vm \<Rightarrow> vm \<Rightarrow> bool" where
  "forked Gs G vas v v' \<longleftrightarrow> vm_wf Gs v' \<and> loaded v' = loaded v
     \<and> (\<forall>F. data Gs v F \<longrightarrow> data Gs v' F \<and> frames v' F = frames v F)
     \<and> (\<forall>wa\<in>set vas. present (pte v (cur_dir v) wa) \<longrightarrow>
          pte v' (cur_dir v) wa = cowed (pte v (cur_dir v) wa)
          \<and> (pte v' G wa = cowed (pte v (cur_dir v) wa) \<or> pte v' G wa = pte v G wa \<and> full v'))
     \<and> ptes_but Gs {(H, wa). (H = cur_dir v \<or> H = G) \<and> wa \<in> set vas \<and> present (pte v (cur_dir v) wa)} v v'
     \<and> (\<forall>F. used v F \<longrightarrow> used v' F \<and> refs v' F = raised (refs v F) (visits v (cur_dir v) vas F))"

lemma forkedD:
  assumes "forked Gs G vas v v'"
  shows "vm_wf Gs v'" "loaded v' = loaded v" "data Gs v F \<Longrightarrow> data Gs v' F \<and> frames v' F = frames v F"
    "wa \<in> set vas \<Longrightarrow> present (pte v (cur_dir v) wa) \<Longrightarrow> pte v' (cur_dir v) wa = cowed (pte v (cur_dir v) wa)"
    "wa \<in> set vas \<Longrightarrow> present (pte v (cur_dir v) wa)
      \<Longrightarrow> pte v' G wa = cowed (pte v (cur_dir v) wa) \<or> pte v' G wa = pte v G wa \<and> full v'"
    "ptes_but Gs {(H, wa). (H = cur_dir v \<or> H = G) \<and> wa \<in> set vas \<and> present (pte v (cur_dir v) wa)} v v'"
    "used v F \<Longrightarrow> used v' F \<and> refs v' F = raised (refs v F) (visits v (cur_dir v) vas F)"
  using assms unfolding forked_def by blast+

lemma fork_stepD:
  assumes "fork_step Gs G va v v1"
  shows "vm_wf Gs v1" "loaded v1 = loaded v" "tab v1 (cur_dir v1) SCRATCH_DIR \<noteq> None"
    "data Gs v F \<Longrightarrow> data Gs v1 F \<and> frames v1 F = frames v F" "used v F \<Longrightarrow> used v1 F"
    "H \<in> Gs \<Longrightarrow> user_va v H wa \<Longrightarrow> user_va v1 H wa"
    "\<not> present (pte v (cur_dir v) va) \<Longrightarrow> v1 = v"
    "present (pte v (cur_dir v) va) \<Longrightarrow> pte v1 (cur_dir v) va = cowed (pte v (cur_dir v) va)"
    "present (pte v (cur_dir v) va)
      \<Longrightarrow> pte v1 G va = cowed (pte v (cur_dir v) va) \<or> pte v1 G va = pte v G va \<and> full v1"
    "present (pte v (cur_dir v) va) \<Longrightarrow> ptes_but Gs {(cur_dir v, va), (G, va)} v v1"
    "used v F \<Longrightarrow> refs v1 F
      = raised (refs v F) (if present (pte v (cur_dir v) va) \<and> fno (pte v (cur_dir v) va) = F then 1 else 0)"
  using assms unfolding fork_step_def by (auto split: if_splits)

text \<open>After one step every entry of the parent is the old one or the old one made copy-on-write.\<close>

lemma fork_step_parent:
  assumes s: "fork_step Gs G va v v1" and C: "cur_dir v \<in> Gs" and p: "plain_dir wa"
  shows "pte v1 (cur_dir v) wa
    = (if present (pte v (cur_dir v) va) \<and> same_page va wa then cowed (pte v (cur_dir v) wa) else pte v (cur_dir v) wa)"
proof (cases "present (pte v (cur_dir v) va)")
  case False
  then show ?thesis using fork_stepD(7) [OF s] by simp
next
  case True
  show ?thesis
  proof (cases "same_page va wa")
    case same: True
    then show ?thesis using fork_stepD(8) [OF s True] True pte_same [OF same] by simp
  next
    case False
    have "pte v1 (cur_dir v) wa = pte v (cur_dir v) wa"
      by (rule ptes_but_apply [OF fork_stepD(10) [OF s True] C p]) (use False in auto)
    then show ?thesis using False by (simp only: if_False simp_thms)
  qed
qed

lemma fork_step_child:
  assumes s: "fork_step Gs G va v v1" and G: "G \<in> Gs" "G \<noteq> cur_dir v" and p: "plain_dir wa"
  shows "pte v1 G wa = pte v G wa
    \<or> present (pte v (cur_dir v) va) \<and> same_page va wa \<and> pte v1 G wa = cowed (pte v (cur_dir v) wa)"
    "present (pte v (cur_dir v) va) \<Longrightarrow> same_page va wa
      \<Longrightarrow> pte v1 G wa = cowed (pte v (cur_dir v) wa) \<or> pte v1 G wa = pte v G wa \<and> full v1"
proof -
  show two: "pte v1 G wa = cowed (pte v (cur_dir v) wa) \<or> pte v1 G wa = pte v G wa \<and> full v1"
    if "present (pte v (cur_dir v) va)" "same_page va wa"
    using fork_stepD(9) [OF s that(1)] pte_same [OF that(2)] by simp
  show "pte v1 G wa = pte v G wa
    \<or> present (pte v (cur_dir v) va) \<and> same_page va wa \<and> pte v1 G wa = cowed (pte v (cur_dir v) wa)"
  proof (cases "present (pte v (cur_dir v) va) \<and> same_page va wa")
    case True
    then show ?thesis using two by blast
  next
    case False
    show ?thesis
    proof (cases "present (pte v (cur_dir v) va)")
      case True
      have "pte v1 G wa = pte v G wa"
        by (rule ptes_but_apply [OF fork_stepD(10) [OF s True] G(1) p]) (use False True in auto)
      then show ?thesis by blast
    next
      case False
      then show ?thesis using fork_stepD(7) [OF s] by simp
    qed
  qed
qed

lemma forked_Cons:
  assumes s: "fork_step Gs G va v v1" and r: "forked Gs G vas v1 v2" and C: "cur_dir v \<in> Gs"
    and G: "G \<in> Gs" "G \<noteq> cur_dir v" and p: "\<And>wa. wa \<in> set (va # vas) \<Longrightarrow> plain_dir wa"
  shows "forked Gs G (va # vas) v v2"
proof -
  let ?C = "cur_dir v"
  have c1: "cur_dir v1 = ?C" using fork_stepD(2) [OF s] by simp
  note R = forkedD [OF r, unfolded c1]
  have x1: "present (pte v1 ?C wa) \<longleftrightarrow> present (pte v ?C wa)" "fno (pte v1 ?C wa) = fno (pte v ?C wa)"
      "cowed (pte v1 ?C wa) = cowed (pte v ?C wa)" if "plain_dir wa" for wa
    using fork_step_parent [OF s C that] pte_same [of va wa v ?C] by (auto split: if_splits)
  have fm: "full v2" if "full v1" using that by (rule full_mono) (use R(7) in blast)
  have entries: "pte v2 ?C wa = cowed (pte v ?C wa)
      \<and> (pte v2 G wa = cowed (pte v ?C wa) \<or> pte v2 G wa = pte v G wa \<and> full v2)"
    if wa: "wa \<in> set (va # vas)" "present (pte v ?C wa)" for wa
  proof (cases "\<exists>wb\<in>set vas. same_page wb wa")
    case True
    then obtain wb where wb: "wb \<in> set vas" "same_page wb wa" by blast
    have pl: "plain_dir wb" using p wb(1) by simp
    note e = pte_same [OF wb(2)]
    have pr: "present (pte v1 ?C wb)" using x1(1) [OF pl] wa(2) e [of v ?C] by simp
    have "cowed (pte v1 ?C wb) = cowed (pte v ?C wa)" using x1(3) [OF pl] e [of v ?C] by simp
    moreover have "pte v1 G wa = pte v G wa \<or> pte v1 G wa = cowed (pte v ?C wa)"
      using fork_step_child(1) [OF s G, of wa] p wa(1) by blast
    ultimately show ?thesis
      using R(4) [OF wb(1) pr] R(5) [OF wb(1) pr] e [of v2 ?C] e [of v2 G] e [of v1 G] by auto
  next
    case False
    then have v: "wa = va" using wa(1) by auto
    have pl: "plain_dir va" using p by simp
    have "pte v2 H va = pte v1 H va" if "H \<in> Gs" for H
      by (rule ptes_but_apply [OF R(6) that pl]) (use False v in blast)
    then have "pte v2 ?C va = pte v1 ?C va" "pte v2 G va = pte v1 G va" using C G(1) by simp_all
    then show ?thesis
      using fork_stepD(8,9) [OF s] wa(2) v fm by auto
  qed
  have pt: "ptes_but Gs {(H, wa). (H = ?C \<or> H = G) \<and> wa \<in> set (va # vas) \<and> present (pte v ?C wa)} v v2"
  proof (rule ptes_butI)
    fix H wb assume H: "H \<in> Gs" "plain_dir wb"
      and n: "\<And>w. (H, w) \<in> {(H, wa). (H = ?C \<or> H = G) \<and> wa \<in> set (va # vas) \<and> present (pte v ?C wa)} \<Longrightarrow> \<not> same_page w wb"
    have "pte v2 H wb = pte v1 H wb"
      by (rule ptes_but_apply [OF R(6) H]) (use n x1(1) p in auto)
    also have "pte v1 H wb = pte v H wb"
    proof (cases "present (pte v ?C va)")
      case True
      show ?thesis
        by (rule ptes_but_apply [OF fork_stepD(10) [OF s True] H]) (use n True in auto)
    next
      case False
      then show ?thesis using fork_stepD(7) [OF s] by simp
    qed
    finally show "pte v2 H wb = pte v H wb" .
  qed
  have vi: "visits v1 ?C vas F = visits v ?C vas F" for F
    unfolding visits_def by (rule arg_cong [where f = length], rule filter_cong) (use x1 p in auto)
  have rf: "used v2 F \<and> refs v2 F = raised (refs v F) (visits v ?C (va # vas) F)" if "used v F" for F
    using R(7) [OF fork_stepD(5) [OF s that]] fork_stepD(11) [OF s that]
    by (simp add: raised_raised vi) (simp add: visits_def)
  show ?thesis
    unfolding forked_def
    using R(1,2) fork_stepD(2) [OF s] entries pt rf fork_stepD(4) [OF s] R(3) by simp
qed

lemma fork_each_ok:
  assumes "vm_wf Gs v" "tab v (cur_dir v) SCRATCH_DIR \<noteq> None" "parent = loaded v"
    and "fno child \<in> Gs" "fno child \<noteq> cur_dir v" "\<forall>va\<in>set vas. forkable Gs v (cur_dir v) (fno child) va"
  shows "\<exists>v'. each (fork_page child parent) vas v = Some v' \<and> forked Gs (fno child) vas v v'"
  using assms
proof (induction vas arbitrary: v)
  case Nil
  then show ?case by (auto simp: forked_def visits_def ptes_but_refl)
next
  case (Cons va vas)
  have p: "plain_dir wa" if "wa \<in> set (va # vas)" for wa
    using Cons.prems(6) that by (auto simp: forkable_def user_va_def)
  have C: "cur_dir v \<in> Gs" by (rule vm_wfD(1) [OF Cons.prems(1)])
  obtain v1 where v1: "fork_page child parent va v = Some v1" "fork_step Gs (fno child) va v v1"
    by (rule fork_page_ok [OF Cons.prems(1-5), of va]) (use Cons.prems(6) in auto)
  have c1: "cur_dir v1 = cur_dir v" using fork_stepD(2) [OF v1(2)] by simp
  have "forkable Gs v1 (cur_dir v1) (fno child) wa" if "wa \<in> set vas" for wa
  proof -
    have f: "forkable Gs v (cur_dir v) (fno child) wa" using Cons.prems(6) that by simp
    moreover have "present (pte v1 (cur_dir v) wa) \<longleftrightarrow> present (pte v (cur_dir v) wa)"
      "fno (pte v1 (cur_dir v) wa) = fno (pte v (cur_dir v) wa)"
      using fork_step_parent [OF v1(2) C p] pte_same [of va wa v "cur_dir v"] that by (auto split: if_splits)
    ultimately show ?thesis
      unfolding forkable_def c1
      using fork_stepD(6) [OF v1(2) C] fork_stepD(6) [OF v1(2) Cons.prems(4)] fork_stepD(4) [OF v1(2)] by auto
  qed
  then obtain v2 where v2: "each (fork_page child parent) vas v1 = Some v2" "forked Gs (fno child) vas v1 v2"
    using Cons.IH [OF fork_stepD(1,3) [OF v1(2)] _ Cons.prems(4)] Cons.prems(3,5) fork_stepD(2) [OF v1(2)] by auto
  have "forked Gs (fno child) (va # vas) v v2"
    by (rule forked_Cons [OF v1(2) v2(2) C Cons.prems(4,5) p])
  then show ?case using v1(1) v2(1) by simp
qed

section \<open>A machine with two address spaces\<close>

text \<open>Directory 300 is loaded, with the table 301 for the user addresses from \<open>0x1400000\<close> and the scratch table 302;
  the first page has the entry \<open>e\<close>.  Directory 304 is the one of a child, still empty.\<close>

definition demo_vm :: "u32 \<Rightarrow> u16 \<Rightarrow> vm" where
  "demo_vm e r = \<lparr>
     frames = (\<lambda>F. if F = 300 then (\<lambda>i. if i = 1023 then 0x12C003 else if i = 5 then 0x12D007
                                     else if i = 992 then 0x12E003 else 0)
                   else if F = 301 then (\<lambda>i. if i = 0 then e else 0)
                   else if F = 304 then (\<lambda>i. if i = 1023 then 0x130003 else 0)
                   else (\<lambda>i. of_nat (F + i))),
     loaded = 0x12C000,
     vpmm = \<lparr>pmm_bitmap = (\<lambda>i. if i < 39 then 0xFF else 0), pmm_refcount = (\<lambda>_. r), pmm_free_frames = 65224,
              pmm_total_frames = 65536, pmm_ready = True\<rparr>,
     mmap_next = MMAP_BASE\<rparr>"

lemma bit_FF: "k < 8 \<Longrightarrow> bit (0xFF :: u8) k"
proof -
  have "(0xFF :: u8) = mask 8" by (simp add: mask_eq_exp_minus_1)
  then show "k < 8 \<Longrightarrow> bit (0xFF :: u8) k" by (simp only: bit_mask_iff) simp
qed

lemma demo_used: "used (demo_vm e r) F \<longleftrightarrow> F < 312"
proof -
  have "bitmap_test (vpmm (demo_vm e r)) F \<longleftrightarrow> F div 8 < 39"
    unfolding bitmap_test_bit using bit_FF [of "F mod 8"] by (simp add: demo_vm_def)
  then show ?thesis by (auto simp: used_def less_mult_imp_div_less)
qed

lemma demo_frames:
  "frames (demo_vm e r) 300 = (\<lambda>i. if i = 1023 then 0x12C003 else if i = 5 then 0x12D007 else if i = 992 then 0x12E003 else 0)"
  "frames (demo_vm e r) 301 = (\<lambda>i. if i = 0 then e else 0)"
  "frames (demo_vm e r) 304 = (\<lambda>i. if i = 1023 then 0x130003 else 0)"
  "loaded (demo_vm e r) = 0x12C000" "cur_dir (demo_vm e r) = 300" "refs (demo_vm e r) = (\<lambda>_. r)"
  "pmm_ready (vpmm (demo_vm e r))"
  by (simp_all add: demo_vm_def fno_nat)

lemma demo_tab:
  "tab (demo_vm e r) 300 d = (if d = 1023 then Some 300 else if d = 5 then Some 301 else if d = 992 then Some 302 else None)"
  "tab (demo_vm e r) 304 d = (if d = 1023 then Some 304 else None)"
  by (simp_all add: tab_def demo_frames present_def fno_nat)

lemma demo_wf: "vm_wf {300, 304} (demo_vm e r)"
  by (auto simp: vm_wf_def demo_tab demo_frames demo_used shared_def fno_nat split: if_splits)

lemma demo_data: "data {300, 304} (demo_vm e r) 303"
  by (simp add: data_def demo_used demo_tab)

lemma demo_idx: "dir_idx 0x1400000 = 5" "tbl_idx 0x1400000 = 0"
  by (simp_all add: dir_idx_nat tbl_idx_nat)

lemma demo_pte: "pte (demo_vm e r) 300 0x1400000 = e" "pte (demo_vm e r) 304 0x1400000 = 0"
  by (simp_all add: pte_def demo_tab demo_idx demo_frames)

lemma demo_user: "user_va (demo_vm e r) 300 0x1400000" "user_va (demo_vm e r) 304 0x1400000"
  by (simp_all add: user_va_def demo_tab demo_idx demo_frames user_def)




end
