(* ===== verification/Vm_Brk.thy ===== *)
theory Vm_Brk
  imports Vm_Fork
begin

text \<open>
  The page table queries against the walk of the hardware, the growing heap break, demand paging, and what the
  memory calls get wrong at their edges.
\<close>

section \<open>Queries\<close>

lemma mmu_pte:
  assumes "dir_idx va < 1023"
  shows "mmu v va = (if present (pte v (cur_dir v) va) then Some (fno (pte v (cur_dir v) va)) else None)"
  by (simp add: mmu_def pte_def tab_def Let_def)

lemma get_phys_walk:
  assumes "vm_wf Gs v" "dir_idx va < 1023"
  shows "\<exists>p. paging_get_phys va v = Some p
    \<and> (case mmu v va of None \<Rightarrow> p = 0 | Some F \<Rightarrow> unat p = 4096 * F + unat va mod 4096)"
proof -
  let ?e = "pte v (cur_dir v) va"
  have "unat ((?e AND FRAME_MASK) OR (va AND 0xFFF)) = 4096 * fno ?e + unat va mod 4096"
  proof -
    have z: "(?e AND FRAME_MASK) AND (va AND 0xFFF) = 0"
      by (rule bit_word_eqI) (simp only: bit_and_iff [of "_ AND FRAME_MASK"] bit_FRAME_MASK bit_FFF, auto)
    have e: "(?e AND FRAME_MASK) OR (va AND 0xFFF) = (?e AND FRAME_MASK) + (va AND 0xFFF)"
      using word_plus_and_or [of "?e AND FRAME_MASK" "va AND 0xFFF"] unfolding z by simp
    have a: "unat (?e AND FRAME_MASK) = 4096 * fno ?e"
      by (simp add: fno_nat page_down_mask [symmetric] unat_page_down)
    have b: "unat (va AND 0xFFF) = unat va mod 4096"
      by (simp add: mask_12_u32 take_bit_eq_mask [symmetric] unsigned_take_bit_eq take_bit_eq_mod unat_mod)
    have "4096 * fno ?e + unat va mod 4096 < 2 ^ 32"
    proof -
      have "fno ?e < 1048576" using u32_less [of ?e] by (simp add: fno_nat less_mult_imp_div_less)
      moreover have "unat va mod 4096 < 4096" by simp
      ultimately have "4096 * fno ?e + unat va mod 4096 < 4096 * 1048576" by linarith
      then show ?thesis by simp
    qed
    then show ?thesis unfolding e by (subst unat_plus) (simp_all only: a b)
  qed
  then show ?thesis
    using get_phys_ok [OF assms] mmu_pte [OF assms(2), of v] by simp
qed

text \<open>C25.  The software look-up is the hardware's.  \<open>paging_get_phys\<close>, which reads the tables through the
  recursive mapping, returns for every address below the recursive region the physical address the memory
  management unit translates it to, and 0 where it would fault; it cannot fault itself.\<close>

theorem get_phys_is_the_walk:
  assumes "vm_wf Gs v" "dir_idx va < 1023"
  shows "\<exists>p. paging_get_phys va v = Some p
    \<and> (case mmu v va of None \<Rightarrow> p = 0 | Some F \<Rightarrow> unat p = 4096 * F + unat va mod 4096)"
  using get_phys_walk [OF assms] .

theorem get_phys_is_the_walk_witness:
  "\<exists>p. paging_get_phys 0x1400ABC (demo_vm 0x12F007 1) = Some p \<and> unat p = 4096 * 303 + 0xABC"
proof -
  have i: "dir_idx 0x1400ABC = 5" "tbl_idx 0x1400ABC = 0" by (simp_all add: dir_idx_nat tbl_idx_nat)
  have m: "mmu (demo_vm 0x12F007 1) 0x1400ABC = Some 303"
    by (simp add: mmu_def demo_frames fno_nat i present_def)
  show ?thesis
    using get_phys_is_the_walk [OF demo_wf [of "0x12F007" 1], of "0x1400ABC"] by (simp add: i m)
qed

section \<open>Growing the heap\<close>

definition spare :: "vm \<Rightarrow> nat" where
  "spare v = card {F. 256 \<le> F \<and> F < PMM_MAX_FRAMES \<and> \<not> used v F}"

lemma finite_spare [simp]: "finite {F. 256 \<le> F \<and> F < PMM_MAX_FRAMES \<and> \<not> used v F}"
  by (rule finite_subset [of _ "{..<65536}"]) auto

lemma spare_full: "spare v > 0 \<Longrightarrow> \<not> full v"
  unfolding spare_def full_def by (auto simp: card_gt_0_iff)

lemma spare_drop:
  assumes "\<And>F. used v' F \<Longrightarrow> F = j \<or> used v F"
  shows "spare v \<le> Suc (spare v')"
proof -
  have "{F. 256 \<le> F \<and> F < PMM_MAX_FRAMES \<and> \<not> used v F}
      \<subseteq> insert j {F. 256 \<le> F \<and> F < PMM_MAX_FRAMES \<and> \<not> used v' F}"
    using assms by auto
  then have "spare v \<le> card (insert j {F. 256 \<le> F \<and> F < PMM_MAX_FRAMES \<and> \<not> used v' F})"
    unfolding spare_def by (rule card_mono [rotated]) simp
  also have "\<dots> \<le> Suc (spare v')"
    unfolding spare_def by (rule card_insert_le_m1 [of "Suc _", simplified])
       (simp_all add: card_insert_if)
  finally show ?thesis .
qed

text \<open>The pages \<open>vas\<close> have been given to the task: present, and the new ones writable, on zeroed frames that
  nobody used before; no other page of any space and no data have changed.\<close>

definition fresh_at :: "nat set \<Rightarrow> vm \<Rightarrow> u32 \<Rightarrow> vm \<Rightarrow> bool" where
  "fresh_at Gs v va v' \<longleftrightarrow> (let e = pte v' (cur_dir v) va in
     user e \<and> e AND PAGE_RW \<noteq> 0 \<and> \<not> used v (fno e) \<and> data Gs v' (fno e) \<and> frames v' (fno e) = zero_page)"

definition grown :: "nat set \<Rightarrow> u32 list \<Rightarrow> vm \<Rightarrow> vm \<Rightarrow> bool" where
  "grown Gs vas v v' \<longleftrightarrow> vm_wf Gs v' \<and> calm Gs v v'
     \<and> ptes_but Gs {(G, wa). G = cur_dir v \<and> wa \<in> set vas \<and> \<not> present (pte v (cur_dir v) wa)} v v'
     \<and> (\<forall>wa\<in>set vas. present (pte v' (cur_dir v) wa) \<and> fno (pte v' (cur_dir v) wa) \<noteq> 0
          \<and> (\<not> present (pte v (cur_dir v) wa) \<longrightarrow> fresh_at Gs v wa v'))"

definition heap_page :: "vm \<Rightarrow> u32 \<Rightarrow> bool" where
  "heap_page v va \<longleftrightarrow> user_va v (cur_dir v) va \<and> va AND 0xFFF = 0
     \<and> (present (pte v (cur_dir v) va) \<longrightarrow> fno (pte v (cur_dir v) va) \<noteq> 0)"

lemma set_frame_pte:
  assumes "data Gs v i" "vm_wf Gs v"
  shows "H \<in> Gs \<Longrightarrow> tab (set_frame i pg v) H d = tab v H d"
    "H \<in> Gs \<Longrightarrow> dir_idx va < 1023 \<Longrightarrow> pte (set_frame i pg v) H va = pte v H va"
proof -
  have nG: "i \<notin> Gs" using assms(1) by (simp add: data_def)
  show t: "tab (set_frame i pg v) H d = tab v H d" if "H \<in> Gs" for H d
    by (rule tab_same) (use nG that in auto)
  show "pte (set_frame i pg v) H va = pte v H va" if "H \<in> Gs" "dir_idx va < 1023"
  proof (cases "tab v H (dir_idx va)")
    case None
    then show ?thesis using t [OF that(1)] by (simp add: pte_def)
  next
    case (Some T)
    then have "T \<noteq> i" using assms(1) that by (auto simp: data_def)
    then show ?thesis using Some t [OF that(1)] by (simp add: pte_def)
  qed
qed

lemma calm_fresh_frame:
  assumes c: "calm Gs v v2" and i: "data Gs v2 i" "\<not> used v i" and w: "vm_wf Gs v2"
  shows "calm Gs v (set_frame i pg v2)" "data Gs (set_frame i pg v2) F = data Gs v2 F"
proof -
  have nG: "i \<notin> Gs" using i(1) by (simp add: data_def)
  note t = set_frame_pte(1) [OF i(1) w, where pg = pg]
  show d: "data Gs (set_frame i pg v2) F = data Gs v2 F" for F by (auto simp: data_def t)
  have "frames (set_frame i pg v2) F = frames v F" if "data Gs v F" for F
    using calmD(6) [OF c that] that i(2) by (auto simp: data_def)
  moreover have "frames (set_frame i pg v2) G = frames v2 G" if "G \<in> Gs" for G
    using nG that by auto
  ultimately show "calm Gs v (set_frame i pg v2)"
    using calmD(1-5,7) [OF c] calmD(8) [OF c] unfolding calm_def by (simp add: d t) fastforce
qed

lemma brk_page_ok:
  assumes w: "vm_wf Gs v" and k: "heap_page v va" and n: "\<not> present (pte v (cur_dir v) va)" and sp: "2 \<le> spare v"
  obtains f v1 v2 v3 where "alloc v = (f, v1)" "f \<noteq> 0"
    "paging_map_in_space (loaded v) va f (PAGE_PRESENT OR PAGE_RW OR PAGE_USER) v1 = Some v2"
    "wr_page va zero_page v2 = Some v3" "vm_wf Gs v3" "calm Gs v v3" "ptes_but Gs {(cur_dir v, va)} v v3"
    "present (pte v3 (cur_dir v) va)" "fno (pte v3 (cur_dir v) va) \<noteq> 0" "fresh_at Gs v va v3"
    "spare v \<le> spare v3 + 2"
proof -
  let ?C = "cur_dir v"
  have u: "user_va v ?C va" and p: "dir_idx va < 1023" using k by (auto simp: heap_page_def user_va_def)
  have C: "?C \<in> Gs" by (rule vm_wfD(1) [OF w])
  obtain f v1 where a: "alloc v = (f, v1)" by fastforce
  have nf: "\<not> full v" using sp by (intro spare_full) simp
  from a vm_wfD(7) [OF w] show ?thesis
  proof (cases rule: alloc_cases)
    case none
    then show ?thesis using nf by simp
  next
    case (frame i)
    let ?x = "entry_for f (PAGE_PRESENT OR PAGE_RW OR PAGE_USER)"
    have w1: "vm_wf Gs v1" "data Gs v1 i"
      using vm_wf_alloc [OF w frame(6) _ frame(8,9,12)] frame(7) by auto
    have q1: "quiet Gs v v1" by (rule quiet_alloc [OF frame(7-11,6)])
    note k1 = quiet_calm [OF w q1]
    have s1: "spare v \<le> Suc (spare v1)" by (rule spare_drop [of v1 i]) (simp add: frame(7))
    then have n1: "\<not> full v1" using sp by (intro spare_full) simp
    have c1: "cur_dir v1 = ?C" using frame(9) by simp
    have u1: "user_va v1 (cur_dir v1) va" using calm_user_va [OF k1(1) C u] c1 by simp
    obtain v2 j where v2: "map_here va ?x (PAGE_PRESENT OR PAGE_RW OR PAGE_USER) v1 = Some v2"
        "maps Gs (cur_dir v1) va ?x v1 v2" "\<not> full v1 \<Longrightarrow> pte v2 (cur_dir v1) va = ?x"
        "\<And>F. used v2 F \<Longrightarrow> F = j \<or> used v1 F"
      using map_here_ok [OF w1(1) u1, of "PAGE_PRESENT OR PAGE_RW OR PAGE_USER" ?x] by auto
    have m: "vm_wf Gs v2" "calm Gs v1 v2" "ptes_but Gs {(?C, va)} v1 v2" "pte v2 ?C va = ?x"
      using v2(2,3) n1 c1 by (auto simp: maps_def)
    have d2: "data Gs v2 i" by (rule calmD(5) [OF m(2) w1(2)])
    have c2: "cur_dir v2 = ?C" using calmD(1) [OF m(2)] c1 by simp
    have x: "present ?x" "user ?x" "?x AND PAGE_RW \<noteq> 0" "fno ?x = i"
      using frame(3) by (simp_all add: present_bit user_bit flag_bits bit_entry_for bit_or_iff)
    define v3 where "v3 = set_frame i zero_page v2"
    have mm: "mmu v2 va = Some i" using mmu_pte [OF p, of v2] m(4) c2 x by simp
    have nG: "i \<notin> Gs" using d2 by (simp add: data_def)
    note sf = set_frame_pte [OF d2 m(1), where pg = zero_page, folded v3_def]
    have w3: "vm_wf Gs v3" unfolding v3_def by (rule vm_wf_write(2) [OF m(1) nG])
    have c12: "calm Gs v v2" by (rule calm_trans [OF k1(1) m(2)])
    note c3 = calm_fresh_frame [OF c12 d2 frame(6) m(1), where pg = zero_page, folded v3_def]
    have pC: "pte v3 ?C va = ?x" using sf(2) [OF C p] m(4) by simp
    have "ptes_but Gs {(?C, va)} v v3"
      using ptes_but_trans [OF ptes_but_mono [OF k1(2)] m(3)] sf(2) by (simp add: ptes_but_def)
    moreover have "fresh_at Gs v va v3"
      unfolding fresh_at_def Let_def pC using x frame(6) c3(2) d2 by (simp add: v3_def)
    moreover have "spare v \<le> spare v3 + 2"
      using s1 spare_drop [of v2 j v1, OF v2(4)] by (simp add: spare_def v3_def)
    moreover have "paging_map_in_space (loaded v) va f (PAGE_PRESENT OR PAGE_RW OR PAGE_USER) v1 = Some v2"
      using v2(1) frame(9) unfolding paging_map_in_space_def entry_for_def by (simp add: Let_def)
    moreover have "wr_page va zero_page v2 = Some v3" using mm by (simp add: wr_page_def v3_def)
    moreover have "fno (pte v3 ?C va) \<noteq> 0" "present (pte v3 ?C va)" unfolding pC using x frame(4) by simp_all
    ultimately show ?thesis using a frame(2) w3 c3(1) by (intro that)
  qed
qed

lemma present_same: "same_page a b \<Longrightarrow> present (pte v G a) = present (pte v G b)"
  using pte_same [of a b v G] by simp

lemma grownD:
  assumes "grown Gs vas v v'"
  shows "vm_wf Gs v'" "calm Gs v v'"
    "ptes_but Gs {(G, wa). G = cur_dir v \<and> wa \<in> set vas \<and> \<not> present (pte v (cur_dir v) wa)} v v'"
    "wa \<in> set vas \<Longrightarrow> present (pte v' (cur_dir v) wa)" "wa \<in> set vas \<Longrightarrow> fno (pte v' (cur_dir v) wa) \<noteq> 0"
    "wa \<in> set vas \<Longrightarrow> \<not> present (pte v (cur_dir v) wa) \<Longrightarrow> fresh_at Gs v wa v'"
  using assms unfolding grown_def by blast+

lemma fresh_at_later:
  assumes f: "fresh_at Gs v wa v1" and c: "calm Gs v1 v2" and C: "cur_dir v1 = cur_dir v"
    and e: "pte v2 (cur_dir v) wb = pte v1 (cur_dir v) wa"
  shows "fresh_at Gs v wb v2"
  using f calmD(5,6) [OF c] unfolding fresh_at_def Let_def e by auto

lemma fresh_at_earlier:
  assumes f: "fresh_at Gs v1 wa v2" and c: "calm Gs v v1"
  shows "fresh_at Gs v wa v2"
  using f calmD(1,3) [OF c] unfolding fresh_at_def Let_def by auto

lemma grown_Cons_old:
  assumes "present (pte v (cur_dir v) va)" "fno (pte v (cur_dir v) va) \<noteq> 0" "plain_dir va" "grown Gs vas v v'" "cur_dir v \<in> Gs"
  shows "grown Gs (va # vas) v v'"
proof -
  note R = grownD [OF assms(4)]
  let ?C = "cur_dir v"
  have e: "pte v' ?C va = pte v ?C va"
    by (rule ptes_but_apply [OF R(3) assms(5,3)]) (use assms(1) present_same [of _ va v ?C] in blast)
  have "ptes_but Gs {(G, wa). G = ?C \<and> wa \<in> set (va # vas) \<and> \<not> present (pte v ?C wa)} v v'"
    by (rule ptes_but_mono [OF R(3)]) auto
  then show ?thesis using R(1,2,4-6) e assms(1,2) unfolding grown_def by simp
qed

lemma grown_Cons_new:
  assumes w: "vm_wf Gs v1" and c: "calm Gs v v1" and b: "ptes_but Gs {(cur_dir v, va)} v v1"
    and e: "present (pte v1 (cur_dir v) va)" "fno (pte v1 (cur_dir v) va) \<noteq> 0" "fresh_at Gs v va v1"
    and n: "\<not> present (pte v (cur_dir v) va)" and r: "grown Gs vas v1 v2"
    and C: "cur_dir v \<in> Gs" and p: "\<And>wa. wa \<in> set (va # vas) \<Longrightarrow> plain_dir wa"
  shows "grown Gs (va # vas) v v2"
proof -
  let ?C = "cur_dir v"
  have c1: "cur_dir v1 = ?C" using calmD(1) [OF c] by simp
  note R = grownD [OF r, unfolded c1]
  have kept: "pte v2 ?C wa = pte v1 ?C wa" if "plain_dir wa" "present (pte v1 ?C wa)" for wa
    by (rule ptes_but_apply [OF R(3) C that(1)]) (use that(2) present_same [of _ wa v1 ?C] in blast)
  have other: "pte v1 H wa = pte v H wa" if "H \<in> Gs" "plain_dir wa" "H = ?C \<longrightarrow> \<not> same_page va wa" for H wa
    by (rule ptes_but_apply [OF b that(1,2)]) (use that(3) in auto)
  have at_va: "pte v2 ?C va = pte v1 ?C va" using kept [of va] p e(1) by simp
  have same: "present (pte v2 ?C wa) \<and> fno (pte v2 ?C wa) \<noteq> 0
      \<and> (\<not> present (pte v ?C wa) \<longrightarrow> fresh_at Gs v wa v2)" if wa: "wa \<in> set (va # vas)" for wa
  proof (cases "same_page va wa")
    case True
    have x: "pte v2 ?C wa = pte v1 ?C va" using at_va pte_same [OF True, of v2 ?C] by simp
    then show ?thesis using e fresh_at_later [OF e(3) R(2) c1 x] by simp
  next
    case False
    then have v: "wa \<in> set vas" using wa by auto
    have o: "pte v1 ?C wa = pte v ?C wa" by (rule other [OF C p [OF wa]]) (use False in simp)
    show ?thesis
      using R(4,5) [OF v] R(6) [OF v] fresh_at_earlier [OF _ c] unfolding o by blast
  qed
  have "ptes_but Gs {(G, wa). G = ?C \<and> wa \<in> set (va # vas) \<and> \<not> present (pte v ?C wa)} v v2"
  proof (rule ptes_butI)
    fix H wb assume H: "H \<in> Gs" "plain_dir wb"
      and no: "\<And>w. (H, w) \<in> {(G, wa). G = ?C \<and> wa \<in> set (va # vas) \<and> \<not> present (pte v ?C wa)} \<Longrightarrow> \<not> same_page w wb"
    have nva: "H = ?C \<longrightarrow> \<not> same_page va wb" using no [of va] n by auto
    have "pte v2 H wb = pte v1 H wb"
    proof (rule ptes_but_apply [OF R(3) H])
      fix w assume w: "(H, w) \<in> {(G, wa). G = ?C \<and> wa \<in> set vas \<and> \<not> present (pte v1 ?C wa)}"
      show "\<not> same_page w wb"
      proof (cases "same_page va w")
        case True
        then show ?thesis using nva w by auto
      next
        case False
        have "pte v1 ?C w = pte v ?C w" by (rule other [OF C]) (use p w False in auto)
        then show ?thesis using no [of w] w by auto
      qed
    qed
    also have "\<dots> = pte v H wb" by (rule other [OF H nva])
    finally show "pte v2 H wb = pte v H wb" .
  qed
  then show ?thesis
    using R(1) calm_trans [OF c R(2)] same unfolding grown_def by blast
qed

lemma heap_page_calm:
  assumes c: "calm Gs v v1" and b: "ptes_but Gs {(cur_dir v, va)} v v1" and C: "cur_dir v \<in> Gs"
    and e: "fno (pte v1 (cur_dir v) va) \<noteq> 0" and h: "heap_page v wa"
  shows "heap_page v1 wa"
proof -
  have c1: "cur_dir v1 = cur_dir v" using calmD(1) [OF c] by simp
  have u: "user_va v (cur_dir v) wa" and p: "plain_dir wa" using h by (auto simp: heap_page_def user_va_def)
  have "fno (pte v1 (cur_dir v) wa) \<noteq> 0" if "present (pte v1 (cur_dir v) wa)"
  proof (cases "same_page va wa")
    case True
    then show ?thesis using e pte_same [OF True, of v1 "cur_dir v"] by simp
  next
    case False
    have "pte v1 (cur_dir v) wa = pte v (cur_dir v) wa"
      by (rule ptes_but_apply [OF b C p]) (use False in auto)
    then show ?thesis using h that by (simp add: heap_page_def)
  qed
  then show ?thesis
    using h calm_user_va [OF c C u] unfolding heap_page_def c1 by simp
qed

lemma task_add_region_frame:
  "cr3 (task_add_region a n t) = cr3 t" "brk_base (task_add_region a n t) = brk_base t"
  by (simp_all add: task_add_region_def)

lemma brk_grow_ok:
  assumes "vm_wf Gs v" "cr3 t = loaded v" "\<forall>va\<in>set vas. heap_page v va" "2 * length vas \<le> spare v"
  shows "\<exists>t' v'. brk_grow vas (t, v) = Some (None, t', v') \<and> brk_base t' = brk_base t \<and> grown Gs vas v v'"
  using assms
proof (induction vas arbitrary: v t)
  case Nil
  then show ?case by (auto simp: grown_def calm_refl ptes_but_refl)
next
  case (Cons va vas)
  note w = Cons.prems(1)
  let ?C = "cur_dir v"
  have C: "?C \<in> Gs" by (rule vm_wfD(1) [OF w])
  have k: "heap_page v va" and p: "\<And>wa. wa \<in> set (va # vas) \<Longrightarrow> plain_dir wa"
    using Cons.prems(3) by (auto simp: heap_page_def user_va_def)
  have pl: "dir_idx va < 1023" using p by simp
  note ph = get_phys_ok [OF w pl]
  have al: "va AND 0xFFF = 0" using k by (simp add: heap_page_def)
  show ?case
  proof (cases "present (pte v ?C va)")
    case True
    have nz: "fno (pte v ?C va) \<noteq> 0" using k True by (simp add: heap_page_def)
    have "pte v ?C va AND FRAME_MASK \<noteq> 0"
    proof
      assume "pte v ?C va AND FRAME_MASK = 0"
      then have "fno (pte v ?C va AND FRAME_MASK) = fno 0" by (rule arg_cong)
      then show False using nz by (simp add: fno_nat [of 0])
    qed
    then have b: "brk_grow (va # vas) (t, v) = brk_grow vas (t, v)" using ph True al by simp
    obtain t' v' where "brk_grow vas (t, v) = Some (None, t', v')" "brk_base t' = brk_base t" "grown Gs vas v v'"
      using Cons.IH [OF w Cons.prems(2)] Cons.prems(3,4) by auto
    then show ?thesis
      using b grown_Cons_old [OF True nz _ _ C] p by auto
  next
    case False
    have sp: "2 \<le> spare v" using Cons.prems(4) by simp
    obtain f v1 v2 v3 where s: "alloc v = (f, v1)" "f \<noteq> 0"
        "paging_map_in_space (loaded v) va f (PAGE_PRESENT OR PAGE_RW OR PAGE_USER) v1 = Some v2"
        "wr_page va zero_page v2 = Some v3" "vm_wf Gs v3" "calm Gs v v3" "ptes_but Gs {(?C, va)} v v3"
        "present (pte v3 ?C va)" "fno (pte v3 ?C va) \<noteq> 0" "fresh_at Gs v va v3" "spare v \<le> spare v3 + 2"
      by (rule brk_page_ok [OF w k False sp])
    let ?t = "task_add_region va 1 t"
    have b: "brk_grow (va # vas) (t, v) = brk_grow vas (?t, v3)"
      using ph False s(1-4) Cons.prems(2) by simp
    have "cr3 ?t = loaded v3" using Cons.prems(2) calmD(1) [OF s(6)] by (simp add: task_add_region_frame)
    moreover have "\<forall>wa\<in>set vas. heap_page v3 wa"
      using heap_page_calm [OF s(6,7) C s(9)] Cons.prems(3) by simp
    moreover have "2 * length vas \<le> spare v3" using Cons.prems(4) s(11) by simp
    ultimately obtain t' v' where "brk_grow vas (?t, v3) = Some (None, t', v')" "brk_base t' = brk_base ?t"
        "grown Gs vas v3 v'"
      using Cons.IH [OF s(5)] by blast
    then show ?thesis
      using b grown_Cons_new [OF s(5-10) False _ C p] by (auto simp: task_add_region_frame)
  qed
qed



section \<open>Edges\<close>

text \<open>The kernel's own stores do not respect copy-on-write: a system call that fills a user buffer on a shared page
  (\<open>copy_to_user\<close>) writes the frame of both processes.\<close>

theorem kernel_store_bypasses_cow:
  "(0x12F205 :: u32) AND PAGE_RW = 0 \<and> (0x12F205 :: u32) AND PAGE_COW \<noteq> 0 \<and> refs (demo_vm 0x12F205 2) 303 = 2
   \<and> wr 0x1400000 x (demo_vm 0x12F205 2) = Some (set_word 303 0 x (demo_vm 0x12F205 2))"
proof -
  have w: "word_idx 0x1400000 = 0" by (simp add: word_idx_nat)
  show ?thesis
    by (simp add: wr_def mmu_def demo_frames demo_idx present_def fno_nat w)
qed

text \<open>\<open>fork\<close> forgets whether a page was writable: the entries of a read-only and of a writable page become the
  same, so the first write makes a read-only page writable.\<close>

theorem fork_forgets_read_only: "cowed 0x12F005 = 0x12F205 \<and> cowed 0x12F007 = 0x12F205"
  by (simp add: cowed_def entry_for_def)

text \<open>Once eight regions are recorded, new heap pages are no region of the task, and \<open>fork\<close> skips them.\<close>

theorem later_heap_pages_not_forked:
  assumes "length (user_regions t) \<ge> 8" "brk_grow [va] (t, v) = Some (r, t', v')"
  shows "region_pages (user_regions t') = region_pages (user_regions t)"
  using assms by (auto simp: task_add_region_def split: bind_splits if_splits prod.splits)

text \<open>Nine areas a megabyte apart exhaust the eight attempts: the area handed out overlaps the ninth.\<close>

theorem mmap_overlaps_after_eight:
  "let w = \<lambda>k. \<lparr>vm_start = 0x3000000 + k * 0x100000, vm_end = 0x3001000 + k * 0x100000, vm_prot = 3, vm_flags = 0x22,
       vm_fd = -1, vm_file_offset = 0\<rparr>;
     vs = map w [0, 1, 2, 3, 4, 5, 6, 7, 8]
   in mmap_place 8 0x1000 vs 0x3000000 = Some 0x3800000 \<and> vma_overlap vs 0x3800000 0x1000"
  by code_simp

lemma demo_alloc: "alloc (demo_vm e r) = (0x138000, (demo_vm e r)\<lparr>vpmm := (bitmap_set 312 (vpmm (demo_vm e r)))
     \<lparr>pmm_free_frames := 65223, pmm_refcount := (\<lambda>_. r)(312 := 1)\<rparr>\<rparr>)"
proof -
  have u: "bitmap_test (vpmm (demo_vm e r)) i \<longleftrightarrow> i < 312" if "i < 65536" for i
    using demo_used [of e r i] that by (simp add: used_def)
  have "first_from (\<lambda>i. \<not> bitmap_test (vpmm (demo_vm e r)) i) 256 (PMM_MAX_FRAMES - 256) = Some 312"
    unfolding first_from_Some_iff using u by auto
  then show ?thesis by (simp add: alloc_def pmm_alloc_frame_def demo_frames) (simp add: demo_vm_def)
qed

lemmas vm_eval = fno_nat dir_idx_nat tbl_idx_nat word_idx_nat present_def mmu_def rd_def wr_def rd_page_def wr_page_def
  pd_at_def table_at_def demo_frames demo_alloc

text \<open>A read fault in an area without any permission maps a page the user can read.\<close>

theorem prot_none_is_readable:
  "map_option (\<lambda>(b, v'). (b, pte v' 300 0x1401000))
     (mmap_handle_fault 0x1401000 False
       (Some (task_zero\<lparr>cr3 := 0x12C000, vmas := [\<lparr>vm_start = 0x1401000, vm_end = 0x1402000, vm_prot = 0, vm_flags = 0x22,
          vm_fd = -1, vm_file_offset = 0\<rparr>]\<rparr>)) fs (demo_vm 0x12F007 1))
   = Some (True, 0x138005)"
  by (simp add: mmap_handle_fault_def find_vma_def page_down_def vm_eval fresh_page_def paging_scratch_phys_def scratch_table_def
   paging_map_in_space_def map_here_def pte_def tab_def)

text \<open>The thread's stack page is copied through one window: the new frame is copied onto itself and the contents of
  the shared page are lost.\<close>

theorem clone_loses_cow_stack:
  "map_option (\<lambda>v'. (pte v' 300 0x1400000, frames v' 312 7))
     (clone_stack_page 0x12C000 0x1400000 (demo_vm 0x12F205 2)) = Some (0x138007, frames (demo_vm 0x12F205 2) 312 7)
   \<and> frames (demo_vm 0x12F205 2) 303 7 \<noteq> frames (demo_vm 0x12F205 2) 312 7"
  by (simp add: clone_stack_page_def paging_get_pte_flags_def paging_get_phys_def paging_get_phys_current_def
    vm_eval pmm_get_ref_def frame_of_def paging_scratch_phys_def scratch_table_def paging_map_in_space_def map_here_def
    pte_def tab_def page_down_def)
    (simp add: demo_vm_def)

text \<open>\<open>MAP_FIXED\<close> takes any address, and \<open>munmap\<close> then frees and unmaps what is there: a page of the kernel.\<close>

theorem mmap_fixed_gives_kernel_page:
  "let v = set_word 300 0 0x131003 (set_word 305 256 0x100003 (demo_vm 0x12F007 1));
       (a, t1, v1) = sys_mmap 0x100000 0x1000 3 (MAP_FIXED OR MAP_ANONYMOUS) (-1) 0 True (Some (task_zero\<lparr>cr3 := 0x12C000\<rparr>)) v
   in a = 0x100000 \<and> mmu v1 0x100000 = Some 256 \<and> bitmap_test (vpmm v1) 256
      \<and> map_option (\<lambda>(r, _, v2). (r, mmu v2 0x100000, bitmap_test (vpmm v2) 256)) (sys_munmap 0x100000 0x1000 t1 v1)
        = Some (0, None, False)"
  by (simp add: sys_mmap_def sys_munmap_def task_add_region_def pages_between_def release_page_def page_up_def page_down_def
    paging_get_phys_def paging_get_phys_current_def vm_eval paging_unmap_in_space_def pmm_free_frame_def frame_of_def task_zero_def)
    (use demo_used [of "0x12F007" 1 256] in \<open>simp add: used_def\<close>)

end
