(* ===== verification/Uaccess.thy ===== *)
theory Uaccess
  imports Vm_Brk
begin

text \<open>
  Access to the memory of the caller from system calls (\<open>core/syscall.c\<close>): the checks of a user buffer and the
  copies in and out.  \<open>None\<close> means the call does not return: the kernel faulted, or the loop over the pages,
  whose counter may wrap around the address space, never ends.  Bytes are kept in little-endian words.
\<close>

abbreviation BOUNCE_SIZE :: u32 where "BOUNCE_SIZE \<equiv> 32768"

definition byte_pos :: "u32 \<Rightarrow> nat" where
  "byte_pos va = 8 * unat (va AND 3)"

definition get_byte :: "u32 \<Rightarrow> vm \<Rightarrow> u8 option" where
  "get_byte va v = map_option (\<lambda>w. ucast (drop_bit (byte_pos va) w)) (rd va v)"

definition put_byte :: "u32 \<Rightarrow> u8 \<Rightarrow> vm \<Rightarrow> vm option" where
  "put_byte va b v =
     do { w \<leftarrow> rd va v;
          wr va ((w AND NOT (push_bit (byte_pos va) 0xFF)) OR push_bit (byte_pos va) (ucast b)) v }"

partial_function (option) buf_loop :: "u32 \<Rightarrow> u32 \<Rightarrow> vm \<Rightarrow> bool option" where
  "buf_loop a e v =
     (if a < e
      then do { p \<leftarrow> paging_get_phys a v; if p = 0 then Some False else buf_loop (a + 0x1000) e v }
      else Some True)"

definition buf_valid :: "u32 \<Rightarrow> u32 \<Rightarrow> u32 \<Rightarrow> vm \<Rightarrow> bool option" where
  "buf_valid limit addr len v =
     (if addr = 0 \<or> len > limit then Some False
      else if addr < 0x400000 then Some False
      else let e = addr + len in
        do { ok \<leftarrow> buf_loop addr e v;
             if \<not> ok then Some False
             else do { p \<leftarrow> paging_get_phys (e - 1) v; Some (p \<noteq> 0) } })"

definition is_user_buf_valid :: "u32 \<Rightarrow> u32 \<Rightarrow> vm \<Rightarrow> bool option" where
  "is_user_buf_valid addr len v = buf_valid 4096 addr len v"

definition is_user_buf_valid_big :: "u32 \<Rightarrow> u32 \<Rightarrow> vm \<Rightarrow> bool option" where
  "is_user_buf_valid_big addr len v = buf_valid BOUNCE_SIZE addr len v"

fun load_bytes :: "u32 \<Rightarrow> nat \<Rightarrow> vm \<Rightarrow> u8 list option" where
  "load_bytes a 0 v = Some []"
| "load_bytes a (Suc n) v = do { b \<leftarrow> get_byte a v; bs \<leftarrow> load_bytes (a + 1) n v; Some (b # bs) }"

fun store_bytes :: "u32 \<Rightarrow> u8 list \<Rightarrow> vm \<Rightarrow> vm option" where
  "store_bytes a [] v = Some v"
| "store_bytes a (b # bs) v = do { v1 \<leftarrow> put_byte a b v; store_bytes (a + 1) bs v1 }"

text \<open>The result \<open>Inl (-1)\<close> is a refusal.\<close>

definition copy_from_user :: "u32 \<Rightarrow> u32 \<Rightarrow> vm \<Rightarrow> (int + u8 list) option" where
  "copy_from_user p len v =
     do { ok \<leftarrow> is_user_buf_valid_big p len v;
          if \<not> ok then Some (Inl (-1)) else do { bs \<leftarrow> load_bytes p (unat len) v; Some (Inr bs) } }"

definition copy_to_user :: "u32 \<Rightarrow> u8 list \<Rightarrow> vm \<Rightarrow> (int \<times> vm) option" where
  "copy_to_user p bs v =
     do { ok \<leftarrow> is_user_buf_valid_big p (of_nat (length bs)) v;
          if \<not> ok then Some (-1, v) else do { v1 \<leftarrow> store_bytes p bs v; Some (0, v1) } }"

section \<open>The check\<close>

definition backed :: "vm \<Rightarrow> u32 \<Rightarrow> bool" where
  "backed v va \<longleftrightarrow> (\<exists>p. paging_get_phys va v = Some p \<and> p \<noteq> 0)"

lemma backed_walk:
  assumes "vm_wf Gs v" "dir_idx va < 1023"
  shows "\<exists>p. paging_get_phys va v = Some p \<and> (p \<noteq> 0 \<longleftrightarrow> backed v va)"
    "backed v va \<Longrightarrow> mmu v va \<noteq> None" "mmu v va = Some F \<Longrightarrow> F \<noteq> 0 \<Longrightarrow> backed v va"
  using get_phys_walk [OF assms] by (auto simp: backed_def unat_eq_0 split: option.splits)

lemma mmu_page: "fno a = fno b \<Longrightarrow> mmu v a = mmu v b"
  by (simp add: mmu_def idx_fno Let_def)

lemma low_dir: "unat va < 0xFFC00000 \<Longrightarrow> dir_idx va < 1023"
  by (simp add: dir_idx_nat less_mult_imp_div_less)

lemma buf_loop_ok:
  assumes w: "vm_wf Gs v" and e: "unat e \<le> 0xFFC00000"
  shows "\<exists>b. buf_loop a e v = Some b \<and> (b \<longleftrightarrow> (\<forall>k. unat a + 4096 * k < unat e \<longrightarrow> backed v (a + of_nat k * 0x1000)))"
proof (induction "unat e - unat a" arbitrary: a rule: less_induct)
  case less
  show ?case
  proof (cases "a < e")
    case False
    then show ?thesis
      by (intro exI [of _ True]) (simp add: buf_loop.simps [of a] word_less_nat_alt)
  next
    case True
    then have lt: "unat a < unat e" by (simp add: word_less_nat_alt)
    have d: "dir_idx a < 1023" by (rule low_dir) (use lt e in simp)
    obtain p where p: "paging_get_phys a v = Some p" "p \<noteq> 0 \<longleftrightarrow> backed v a"
      using backed_walk(1) [OF w d] by blast
    have n: "unat (a + 0x1000) = unat a + 4096" using lt e by (subst unat_plus) simp_all
    have ih: "\<exists>b. buf_loop (a + 0x1000) e v = Some b
        \<and> (b \<longleftrightarrow> (\<forall>k. unat (a + 0x1000) + 4096 * k < unat e \<longrightarrow> backed v (a + 0x1000 + of_nat k * 0x1000)))"
      by (rule less) (use n lt in simp)
    have sh: "(\<forall>k. unat a + 4096 * k < unat e \<longrightarrow> backed v (a + of_nat k * 0x1000))
        \<longleftrightarrow> backed v a \<and> (\<forall>k. unat (a + 0x1000) + 4096 * k < unat e \<longrightarrow> backed v (a + 0x1000 + of_nat k * 0x1000))"
      (is "?L \<longleftrightarrow> ?R")
    proof
      assume L: ?L
      have "backed v (a + 0x1000 + of_nat k * 0x1000)" if "unat (a + 0x1000) + 4096 * k < unat e" for k
        using L [rule_format, of "Suc k"] that n by (simp add: algebra_simps)
      then show ?R using L [rule_format, of 0] lt by simp
    next
      assume R: ?R
      have "backed v (a + of_nat k * 0x1000)" if "unat a + 4096 * k < unat e" for k
        using R that n by (cases k) (auto simp: algebra_simps)
      then show ?L by blast
    qed
    show ?thesis
      unfolding sh using ih p True by (subst buf_loop.simps) auto
  qed
qed

text \<open>The addresses the check looks at reach every page of the buffer.\<close>

lemma pages_reached:
  assumes "A \<le> x" "x < E" "A < (E :: nat)"
  shows "\<exists>c. (c = E - 1 \<or> (\<exists>k. c = A + 4096 * k \<and> c < E)) \<and> c div 4096 = x div 4096"
proof -
  define k where "k = (x - A) div 4096"
  define c where "c = A + 4096 * k"
  have m: "4096 * k + (x - A) mod 4096 = x - A" unfolding k_def by (rule mult_div_mod_eq)
  have c: "c \<le> x" "x < c + 4096"
    using m assms(1) mod_less_divisor [of 4096 "x - A"] unfolding c_def by linarith+
  have d: "c div 4096 \<le> x div 4096" "x div 4096 \<le> Suc (c div 4096)"
    using div_le_mono [OF c(1), of 4096] div_le_mono [of x "c + 4096" 4096] c(2) by simp_all
  show ?thesis
  proof (cases "x div 4096 = c div 4096")
    case True
    then show ?thesis using c(1) assms(2) by (intro exI [of _ c]) (auto simp: c_def)
  next
    case False
    then have x: "x div 4096 = Suc (c div 4096)" using d by simp
    show ?thesis
    proof (cases "c + 4096 < E")
      case True
      have "c + 4096 = A + 4096 * Suc k" by (simp add: c_def)
      then show ?thesis using True x by (intro exI [of _ "c + 4096"] conjI disjI2 exI [of _ "Suc k"]) simp_all
    next
      case False
      have "x div 4096 \<le> (E - 1) div 4096" by (rule div_le_mono) (use assms(2) in simp)
      moreover have "(E - 1) div 4096 \<le> (c + 4096) div 4096" by (rule div_le_mono) (use False in simp)
      moreover have "(c + 4096) div 4096 = Suc (c div 4096)" by (rule div_nat_eqI) simp_all
      ultimately have "(E - 1) div 4096 = x div 4096" using x by linarith
      then show ?thesis by blast
    qed
  qed
qed

lemma buf_valid_ok:
  assumes w: "vm_wf Gs v" and l: "0 < len" and e: "unat a + unat len \<le> 0xFFC00000"
  shows "\<exists>b. buf_valid limit a len v = Some b
    \<and> (b \<longrightarrow> 0x400000 \<le> a \<and> len \<le> limit \<and> (\<forall>i<unat len. mmu v (a + of_nat i) \<noteq> None))
    \<and> (0x400000 \<le> a \<and> len \<le> limit \<and> (\<forall>i<unat len. \<exists>F. F \<noteq> 0 \<and> mmu v (a + of_nat i) = Some F) \<longrightarrow> b)"
proof (cases "a = 0 \<or> len > limit \<or> a < 0x400000")
  case True
  then show ?thesis by (intro exI [of _ False]) (auto simp: buf_valid_def)
next
  case False
  let ?A = "unat a" and ?L = "unat len"
  have L: "0 < ?L" using l by (simp add: word_less_nat_alt)
  have ea: "unat (a + len) = ?A + ?L" by (rule unat_plus) (use e in simp)
  have ad: "unat (a + of_nat n) = ?A + n" if "n < ?L" for n
    using that e by (subst unat_plus) (simp_all add: unat_of_nat)
  have ak: "unat (a + of_nat k * 0x1000) = ?A + 4096 * k" if "?A + 4096 * k < ?A + ?L" for k
    using that e by (subst unat_plus) (simp_all add: unat_of_nat unat_word_ariths)
  have one: "unat (1 :: u32) = 1" by simp
  have el: "unat (a + len - 1) = ?A + ?L - 1" using L ea by (subst unat_sub) (simp_all add: word_le_nat_alt)
  have dl: "dir_idx (a + len - 1) < 1023" by (rule low_dir) (use el L e in simp)
  obtain b where b: "buf_loop a (a + len) v = Some b"
      "b \<longleftrightarrow> (\<forall>k. ?A + 4096 * k < ?A + ?L \<longrightarrow> backed v (a + of_nat k * 0x1000))"
    using buf_loop_ok [OF w, of "a + len" a] e ea by auto
  obtain p where p: "paging_get_phys (a + len - 1) v = Some p" "p \<noteq> 0 \<longleftrightarrow> backed v (a + len - 1)"
    using backed_walk(1) [OF w dl] by blast
  have r: "buf_valid limit a len v = Some (b \<and> backed v (a + len - 1))"
    using False b(1) p by (simp add: buf_valid_def Let_def)
  have fwd: "mmu v (a + of_nat i) \<noteq> None" if ok: "b \<and> backed v (a + len - 1)" and i: "i < ?L" for i
  proof -
    obtain c where c: "c = ?A + ?L - 1 \<or> (\<exists>k. c = ?A + 4096 * k \<and> c < ?A + ?L)" "c div 4096 = (?A + i) div 4096"
      using pages_reached [of ?A "?A + i" "?A + ?L"] i by auto
    obtain y where y: "unat y = c" "backed v y" "dir_idx y < 1023"
    proof (cases "c = ?A + ?L - 1")
      case True
      then show ?thesis using that [of "a + len - 1"] ok el dl by simp
    next
      case False
      then obtain k where k: "c = ?A + 4096 * k" "c < ?A + ?L" using c(1) by blast
      show ?thesis
      proof (rule that [of "a + of_nat k * 0x1000"])
        show "unat (a + of_nat k * 0x1000) = c" "backed v (a + of_nat k * 0x1000)"
          using k ak [of k] b(2) ok by simp_all
        then show "dir_idx (a + of_nat k * 0x1000) < 1023" using k(2) e by (intro low_dir) simp
      qed
    qed
    have "mmu v y = mmu v (a + of_nat i)" by (rule mmu_page) (simp add: fno_nat y(1) ad [OF i] c(2))
    then show ?thesis using backed_walk(2) [OF w y(3,2)] by simp
  qed
  have bwd: "b \<and> backed v (a + len - 1)"
    if all: "\<forall>i<?L. \<exists>F. F \<noteq> 0 \<and> mmu v (a + of_nat i) = Some F"
  proof -
    have bk: "backed v y" if "unat y = ?A + i" "i < ?L" for y i
    proof -
      have y: "y = a + of_nat i" using ad [OF that(2)] that(1) by (simp add: word_unat_eq_iff)
      have "dir_idx y < 1023" by (rule low_dir) (use that e in simp)
      then show ?thesis using all that(2) y backed_walk(3) [OF w] by blast
    qed
    have "backed v (a + of_nat k * 0x1000)" if "?A + 4096 * k < ?A + ?L" for k
      by (rule bk [of _ "4096 * k"]) (use ak [OF that] that in simp_all)
    moreover have "backed v (a + len - 1)" by (rule bk [of _ "?L - 1"]) (use el L in simp_all)
    ultimately show ?thesis using b(2) by blast
  qed
  show ?thesis
    using r fwd bwd False by (intro exI [of _ "b \<and> backed v (a + len - 1)"]) (auto simp: not_less)
qed

lemma load_bytes_ok:
  "(\<And>i. i < n \<Longrightarrow> mmu v (a + of_nat i) \<noteq> None)
    \<Longrightarrow> \<exists>bs. load_bytes a n v = Some bs \<and> length bs = n \<and> (\<forall>i<n. get_byte (a + of_nat i) v = Some (bs ! i))"
proof (induction n arbitrary: a)
  case (Suc n)
  have "mmu v a \<noteq> None" using Suc.prems [of 0] by simp
  then obtain b where b: "get_byte a v = Some b" by (auto simp: get_byte_def rd_def)
  have "mmu v (a + 1 + of_nat i) \<noteq> None" if "i < n" for i
    using Suc.prems [of "Suc i"] that by (simp add: algebra_simps)
  then obtain bs where bs: "load_bytes (a + 1) n v = Some bs" "length bs = n"
      "\<forall>i<n. get_byte (a + 1 + of_nat i) v = Some (bs ! i)"
    using Suc.IH by blast
  have "get_byte (a + of_nat i) v = Some ((b # bs) ! i)" if "i < Suc n" for i
    using that b bs(3) by (cases i) (auto simp: algebra_simps)
  then show ?case using b bs(1,2) by simp
qed simp


lemma demo_mmu: "mmu (demo_vm 0x12F007 1) (0x1400004 + of_nat i) = Some 303" if "i < 8"
proof -
  have u: "unat (0x1400004 + of_nat i :: u32) = 20971524 + i"
    using that by (subst unat_plus) (simp_all add: unat_of_nat)
  have "fno (0x1400004 + of_nat i) = fno 0x1400000" using that by (simp add: fno_nat u)
  then have "mmu (demo_vm 0x12F007 1) (0x1400004 + of_nat i) = mmu (demo_vm 0x12F007 1) 0x1400000" by (rule mmu_page)
  then show ?thesis by (simp add: mmu_def demo_frames demo_idx fno_nat present_def)
qed


text \<open>The check has no upper bound: the recursive view of a page table is accepted as a user buffer, and a system call
  that writes there edits the table.\<close>

theorem user_buffer_reaches_page_tables:
  "is_user_buf_valid 0xFFC05000 4 (demo_vm 0x12F007 1) = Some True
   \<and> wr 0xFFC05000 x (demo_vm 0x12F007 1) = Some (set_word 301 0 x (demo_vm 0x12F007 1))"
proof -
  have g: "paging_get_phys 0xFFC05000 (demo_vm 0x12F007 1) = Some 0x12D000"
    "paging_get_phys 0xFFC05003 (demo_vm 0x12F007 1) = Some 0x12D003"
    by (simp_all add: paging_get_phys_def paging_get_phys_current_def vm_eval)
  then show ?thesis
    by (simp add: is_user_buf_valid_def buf_valid_def buf_loop.simps vm_eval)
qed

text \<open>The end of the buffer may wrap around the address space: then only the byte before the wrapped end is looked at,
  and a buffer that begins in the page directory is accepted.\<close>

theorem user_buffer_wraps:
  "is_user_buf_valid 0xFFFFF800 0x1000 (set_word 300 0 0x131003 (set_word 305 0 3 (demo_vm 0x12F007 1))) = Some True"
proof -
  have g: "paging_get_phys 0x7FF (set_word 300 0 0x131003 (set_word 305 0 3 (demo_vm 0x12F007 1))) = Some 0x7FF"
    by (simp add: paging_get_phys_def paging_get_phys_current_def vm_eval)
  have e: "(0xFFFFF800 :: u32) + 0x1000 = 0x800" "(0x800 :: u32) - 1 = 0x7FF"
    by code_simp simp
  show ?thesis
    unfolding is_user_buf_valid_def buf_valid_def e Let_def by (simp add: buf_loop.simps [of "0xFFFFF800"] g)
qed

end
