(* ===== verification/Inet.thy ===== *)
theory Inet
  imports Prelude
begin

text \<open>
  The byte formats of the network code: network byte order, the ones-complement checksum (\<open>net/net.c\<close>,
  \<open>net/tcp.c\<close>), and TCP frames, built by \<open>frame_build\<close> and taken apart by \<open>frame_parse\<close>.  A frame is the list
  of its bytes; a function that returns \<open>-1\<close> or a null pointer is option-valued.
\<close>

section \<open>Byte order\<close>

definition be16 :: "u16 \<Rightarrow> u8 list" where
  "be16 v = [ucast (drop_bit 8 v), ucast v]"

definition be32 :: "u32 \<Rightarrow> u8 list" where
  "be32 v = [ucast (drop_bit 24 v), ucast (drop_bit 16 v), ucast (drop_bit 8 v), ucast v]"

definition get16 :: "u8 list \<Rightarrow> nat \<Rightarrow> u16" where
  "get16 p i = push_bit 8 (ucast (p ! i)) OR ucast (p ! (i + 1))"

definition get32 :: "u8 list \<Rightarrow> nat \<Rightarrow> u32" where
  "get32 p i = push_bit 24 (ucast (p ! i)) OR push_bit 16 (ucast (p ! (i + 1)))
     OR push_bit 8 (ucast (p ! (i + 2))) OR ucast (p ! (i + 3))"

text \<open>\<open>put16(p + i, v)\<close>.\<close>

definition put16 :: "nat \<Rightarrow> u16 \<Rightarrow> u8 list \<Rightarrow> u8 list" where
  "put16 i v p = p[i := ucast (drop_bit 8 v), i + 1 := ucast v]"

section \<open>The checksum\<close>

definition pair16 :: "u8 \<Rightarrow> u8 \<Rightarrow> u32" where
  "pair16 a b = push_bit 8 (ucast a) OR ucast b"

fun wsum :: "u8 list \<Rightarrow> u32 \<Rightarrow> u32" where
  "wsum [] s = s"
| "wsum [a] s = s + push_bit 8 (ucast a)"
| "wsum (a # b # r) s = wsum r (s + pair16 a b)"

text \<open>\<open>while (sum >> 16) sum = (sum & 0xFFFF) + (sum >> 16);\<close>\<close>

lemma u32_halves: "unat ((s AND 0xFFFF) + drop_bit 16 s :: u32) = unat s mod 65536 + unat s div 65536"
proof -
  have m: "(0xFFFF :: u32) = mask 16" by (simp add: mask_eq_exp_minus_1)
  have a: "unat (s AND 0xFFFF) = unat s mod 65536"
    by (simp add: m take_bit_eq_mask [symmetric] unsigned_take_bit_eq take_bit_eq_mod unat_mod)
  have d: "unat (drop_bit 16 s) = unat s div 65536" by (simp add: unat_drop_bit_eq drop_bit_eq_div unat_div)
  have "unat s div 65536 < 65536" using u32_less [of s] by (simp add: less_mult_imp_div_less)
  moreover have "unat s mod 65536 < 65536" by simp
  ultimately have "unat (s AND 0xFFFF) + unat (drop_bit 16 s) < 131072" unfolding a d by linarith
  then have "unat (s AND 0xFFFF) + unat (drop_bit 16 s) < 2 ^ 32" by simp
  then show ?thesis by (subst unat_word_ariths) (simp add: a d)
qed

function fold16 :: "u32 \<Rightarrow> u32" where
  "fold16 s = (if drop_bit 16 s \<noteq> 0 then fold16 ((s AND 0xFFFF) + drop_bit 16 s) else s)"
  by pat_completeness auto

termination
proof (relation "measure unat")
  fix s :: u32 assume "drop_bit 16 s \<noteq> 0"
  then have "unat (drop_bit 16 s) \<noteq> 0" by (simp add: unat_eq_0)
  then have d: "0 < unat s div 65536" by (simp add: unat_drop_bit_eq drop_bit_eq_div unat_div)
  have "65536 * (unat s div 65536) + unat s mod 65536 = unat s" by simp
  then have "unat s mod 65536 + unat s div 65536 < unat s" using d by linarith
  then show "((s AND 0xFFFF) + drop_bit 16 s, s) \<in> measure unat" unfolding in_measure u32_halves .
qed simp

declare fold16.simps [simp del]

definition ones_sum :: "u8 list \<Rightarrow> u16" where
  "ones_sum p = ucast (fold16 (wsum p 0))"

definition ip_cksum :: "u8 list \<Rightarrow> u16" where
  "ip_cksum h = NOT (ones_sum (take 20 h))"

definition pseudo_sum :: "u8 list \<Rightarrow> u8 list \<Rightarrow> nat \<Rightarrow> u32" where
  "pseudo_sum src dst seglen = pair16 (src ! 0) (src ! 1) + pair16 (src ! 2) (src ! 3)
     + pair16 (dst ! 0) (dst ! 1) + pair16 (dst ! 2) (dst ! 3) + 6 + ucast (of_nat seglen :: u16)"

definition tcp_cksum :: "u8 list \<Rightarrow> u8 list \<Rightarrow> u8 list \<Rightarrow> u16" where
  "tcp_cksum src dst seg = NOT (ucast (fold16 (wsum seg (pseudo_sum src dst (length seg)))))"

definition tcp_ip_cksum :: "u8 list \<Rightarrow> u16" where
  "tcp_ip_cksum h = NOT (ucast (fold16 (wsum (take 20 h) 0)))"

section \<open>Frames\<close>

abbreviation TCP_ETHLEN :: nat where "TCP_ETHLEN \<equiv> 14"
abbreviation TCP_IPLEN :: nat where "TCP_IPLEN \<equiv> 20"
abbreviation TCP_HDRLEN :: nat where "TCP_HDRLEN \<equiv> 20"
abbreviation TCP_MSS :: nat where "TCP_MSS \<equiv> 512"

record segment =
  sg_src :: "u8 list"
  sg_dst :: "u8 list"
  sg_sport :: u16
  sg_dport :: u16
  sg_seq :: u32
  sg_ack :: u32
  sg_flags :: u8
  sg_wnd :: u16
  sg_data :: "u8 list"

definition remote_mac :: "u8 list" where "remote_mac = [0x52, 0x54, 0x00, 0x12, 0x34, 0x57]"
definition local_mac :: "u8 list" where "local_mac = [0x52, 0x54, 0x00, 0x12, 0x34, 0x56]"

definition eth_header :: "u8 list" where "eth_header = remote_mac @ local_mac @ be16 0x0800"

definition ip_header :: "u8 list \<Rightarrow> u8 list \<Rightarrow> nat \<Rightarrow> u8 list" where
  "ip_header src dst dlen =
     (let h = [0x45, 0] @ be16 (of_nat (TCP_IPLEN + TCP_HDRLEN + dlen)) @ be16 0x1234 @ be16 0x4000 @ [64, 6]
                @ be16 0 @ src @ dst
      in put16 10 (tcp_ip_cksum h) h)"

definition tcp_segment :: "segment \<Rightarrow> u8 list" where
  "tcp_segment g =
     (let th = be16 (sg_sport g) @ be16 (sg_dport g) @ be32 (sg_seq g) @ be32 (sg_ack g) @ [0x50, sg_flags g]
                @ be16 (sg_wnd g) @ be16 0 @ be16 0 @ sg_data g
      in put16 16 (tcp_cksum (sg_src g) (sg_dst g) th) th)"

definition frame_build :: "nat \<Rightarrow> segment \<Rightarrow> u8 list option" where
  "frame_build limit g =
     (if TCP_ETHLEN + TCP_IPLEN + TCP_HDRLEN + length (sg_data g) > limit then None
      else Some (eth_header @ ip_header (sg_src g) (sg_dst g) (length (sg_data g)) @ tcp_segment g))"

definition frame_parse :: "u8 list \<Rightarrow> segment option" where
  "frame_parse f =
     (if length f < TCP_ETHLEN + TCP_IPLEN + TCP_HDRLEN then None
      else if f ! 12 \<noteq> 0x08 \<or> f ! 13 \<noteq> 0x00 then None
      else let ip = drop TCP_ETHLEN f in
        if drop_bit 4 (ip ! 0) \<noteq> 4 \<or> ip ! 0 AND 0x0F \<noteq> 5 then None
        else if ip ! 9 \<noteq> 6 then None
        else if tcp_ip_cksum ip \<noteq> 0 then None
        else let iplen = unat (get16 ip 2) in
          if iplen < TCP_IPLEN + TCP_HDRLEN \<or> TCP_ETHLEN + iplen > length f then None
          else let th = drop TCP_IPLEN ip; tlen = iplen - TCP_IPLEN;
                   src = take 4 (drop 12 ip); dst = take 4 (drop 16 ip) in
            if drop_bit 4 (th ! 12) \<noteq> 5 then None
            else if tcp_cksum src dst (take tlen th) \<noteq> 0 then None
            else Some \<lparr>sg_src = src, sg_dst = dst, sg_sport = get16 th 0, sg_dport = get16 th 2,
                   sg_seq = get32 th 4, sg_ack = get32 th 8, sg_flags = th ! 13, sg_wnd = get16 th 14,
                   sg_data = take (tlen - TCP_HDRLEN) (drop TCP_HDRLEN th)\<rparr>)"

section \<open>Sums as natural numbers\<close>

fun nsum :: "u8 list \<Rightarrow> nat" where
  "nsum [] = 0"
| "nsum [a] = 256 * unat a"
| "nsum (a # b # r) = 256 * unat a + unat b + nsum r"

lemma u8_less: "unat (a :: u8) < 256"
  using unsigned_less [where 'b = 8 and 'a = nat, of a] by simp

lemma unat_push_u8: "unat (push_bit 8 (ucast (a :: u8)) :: u32) = 256 * unat a"
proof -
  have e: "unat (ucast a :: u32) = unat a" by (simp add: unsigned_ucast_eq take_bit_nat_eq_self u8_less less_trans [OF u8_less])
  have "unat (push_bit 8 (ucast a :: u32)) = (unat (ucast a :: u32) * 2 ^ 8) mod 2 ^ 32"
    by (simp add: push_bit_eq_mult unat_word_ariths)
  also have "\<dots> = 256 * unat a" unfolding e using u8_less [of a] by simp
  finally show ?thesis .
qed

lemma pair16_plus: "pair16 a b = push_bit 8 (ucast a) + ucast b"
proof -
  have "push_bit 8 (ucast a :: u32) AND ucast b = 0"
    by (rule bit_word_eqI) (auto simp: bit_simps dest: bit_imp_le_length)
  then show ?thesis unfolding pair16_def by (simp add: disjunctive_add_eq_or)
qed

lemma unat_pair16: "unat (pair16 a b) = 256 * unat a + unat b"
proof -
  have e: "unat (ucast b :: u32) = unat b" by (simp add: unsigned_ucast_eq take_bit_nat_eq_self u8_less less_trans [OF u8_less])
  show ?thesis unfolding pair16_plus using u8_less [of a] u8_less [of b]
    by (subst unat_word_ariths) (simp add: unat_push_u8 e)
qed

lemma unat_add_small: "unat x + n < 4294967296 \<Longrightarrow> unat y = n \<Longrightarrow> unat (x + y :: u32) = unat x + n"
  by (subst unat_word_ariths) simp

lemma unat_wsum: "unat s + nsum p < 4294967296 \<Longrightarrow> unat (wsum p s) = unat s + nsum p"
proof (induction p s rule: wsum.induct)
  case (2 a s)
  then show ?case by (simp add: unat_add_small unat_push_u8)
next
  case (3 a b r s)
  have e: "unat (s + pair16 a b) = unat s + (256 * unat a + unat b)"
    using 3 by (intro unat_add_small unat_pair16) simp
  show ?case using 3 by (simp add: e)
qed simp

lemma nsum_le: "nsum p \<le> 32768 * (length p + 1)"
proof (induction p rule: nsum.induct)
  case (2 a) then show ?case using u8_less [of a] by simp
next
  case (3 a b r) then show ?case using u8_less [of a] u8_less [of b] by simp
qed simp

lemma fold16_facts: "unat (fold16 s) < 65536 \<and> unat (fold16 s) mod 65535 = unat s mod 65535 \<and> (fold16 s = 0 \<longleftrightarrow> s = 0)"
proof (induction s rule: fold16.induct)
  case (1 s)
  have d: "unat (drop_bit 16 s) = unat s div 65536" by (simp add: unat_drop_bit_eq drop_bit_eq_div unat_div)
  show ?case
  proof (cases "drop_bit 16 s = 0")
    case True
    then have "unat s div 65536 = 0" using d by simp
    then have "unat s < 65536" by (simp add: div_eq_0_iff)
    then show ?thesis using True by (subst fold16.simps [of s]; simp)+
  next
    case False
    let ?t = "(s AND 0xFFFF) + drop_bit 16 s"
    have f: "fold16 s = fold16 ?t" using False by (subst fold16.simps) simp
    have e: "unat s = 65536 * (unat s div 65536) + unat s mod 65536" by simp
    have "65536 * q + r = 65535 * q + (r + q)" for q r :: nat by simp
    then have "unat s = 65535 * (unat s div 65536) + (unat s mod 65536 + unat s div 65536)" using e by metis
    then have m: "unat ?t mod 65535 = unat s mod 65535" unfolding u32_halves by (metis mod_mult_self4)
    have "unat (drop_bit 16 s) \<noteq> 0" using False by (simp add: unat_eq_0)
    then have "unat ?t \<noteq> 0" unfolding u32_halves d by linarith
    then have z: "?t \<noteq> 0" by (metis unat_0)
    have "s \<noteq> 0" using False by auto
    then show ?thesis using 1 [OF False] f m z by simp
  qed
qed

text \<open>The checksum of a sum is zero exactly when the sum is a positive multiple of 65535.\<close>

lemma not_fold16_0_iff: "NOT (ucast (fold16 s) :: u16) = 0 \<longleftrightarrow> 0 < unat s \<and> unat s mod 65535 = 0"
proof -
  have u: "unat (ucast (fold16 s) :: u16) = unat (fold16 s)"
    using fold16_facts [of s] by (simp add: unsigned_ucast_eq take_bit_nat_eq_self)
  have "NOT (ucast (fold16 s) :: u16) = 0 \<longleftrightarrow> (ucast (fold16 s) :: u16) = -1"
    by (metis bit.double_compl bit.compl_zero)
  also have "\<dots> \<longleftrightarrow> unat (ucast (fold16 s) :: u16) = 65535"
  proof -
    have "unat (-1 :: u16) = 65535" by (simp add: unsigned_minus_1_eq_mask mask_eq_exp_minus_1)
    then show ?thesis by (metis word_unat_eq_iff)
  qed
  also have "\<dots> \<longleftrightarrow> unat (fold16 s) = 65535" unfolding u ..
  also have "\<dots> \<longleftrightarrow> 0 < unat (fold16 s) \<and> unat (fold16 s) mod 65535 = 0"
  proof
    assume "0 < unat (fold16 s) \<and> unat (fold16 s) mod 65535 = 0"
    then obtain k where k: "unat (fold16 s) = 65535 * k" and "0 < k" by (auto elim: dvdE simp: mod_eq_0_iff_dvd)
    then show "unat (fold16 s) = 65535" using fold16_facts [of s] by (cases k) auto
  qed simp
  also have "\<dots> \<longleftrightarrow> 0 < unat s \<and> unat s mod 65535 = 0"
    using fold16_facts [of s] by (metis gr0I unat_0 unat_eq_zero)
  finally show ?thesis .
qed

lemma nat_checksum: "unat (NOT (ucast (fold16 s)) :: u16) = 65535 - unat (fold16 s)"
proof -
  have u: "unat (ucast (fold16 s) :: u16) = unat (fold16 s)"
    using fold16_facts [of s] by (simp add: unsigned_ucast_eq take_bit_nat_eq_self)
  have m: "(-1 :: u16) = 65535" by simp
  have "NOT (ucast (fold16 s) :: u16) = 65535 - ucast (fold16 s)" by (simp add: not_eq_complement)
  moreover have "(ucast (fold16 s) :: u16) \<le> 65535" unfolding word_le_nat_alt u using fold16_facts [of s] by simp
  ultimately show ?thesis by (simp add: unat_sub u)
qed

lemma nsum_update:
  "i < length p \<Longrightarrow> nsum (p[i := b]) + (if even i then 256 else 1) * unat (p ! i)
     = nsum p + (if even i then 256 else 1) * unat b"
proof (induction p arbitrary: i rule: nsum.induct)
  case (3 x y r)
  show ?case
  proof (cases "i < 2")
    case True
    then have "i = 0 \<or> i = 1" by linarith
    then show ?thesis by auto
  next
    case False
    then obtain j where j: "i = Suc (Suc j)" by (metis One_nat_def Suc_1 less_SucI less_Suc_eq_0_disj not0_implies_Suc)
    then show ?thesis using 3 by simp
  qed
qed auto

lemma unat_halves16: "256 * unat (ucast (drop_bit 8 v) :: u8) + unat (ucast v :: u8) = unat (v :: u16)"
proof -
  have h: "unat (ucast (drop_bit 8 v) :: u8) = unat v div 256"
  proof -
    have d: "unat (drop_bit 8 v) = unat v div 256" by (simp add: unat_drop_bit_eq drop_bit_eq_div unat_div)
    have "unat v div 256 < 256" using u16_less [of v] by (simp add: less_mult_imp_div_less)
    then have "take_bit 8 (unat v div 256) = unat v div 256" by (intro take_bit_nat_eq_self) simp
    then show ?thesis unfolding unsigned_ucast_eq d by simp
  qed
  have l: "unat (ucast v :: u8) = unat v mod 256" by (simp add: unsigned_ucast_eq take_bit_eq_mod)
  show ?thesis unfolding h l by simp
qed

lemma nsum_put16:
  assumes "even i" "i + 1 < length p" "p ! i = 0" "p ! (i + 1) = 0"
  shows "nsum (put16 i v p) = nsum p + unat v"
proof -
  let ?q = "p[i := ucast (drop_bit 8 v)]"
  have 1: "nsum ?q = nsum p + 256 * unat (ucast (drop_bit 8 v) :: u8)"
    using nsum_update [of i p] assms by simp
  have 2: "nsum (put16 i v p) = nsum ?q + unat (ucast v :: u8)"
    using nsum_update [of "i + 1" ?q "ucast v"] assms unfolding put16_def by simp
  show ?thesis unfolding 1 2 using unat_halves16 [of v] by simp
qed

text \<open>Storing the complement of the sum in a zeroed field makes the sum of the whole vanish, and then every change
  of one byte shows.\<close>

lemma checksum_vanishes:
  assumes "even i" "i + 1 < length p" "p ! i = 0" "p ! (i + 1) = 0" and lim: "unat s + nsum p + 65535 < 4294967296"
  shows "NOT (ucast (fold16 (wsum (put16 i (NOT (ucast (fold16 (wsum p s)))) p) s)) :: u16) = 0"
proof -
  let ?t = "wsum p s" and ?c = "NOT (ucast (fold16 (wsum p s))) :: u16"
  let ?F = "unat (fold16 ?t)"
  have t: "unat ?t = unat s + nsum p" using lim by (intro unat_wsum) simp
  have F: "?F < 65536" "?F mod 65535 = unat ?t mod 65535" "fold16 ?t = 0 \<longleftrightarrow> ?t = 0" using fold16_facts [of ?t] by auto
  have u: "unat (wsum (put16 i ?c p) s) = unat ?t + (65535 - ?F)"
    using nsum_put16 [OF assms(1-4), of ?c] lim by (subst unat_wsum) (simp_all add: nat_checksum t)
  have "(unat ?t + (65535 - ?F)) mod 65535 = (?F + (65535 - ?F)) mod 65535" using F(2) by (metis mod_add_left_eq)
  also have "\<dots> = 0" using F(1) by simp
  finally have m: "(unat ?t + (65535 - ?F)) mod 65535 = 0" .
  moreover have "0 < unat ?t + (65535 - ?F)"
  proof (cases "?t = 0")
    case False
    then have "0 < unat ?t" by (simp add: unat_gt_0)
    then show ?thesis by simp
  qed (use F in simp)
  ultimately show ?thesis unfolding not_fold16_0_iff u by simp
qed

lemma mod_differ_small:
  fixes a b :: nat
  assumes "a mod 65535 = 0" "b mod 65535 = 0" "a + x = b + y" "x < 65535" "y < 65535"
  shows "x = y"
proof -
  obtain j k where "a = 65535 * j" "b = 65535 * k" using assms(1,2) by (auto simp: mod_eq_0_iff_dvd elim!: dvdE)
  then have "(65535 * j + x) mod 65535 = (65535 * k + y) mod 65535" using assms(3) by simp
  then show ?thesis using assms(4,5) by simp
qed

lemma checksum_notices:
  assumes i: "i < length p" and b: "b \<noteq> p ! i" and ok: "NOT (ucast (fold16 (wsum p s)) :: u16) = 0"
    and lim: "unat s + 32768 * (length p + 1) < 4294967296"
  shows "NOT (ucast (fold16 (wsum (p[i := b]) s)) :: u16) \<noteq> 0"
proof
  assume ok': "NOT (ucast (fold16 (wsum (p[i := b]) s)) :: u16) = 0"
  let ?w = "if even i then 256 else 1 :: nat"
  have u: "unat (wsum p s) = unat s + nsum p" using lim nsum_le [of p] by (intro unat_wsum) linarith
  have u': "unat (wsum (p[i := b]) s) = unat s + nsum (p[i := b])"
    using lim nsum_le [of "p[i := b]"] by (intro unat_wsum) simp
  have "?w * unat (p ! i) = ?w * unat b"
  proof (rule mod_differ_small)
    show "unat (wsum (p[i := b]) s) mod 65535 = 0" using ok' unfolding not_fold16_0_iff by blast
    show "unat (wsum p s) mod 65535 = 0" using ok unfolding not_fold16_0_iff by blast
    show "unat (wsum (p[i := b]) s) + ?w * unat (p ! i) = unat (wsum p s) + ?w * unat b"
      using nsum_update [OF i, of b] unfolding u u' by simp
  qed (use u8_less [of "p ! i"] u8_less [of b] in auto)
  then have "unat (p ! i) = unat b" by (simp split: if_splits)
  then show False using b by (simp add: word_unat_eq_iff)
qed

section \<open>Frames come back\<close>

lemma word16_bytes: "push_bit 8 (ucast (ucast (drop_bit 8 v) :: u8)) OR ucast (ucast v :: u8) = (v :: u16)"
  by (rule bit_word_eqI) (auto simp: bit_simps)

lemma word32_bytes: "push_bit 24 (ucast (ucast (drop_bit 24 v) :: u8)) OR push_bit 16 (ucast (ucast (drop_bit 16 v) :: u8))
    OR push_bit 8 (ucast (ucast (drop_bit 8 v) :: u8)) OR ucast (ucast v :: u8) = (v :: u32)"
proof (rule bit_word_eqI)
  fix n assume "n < LENGTH(32)"
  moreover have "n < 8 \<or> 8 \<le> n \<and> n < 16 \<or> 16 \<le> n \<and> n < 24 \<or> 24 \<le> n" by linarith
  ultimately show "bit (push_bit 24 (ucast (ucast (drop_bit 24 v) :: u8)) OR push_bit 16 (ucast (ucast (drop_bit 16 v) :: u8))
    OR push_bit 8 (ucast (ucast (drop_bit 8 v) :: u8)) OR ucast (ucast v :: u8) :: u32) n = bit v n"
    by (elim disjE) (auto simp: bit_simps)
qed

abbreviation quad :: "u8 list \<Rightarrow> bool" where "quad a \<equiv> length a = 4"

lemma quad_cases: "quad a \<Longrightarrow> (\<And>p q r s. a = [p, q, r, s] \<Longrightarrow> thesis) \<Longrightarrow> thesis"
  by (auto simp: numeral_eq_Suc length_Suc_conv)

lemma length_put16 [simp]: "length (put16 i v p) = length p"
  by (simp add: put16_def)

lemma unat_u16_of_nat: "n < 65536 \<Longrightarrow> unat (of_nat n :: u16) = n"
  by (simp add: unat_of_nat)

lemma ip_header_facts:
  assumes "quad s" "quad d"
  shows "length (ip_header s d n) = 20" "ip_header s d n ! 0 = 0x45" "ip_header s d n ! 9 = 6"
    "get16 (ip_header s d n) 2 = of_nat (40 + n)" "take 4 (drop 12 (ip_header s d n)) = s"
    "take 4 (drop 16 (ip_header s d n)) = d" "tcp_ip_cksum (ip_header s d n) = 0"
proof -
  obtain a b c e where s: "s = [a, b, c, e]" by (rule quad_cases [OF assms(1)])
  obtain p q r t where d: "d = [p, q, r, t]" by (rule quad_cases [OF assms(2)])
  let ?h = "[0x45, 0] @ be16 (of_nat (TCP_IPLEN + TCP_HDRLEN + n)) @ be16 0x1234 @ be16 0x4000 @ [64, 6] @ be16 0 @ s @ d"
  have l: "length ?h = 20" by (simp add: be16_def s d)
  have e: "ip_header s d n = put16 10 (tcp_ip_cksum ?h) ?h" by (simp add: ip_header_def Let_def)
  show "length (ip_header s d n) = 20" "ip_header s d n ! 0 = 0x45" "ip_header s d n ! 9 = 6"
    "take 4 (drop 12 (ip_header s d n)) = s" "take 4 (drop 16 (ip_header s d n)) = d"
    unfolding e by (simp_all add: put16_def be16_def s d)
  show "get16 (ip_header s d n) 2 = of_nat (40 + n)"
    unfolding e by (simp add: put16_def be16_def s d get16_def word16_bytes)
  have z: "?h ! 10 = 0" "?h ! (10 + 1) = 0" by (simp_all add: be16_def)
  have "NOT (ucast (fold16 (wsum (put16 10 (NOT (ucast (fold16 (wsum ?h 0)))) ?h) 0)) :: u16) = 0"
    using z l nsum_le [of ?h] by (intro checksum_vanishes) simp_all
  then show "tcp_ip_cksum (ip_header s d n) = 0"
    unfolding e tcp_ip_cksum_def using l by simp
qed

lemma pair16_less: "unat (pair16 a b) < 65536"
  using u8_less [of a] u8_less [of b] by (simp add: unat_pair16)

lemma unat_ucast_u16: "unat (ucast (v :: u16) :: u32) = unat v"
  by (simp add: unsigned_ucast_eq take_bit_nat_eq_self less_trans [OF u16_less])

lemma unat_sum_bound: "unat x \<le> m \<Longrightarrow> unat y \<le> n \<Longrightarrow> m + n < 4294967296 \<Longrightarrow> unat (x + y :: u32) \<le> m + n"
  by (subst unat_word_ariths) simp

lemma pseudo_sum_bound: "unat (pseudo_sum s d n) \<le> 65536 + 65536 + 65536 + 65536 + 6 + 65536"
  unfolding pseudo_sum_def
  by (intro unat_sum_bound less_imp_le [OF pair16_less]) (simp_all add: unat_ucast_u16 less_imp_le [OF u16_less])

lemma checksum_room:
  assumes "unat (s :: u32) \<le> 65536 + 65536 + 65536 + 65536 + 6 + 65536" "length p \<le> 65515"
  shows "unat s + nsum p + 65535 < 4294967296" "unat s + 32768 * (length p + 1) < 4294967296"
proof -
  have "nsum p \<le> 32768 * 65516" using nsum_le [of p] assms(2) by simp
  then show "unat s + nsum p + 65535 < 4294967296" using assms(1) by simp
  show "unat s + 32768 * (length p + 1) < 4294967296" using assms by simp
qed

lemma tcp_segment_facts:
  fixes g defines "T \<equiv> tcp_segment g"
  assumes n: "length (sg_data g) \<le> 65495"
  shows "length T = 20 + length (sg_data g)" "T ! 12 = 0x50" "T ! 13 = sg_flags g"
    "get16 T 0 = sg_sport g" "get16 T 2 = sg_dport g" "get32 T 4 = sg_seq g" "get32 T 8 = sg_ack g"
    "get16 T 14 = sg_wnd g" "drop 20 T = sg_data g" "tcp_cksum (sg_src g) (sg_dst g) T = 0"
proof -
  let ?h = "be16 (sg_sport g) @ be16 (sg_dport g) @ be32 (sg_seq g) @ be32 (sg_ack g) @ [0x50, sg_flags g]
                @ be16 (sg_wnd g) @ be16 0 @ be16 0 @ sg_data g"
  let ?ps = "pseudo_sum (sg_src g) (sg_dst g)"
  have l: "length ?h = 20 + length (sg_data g)" by (simp add: be16_def be32_def)
  have e: "T = put16 16 (tcp_cksum (sg_src g) (sg_dst g) ?h) ?h" unfolding T_def by (simp add: tcp_segment_def Let_def)
  show "length T = 20 + length (sg_data g)" unfolding e using l by simp
  show "T ! 12 = 0x50" "T ! 13 = sg_flags g" "drop 20 T = sg_data g"
    unfolding e by (simp_all add: put16_def be16_def be32_def)
  show "get16 T 0 = sg_sport g" "get16 T 2 = sg_dport g" "get32 T 4 = sg_seq g" "get32 T 8 = sg_ack g"
    "get16 T 14 = sg_wnd g"
    unfolding e by (simp_all add: put16_def be16_def be32_def get16_def get32_def word16_bytes word32_bytes)
  have z: "?h ! 16 = 0" "?h ! (16 + 1) = 0" by (simp_all add: be16_def be32_def)
  have "NOT (ucast (fold16 (wsum (put16 16 (NOT (ucast (fold16 (wsum ?h (?ps (length ?h)))))) ?h) (?ps (length ?h)))) :: u16) = 0"
  proof (rule checksum_vanishes [OF _ _ z])
    show "unat (?ps (length ?h)) + nsum ?h + 65535 < 4294967296"
      by (rule checksum_room(1) [OF pseudo_sum_bound]) (unfold l, use n in simp)
  qed (use l in simp_all)
  then show "tcp_cksum (sg_src g) (sg_dst g) T = 0" unfolding e tcp_cksum_def by simp
qed

lemma eth_header_facts: "length eth_header = 14" "eth_header ! 12 = 8" "eth_header ! 13 = 0"
  by (simp_all add: eth_header_def remote_mac_def local_mac_def be16_def)

lemma frame_build_eq: "frame_build limit g = Some f \<longleftrightarrow> 54 + length (sg_data g) \<le> limit \<and>
    f = eth_header @ ip_header (sg_src g) (sg_dst g) (length (sg_data g)) @ tcp_segment g"
  by (auto simp: frame_build_def)

lemma parse_build:
  assumes q: "quad (sg_src g)" "quad (sg_dst g)" and n: "length (sg_data g) \<le> 65495"
    and f: "frame_build limit g = Some f"
  shows "frame_parse f = Some g"
proof -
  let ?I = "ip_header (sg_src g) (sg_dst g) (length (sg_data g))" and ?T = "tcp_segment g"
  note I = ip_header_facts [OF q, of "length (sg_data g)"] and T = tcp_segment_facts [OF n]
  have fe: "f = eth_header @ ?I @ ?T" using f unfolding frame_build_eq by simp
  have d: "drop TCP_ETHLEN f = ?I @ ?T" "drop TCP_IPLEN (?I @ ?T) = ?T" unfolding fe using eth_header_facts I(1) by simp_all
  have h: "f ! 12 = 8" "f ! 13 = 0" unfolding fe using eth_header_facts by (simp_all add: nth_append)
  have a: "(?I @ ?T) ! 0 = 0x45" "(?I @ ?T) ! 9 = 6" "get16 (?I @ ?T) 2 = of_nat (40 + length (sg_data g))"
    "take 4 (drop 12 (?I @ ?T)) = sg_src g" "take 4 (drop 16 (?I @ ?T)) = sg_dst g" "tcp_ip_cksum (?I @ ?T) = 0"
    using I q by (simp_all add: nth_append get16_def tcp_ip_cksum_def)
  have u: "unat (of_nat (40 + length (sg_data g)) :: u16) = 40 + length (sg_data g)" using n by (intro unat_u16_of_nat) simp
  have lf: "length f = 54 + length (sg_data g)" unfolding fe using eth_header_facts I(1) T(1) by simp
  have m: "drop_bit 4 (0x45 :: u8) = 4" "(0x45 :: u8) AND 0x0F = 5" "drop_bit 4 (0x50 :: u8) = 5" by code_simp+
  show ?thesis
    unfolding frame_parse_def Let_def d h a u lf using m T by (simp add: segment.defs)
qed

text \<open>C32.  A frame built for a segment with 4-byte addresses and at most 65495 bytes of payload is taken apart into
  the same segment: addresses, ports, sequence and acknowledgement numbers, flags, window and payload all come back,
  and both checksums verify.\<close>

theorem tcp_frame_roundtrip:
  "quad (sg_src g) \<Longrightarrow> quad (sg_dst g) \<Longrightarrow> length (sg_data g) \<le> 65495 \<Longrightarrow> frame_build limit g = Some f \<Longrightarrow>
    frame_parse f = Some g"
  by (rule parse_build)

definition demo_segment :: segment where
  "demo_segment = \<lparr>sg_src = [10, 0, 2, 2], sg_dst = [10, 0, 2, 15], sg_sport = 80, sg_dport = 40000, sg_seq = 5001,
     sg_ack = 1001, sg_flags = 0x18, sg_wnd = 1024, sg_data = [104, 105, 33]\<rparr>"

lemma tcp_frame_roundtrip_witness:
  "\<exists>f. frame_build 566 demo_segment = Some f \<and> length f = 57 \<and> frame_parse f = Some demo_segment"
proof -
  obtain f where f: "frame_build 566 demo_segment = Some f" by (simp add: frame_build_def demo_segment_def)
  then have "length f = 57"
    unfolding frame_build_eq by (simp add: demo_segment_def eth_header_facts ip_header_facts tcp_segment_facts)
  moreover have "frame_parse f = Some demo_segment"
    by (rule tcp_frame_roundtrip [OF _ _ _ f]) (simp_all add: demo_segment_def)
  ultimately show ?thesis using f by blast
qed

definition datagram_length :: "u8 list \<Rightarrow> nat" where
  "datagram_length f = unat (get16 (drop TCP_ETHLEN f) 2)"

lemma frame_parse_SomeD:
  assumes "frame_parse f = Some g"
  defines "ip \<equiv> drop TCP_ETHLEN f" and "n \<equiv> datagram_length f"
  shows "40 \<le> n" "14 + n \<le> length f" "tcp_ip_cksum ip = 0"
    "tcp_cksum (take 4 (drop 12 ip)) (take 4 (drop 16 ip)) (take (n - 20) (drop 20 ip)) = 0"
    "sg_data g = take (n - 40) (drop 40 ip)" "sg_seq g = get32 (drop 20 ip) 4" "sg_dst g = take 4 (drop 16 ip)"
  using assms unfolding frame_parse_def Let_def datagram_length_def by (auto split: if_splits simp: diff_diff_left)

text \<open>C33.  One damaged byte is noticed: when a frame is accepted, the frame with any single byte of its IP datagram
  (header, TCP header or payload) replaced by another value is refused.\<close>

theorem damaged_frame_refused:
  assumes f: "frame_parse f = Some g" and i: "14 \<le> i" "i < 14 + datagram_length f" and b: "b \<noteq> f ! i"
  shows "frame_parse (f[i := b]) = None"
proof (cases "frame_parse (f[i := b])")
  case (Some h)
  note P = frame_parse_SomeD [OF f] and Q = frame_parse_SomeD [OF Some]
  let ?ip = "drop 14 f" and ?n = "datagram_length f"
  have ip: "drop 14 (f[i := b]) = ?ip[i - 14 := b]" using i(1) by (simp add: drop_update_swap)
  have l: "length ?ip \<ge> ?n" "i - 14 < length ?ip" using P(2) i by simp_all
  have bi: "b \<noteq> ?ip ! (i - 14)" using b i P(2) by (simp add: nth_drop)
  show ?thesis
  proof (cases "i < 34")
    case True
    let ?p = "take 20 ?ip"
    have "take 20 (?ip[i - 14 := b]) = ?p[i - 14 := b]" by (simp add: take_update_swap)
    then have q: "NOT (ucast (fold16 (wsum (?p[i - 14 := b]) 0)) :: u16) = 0" using Q(3) unfolding tcp_ip_cksum_def ip by simp
    have lp: "length ?p = 20" using l(1) P(1) by simp
    have "NOT (ucast (fold16 (wsum (?p[i - 14 := b]) 0)) :: u16) \<noteq> 0"
    proof (rule checksum_notices)
      show "NOT (ucast (fold16 (wsum ?p 0)) :: u16) = 0" using P(3) unfolding tcp_ip_cksum_def by simp
      show "i - 14 < length ?p" "b \<noteq> ?p ! (i - 14)" using bi True i(1) unfolding lp by simp_all
      show "unat (0 :: u32) + 32768 * (length ?p + 1) < 4294967296" unfolding lp by simp
    qed
    then show ?thesis using q by simp
  next
    case False
    let ?s = "take 4 (drop 12 ?ip)" and ?d = "take 4 (drop 16 ?ip)" and ?p = "take (?n - 20) (drop 20 ?ip)"
    have same: "take 4 (drop 12 (?ip[i - 14 := b])) = ?s" "take 4 (drop 16 (?ip[i - 14 := b])) = ?d"
      using False by (simp_all add: take_drop)
    have n: "datagram_length (f[i := b]) = ?n" using False unfolding datagram_length_def ip get16_def by simp
    have e: "take (?n - 20) (drop 20 (?ip[i - 14 := b])) = ?p[i - 34 := b]"
      using False by (simp add: drop_update_swap take_update_swap)
    have q: "tcp_cksum ?s ?d (?p[i - 34 := b]) = 0" using Q(4) unfolding ip n same e .
    have lp: "length ?p = ?n - 20" using l(1) by simp
    have room: "?n < 65536" using u16_less unfolding datagram_length_def .
    have "NOT (ucast (fold16 (wsum (?p[i - 34 := b]) (pseudo_sum ?s ?d (length ?p)))) :: u16) \<noteq> 0"
    proof (rule checksum_notices)
      show "NOT (ucast (fold16 (wsum ?p (pseudo_sum ?s ?d (length ?p)))) :: u16) = 0"
        using P(4) unfolding tcp_cksum_def .
      show "i - 34 < length ?p" unfolding lp using False i P(1) by linarith
      then show "b \<noteq> ?p ! (i - 34)" using bi False l by (simp add: nth_drop)
      show "unat (pseudo_sum ?s ?d (length ?p)) + 32768 * (length ?p + 1) < 4294967296"
        by (rule checksum_room(2) [OF pseudo_sum_bound]) (use room lp in simp)
    qed
    then show ?thesis using q unfolding tcp_cksum_def length_list_update by simp
  qed
qed simp

lemma damaged_frame_refused_witness:
  "\<exists>f. frame_parse f = Some demo_segment \<and> f ! 54 = 104 \<and> frame_parse (f[54 := 105]) = None"
proof -
  obtain f where f: "frame_build 566 demo_segment = Some f" by (simp add: frame_build_def demo_segment_def)
  have p: "frame_parse f = Some demo_segment" by (rule parse_build [OF _ _ _ f]) (simp_all add: demo_segment_def)
  have "length f = 57"
    using f unfolding frame_build_eq by (simp add: demo_segment_def eth_header_facts ip_header_facts tcp_segment_facts)
  have data: "take (datagram_length f - 40) (drop 54 f) = [104, 105, 33]"
    using frame_parse_SomeD(5) [OF p] by (simp add: demo_segment_def)
  have "length (take (datagram_length f - 40) (drop 54 f)) = 3" unfolding data by simp
  then have n: "datagram_length f = 43" using frame_parse_SomeD(2) [OF p] \<open>length f = 57\<close> by simp
  have "take (datagram_length f - 40) (drop 54 f) ! 0 = 104" unfolding data by simp
  then have h: "f ! 54 = 104" using n \<open>length f = 57\<close> by simp
  have "frame_parse (f[54 := 105]) = None" by (rule damaged_frame_refused [OF p]) (simp_all add: n h)
  then show ?thesis using p h by blast
qed

end
