(* ===== verification/Tcp.thy ===== *)
theory Tcp
  imports Inet
begin

text \<open>
  The TCP of \<open>net/tcp.c\<close>: four protocol control blocks, a log of the segments sent, the handshake, data, windows,
  fast retransmission and the retransmission timer.  Buffers are functions from an index to a byte with their length
  beside them.  \<open>wire\<close> collects the frames handed to \<open>net_send_packet\<close>, in order; \<open>ticks\<close> is the timer's count, which
  does not move while an operation runs.  An operation that returns \<open>-1\<close> does so as an \<open>int\<close>, as in the code.
\<close>

section \<open>State\<close>

datatype tcp_state = TCP_CLOSED | TCP_SYN_SENT | TCP_ESTABLISHED | TCP_CLOSE_WAIT

abbreviation TCP_FIN :: u8 where "TCP_FIN \<equiv> 0x01"
abbreviation TCP_SYN :: u8 where "TCP_SYN \<equiv> 0x02"
abbreviation TCP_RST :: u8 where "TCP_RST \<equiv> 0x04"
abbreviation TCP_PSH :: u8 where "TCP_PSH \<equiv> 0x08"
abbreviation TCP_ACK :: u8 where "TCP_ACK \<equiv> 0x10"

abbreviation TCP_MAXPCB :: nat where "TCP_MAXPCB \<equiv> 4"
abbreviation TCP_RBUF :: nat where "TCP_RBUF \<equiv> 1024"
abbreviation TCP_TXLOG :: nat where "TCP_TXLOG \<equiv> 16"
abbreviation TCP_MAXRETX :: nat where "TCP_MAXRETX \<equiv> 5"
text \<open>\<open>sizeof(frame)\<close>: the three headers and \<open>TCP_MSS\<close>.\<close>

abbreviation TCP_FRAME :: nat where "TCP_FRAME \<equiv> 566"

record tcp_pcb =
  pc_used :: bool
  pc_state :: tcp_state
  pc_lip :: "u8 list"
  pc_rip :: "u8 list"
  pc_lport :: u16
  pc_rport :: u16
  pc_snd_nxt :: u32
  pc_snd_una :: u32
  pc_rcv_nxt :: u32
  pc_rcv_wnd :: u16
  pc_peer_wnd :: u16
  pc_rex_buf :: "nat \<Rightarrow> u8"
  pc_rex_len :: u16
  pc_rex_seq :: u32
  pc_rex_flags :: u8
  pc_rex_deadline :: u32
  pc_rex_count :: u8
  pc_rex_active :: bool
  pc_dupacks :: int
  pc_rbuf :: "nat \<Rightarrow> u8"
  pc_rlen :: nat

record txe =
  tx_seq :: u32
  tx_ack :: u32
  tx_flags :: u8
  tx_data :: "u8 list"

record tcp =
  tc_pcbs :: "nat \<Rightarrow> tcp_pcb"
  tc_txlog :: "txe list"
  tc_on :: bool
  tc_next_port :: u16
  tc_rto :: u32
  tc_def_wnd :: u16
  ticks :: u32
  wire :: "u8 list list"

definition zero_pcb :: tcp_pcb where
  "zero_pcb = \<lparr>pc_used = False, pc_state = TCP_CLOSED, pc_lip = [0, 0, 0, 0], pc_rip = [0, 0, 0, 0], pc_lport = 0,
     pc_rport = 0, pc_snd_nxt = 0, pc_snd_una = 0, pc_rcv_nxt = 0, pc_rcv_wnd = 0, pc_peer_wnd = 0,
     pc_rex_buf = (\<lambda>_. 0), pc_rex_len = 0, pc_rex_seq = 0, pc_rex_flags = 0, pc_rex_deadline = 0, pc_rex_count = 0,
     pc_rex_active = False, pc_dupacks = 0, pc_rbuf = (\<lambda>_. 0), pc_rlen = 0\<rparr>"

definition tcp_local_ip :: "u8 list" where "tcp_local_ip = [10, 0, 2, 15]"

text \<open>\<open>for (i = 0; i < n; i++) buf[at + i] = data[i];\<close>\<close>

definition fill :: "nat \<Rightarrow> u8 list \<Rightarrow> (nat \<Rightarrow> u8) \<Rightarrow> nat \<Rightarrow> u8" where
  "fill at bs buf = (\<lambda>j. if at \<le> j \<and> j < at + length bs then bs ! (j - at) else buf j)"

definition on_pcb :: "nat \<Rightarrow> (tcp_pcb \<Rightarrow> tcp_pcb) \<Rightarrow> tcp \<Rightarrow> tcp" where
  "on_pcb i h s = s\<lparr>tc_pcbs := (tc_pcbs s)(i := h (tc_pcbs s i))\<rparr>"

definition tcp_init :: "tcp \<Rightarrow> tcp" where
  "tcp_init s = s\<lparr>tc_pcbs := (\<lambda>_. zero_pcb), tc_txlog := [], tc_on := True\<rparr>"

definition pcb_get :: "int \<Rightarrow> tcp \<Rightarrow> nat option" where
  "pcb_get cid s = (if cid < 0 \<or> int TCP_MAXPCB \<le> cid \<or> \<not> pc_used (tc_pcbs s (nat cid)) then None else Some (nat cid))"

definition pcb_lookup :: "u16 \<Rightarrow> u16 \<Rightarrow> tcp \<Rightarrow> nat option" where
  "pcb_lookup dport sport s =
     first_from (\<lambda>i. pc_used (tc_pcbs s i) \<and> pc_lport (tc_pcbs s i) = dport \<and> pc_rport (tc_pcbs s i) = sport)
       0 TCP_MAXPCB"

section \<open>Sending\<close>

definition tx_log :: "u32 \<Rightarrow> u32 \<Rightarrow> u8 \<Rightarrow> u8 list \<Rightarrow> tcp \<Rightarrow> tcp" where
  "tx_log sq ak fl d s =
     (if TCP_TXLOG \<le> length (tc_txlog s) then s
      else s\<lparr>tc_txlog := tc_txlog s @ [\<lparr>tx_seq = sq, tx_ack = ak, tx_flags = fl, tx_data = take 64 d\<rparr>]\<rparr>)"

definition net_send :: "u8 list \<Rightarrow> tcp \<Rightarrow> tcp" where
  "net_send f s = s\<lparr>wire := wire s @ [f]\<rparr>"

definition seg_of :: "tcp_pcb \<Rightarrow> u32 \<Rightarrow> u8 \<Rightarrow> u8 list \<Rightarrow> segment" where
  "seg_of p sq fl d = \<lparr>sg_src = pc_lip p, sg_dst = pc_rip p, sg_sport = pc_lport p, sg_dport = pc_rport p,
     sg_seq = sq, sg_ack = (if fl AND TCP_ACK \<noteq> 0 then pc_rcv_nxt p else 0), sg_flags = fl, sg_wnd = pc_rcv_wnd p,
     sg_data = d\<rparr>"

definition arm_rex :: "u32 \<Rightarrow> u8 \<Rightarrow> u8 list \<Rightarrow> u32 \<Rightarrow> tcp_pcb \<Rightarrow> tcp_pcb" where
  "arm_rex sq fl d deadline p =
     (let c = take TCP_MSS d in
      p\<lparr>pc_rex_buf := fill 0 c (pc_rex_buf p), pc_rex_len := of_nat (length c), pc_rex_seq := sq, pc_rex_flags := fl,
        pc_rex_deadline := deadline, pc_rex_count := 0, pc_rex_active := True, pc_dupacks := 0\<rparr>)"

definition tcp_send_seg_at :: "nat \<Rightarrow> u32 \<Rightarrow> u8 \<Rightarrow> u8 list \<Rightarrow> bool \<Rightarrow> tcp \<Rightarrow> tcp" where
  "tcp_send_seg_at i sq fl d arm s =
     (let g = seg_of (tc_pcbs s i) sq fl d in
      case frame_build TCP_FRAME g of
        None \<Rightarrow> s
      | Some f \<Rightarrow>
          let s1 = net_send f (tx_log sq (sg_ack g) fl d s) in
          if arm \<and> (d \<noteq> [] \<or> fl AND (TCP_SYN OR TCP_FIN) \<noteq> 0) then on_pcb i (arm_rex sq fl d (ticks s1 + tc_rto s1)) s1
          else s1)"

definition tcp_send_seg :: "nat \<Rightarrow> u8 \<Rightarrow> u8 list \<Rightarrow> tcp \<Rightarrow> tcp" where
  "tcp_send_seg i fl d s = tcp_send_seg_at i (pc_snd_nxt (tc_pcbs s i)) fl d True s"

definition rex_data :: "tcp_pcb \<Rightarrow> u8 list" where
  "rex_data p = map (pc_rex_buf p) [0..<unat (pc_rex_len p)]"

definition tcp_resend :: "nat \<Rightarrow> tcp \<Rightarrow> tcp" where
  "tcp_resend i s =
     (let p = tc_pcbs s i; s1 = tcp_send_seg_at i (pc_rex_seq p) (pc_rex_flags p) (rex_data p) True s in
      on_pcb i (\<lambda>q. q\<lparr>pc_rex_deadline := ticks s1 + tc_rto s1, pc_rex_count := pc_rex_count q + 1, pc_dupacks := 0\<rparr>) s1)"

definition ip_bytes :: "u32 \<Rightarrow> u8 list" where
  "ip_bytes ip = map (\<lambda>i. ucast (drop_bit (24 - 8 * i) ip AND 0xFF)) [0..<4]"

definition bump_port :: "tcp \<Rightarrow> tcp" where
  "bump_port s = (let n = tc_next_port s + 1 in s\<lparr>tc_next_port := (if n < 40000 then 40000 else n)\<rparr>)"

definition tcp_connect :: "u32 \<Rightarrow> u16 \<Rightarrow> tcp \<Rightarrow> int \<times> tcp" where
  "tcp_connect rip rport s0 =
     (let s = (if tc_on s0 then s0 else tcp_init s0) in
      case first_from (\<lambda>i. \<not> pc_used (tc_pcbs s i)) 0 TCP_MAXPCB of
        None \<Rightarrow> (-1, s)
      | Some i \<Rightarrow>
          let iss = ticks s + of_nat i * 0x10000 + 1000;
              s1 = on_pcb i (\<lambda>_. zero_pcb\<lparr>pc_used := True, pc_state := TCP_SYN_SENT, pc_lip := tcp_local_ip,
                     pc_rip := ip_bytes rip, pc_lport := tc_next_port s, pc_rport := rport, pc_snd_nxt := iss,
                     pc_snd_una := iss, pc_rcv_nxt := 0, pc_rcv_wnd := tc_def_wnd s, pc_peer_wnd := 65535\<rparr>)
                   (bump_port s);
              s2 = tcp_send_seg i TCP_SYN [] s1
          in (int i, on_pcb i (\<lambda>p. p\<lparr>pc_snd_nxt := iss + 1\<rparr>) s2))"

definition tcp_send_data :: "int \<Rightarrow> (nat \<Rightarrow> u8) option \<Rightarrow> int \<Rightarrow> tcp \<Rightarrow> int \<times> tcp" where
  "tcp_send_data cid data len s =
     (case pcb_get cid s of
        None \<Rightarrow> (-1, s)
      | Some i \<Rightarrow>
          let p = tc_pcbs s i in
          if pc_state p \<noteq> TCP_ESTABLISHED then (-1, s)
          else case data of
              None \<Rightarrow> (-1, s)
            | Some d \<Rightarrow>
                if len \<le> 0 then (-1, s)
                else let l1 = min len (int TCP_MSS); l2 = min l1 (int (unat (pc_peer_wnd p))) in
                  if l2 \<le> 0 then (0, s)
                  else let s1 = tcp_send_seg i (TCP_ACK OR TCP_PSH) (map d [0..<nat l2]) s in
                    (l2, on_pcb i (\<lambda>q. q\<lparr>pc_snd_nxt := pc_snd_nxt q + of_int l2\<rparr>) s1))"

section \<open>Receiving\<close>

text \<open>The data of a segment is taken when it starts at \<open>rcv_nxt\<close> and fits the window, as much as the buffer holds.\<close>

definition take_data :: "u32 \<Rightarrow> u8 list \<Rightarrow> tcp_pcb \<Rightarrow> tcp_pcb" where
  "take_data sq d p =
     (if sq = pc_rcv_nxt p \<and> length d \<le> unat (pc_rcv_wnd p) then
        let cpy = min (length d) (TCP_RBUF - pc_rlen p) in
        p\<lparr>pc_rbuf := fill (pc_rlen p) (take cpy d) (pc_rbuf p), pc_rlen := pc_rlen p + cpy,
          pc_rcv_nxt := pc_rcv_nxt p + of_nat cpy\<rparr>
      else p)"

definition take_ack :: "nat \<Rightarrow> u32 \<Rightarrow> bool \<Rightarrow> tcp \<Rightarrow> tcp" where
  "take_ack i ak pure s =
     (let p = tc_pcbs s i in
      if pc_snd_una p < ak \<and> ak \<le> pc_snd_nxt p then
        on_pcb i (\<lambda>q. q\<lparr>pc_snd_una := ak, pc_dupacks := 0, pc_rex_active := pc_rex_active q \<and> ak \<noteq> pc_snd_nxt q\<rparr>) s
      else if ak = pc_snd_una p \<and> pc_rex_active p \<and> pure then
        let s1 = on_pcb i (\<lambda>q. q\<lparr>pc_dupacks := pc_dupacks q + 1\<rparr>) s in
        if pc_dupacks p + 1 \<ge> 3 then tcp_resend i s1 else s1
      else s)"

definition pcb_input :: "nat \<Rightarrow> segment \<Rightarrow> tcp \<Rightarrow> int \<times> tcp" where
  "pcb_input i g s0 =
     (let s = on_pcb i (\<lambda>p. p\<lparr>pc_peer_wnd := sg_wnd g\<rparr>) s0; p = tc_pcbs s i; fl = sg_flags g in
      if fl AND TCP_RST \<noteq> 0 then (0, on_pcb i (\<lambda>q. q\<lparr>pc_state := TCP_CLOSED, pc_rex_active := False\<rparr>) s)
      else if pc_state p = TCP_SYN_SENT then
        if fl AND (TCP_SYN OR TCP_ACK) = TCP_SYN OR TCP_ACK \<and> sg_ack g = pc_snd_nxt p then
          (0, tcp_send_seg i TCP_ACK []
                (on_pcb i (\<lambda>q. q\<lparr>pc_rcv_nxt := sg_seq g + 1, pc_snd_una := sg_ack g, pc_state := TCP_ESTABLISHED,
                   pc_rex_active := False, pc_dupacks := 0\<rparr>) s))
        else (-1, s)
      else if pc_state p \<noteq> TCP_ESTABLISHED \<and> pc_state p \<noteq> TCP_CLOSE_WAIT then (-1, s)
      else
        let s1 = (if sg_data g \<noteq> [] then tcp_send_seg i TCP_ACK [] (on_pcb i (take_data (sg_seq g) (sg_data g)) s)
                  else s);
            s2 = (if fl AND TCP_FIN \<noteq> 0 \<and> sg_seq g = pc_rcv_nxt (tc_pcbs s1 i) then
                    tcp_send_seg i TCP_ACK []
                      (on_pcb i (\<lambda>q. q\<lparr>pc_rcv_nxt := pc_rcv_nxt q + 1, pc_state := TCP_CLOSE_WAIT\<rparr>) s1)
                  else s1);
            s3 = (if fl AND TCP_ACK \<noteq> 0 then take_ack i (sg_ack g) (sg_data g = []) s2 else s2)
        in (0, s3))"

definition tcp_input :: "u8 list \<Rightarrow> tcp \<Rightarrow> int \<times> tcp" where
  "tcp_input f s =
     (case frame_parse f of
        None \<Rightarrow> (-1, s)
      | Some g \<Rightarrow>
          if sg_dst g \<noteq> tcp_local_ip then (-1, s)
          else case pcb_lookup (sg_dport g) (sg_sport g) s of
              None \<Rightarrow> (-1, s)
            | Some i \<Rightarrow> pcb_input i g s)"

section \<open>The timer\<close>

text \<open>\<open>(int32_t)(now - deadline) < 0\<close>\<close>

definition tick_pcb :: "nat \<Rightarrow> tcp \<Rightarrow> tcp" where
  "tick_pcb i s =
     (let p = tc_pcbs s i; now = ticks s in
      if \<not> pc_used p \<or> \<not> pc_rex_active p then s
      else if now - pc_rex_deadline p \<ge> 0x80000000 then s
      else if unat (pc_rex_count p) \<ge> TCP_MAXRETX then
        on_pcb i (\<lambda>q. q\<lparr>pc_state := TCP_CLOSED, pc_rex_active := False\<rparr>) s
      else let s1 = tcp_resend i s in on_pcb i (\<lambda>q. q\<lparr>pc_rex_deadline := now + tc_rto s1\<rparr>) s1)"

definition tcp_tick :: "tcp \<Rightarrow> tcp" where
  "tcp_tick s = (if \<not> tc_on s then s else fold tick_pcb [0..<TCP_MAXPCB] s)"

section \<open>Settings and queries\<close>

definition tcp_set_rto :: "u32 \<Rightarrow> tcp \<Rightarrow> tcp" where
  "tcp_set_rto t s = s\<lparr>tc_rto := (if t \<noteq> 0 then t else 1)\<rparr>"

definition tcp_set_rwnd :: "int \<Rightarrow> u16 \<Rightarrow> tcp \<Rightarrow> tcp" where
  "tcp_set_rwnd cid w s = (case pcb_get cid s of None \<Rightarrow> s | Some i \<Rightarrow> on_pcb i (\<lambda>p. p\<lparr>pc_rcv_wnd := w\<rparr>) s)"

definition tcp_rlen :: "int \<Rightarrow> tcp \<Rightarrow> int" where
  "tcp_rlen cid s = (case pcb_get cid s of None \<Rightarrow> -1 | Some i \<Rightarrow> int (pc_rlen (tc_pcbs s i)))"

definition tcp_rbuf_get :: "int \<Rightarrow> int \<Rightarrow> tcp \<Rightarrow> u8 list option" where
  "tcp_rbuf_get cid mx s =
     (case pcb_get cid s of
        None \<Rightarrow> None
      | Some i \<Rightarrow> if mx \<le> 0 then None
                 else Some (map (pc_rbuf (tc_pcbs s i)) [0..<nat (min (int (pc_rlen (tc_pcbs s i))) mx)]))"

definition tcp_inject :: "int \<Rightarrow> u8 \<Rightarrow> u32 \<Rightarrow> u32 \<Rightarrow> u8 list \<Rightarrow> tcp \<Rightarrow> int \<times> tcp" where
  "tcp_inject cid fl sq ak d s =
     (case pcb_get cid s of
        None \<Rightarrow> (-1, s)
      | Some i \<Rightarrow>
          let p = tc_pcbs s i in
          case frame_build TCP_FRAME \<lparr>sg_src = pc_rip p, sg_dst = pc_lip p, sg_sport = pc_rport p,
                 sg_dport = pc_lport p, sg_seq = sq, sg_ack = ak, sg_flags = fl, sg_wnd = 1024, sg_data = d\<rparr> of
            None \<Rightarrow> (-1, s)
          | Some f \<Rightarrow> tcp_input f s)"

definition tcp_craft :: "nat \<Rightarrow> u8 \<Rightarrow> u32 \<Rightarrow> u32 \<Rightarrow> u8 list \<Rightarrow> tcp \<Rightarrow> u8 list option" where
  "tcp_craft limit fl sq ak d s =
     (case first_from (\<lambda>i. pc_used (tc_pcbs s i)) 0 TCP_MAXPCB of
        None \<Rightarrow> None
      | Some i \<Rightarrow>
          let p = tc_pcbs s i in
          frame_build limit \<lparr>sg_src = pc_rip p, sg_dst = pc_lip p, sg_sport = pc_rport p, sg_dport = pc_lport p,
            sg_seq = sq, sg_ack = ak, sg_flags = fl, sg_wnd = 1024, sg_data = d\<rparr>)"

definition tcp_tx_get :: "int \<Rightarrow> tcp \<Rightarrow> (u32 \<times> u32 \<times> u8 \<times> nat) option" where
  "tcp_tx_get i s =
     (if i < 0 \<or> i \<ge> int (length (tc_txlog s)) then None
      else let e = tc_txlog s ! nat i in Some (tx_seq e, tx_ack e, tx_flags e, length (tx_data e)))"

definition tcp_tx_data :: "int \<Rightarrow> int \<Rightarrow> tcp \<Rightarrow> u8 list option" where
  "tcp_tx_data i mx s =
     (if i < 0 \<or> i \<ge> int (length (tc_txlog s)) \<or> mx \<le> 0 then None else Some (take (nat mx) (tx_data (tc_txlog s ! nat i))))"

end
