(* ===== verification/Tcp_Inv.thy ===== *)
theory Tcp_Inv
  imports Tcp
begin

text \<open>
  What the TCP of \<open>Tcp\<close> keeps and delivers: the well-formedness of its control blocks, the stream a connection hands
  to its reader under any arrival order, and the retransmission slot.
\<close>

section \<open>What an operation leaves alone\<close>

text \<open>The side of a control block that sending does not touch: everything but the retransmission slot.\<close>

definition tcp_view :: "tcp_pcb \<Rightarrow> tcp_pcb" where
  "tcp_view p = p\<lparr>pc_rex_buf := (\<lambda>_. 0), pc_rex_len := 0, pc_rex_seq := 0, pc_rex_flags := 0, pc_rex_deadline := 0,
     pc_rex_count := 0, pc_rex_active := False, pc_dupacks := 0\<rparr>"

lemma tcp_view_fields:
  assumes "tcp_view p = tcp_view q"
  shows "pc_used p = pc_used q" "pc_state p = pc_state q" "pc_lip p = pc_lip q" "pc_rip p = pc_rip q"
    "pc_lport p = pc_lport q" "pc_rport p = pc_rport q" "pc_snd_nxt p = pc_snd_nxt q" "pc_snd_una p = pc_snd_una q"
    "pc_rcv_nxt p = pc_rcv_nxt q" "pc_rcv_wnd p = pc_rcv_wnd q" "pc_peer_wnd p = pc_peer_wnd q"
    "pc_rbuf p = pc_rbuf q" "pc_rlen p = pc_rlen q"
  using arg_cong [OF assms, of pc_used] arg_cong [OF assms, of pc_state] arg_cong [OF assms, of pc_lip]
    arg_cong [OF assms, of pc_rip] arg_cong [OF assms, of pc_lport] arg_cong [OF assms, of pc_rport]
    arg_cong [OF assms, of pc_snd_nxt] arg_cong [OF assms, of pc_snd_una] arg_cong [OF assms, of pc_rcv_nxt]
    arg_cong [OF assms, of pc_rcv_wnd] arg_cong [OF assms, of pc_peer_wnd] arg_cong [OF assms, of pc_rbuf]
    arg_cong [OF assms, of pc_rlen]
  by (simp_all add: tcp_view_def)

lemma on_pcb_simps [simp]:
  "tc_pcbs (on_pcb i h s) j = (if j = i then h (tc_pcbs s i) else tc_pcbs s j)"
  "tc_on (on_pcb i h s) = tc_on s" "ticks (on_pcb i h s) = ticks s" "wire (on_pcb i h s) = wire s"
  "tc_txlog (on_pcb i h s) = tc_txlog s" "tc_next_port (on_pcb i h s) = tc_next_port s" "tc_rto (on_pcb i h s) = tc_rto s"
  by (simp_all add: on_pcb_def)

lemma net_send_simps [simp]:
  "tc_pcbs (net_send f s) = tc_pcbs s" "tc_on (net_send f s) = tc_on s" "ticks (net_send f s) = ticks s"
  "wire (net_send f s) = wire s @ [f]" "tc_txlog (net_send f s) = tc_txlog s"
  "tc_next_port (net_send f s) = tc_next_port s" "tc_rto (net_send f s) = tc_rto s"
  by (simp_all add: net_send_def)

lemma tx_log_simps [simp]:
  "tc_pcbs (tx_log a b c d s) = tc_pcbs s" "tc_on (tx_log a b c d s) = tc_on s" "ticks (tx_log a b c d s) = ticks s"
  "wire (tx_log a b c d s) = wire s" "tc_next_port (tx_log a b c d s) = tc_next_port s" "tc_rto (tx_log a b c d s) = tc_rto s"
  by (simp_all add: tx_log_def)

lemma bump_port_simps [simp]:
  "tc_pcbs (bump_port s) = tc_pcbs s" "tc_on (bump_port s) = tc_on s" "ticks (bump_port s) = ticks s"
  "wire (bump_port s) = wire s" "tc_txlog (bump_port s) = tc_txlog s" "tc_rto (bump_port s) = tc_rto s"
  by (simp_all add: bump_port_def Let_def)

lemma tcp_view_arm [simp]: "tcp_view (arm_rex sq fl d t p) = tcp_view p"
  by (simp add: tcp_view_def arm_rex_def Let_def)

lemma send_seg_at_keeps [simp]:
  "tcp_view (tc_pcbs (tcp_send_seg_at i sq fl d arm s) j) = tcp_view (tc_pcbs s j)"
  "tc_on (tcp_send_seg_at i sq fl d arm s) = tc_on s" "ticks (tcp_send_seg_at i sq fl d arm s) = ticks s"
  "tc_next_port (tcp_send_seg_at i sq fl d arm s) = tc_next_port s" "tc_rto (tcp_send_seg_at i sq fl d arm s) = tc_rto s"
  by (simp_all add: tcp_send_seg_at_def Let_def split: option.split)

lemma send_seg_keeps [simp]:
  "tcp_view (tc_pcbs (tcp_send_seg i fl d s) j) = tcp_view (tc_pcbs s j)"
  "tc_on (tcp_send_seg i fl d s) = tc_on s" "ticks (tcp_send_seg i fl d s) = ticks s"
  by (simp_all add: tcp_send_seg_def)

lemma resend_keeps [simp]:
  "tcp_view (tc_pcbs (tcp_resend i s) j) = tcp_view (tc_pcbs s j)" "tc_on (tcp_resend i s) = tc_on s"
proof -
  have "tcp_view (p\<lparr>pc_rex_deadline := a, pc_rex_count := b, pc_dupacks := c\<rparr>) = tcp_view p" for p a b c
    by (simp add: tcp_view_def)
  then show "tcp_view (tc_pcbs (tcp_resend i s) j) = tcp_view (tc_pcbs s j)" by (simp add: tcp_resend_def Let_def)
qed (simp add: tcp_resend_def Let_def)

section \<open>The stream a connection delivers\<close>

text \<open>\<open>S\<close> is the stream the peer sends and \<open>irs\<close> its initial sequence number.  A segment of the peer is its SYN-ACK, a
  reset, or a part of the stream at its place, a FIN coming alone and after the last byte.\<close>

definition peer_segment :: "u8 list \<Rightarrow> u32 \<Rightarrow> segment \<Rightarrow> bool" where
  "peer_segment S irs g \<longleftrightarrow> sg_flags g AND TCP_RST \<noteq> 0
     \<or> sg_flags g AND TCP_SYN \<noteq> 0 \<and> sg_flags g AND TCP_FIN = 0 \<and> sg_seq g = irs \<and> sg_data g = []
     \<or> sg_flags g AND TCP_SYN = 0 \<and>
       (\<exists>k\<le>length S. sg_seq g = irs + 1 + of_nat k \<and> k + length (sg_data g) \<le> length S
          \<and> sg_data g = take (length (sg_data g)) (drop k S)
          \<and> (sg_flags g AND TCP_FIN \<noteq> 0 \<longrightarrow> sg_data g = [] \<and> k = length S))"

definition stream_ok :: "u8 list \<Rightarrow> u32 \<Rightarrow> tcp_pcb \<Rightarrow> bool" where
  "stream_ok S irs p \<longleftrightarrow> pc_used p \<and> pc_rlen p \<le> length S \<and> pc_rlen p \<le> TCP_RBUF
     \<and> map (pc_rbuf p) [0..<pc_rlen p] = take (pc_rlen p) S
     \<and> (case pc_state p of
          TCP_CLOSED \<Rightarrow> True
        | TCP_SYN_SENT \<Rightarrow> pc_rlen p = 0
        | TCP_ESTABLISHED \<Rightarrow> pc_rcv_nxt p = irs + 1 + of_nat (pc_rlen p)
        | TCP_CLOSE_WAIT \<Rightarrow> pc_rlen p = length S \<and> pc_rcv_nxt p = irs + 2 + of_nat (length S))"

lemma stream_ok_cong:
  "pc_used p = pc_used q \<Longrightarrow> pc_state p = pc_state q \<Longrightarrow> pc_rcv_nxt p = pc_rcv_nxt q \<Longrightarrow> pc_rbuf p = pc_rbuf q \<Longrightarrow>
   pc_rlen p = pc_rlen q \<Longrightarrow> stream_ok S irs p = stream_ok S irs q"
  by (simp only: stream_ok_def)

lemma stream_ok_view: "tcp_view p = tcp_view q \<Longrightarrow> stream_ok S irs p = stream_ok S irs q"
  by (rule stream_ok_cong) (erule tcp_view_fields)+

lemma of_nat_u32_inject:
  assumes "a < 4294967296" "b < 4294967296" "(of_nat a :: u32) = of_nat b"
  shows "a = b"
proof -
  have lim: "(4294967296 :: nat) = 2 ^ 32" by simp
  have "unat (of_nat a :: u32) = a" by (rule unat_of_nat_u32) (use assms(1) in \<open>unfold lim\<close>)
  moreover have "unat (of_nat b :: u32) = b" by (rule unat_of_nat_u32) (use assms(2) in \<open>unfold lim\<close>)
  ultimately show ?thesis using arg_cong [OF assms(3), of unat] by argo
qed

lemma fill_append:
  "map (fill n d buf) [0..<n + length d] = map buf [0..<n] @ d"
proof -
  have "map (fill n d buf) [0..<n] = map buf [0..<n]" by (simp add: fill_def)
  moreover have "map (fill n d buf) [n..<n + length d] = d" by (rule nth_equalityI) (simp_all add: fill_def)
  ultimately show ?thesis by (simp add: upt_add_eq_append [of 0 n])
qed

lemma take_data_stream:
  assumes p: "stream_ok S irs p" and st: "pc_state p = TCP_ESTABLISHED \<or> pc_state p = TCP_CLOSE_WAIT"
    and k: "k + length d \<le> length S" "d = take (length d) (drop k S)" "d \<noteq> []" and S: "length S < 4294967294"
  shows "stream_ok S irs (take_data (irs + 1 + of_nat k) d p)"
proof (cases "irs + 1 + of_nat k = pc_rcv_nxt p")
  case True
  show ?thesis
  proof (cases "pc_state p")
    case TCP_ESTABLISHED
    then have "(of_nat k :: u32) = of_nat (pc_rlen p)" using p True by (simp add: stream_ok_def)
    then have kr: "k = pc_rlen p" using p k(1) S by (intro of_nat_u32_inject) (simp_all add: stream_ok_def)
    let ?c = "min (length d) (TCP_RBUF - pc_rlen p)"
    have "map (fill (pc_rlen p) (take ?c d) (pc_rbuf p)) [0..<pc_rlen p + ?c]
        = map (pc_rbuf p) [0..<pc_rlen p] @ take ?c d"
      using fill_append [of "pc_rlen p" "take ?c d" "pc_rbuf p"] by simp
    also have "\<dots> = take (pc_rlen p) S @ take ?c (take (length d) (drop k S))"
      using p k(2) by (simp add: stream_ok_def)
    also have "\<dots> = take (pc_rlen p) S @ take ?c (drop k S)" by (simp add: min.commute)
    also have "\<dots> = take (pc_rlen p + ?c) S" unfolding kr by (simp add: take_add)
    finally have "map (fill (pc_rlen p) (take ?c d) (pc_rbuf p)) [0..<pc_rlen p + ?c] = take (pc_rlen p + ?c) S" .
    moreover have "pc_rlen p + ?c \<le> length S" "pc_rlen p + ?c \<le> TCP_RBUF" using k(1) p by (auto simp: kr stream_ok_def)
    ultimately show ?thesis using p TCP_ESTABLISHED by (simp add: stream_ok_def take_data_def Let_def add.assoc)
  next
    case TCP_CLOSE_WAIT
    then have e: "irs + 1 + of_nat k = irs + 2 + (of_nat (length S) :: u32)" using p True by (simp add: stream_ok_def)
    have "(of_nat k :: u32) = (irs + 1 + of_nat k) - (irs + 1)" by simp
    also have "\<dots> = of_nat (length S + 1)" unfolding e by simp
    finally have "k = length S + 1" using k(1) S by (intro of_nat_u32_inject) simp_all
    then show ?thesis using k(1) by simp
  qed (use st in simp_all)
qed (simp add: take_data_def p)

lemma fin_stream:
  assumes p: "stream_ok S irs p" and st: "pc_state p = TCP_ESTABLISHED \<or> pc_state p = TCP_CLOSE_WAIT"
    and sq: "irs + 1 + of_nat (length S) = pc_rcv_nxt p" and S: "length S < 4294967294"
  shows "stream_ok S irs (p\<lparr>pc_rcv_nxt := pc_rcv_nxt p + 1, pc_state := TCP_CLOSE_WAIT\<rparr>)"
proof (cases "pc_state p")
  case TCP_ESTABLISHED
  then have "(of_nat (length S) :: u32) = of_nat (pc_rlen p)" using p sq by (simp add: stream_ok_def)
  then have "length S = pc_rlen p" using p S by (intro of_nat_u32_inject) (simp_all add: stream_ok_def)
  then show ?thesis using p sq [symmetric] by (simp add: stream_ok_def)
next
  case TCP_CLOSE_WAIT
  then have "(1 :: u32) = 2" using p sq by (simp add: stream_ok_def)
  then show ?thesis by simp
qed (use st in simp_all)
lemma syn_of_synack: "(fl :: u8) AND (TCP_SYN OR TCP_ACK) = TCP_SYN OR TCP_ACK \<Longrightarrow> fl AND TCP_SYN \<noteq> 0"
proof
  assume a: "fl AND (TCP_SYN OR TCP_ACK) = TCP_SYN OR TCP_ACK" and z: "fl AND TCP_SYN = 0"
  have "bit (fl AND (TCP_SYN OR TCP_ACK)) 1" unfolding a by code_simp
  then have "bit (fl AND TCP_SYN) 1" by (simp add: bit_and_iff) (code_simp?)
  then show False unfolding z by simp
qed

section \<open>The state as a whole\<close>

text \<open>Operations on connection \<open>i\<close> leave the others alone, and the connection delivers its stream.\<close>

abbreviation flow :: "u8 list \<Rightarrow> u32 \<Rightarrow> nat \<Rightarrow> tcp \<Rightarrow> bool" where
  "flow S irs i s \<equiv> stream_ok S irs (tc_pcbs s i)"

lemma flow_send_seg [simp]: "flow S irs i (tcp_send_seg j fl d s) = flow S irs i s"
  by (rule stream_ok_view) simp

lemma flow_resend [simp]: "flow S irs i (tcp_resend j s) = flow S irs i s"
  by (rule stream_ok_view) simp

lemma flow_upd [simp]:
  "stream_ok S irs (p\<lparr>pc_snd_una := a\<rparr>) = stream_ok S irs p" "stream_ok S irs (p\<lparr>pc_snd_nxt := a\<rparr>) = stream_ok S irs p"
  "stream_ok S irs (p\<lparr>pc_dupacks := k\<rparr>) = stream_ok S irs p" "stream_ok S irs (p\<lparr>pc_rex_active := b\<rparr>) = stream_ok S irs p"
  "stream_ok S irs (p\<lparr>pc_peer_wnd := w\<rparr>) = stream_ok S irs p" "stream_ok S irs (p\<lparr>pc_rcv_wnd := w\<rparr>) = stream_ok S irs p"
  "stream_ok S irs (p\<lparr>pc_rex_deadline := a\<rparr>) = stream_ok S irs p"
  by (rule stream_ok_cong; simp)+

lemma flow_take_ack [simp]: "flow S irs i (take_ack j a b s) = flow S irs i s"
  by (simp add: take_ack_def Let_def)

lemma flow_close: "stream_ok S irs p \<Longrightarrow> stream_ok S irs (p\<lparr>pc_state := TCP_CLOSED\<rparr>)"
  by (simp add: stream_ok_def)

lemma send_seg_rcv [simp]:
  "pc_used (tc_pcbs (tcp_send_seg j fl d s) i) = pc_used (tc_pcbs s i)"
  "pc_rcv_nxt (tc_pcbs (tcp_send_seg j fl d s) i) = pc_rcv_nxt (tc_pcbs s i)"
  "pc_state (tc_pcbs (tcp_send_seg j fl d s) i) = pc_state (tc_pcbs s i)"
  "pc_rlen (tc_pcbs (tcp_send_seg j fl d s) i) = pc_rlen (tc_pcbs s i)"
  "pc_rbuf (tc_pcbs (tcp_send_seg j fl d s) i) = pc_rbuf (tc_pcbs s i)"
  by (simp_all add: tcp_view_fields [of "tc_pcbs (tcp_send_seg j fl d s) i" "tc_pcbs s i"])

lemma take_data_state [simp]: "pc_state (take_data sq d p) = pc_state p"
  by (simp add: take_data_def Let_def)

lemma flow_pcb_input_other: "j \<noteq> i \<Longrightarrow> flow S irs i s \<Longrightarrow> flow S irs i (snd (pcb_input j g s))"
  by (simp add: pcb_input_def Let_def)

lemma flow_pcb_input:
  assumes "flow S irs i s" and g: "peer_segment S irs g" and S: "length S < 4294967294"
  shows "flow S irs i (snd (pcb_input i g s))"
proof -
  let ?p = "tc_pcbs s i" and ?fl = "sg_flags g"
  define s0 where "s0 = on_pcb i (\<lambda>p. p\<lparr>pc_peer_wnd := sg_wnd g\<rparr>) s"
  have s0: "flow S irs i s0" "pc_state (tc_pcbs s0 i) = pc_state ?p" using assms(1) by (simp_all add: s0_def)
  consider (rst) "?fl AND TCP_RST \<noteq> 0" | (syn) "?fl AND TCP_RST = 0" "pc_state ?p = TCP_SYN_SENT"
    | (closed) "?fl AND TCP_RST = 0" "pc_state ?p = TCP_CLOSED"
    | (live) "?fl AND TCP_RST = 0" "pc_state ?p = TCP_ESTABLISHED \<or> pc_state ?p = TCP_CLOSE_WAIT"
    by (cases "pc_state ?p") auto
  then show ?thesis
  proof cases
    case rst
    then show ?thesis using assms(1) by (simp add: pcb_input_def Let_def flow_close)
  next
    case syn
    show ?thesis
    proof (cases "?fl AND (TCP_SYN OR TCP_ACK) = TCP_SYN OR TCP_ACK")
      case True
      then have "?fl AND TCP_SYN \<noteq> 0" by (rule syn_of_synack)
      then have "sg_seq g = irs" using g syn(1) by (simp add: peer_segment_def)
      then show ?thesis using assms(1) syn True by (simp add: pcb_input_def Let_def stream_ok_def)
    qed (use assms(1) syn in \<open>simp add: pcb_input_def Let_def\<close>)
  next
    case closed
    then show ?thesis using assms(1) by (simp add: pcb_input_def Let_def)
  next
    case live
    define s1 where "s1 = (if sg_data g \<noteq> [] then tcp_send_seg i TCP_ACK [] (on_pcb i (take_data (sg_seq g) (sg_data g)) s0) else s0)"
    have st1: "pc_state (tc_pcbs s1 i) = TCP_ESTABLISHED \<or> pc_state (tc_pcbs s1 i) = TCP_CLOSE_WAIT"
      using live(2) by (simp add: s1_def s0(2))
    have f1: "flow S irs i s1"
    proof (cases "sg_data g = []")
      case False
      then obtain k where "sg_seq g = irs + 1 + of_nat k" "k + length (sg_data g) \<le> length S"
        "sg_data g = take (length (sg_data g)) (drop k S)"
        using g live(1) by (auto simp: peer_segment_def)
      then show ?thesis
        using take_data_stream [OF s0(1) _ _ _ False S, of k] live(2) False by (simp add: s1_def s0(2))
    qed (simp add: s1_def s0(1))
    define s2 where "s2 = (if ?fl AND TCP_FIN \<noteq> 0 \<and> sg_seq g = pc_rcv_nxt (tc_pcbs s1 i)
      then tcp_send_seg i TCP_ACK [] (on_pcb i (\<lambda>q. q\<lparr>pc_rcv_nxt := pc_rcv_nxt q + 1, pc_state := TCP_CLOSE_WAIT\<rparr>) s1)
      else s1)"
    have f2: "flow S irs i s2"
    proof (cases "?fl AND TCP_FIN \<noteq> 0 \<and> sg_seq g = pc_rcv_nxt (tc_pcbs s1 i)")
      case True
      then have "sg_seq g = irs + 1 + of_nat (length S)" using g live(1) by (auto simp: peer_segment_def)
      then show ?thesis using fin_stream [OF f1 st1 _ S] True by (simp add: s2_def)
    qed (use f1 in \<open>auto simp: s2_def\<close>)
    have "snd (pcb_input i g s) = (if ?fl AND TCP_ACK \<noteq> 0 then take_ack i (sg_ack g) (sg_data g = []) s2 else s2)"
      unfolding s2_def s1_def s0_def using live by (auto simp: pcb_input_def Let_def)
    then show ?thesis using f2 by simp
  qed
qed

definition from_peer :: "u8 list \<Rightarrow> u32 \<Rightarrow> nat \<Rightarrow> u8 list \<Rightarrow> tcp \<Rightarrow> bool" where
  "from_peer S irs i f s =
     (case frame_parse f of
        None \<Rightarrow> True
      | Some g \<Rightarrow> pcb_lookup (sg_dport g) (sg_sport g) s = Some i \<longrightarrow> peer_segment S irs g)"

text \<open>One event of the machine: any frame arrives, provided that what reaches connection \<open>i\<close> is a segment of its peer;
  any connection sends or is opened; the timer counts or fires; a test hook changes a setting.\<close>

inductive tcp_step :: "u8 list \<Rightarrow> u32 \<Rightarrow> nat \<Rightarrow> tcp \<Rightarrow> tcp \<Rightarrow> bool" for S irs i where
  step_input: "from_peer S irs i f s \<Longrightarrow> tcp_step S irs i s (snd (tcp_input f s))"
| step_send: "tcp_step S irs i s (snd (tcp_send_data c d n s))"
| step_connect: "tcp_step S irs i s (snd (tcp_connect rip rport s))"
| step_tick: "tcp_step S irs i s (tcp_tick s)"
| step_clock: "tcp_step S irs i s (s\<lparr>ticks := ticks s + 1\<rparr>)"
| step_rto: "tcp_step S irs i s (tcp_set_rto t s)"
| step_rwnd: "tcp_step S irs i s (tcp_set_rwnd c w s)"

inductive_cases tcp_stepE: "tcp_step S irs i s t"

lemma on_send_seg [simp]: "tc_on (tcp_send_seg j fl d s) = tc_on s"
  by simp

lemma on_take_ack [simp]: "tc_on (take_ack j a b s) = tc_on s"
  by (simp add: take_ack_def Let_def)

lemma on_pcb_input [simp]: "tc_on (snd (pcb_input j g s)) = tc_on s"
  by (simp add: pcb_input_def Let_def)

lemma flow_input:
  assumes "flow S irs i s" "from_peer S irs i f s" "length S < 4294967294"
  shows "flow S irs i (snd (tcp_input f s)) \<and> tc_on (snd (tcp_input f s)) = tc_on s"
proof (cases "frame_parse f")
  case (Some g)
  note f = this
  show ?thesis
  proof (cases "pcb_lookup (sg_dport g) (sg_sport g) s")
    case (Some j)
    show ?thesis
    proof (cases "j = i")
      case True
      then have "peer_segment S irs g" using assms(2) f Some by (simp add: from_peer_def)
      then show ?thesis using flow_pcb_input [OF assms(1) _ assms(3)] f Some True assms(1) by (simp add: tcp_input_def)
    next
      case False
      then show ?thesis using flow_pcb_input_other [OF False assms(1)] f Some assms(1) by (simp add: tcp_input_def)
    qed
  qed (use assms(1) f in \<open>simp add: tcp_input_def\<close>)
qed (use assms(1) in \<open>simp add: tcp_input_def\<close>)

lemma flow_send_data: "flow S irs i s \<Longrightarrow> flow S irs i (snd (tcp_send_data c d n s)) \<and> tc_on (snd (tcp_send_data c d n s)) = tc_on s"
  by (simp add: tcp_send_data_def Let_def split: option.split)

lemma flow_connect:
  assumes "flow S irs i s" "tc_on s"
  shows "flow S irs i (snd (tcp_connect rip rport s)) \<and> tc_on (snd (tcp_connect rip rport s))"
proof (cases "first_from (\<lambda>j. \<not> pc_used (tc_pcbs s j)) 0 TCP_MAXPCB")
  case (Some j)
  have "\<not> pc_used (tc_pcbs s j)" using first_from_SomeD [OF Some] by simp
  then have "i \<noteq> j" using assms(1) by (auto simp: stream_ok_def)
  then show ?thesis using assms Some by (simp add: tcp_connect_def Let_def)
qed (use assms in \<open>simp add: tcp_connect_def Let_def\<close>)

lemma flow_tick_pcb: "flow S irs i s \<Longrightarrow> flow S irs i (tick_pcb j s)"
  by (cases "i = j") (simp_all add: tick_pcb_def Let_def flow_close)

lemma on_tick_pcb [simp]: "tc_on (tick_pcb j s) = tc_on s"
  by (simp add: tick_pcb_def Let_def)

lemma flow_fold_tick: "flow S irs i s \<Longrightarrow> flow S irs i (fold tick_pcb js s) \<and> tc_on (fold tick_pcb js s) = tc_on s"
  by (induction js arbitrary: s) (simp_all add: flow_tick_pcb)

lemma flow_step:
  assumes "tcp_step S irs i s t" "flow S irs i s" "tc_on s" "length S < 4294967294"
  shows "flow S irs i t \<and> tc_on t"
  using assms(1)
proof cases
  case (step_input f)
  then show ?thesis using flow_input assms by blast
next
  case (step_send c d n)
  then show ?thesis using flow_send_data assms by blast
next
  case (step_connect rip rport)
  then show ?thesis using flow_connect assms by blast
next
  case step_tick
  then show ?thesis using flow_fold_tick assms by (simp add: tcp_tick_def)
next
  case (step_rto t)
  then show ?thesis using assms by (simp add: tcp_set_rto_def)
next
  case (step_rwnd c w)
  then show ?thesis using assms by (simp add: tcp_set_rwnd_def split: option.split)
qed (use assms in simp)

lemma flow_steps:
  assumes "(tcp_step S irs i)\<^sup>*\<^sup>* s t" "flow S irs i s" "tc_on s" "length S < 4294967294"
  shows "flow S irs i t \<and> tc_on t"
  using assms(1) by (induction rule: rtranclp_induct) (use assms(2-4) flow_step in blast)+

lemma connect_flow:
  assumes "tcp_connect rip rport s0 = (int i, s)"
  shows "flow S irs i s \<and> tc_on s \<and> i < TCP_MAXPCB"
proof -
  define u where "u = (if tc_on s0 then s0 else tcp_init s0)"
  have on: "tc_on u" by (simp add: u_def tcp_init_def)
  have c: "tcp_connect rip rport s0 = tcp_connect rip rport u"
    by (simp add: tcp_connect_def u_def tcp_init_def)
  show ?thesis
  proof (cases "first_from (\<lambda>j. \<not> pc_used (tc_pcbs u j)) 0 TCP_MAXPCB")
    case (Some j)
    then have "j = i" "j < TCP_MAXPCB"
      using assms on first_from_SomeD [OF Some] unfolding c by (auto simp: tcp_connect_def Let_def)
    then show ?thesis using assms on Some unfolding c
      by (auto simp: tcp_connect_def Let_def stream_ok_def zero_pcb_def)
  qed (use assms on c in \<open>simp add: tcp_connect_def Let_def\<close>)
qed


end
