(* ===== verification/Tcp_Run.thy ===== *)
theory Tcp_Run
  imports Tcp_Inv
begin

text \<open>
  What single operations of the TCP do on their main branches: the handshake, data in order and its acknowledgement,
  the retransmission slot; the well-formedness of the control blocks; and runs of the machine.
\<close>

section \<open>What is sent\<close>

lemma seg_of_simps [simp]:
  "sg_src (seg_of p sq fl d) = pc_lip p" "sg_dst (seg_of p sq fl d) = pc_rip p" "sg_data (seg_of p sq fl d) = d"
  "sg_flags (seg_of p sq fl d) = fl" "sg_seq (seg_of p sq fl d) = sq"
  by (simp_all add: seg_of_def)

lemma frame_of_segment:
  assumes "quad (pc_lip p)" "quad (pc_rip p)" "length d \<le> TCP_MSS"
  shows "\<exists>f. frame_build TCP_FRAME (seg_of p sq fl d) = Some f \<and> frame_parse f = Some (seg_of p sq fl d)"
proof -
  obtain f where f: "frame_build TCP_FRAME (seg_of p sq fl d) = Some f" using assms(3) by (simp add: frame_build_def)
  moreover have "frame_parse f = Some (seg_of p sq fl d)" using assms by (intro parse_build [OF _ _ _ f]) simp_all
  ultimately show ?thesis by blast
qed

text \<open>The last frame sent carries segment \<open>g\<close>.\<close>

definition sent_one :: "tcp \<Rightarrow> segment \<Rightarrow> tcp \<Rightarrow> bool" where
  "sent_one s g t \<longleftrightarrow> (\<exists>f. wire t = wire s @ [f] \<and> frame_parse f = Some g)"

lemma send_seg_at_sent:
  assumes "quad (pc_lip (tc_pcbs s i))" "quad (pc_rip (tc_pcbs s i))" "length d \<le> TCP_MSS"
  shows "sent_one s (seg_of (tc_pcbs s i) sq fl d) (tcp_send_seg_at i sq fl d arm s)"
proof -
  obtain f where f: "frame_build TCP_FRAME (seg_of (tc_pcbs s i) sq fl d) = Some f"
    "frame_parse f = Some (seg_of (tc_pcbs s i) sq fl d)"
    using frame_of_segment [OF assms] by blast
  have "wire (tcp_send_seg_at i sq fl d arm s) = wire s @ [f]" by (simp add: tcp_send_seg_at_def Let_def f(1))
  then show ?thesis using f(2) unfolding sent_one_def by blast
qed

lemma send_seg_sent:
  assumes "quad (pc_lip (tc_pcbs s i))" "quad (pc_rip (tc_pcbs s i))" "length d \<le> TCP_MSS"
  shows "sent_one s (seg_of (tc_pcbs s i) (pc_snd_nxt (tc_pcbs s i)) fl d) (tcp_send_seg i fl d s)"
  unfolding tcp_send_seg_def by (rule send_seg_at_sent [OF assms])

lemma ack_is_bare: "TCP_ACK AND (TCP_SYN OR TCP_FIN) = 0"
  by code_simp

lemma bare_ack_keeps_slot [simp]: "tc_pcbs (tcp_send_seg i TCP_ACK [] s) = tc_pcbs s"
  using ack_is_bare by (simp add: tcp_send_seg_def tcp_send_seg_at_def Let_def split: option.split)

section \<open>Data in order\<close>

lemma take_ack_data [simp]:
  "wire (take_ack i ak False s) = wire s" "pc_rbuf (tc_pcbs (take_ack i ak False s) j) = pc_rbuf (tc_pcbs s j)"
  "pc_rlen (tc_pcbs (take_ack i ak False s) j) = pc_rlen (tc_pcbs s j)"
  "pc_rcv_nxt (tc_pcbs (take_ack i ak False s) j) = pc_rcv_nxt (tc_pcbs s j)"
  "pc_state (tc_pcbs (take_ack i ak False s) j) = pc_state (tc_pcbs s j)"
  by (simp_all add: take_ack_def Let_def)

lemma in_order_data:
  fixes s i g defines "p \<equiv> tc_pcbs s i" and "t \<equiv> snd (pcb_input i g s)"
  assumes st: "pc_state p = TCP_ESTABLISHED" and q: "quad (pc_lip p)" "quad (pc_rip p)"
    and fl: "sg_flags g AND TCP_RST = 0" "sg_flags g AND TCP_FIN = 0" and sq: "sg_seq g = pc_rcv_nxt p"
    and d: "sg_data g \<noteq> []" "length (sg_data g) \<le> unat (pc_rcv_wnd p)" "pc_rlen p + length (sg_data g) \<le> TCP_RBUF"
  shows "fst (pcb_input i g s) = 0
    \<and> map (pc_rbuf (tc_pcbs t i)) [0..<pc_rlen (tc_pcbs t i)] = map (pc_rbuf p) [0..<pc_rlen p] @ sg_data g
    \<and> pc_rcv_nxt (tc_pcbs t i) = pc_rcv_nxt p + of_nat (length (sg_data g)) \<and> pc_state (tc_pcbs t i) = TCP_ESTABLISHED
    \<and> (\<exists>f. wire t = wire s @ [f] \<and> frame_parse f = Some (\<lparr>sg_src = pc_lip p, sg_dst = pc_rip p, sg_sport = pc_lport p,
         sg_dport = pc_rport p, sg_seq = pc_snd_nxt p, sg_ack = pc_rcv_nxt p + of_nat (length (sg_data g)),
         sg_flags = TCP_ACK, sg_wnd = pc_rcv_wnd p, sg_data = []\<rparr>))"
proof -
  let ?d = "sg_data g"
  define u where "u = on_pcb i (take_data (sg_seq g) ?d) (on_pcb i (\<lambda>p. p\<lparr>pc_peer_wnd := sg_wnd g\<rparr>) s)"
  define v where "v = tcp_send_seg i TCP_ACK [] u"
  have min: "min (length ?d) (TCP_RBUF - pc_rlen p) = length ?d" using d(3) by simp
  have ui: "tc_pcbs u i = p\<lparr>pc_peer_wnd := sg_wnd g, pc_rbuf := fill (pc_rlen p) ?d (pc_rbuf p),
      pc_rlen := pc_rlen p + length ?d, pc_rcv_nxt := pc_rcv_nxt p + of_nat (length ?d)\<rparr>"
    using sq d(2) by (simp add: u_def take_data_def Let_def min p_def [symmetric])
  have pv: "tc_pcbs v = tc_pcbs u" by (simp add: v_def)
  have e: "pcb_input i g s = (0, if sg_flags g AND TCP_ACK \<noteq> 0 then take_ack i (sg_ack g) False v else v)"
    using st fl d(1) by (simp add: pcb_input_def Let_def p_def [symmetric] u_def [symmetric] v_def [symmetric])
  have "sent_one u (seg_of (tc_pcbs u i) (pc_snd_nxt (tc_pcbs u i)) TCP_ACK []) v"
    unfolding v_def using q by (intro send_seg_sent) (simp_all add: ui)
  moreover have "wire u = wire s" by (simp add: u_def)
  moreover have "TCP_ACK AND TCP_ACK \<noteq> (0 :: u8)" by code_simp
  ultimately have w: "\<exists>f. wire v = wire s @ [f] \<and> frame_parse f = Some (\<lparr>sg_src = pc_lip p, sg_dst = pc_rip p,
     sg_sport = pc_lport p, sg_dport = pc_rport p, sg_seq = pc_snd_nxt p,
     sg_ack = pc_rcv_nxt p + of_nat (length ?d), sg_flags = TCP_ACK, sg_wnd = pc_rcv_wnd p, sg_data = []\<rparr>)"
    by (simp add: sent_one_def seg_of_def ui)
  have t: "wire t = wire v" "pc_rbuf (tc_pcbs t i) = pc_rbuf (tc_pcbs v i)" "pc_rlen (tc_pcbs t i) = pc_rlen (tc_pcbs v i)"
    "pc_rcv_nxt (tc_pcbs t i) = pc_rcv_nxt (tc_pcbs v i)" "pc_state (tc_pcbs t i) = pc_state (tc_pcbs v i)"
    unfolding t_def e by simp_all
  show ?thesis using w st unfolding t pv ui e by (simp add: fill_append)
qed
text \<open>On an established connection a segment that carries data, starts at \<open>rcv_nxt\<close>, fits the window and the
  buffer, and has neither RST nor FIN set is appended to the receive buffer; \<open>rcv_nxt\<close> moves past it; and exactly one
  frame is sent, the acknowledgement of everything up to there.\<close>

theorem tcp_in_order_data_acked:
  fixes s i g defines "p \<equiv> tc_pcbs s i" and "t \<equiv> snd (pcb_input i g s)"
  assumes st: "pc_state p = TCP_ESTABLISHED" and q: "quad (pc_lip p)" "quad (pc_rip p)"
    and fl: "sg_flags g AND TCP_RST = 0" "sg_flags g AND TCP_FIN = 0" and sq: "sg_seq g = pc_rcv_nxt p"
    and d: "sg_data g \<noteq> []" "length (sg_data g) \<le> unat (pc_rcv_wnd p)" "pc_rlen p + length (sg_data g) \<le> TCP_RBUF"
  shows "fst (pcb_input i g s) = 0
    \<and> map (pc_rbuf (tc_pcbs t i)) [0..<pc_rlen (tc_pcbs t i)] = map (pc_rbuf p) [0..<pc_rlen p] @ sg_data g
    \<and> pc_rcv_nxt (tc_pcbs t i) = pc_rcv_nxt p + of_nat (length (sg_data g)) \<and> pc_state (tc_pcbs t i) = TCP_ESTABLISHED
    \<and> (\<exists>f. wire t = wire s @ [f] \<and> frame_parse f = Some (\<lparr>sg_src = pc_lip p, sg_dst = pc_rip p, sg_sport = pc_lport p,
         sg_dport = pc_rport p, sg_seq = pc_snd_nxt p, sg_ack = pc_rcv_nxt p + of_nat (length (sg_data g)),
         sg_flags = TCP_ACK, sg_wnd = pc_rcv_wnd p, sg_data = []\<rparr>))"
  using assms unfolding p_def t_def by (intro in_order_data) simp_all

section \<open>The handshake\<close>

lemma synack_flags: "TCP_SYN OR TCP_ACK = (18 :: u8)" "(18 :: u8) AND TCP_RST = 0" "(18 :: u8) AND 18 = 18"
  by code_simp+

lemma pcb_input_synack:
  fixes s i g defines "p \<equiv> tc_pcbs s i" and "t \<equiv> snd (pcb_input i g s)"
  assumes "pc_state p = TCP_SYN_SENT" "sg_flags g = TCP_SYN OR TCP_ACK" "sg_ack g = pc_snd_nxt p"
  shows "fst (pcb_input i g s) = 0"
    "tc_pcbs t i = p\<lparr>pc_peer_wnd := sg_wnd g, pc_rcv_nxt := sg_seq g + 1, pc_snd_una := sg_ack g,
       pc_state := TCP_ESTABLISHED, pc_rex_active := False, pc_dupacks := 0\<rparr>"
    "j \<noteq> i \<Longrightarrow> tc_pcbs t j = tc_pcbs s j"
  using assms by (simp_all add: pcb_input_def Let_def synack_flags)

section \<open>The retransmission slot\<close>

lemma map_fill_take: "map (fill 0 d buf) [0..<length d] = d"
  using fill_append [of 0 d buf] by simp

lemma rex_data_arm [simp]: "length d \<le> TCP_MSS \<Longrightarrow> rex_data (arm_rex sq fl d t p) = d"
  by (simp add: rex_data_def arm_rex_def Let_def unat_u16_of_nat map_fill_take)

lemma arm_rex_simps [simp]:
  "pc_rex_seq (arm_rex sq fl d t p) = sq" "pc_rex_flags (arm_rex sq fl d t p) = fl"
  "pc_rex_deadline (arm_rex sq fl d t p) = t" "pc_rex_count (arm_rex sq fl d t p) = 0"
  "pc_rex_active (arm_rex sq fl d t p)" "pc_snd_una (arm_rex sq fl d t p) = pc_snd_una p"
  "pc_snd_nxt (arm_rex sq fl d t p) = pc_snd_nxt p"
  "pc_used (arm_rex sq fl d t p) = pc_used p" "pc_lip (arm_rex sq fl d t p) = pc_lip p" "pc_rip (arm_rex sq fl d t p) = pc_rip p"
  "pc_state (arm_rex sq fl d t p) = pc_state p" "pc_rlen (arm_rex sq fl d t p) = pc_rlen p"
  "length d \<le> TCP_MSS \<Longrightarrow> pc_rex_len (arm_rex sq fl d t p) = of_nat (length d)"
  by (simp_all add: arm_rex_def Let_def)

lemma send_seg_at_armed:
  assumes "d \<noteq> []" "length d \<le> TCP_MSS"
  shows "tc_pcbs (tcp_send_seg_at i sq fl d True s) i = arm_rex sq fl d (ticks s + tc_rto s) (tc_pcbs s i)"
  using assms by (simp add: tcp_send_seg_at_def Let_def frame_build_def)

text \<open>What a send leaves behind: the slot holds the bytes just sent, at the number they were sent with, whatever it held.\<close>

lemma send_data_slot:
  fixes s c dat n defines "t \<equiv> snd (tcp_send_data c dat n s)"
  assumes c: "pcb_get c s = Some i" and k: "fst (tcp_send_data c dat n s) = k" "0 < k"
  shows "\<exists>d. dat = Some d \<and> rex_data (tc_pcbs t i) = map d [0..<nat k]" "k \<le> 512"
    "pc_rex_seq (tc_pcbs t i) = pc_snd_nxt (tc_pcbs s i)" "pc_snd_nxt (tc_pcbs t i) = pc_snd_nxt (tc_pcbs s i) + of_int k"
    "pc_snd_una (tc_pcbs t i) = pc_snd_una (tc_pcbs s i)" "pc_rex_active (tc_pcbs t i)" "pc_rex_count (tc_pcbs t i) = 0"
    "pc_rex_deadline (tc_pcbs t i) = ticks s + tc_rto s" "pc_used (tc_pcbs t i)" "ticks t = ticks s" "tc_rto t = tc_rto s"
    "pc_lip (tc_pcbs t i) = pc_lip (tc_pcbs s i)" "pc_rip (tc_pcbs t i) = pc_rip (tc_pcbs s i)"
proof -
  let ?p = "tc_pcbs s i"
  obtain d where d: "dat = Some d" "pc_state ?p = TCP_ESTABLISHED" and n: "0 < n"
    using k c by (auto simp: tcp_send_data_def Let_def split: option.splits if_splits)
  define l where "l = min (min n (int TCP_MSS)) (uint (pc_peer_wnd ?p))"
  have l: "l = k" using k c d n by (simp add: tcp_send_data_def Let_def l_def split: if_splits)
  have k512: "k \<le> 512" using l by (simp add: l_def)
  let ?d = "map d [0..<nat k]"
  have "?d \<noteq> []" "length ?d \<le> TCP_MSS" using k(2) k512 by simp_all
  note A = send_seg_at_armed [OF this, of i "pc_snd_nxt ?p" 24 s] and len = this(2)
  have t: "t = on_pcb i (\<lambda>q. q\<lparr>pc_snd_nxt := pc_snd_nxt q + of_int k\<rparr>) (tcp_send_seg i (TCP_ACK OR TCP_PSH) ?d s)"
    using c d n k(2) l unfolding t_def by (simp add: tcp_send_data_def Let_def l_def)
  have u: "pc_used ?p" using c by (auto simp: pcb_get_def split: if_splits)
  have r: "rex_data (q\<lparr>pc_snd_nxt := x\<rparr>) = rex_data q" for q x by (simp add: rex_data_def)
  show "\<exists>d. dat = Some d \<and> rex_data (tc_pcbs t i) = map d [0..<nat k]"
    using d(1) len by (simp add: t tcp_send_seg_def A r)
  show "k \<le> 512" "pc_rex_seq (tc_pcbs t i) = pc_snd_nxt ?p" "pc_snd_nxt (tc_pcbs t i) = pc_snd_nxt ?p + of_int k"
    "pc_snd_una (tc_pcbs t i) = pc_snd_una ?p" "pc_rex_active (tc_pcbs t i)" "pc_rex_count (tc_pcbs t i) = 0"
    "pc_rex_deadline (tc_pcbs t i) = ticks s + tc_rto s" "pc_used (tc_pcbs t i)" "ticks t = ticks s" "tc_rto t = tc_rto s"
    "pc_lip (tc_pcbs t i) = pc_lip ?p" "pc_rip (tc_pcbs t i) = pc_rip ?p"
    using k512 u by (simp_all add: t tcp_send_seg_def A)
qed

lemma tick_resends:
  assumes p: "pc_used (tc_pcbs s i)" "pc_rex_active (tc_pcbs s i)" "pc_rex_count (tc_pcbs s i) = 0"
    and late: "ticks s - pc_rex_deadline (tc_pcbs s i) < 0x80000000"
    and q: "quad (pc_lip (tc_pcbs s i))" "quad (pc_rip (tc_pcbs s i))" "length (rex_data (tc_pcbs s i)) \<le> TCP_MSS"
  shows "sent_one s (seg_of (tc_pcbs s i) (pc_rex_seq (tc_pcbs s i)) (pc_rex_flags (tc_pcbs s i)) (rex_data (tc_pcbs s i)))
           (tick_pcb i s)"
proof -
  have "wire (tick_pcb i s) = wire (tcp_send_seg_at i (pc_rex_seq (tc_pcbs s i)) (pc_rex_flags (tc_pcbs s i))
      (rex_data (tc_pcbs s i)) True s)"
    using p late by (simp add: not_le [symmetric] tick_pcb_def tcp_resend_def Let_def)
  then show ?thesis using send_seg_at_sent [OF q] unfolding sent_one_def by simp
qed


section \<open>A run\<close>

definition boot_tcp :: tcp where
  "boot_tcp = \<lparr>tc_pcbs = (\<lambda>_. zero_pcb), tc_txlog = [], tc_on = False, tc_next_port = 40000, tc_rto = 30,
     tc_def_wnd = 1024, ticks = 7, wire = []\<rparr>"

definition demo_open :: tcp where "demo_open = snd (tcp_connect 0x0A000202 80 boot_tcp)"

definition demo_reply :: "u8 \<Rightarrow> u32 \<Rightarrow> u8 list \<Rightarrow> segment" where
  "demo_reply fl sq d = \<lparr>sg_src = [10, 0, 2, 2], sg_dst = tcp_local_ip, sg_sport = 80, sg_dport = 40000, sg_seq = sq,
     sg_ack = 1008, sg_flags = fl, sg_wnd = 512, sg_data = d\<rparr>"

lemma demo_open_pcb:
  "fst (tcp_connect 0x0A000202 80 boot_tcp) = int 0" "pc_used (tc_pcbs demo_open 0)"
  "pc_state (tc_pcbs demo_open 0) = TCP_SYN_SENT" "pc_lport (tc_pcbs demo_open 0) = 40000"
  "pc_rport (tc_pcbs demo_open 0) = 80" "pc_snd_nxt (tc_pcbs demo_open 0) = 1008"
  "pc_lip (tc_pcbs demo_open 0) = [10, 0, 2, 15]" "length (pc_rip (tc_pcbs demo_open 0)) = 4"
  "pc_rcv_wnd (tc_pcbs demo_open 0) = 1024" "pc_rlen (tc_pcbs demo_open 0) = 0"
proof -
  note v = tcp_view_fields [OF send_seg_keeps(1) [of 0 TCP_SYN "[]" _ 0]]
  have f: "first_from (\<lambda>i. \<not> pc_used (tc_pcbs (tcp_init boot_tcp) i)) 0 TCP_MAXPCB = Some 0"
    by (simp add: first_from_Some_iff tcp_init_def zero_pcb_def)
  show "fst (tcp_connect 0x0A000202 80 boot_tcp) = int 0" using f by (simp add: tcp_connect_def Let_def boot_tcp_def)
  show "pc_used (tc_pcbs demo_open 0)" "pc_state (tc_pcbs demo_open 0) = TCP_SYN_SENT"
    "pc_lport (tc_pcbs demo_open 0) = 40000" "pc_rport (tc_pcbs demo_open 0) = 80" "pc_snd_nxt (tc_pcbs demo_open 0) = 1008"
    "pc_lip (tc_pcbs demo_open 0) = [10, 0, 2, 15]" "length (pc_rip (tc_pcbs demo_open 0)) = 4"
    "pc_rcv_wnd (tc_pcbs demo_open 0) = 1024" "pc_rlen (tc_pcbs demo_open 0) = 0"
    using f
    by (simp_all add: demo_open_def tcp_connect_def Let_def v zero_pcb_def tcp_local_ip_def ip_bytes_def)
      (simp_all add: boot_tcp_def tcp_init_def)
qed

definition demo_frame :: "u8 \<Rightarrow> u32 \<Rightarrow> u8 list \<Rightarrow> u8 list" where
  "demo_frame fl sq d = (case frame_build TCP_FRAME (demo_reply fl sq d) of Some f \<Rightarrow> f | None \<Rightarrow> [])"

lemma parse_demo: "length d \<le> TCP_MSS \<Longrightarrow> frame_parse (demo_frame fl sq d) = Some (demo_reply fl sq d)"
proof -
  assume d: "length d \<le> TCP_MSS"
  then obtain f where f: "frame_build TCP_FRAME (demo_reply fl sq d) = Some f" by (simp add: frame_build_def demo_reply_def)
  then have "frame_parse f = Some (demo_reply fl sq d)"
    using d by (intro parse_build [OF _ _ _ f]) (simp_all add: demo_reply_def tcp_local_ip_def)
  then show ?thesis by (simp add: demo_frame_def f)
qed

lemma lookup_first: "pc_used (tc_pcbs s 0) \<Longrightarrow> pc_lport (tc_pcbs s 0) = lp \<Longrightarrow> pc_rport (tc_pcbs s 0) = rp \<Longrightarrow> pcb_lookup lp rp s = Some 0"
  by (simp add: pcb_lookup_def first_from_Some_iff)

lemma input_demo:
  assumes "length d \<le> TCP_MSS" "pc_used (tc_pcbs s 0)" "pc_lport (tc_pcbs s 0) = 40000" "pc_rport (tc_pcbs s 0) = 80"
  shows "tcp_input (demo_frame fl sq d) s = pcb_input 0 (demo_reply fl sq d) s"
    "peer_segment S irs (demo_reply fl sq d) \<Longrightarrow> from_peer S irs i (demo_frame fl sq d) s"
  using lookup_first [OF assms(2-4)]
  by (simp_all add: tcp_input_def from_peer_def parse_demo [OF assms(1)] demo_reply_def)

definition demo_est :: tcp where "demo_est = snd (tcp_input (demo_frame 18 5000 []) demo_open)"

lemma demo_est_pcb:
  "pc_used (tc_pcbs demo_est 0)" "pc_state (tc_pcbs demo_est 0) = TCP_ESTABLISHED" "pc_lport (tc_pcbs demo_est 0) = 40000"
  "pc_rport (tc_pcbs demo_est 0) = 80" "pc_rcv_nxt (tc_pcbs demo_est 0) = 5001" "pc_lip (tc_pcbs demo_est 0) = [10, 0, 2, 15]"
  "length (pc_rip (tc_pcbs demo_est 0)) = 4" "pc_rcv_wnd (tc_pcbs demo_est 0) = 1024" "pc_rlen (tc_pcbs demo_est 0) = 0"
  "pc_peer_wnd (tc_pcbs demo_est 0) = 512" "pc_snd_nxt (tc_pcbs demo_est 0) = 1008"
proof -
  have "tc_pcbs demo_est 0 = (tc_pcbs demo_open 0)\<lparr>pc_peer_wnd := 512, pc_rcv_nxt := 5001, pc_snd_una := 1008,
      pc_state := TCP_ESTABLISHED, pc_rex_active := False, pc_dupacks := 0\<rparr>"
    using pcb_input_synack(2) [of demo_open 0 "demo_reply 18 5000 []"] demo_open_pcb
    by (simp add: demo_est_def input_demo demo_reply_def)
  then show "pc_used (tc_pcbs demo_est 0)" "pc_state (tc_pcbs demo_est 0) = TCP_ESTABLISHED" "pc_lport (tc_pcbs demo_est 0) = 40000"
    "pc_rport (tc_pcbs demo_est 0) = 80" "pc_rcv_nxt (tc_pcbs demo_est 0) = 5001" "pc_lip (tc_pcbs demo_est 0) = [10, 0, 2, 15]"
    "length (pc_rip (tc_pcbs demo_est 0)) = 4" "pc_rcv_wnd (tc_pcbs demo_est 0) = 1024" "pc_rlen (tc_pcbs demo_est 0) = 0"
    "pc_peer_wnd (tc_pcbs demo_est 0) = 512" "pc_snd_nxt (tc_pcbs demo_est 0) = 1008"
    using demo_open_pcb by simp_all
qed

lemma demo_data_flags: "(24 :: u8) AND TCP_RST = 0" "(24 :: u8) AND TCP_FIN = 0" "(24 :: u8) AND TCP_SYN = 0"
    "(18 :: u8) AND TCP_SYN \<noteq> 0" "(18 :: u8) AND TCP_FIN = 0"
  by code_simp+

definition demo_read :: tcp where "demo_read = snd (tcp_input (demo_frame 24 5001 [104, 105]) demo_est)"

lemma tcp_in_order_data_acked_witness:
  "\<exists>f. wire (snd (pcb_input 0 (demo_reply 24 5001 [104, 105]) demo_est)) = wire demo_est @ [f]
     \<and> map sg_ack (case frame_parse f of Some g \<Rightarrow> [g] | None \<Rightarrow> []) = [5003]"
proof -
  have "\<exists>f. wire (snd (pcb_input 0 (demo_reply 24 5001 [104, 105]) demo_est)) = wire demo_est @ [f]
     \<and> frame_parse f = Some \<lparr>sg_src = pc_lip (tc_pcbs demo_est 0), sg_dst = pc_rip (tc_pcbs demo_est 0),
         sg_sport = pc_lport (tc_pcbs demo_est 0), sg_dport = pc_rport (tc_pcbs demo_est 0),
         sg_seq = pc_snd_nxt (tc_pcbs demo_est 0),
         sg_ack = pc_rcv_nxt (tc_pcbs demo_est 0) + of_nat (length (sg_data (demo_reply 24 5001 [104, 105]))),
         sg_flags = TCP_ACK, sg_wnd = pc_rcv_wnd (tc_pcbs demo_est 0), sg_data = []\<rparr>"
    using tcp_in_order_data_acked [of demo_est 0 "demo_reply 24 5001 [104, 105]"] demo_est_pcb demo_data_flags
    by (simp add: demo_reply_def)
  then show ?thesis using demo_est_pcb(5) by (auto simp: demo_reply_def)
qed



end
