(* ===== verification/Tcp_Wf.thy ===== *)
theory Tcp_Wf
  imports Tcp_Run
begin

text \<open>
  The well-formedness of the TCP state, which every operation keeps: no buffer is overrun, addresses have four bytes,
  the log and the port counter stay in range, and an armed retransmission slot has something to send.  A consequence
  is that the retransmission count never reaches its limit.
\<close>

definition pcb_wf :: "tcp_pcb \<Rightarrow> bool" where
  "pcb_wf p \<longleftrightarrow> pc_rlen p \<le> TCP_RBUF \<and> unat (pc_rex_len p) \<le> TCP_MSS \<and> pc_rex_count p \<in> {0, 1} \<and> quad (pc_lip p)
     \<and> quad (pc_rip p)
     \<and> (pc_rex_active p \<longrightarrow> pc_rex_len p \<noteq> 0 \<or> pc_rex_flags p AND (TCP_SYN OR TCP_FIN) \<noteq> 0)"

definition tcp_wf :: "tcp \<Rightarrow> bool" where
  "tcp_wf s \<longleftrightarrow> (\<forall>i. pcb_wf (tc_pcbs s i)) \<and> length (tc_txlog s) \<le> TCP_TXLOG
     \<and> (\<forall>e \<in> set (tc_txlog s). length (tx_data e) \<le> 64) \<and> 40000 \<le> tc_next_port s"

named_theorems tcp_wf_intros "operations that keep the TCP well-formed"

lemma wf_pcb: "tcp_wf s \<Longrightarrow> pcb_wf (tc_pcbs s i)"
  by (simp add: tcp_wf_def)

lemma on_pcb_wf: "tcp_wf s \<Longrightarrow> pcb_wf (h (tc_pcbs s i)) \<Longrightarrow> tcp_wf (on_pcb i h s)"
  by (simp add: tcp_wf_def)

lemma net_send_wf [tcp_wf_intros]: "tcp_wf s \<Longrightarrow> tcp_wf (net_send f s)"
  by (simp add: tcp_wf_def)

lemma tx_log_wf [tcp_wf_intros]: "tcp_wf s \<Longrightarrow> tcp_wf (tx_log a b c d s)"
  by (auto simp: tcp_wf_def tx_log_def)

lemma arm_rex_wf:
  assumes "pcb_wf p" "d \<noteq> [] \<or> fl AND (TCP_SYN OR TCP_FIN) \<noteq> 0"
  shows "pcb_wf (arm_rex sq fl d t p)"
proof -
  let ?n = "length (take TCP_MSS d)"
  have u: "unat (of_nat ?n :: u16) = ?n" by (rule unat_u16_of_nat) simp
  have "d \<noteq> [] \<Longrightarrow> 0 < ?n" by simp
  then have "d \<noteq> [] \<Longrightarrow> (of_nat ?n :: u16) \<noteq> 0" using u by (metis less_numeral_extra(3) unat_0)
  then show ?thesis using assms u unfolding pcb_wf_def arm_rex_def Let_def by auto
qed

lemma send_seg_at_wf [tcp_wf_intros]: "tcp_wf s \<Longrightarrow> tcp_wf (tcp_send_seg_at i sq fl d arm s)"
  unfolding tcp_send_seg_at_def Let_def
  by (auto split: option.split intro!: on_pcb_wf arm_rex_wf net_send_wf tx_log_wf intro: wf_pcb)

lemma send_seg_wf [tcp_wf_intros]: "tcp_wf s \<Longrightarrow> tcp_wf (tcp_send_seg i fl d s)"
  unfolding tcp_send_seg_def by (rule send_seg_at_wf)

text \<open>Every transmission arms the slot anew, the retransmission itself included.\<close>

lemma resend_count:
  assumes "pcb_wf (tc_pcbs s i)" "pc_rex_active (tc_pcbs s i)"
  shows "pc_rex_count (tc_pcbs (tcp_resend i s) i) = 1"
proof -
  let ?p = "tc_pcbs s i"
  have l: "length (rex_data ?p) = unat (pc_rex_len ?p)" by (simp add: rex_data_def)
  then have "rex_data ?p \<noteq> [] \<or> pc_rex_flags ?p AND (TCP_SYN OR TCP_FIN) \<noteq> 0"
    using assms unfolding pcb_wf_def by (metis list.size(3) unat_eq_zero)
  moreover have "length (rex_data ?p) \<le> TCP_MSS" using l assms(1) by (simp add: pcb_wf_def)
  ultimately have "pc_rex_count (tc_pcbs (tcp_send_seg_at i (pc_rex_seq ?p) (pc_rex_flags ?p) (rex_data ?p) True s) i) = 0"
    by (auto simp: tcp_send_seg_at_def Let_def frame_build_def)
  then show ?thesis by (simp add: tcp_resend_def Let_def)
qed

lemma resend_wf [tcp_wf_intros]:
  assumes "tcp_wf s" "pc_rex_active (tc_pcbs s i)"
  shows "tcp_wf (tcp_resend i s)"
proof -
  let ?p = "tc_pcbs s i"
  let ?u = "tcp_send_seg_at i (pc_rex_seq ?p) (pc_rex_flags ?p) (rex_data ?p) True s"
  have u: "tcp_wf ?u" by (rule send_seg_at_wf [OF assms(1)])
  have "pc_rex_count (tc_pcbs ?u i) + 1 = 1"
    using resend_count [OF wf_pcb [OF assms(1)] assms(2)] by (simp add: tcp_resend_def Let_def)
  then show ?thesis unfolding tcp_resend_def Let_def
    by (intro on_pcb_wf u) (use wf_pcb [OF u, of i] in \<open>simp add: pcb_wf_def\<close>)
qed

lemma take_ack_wf [tcp_wf_intros]: "tcp_wf s \<Longrightarrow> tcp_wf (take_ack i ak b s)"
  using wf_pcb [of s i] unfolding take_ack_def Let_def
  by (auto intro!: on_pcb_wf resend_wf simp: pcb_wf_def)

lemma take_data_wf: "pcb_wf p \<Longrightarrow> pcb_wf (take_data sq d p)"
  by (auto simp: take_data_def Let_def pcb_wf_def)

lemma tcp_wf_if: "(P \<Longrightarrow> tcp_wf a) \<Longrightarrow> (\<not> P \<Longrightarrow> tcp_wf b) \<Longrightarrow> tcp_wf (if P then a else b)"
  by simp

lemma pcb_input_wf [tcp_wf_intros]:
  assumes s: "tcp_wf s"
  shows "tcp_wf (snd (pcb_input i g s))"
proof -
  define s0 where "s0 = on_pcb i (\<lambda>p. p\<lparr>pc_peer_wnd := sg_wnd g\<rparr>) s"
  have s0: "tcp_wf s0" unfolding s0_def using wf_pcb [OF s, of i] by (intro on_pcb_wf s) (simp add: pcb_wf_def)
  have a: "tcp_wf (on_pcb i (take_data (sg_seq g) (sg_data g)) s0)"
    by (intro on_pcb_wf s0 take_data_wf wf_pcb)
  have b: "tcp_wf u \<Longrightarrow> tcp_wf (tcp_send_seg i TCP_ACK []
      (on_pcb i (\<lambda>q. q\<lparr>pc_rcv_nxt := pc_rcv_nxt q + 1, pc_state := TCP_CLOSE_WAIT\<rparr>) u))" for u
    using wf_pcb [of u i] by (intro send_seg_wf on_pcb_wf) (simp_all add: pcb_wf_def)
  have c: "tcp_wf (on_pcb i (\<lambda>q. q\<lparr>pc_state := TCP_CLOSED, pc_rex_active := False\<rparr>) s0)"
    "tcp_wf (on_pcb i (\<lambda>q. q\<lparr>pc_rcv_nxt := x, pc_snd_una := y, pc_state := TCP_ESTABLISHED, pc_rex_active := False,
       pc_dupacks := 0\<rparr>) s0)" for x y
    using wf_pcb [OF s0, of i] by (intro on_pcb_wf s0; simp add: pcb_wf_def)+
  show ?thesis
    unfolding pcb_input_def Let_def s0_def [symmetric] if_distrib [of snd] snd_conv
    by (intro tcp_wf_if take_ack_wf b send_seg_wf a c s0)
qed

lemma tick_pcb_wf [tcp_wf_intros]:
  assumes s: "tcp_wf s" shows "tcp_wf (tick_pcb i s)"
proof -
  have "pc_rex_active (tc_pcbs s i) \<Longrightarrow> tcp_wf (on_pcb i (\<lambda>q. q\<lparr>pc_rex_deadline := x\<rparr>) (tcp_resend i s))" for x
    using wf_pcb [OF resend_wf [OF s], of i i] by (intro on_pcb_wf resend_wf s) (simp_all add: pcb_wf_def)
  moreover have "tcp_wf (on_pcb i (\<lambda>q. q\<lparr>pc_state := TCP_CLOSED, pc_rex_active := False\<rparr>) s)"
    using wf_pcb [OF s, of i] by (intro on_pcb_wf s) (simp add: pcb_wf_def)
  ultimately show ?thesis using s by (simp add: tick_pcb_def Let_def)
qed

lemma fold_tick_wf [tcp_wf_intros]: "tcp_wf s \<Longrightarrow> tcp_wf (fold tick_pcb js s)"
  by (induction js arbitrary: s) (simp_all add: tick_pcb_wf)
lemma zero_pcb_wf: "pcb_wf zero_pcb"
  by (simp add: pcb_wf_def zero_pcb_def)

lemma tcp_init_wf [tcp_wf_intros]: "40000 \<le> tc_next_port s \<Longrightarrow> tcp_wf (tcp_init s)"
  by (simp add: tcp_wf_def tcp_init_def zero_pcb_wf)

lemma bump_port_wf: "tcp_wf s \<Longrightarrow> tcp_wf (bump_port s)"
  by (simp add: tcp_wf_def bump_port_def Let_def not_less)

lemma input_wf [tcp_wf_intros]: "tcp_wf s \<Longrightarrow> tcp_wf (snd (tcp_input f s))"
  unfolding tcp_input_def by (auto split: option.split simp: pcb_input_wf)

lemma send_data_wf [tcp_wf_intros]: "tcp_wf s \<Longrightarrow> tcp_wf (snd (tcp_send_data c dat n s))"
proof -
  assume s: "tcp_wf s"
  have "tcp_wf u \<Longrightarrow> tcp_wf (on_pcb i (\<lambda>q. q\<lparr>pc_snd_nxt := pc_snd_nxt q + x\<rparr>) u)" for u i x
    using wf_pcb [of u i] by (intro on_pcb_wf) (simp_all add: pcb_wf_def)
  then show ?thesis using s unfolding tcp_send_data_def Let_def
    by (auto split: option.split simp: send_seg_wf)
qed

lemma connect_wf [tcp_wf_intros]:
  assumes s: "tcp_wf s0" shows "tcp_wf (snd (tcp_connect rip rport s0))"
proof -
  define s where "s = (if tc_on s0 then s0 else tcp_init s0)"
  have wf: "tcp_wf s" using s tcp_init_wf [of s0] by (simp add: s_def tcp_wf_def)
  show ?thesis
  proof (cases "first_from (\<lambda>i. \<not> pc_used (tc_pcbs s i)) 0 TCP_MAXPCB")
    case None
    then show ?thesis using wf by (simp add: tcp_connect_def Let_def s_def [symmetric])
  next
    case (Some i)
    let ?iss = "ticks s + of_nat i * 0x10000 + 1000"
    let ?p = "zero_pcb\<lparr>pc_used := True, pc_state := TCP_SYN_SENT, pc_lip := tcp_local_ip,
                     pc_rip := ip_bytes rip, pc_lport := tc_next_port s, pc_rport := rport, pc_snd_nxt := ?iss,
                     pc_snd_una := ?iss, pc_rcv_nxt := 0, pc_rcv_wnd := tc_def_wnd s, pc_peer_wnd := 65535\<rparr>"
    have "pcb_wf ?p" by (simp add: pcb_wf_def zero_pcb_def tcp_local_ip_def ip_bytes_def)
    then have u: "tcp_wf (tcp_send_seg i TCP_SYN [] (on_pcb i (\<lambda>_. ?p) (bump_port s)))"
      by (intro send_seg_wf on_pcb_wf bump_port_wf wf)
    have "tcp_wf (on_pcb i (\<lambda>q. q\<lparr>pc_snd_nxt := ?iss + 1\<rparr>) (tcp_send_seg i TCP_SYN [] (on_pcb i (\<lambda>_. ?p) (bump_port s))))"
      by (intro on_pcb_wf u) (use wf_pcb [OF u, of i] in \<open>simp add: pcb_wf_def\<close>)
    then show ?thesis using Some by (simp add: tcp_connect_def Let_def s_def [symmetric])
  qed
qed

lemma tick_wf [tcp_wf_intros]: "tcp_wf s \<Longrightarrow> tcp_wf (tcp_tick s)"
  by (simp add: tcp_tick_def fold_tick_wf del: upt_rec_numeral)

lemma set_rwnd_wf [tcp_wf_intros]: "tcp_wf s \<Longrightarrow> tcp_wf (tcp_set_rwnd c w s)"
  unfolding tcp_set_rwnd_def using on_pcb_wf [of s "\<lambda>p. p\<lparr>pc_rcv_wnd := w\<rparr>"] wf_pcb [of s]
  by (auto split: option.split simp: pcb_wf_def)

lemma boot_tcp_wf: "tcp_wf boot_tcp"
  by (simp add: tcp_wf_def boot_tcp_def zero_pcb_wf)

text \<open>C31.  Well-formedness of the TCP state is kept by every operation, whatever frame arrives and whatever is asked: a
  receive buffer never holds more than 1024 bytes, a retransmission slot never more than 512, the log never more than
  16 entries of 64 bytes, ports stay at 40000 or above, addresses have four bytes, and an armed slot can be sent.\<close>

theorem tcp_wf_kept:
  assumes "tcp_wf s"
  shows "tcp_wf (snd (tcp_input f s)) \<and> tcp_wf (snd (tcp_send_data c dat n s)) \<and> tcp_wf (snd (tcp_connect rip rport s))
    \<and> tcp_wf (tcp_tick s) \<and> tcp_wf (tcp_init s) \<and> tcp_wf (tcp_set_rwnd c w s) \<and> tcp_wf (tcp_set_rto r s)"
proof (intro conjI)
  show "tcp_wf (tcp_init s)" using assms by (intro tcp_init_wf) (simp add: tcp_wf_def)
  show "tcp_wf (tcp_set_rto r s)" using assms by (simp add: tcp_wf_def tcp_set_rto_def)
qed (intro tcp_wf_intros assms)+

lemma tcp_wf_kept_witness: "tcp_wf (snd (tcp_connect 0x0A000202 80 boot_tcp)) \<and> tcp_wf (tcp_tick boot_tcp)"
  using tcp_wf_kept [OF boot_tcp_wf, where rip = "0x0A000202" and rport = 80] by blast

section \<open>What the invariant shows about the code\<close>

text \<open>The retransmission limit is never reached: a retransmission arms the slot, which sets the count to zero again, so
  the timer never closes a connection.\<close>

theorem tick_never_gives_up:
  assumes "tcp_wf s" shows "pc_state (tc_pcbs (tick_pcb i s) j) = pc_state (tc_pcbs s j)"
proof -
  have "pc_rex_count (tc_pcbs s i) \<in> {0, 1}" using wf_pcb [OF assms, of i] by (simp add: pcb_wf_def)
  then have n: "\<not> unat (pc_rex_count (tc_pcbs s i)) \<ge> TCP_MAXRETX" by auto
  have "pc_state (tc_pcbs (tcp_resend i s) k) = pc_state (tc_pcbs s k)" for k
    by (rule tcp_view_fields(2)) simp
  then show ?thesis using n by (simp add: tick_pcb_def Let_def)
qed

text \<open>Once \<open>snd_nxt\<close> has wrapped below \<open>snd_una\<close>, no acknowledgement moves \<open>snd_una\<close> any more.\<close>

theorem ack_stuck_at_wrap:
  assumes "pc_snd_nxt (tc_pcbs s i) < pc_snd_una (tc_pcbs s i)"
  shows "pc_snd_una (tc_pcbs (take_ack i ak b s) i) = pc_snd_una (tc_pcbs s i)"
proof -
  have "\<not> (pc_snd_una (tc_pcbs s i) < ak \<and> ak \<le> pc_snd_nxt (tc_pcbs s i))" using assms by (meson dual_order.strict_trans2 not_less_iff_gr_or_eq)
  moreover have "pc_snd_una (tc_pcbs (tcp_resend i u) i) = pc_snd_una (tc_pcbs u i)" for u
    by (rule tcp_view_fields(8)) simp
  ultimately show ?thesis by (auto simp: take_ack_def Let_def)
qed

text \<open>A FIN on a segment whose data fall outside the window (or find the buffer full) is taken although its data were
  not: \<open>rcv_nxt\<close> still equals the sequence number.\<close>

theorem fin_taken_over_dropped_data:
  fixes s i g defines "p \<equiv> tc_pcbs s i" and "t \<equiv> snd (pcb_input i g s)"
  assumes "pc_state p = TCP_ESTABLISHED" "sg_flags g = TCP_FIN" "sg_seq g = pc_rcv_nxt p"
    "length (sg_data g) > unat (pc_rcv_wnd p)"
  shows "pc_state (tc_pcbs t i) = TCP_CLOSE_WAIT" "pc_rlen (tc_pcbs t i) = pc_rlen p" "pc_rcv_nxt (tc_pcbs t i) = pc_rcv_nxt p + 1"
proof -
  have f: "TCP_FIN AND TCP_RST = 0" "TCP_FIN AND TCP_ACK = 0" by code_simp+
  have d: "sg_data g \<noteq> []" using assms(6) by auto
  show "pc_state (tc_pcbs t i) = TCP_CLOSE_WAIT" "pc_rlen (tc_pcbs t i) = pc_rlen p"
    "pc_rcv_nxt (tc_pcbs t i) = pc_rcv_nxt p + 1"
    using assms d f unfolding t_def p_def by (simp_all add: pcb_input_def Let_def take_data_def)
qed

text \<open>A reset is obeyed whatever its sequence number and sender: the two ports are enough.\<close>

theorem reset_needs_ports_only:
  assumes "frame_parse f = Some g" "sg_dst g = tcp_local_ip" "pcb_lookup (sg_dport g) (sg_sport g) s = Some i"
    "sg_flags g AND TCP_RST \<noteq> 0"
  shows "pc_state (tc_pcbs (snd (tcp_input f s)) i) = TCP_CLOSED"
  using assms by (simp add: tcp_input_def pcb_input_def Let_def)

text \<open>A control block is never given back, so the fifth connection of a boot is refused.\<close>

lemma connect_refused: "tc_on s \<Longrightarrow> (\<forall>i<TCP_MAXPCB. pc_used (tc_pcbs s i)) \<Longrightarrow> tcp_connect rip rport s = (-1, s)"
proof -
  assume a: "tc_on s" "\<forall>i<TCP_MAXPCB. pc_used (tc_pcbs s i)"
  then have "first_from (\<lambda>i. \<not> pc_used (tc_pcbs s i)) 0 TCP_MAXPCB = None" by (simp add: first_from_None_iff)
  then show ?thesis using a(1) by (simp add: tcp_connect_def Let_def)
qed

text \<open>A second send before the first is acknowledged leaves no copy of the first: the slot begins at the second's
  number, past \<open>snd_una\<close>.\<close>

theorem second_send_drops_unacked:
  assumes c: "pcb_get c s = Some i" and k: "tcp_send_data c dat n s = (k, t)" "0 < k"
    and un: "pc_snd_una (tc_pcbs s i) \<noteq> pc_snd_nxt (tc_pcbs s i)"
  shows "pc_snd_una (tc_pcbs t i) \<noteq> pc_rex_seq (tc_pcbs t i) \<and> pc_snd_una (tc_pcbs t i) = pc_snd_una (tc_pcbs s i)"
  using send_data_slot(3,5) [OF c, of dat n k] k un by simp

text \<open>A FIN that comes with data is ignored once the data are taken: it is compared with the number after them.\<close>

theorem fin_with_data_ignored:
  fixes s i g defines "p \<equiv> tc_pcbs s i" and "t \<equiv> snd (pcb_input i g s)"
  assumes st: "pc_state p = TCP_ESTABLISHED" and fl: "sg_flags g = TCP_FIN" and sq: "sg_seq g = pc_rcv_nxt p"
    and d: "sg_data g \<noteq> []" "length (sg_data g) \<le> unat (pc_rcv_wnd p)" "pc_rlen p + length (sg_data g) \<le> TCP_RBUF"
  shows "pc_state (tc_pcbs t i) = TCP_ESTABLISHED \<and> pc_rlen (tc_pcbs t i) = pc_rlen p + length (sg_data g)"
proof -
  have f: "TCP_FIN AND TCP_RST = 0" "TCP_FIN AND TCP_ACK = 0" by code_simp+
  have m: "min (length (sg_data g)) (TCP_RBUF - pc_rlen p) = length (sg_data g)" using d(3) by simp
  have l: "length (sg_data g) < 2 ^ 32" using d(3) by simp
  have "(of_nat (length (sg_data g)) :: u32) \<noteq> 0"
  proof
    assume "(of_nat (length (sg_data g)) :: u32) = 0"
    then have "unat (of_nat (length (sg_data g)) :: u32) = 0" by simp
    then show False using d(1) unat_of_nat_u32 [OF l] by simp
  qed
  then show ?thesis
    using st fl sq d f m unfolding t_def p_def by (simp add: pcb_input_def Let_def take_data_def)
qed

end
