(* ===== verification/Net.thy ===== *)
theory Net
  imports Tcp_Wf
begin

text \<open>
  The network layer of \<open>net/net.c\<close> over the transmit ring of \<open>net/e1000.c\<close>: ARP, IPv4, ICMP echo, UDP sockets and the
  hand-over of TCP frames.  A frame is the list of its bytes; \<open>stack_byte i\<close> is what byte \<open>i\<close> of a frame
  built on the stack holds before it is written.  The device is the function \<open>hw\<close>: whether it has reported the descriptor done by the end
  of the driver's wait.
\<close>

section \<open>The transmit ring\<close>

abbreviation NIC_TX_DESC :: nat where "NIC_TX_DESC \<equiv> 32"
abbreviation NIC_BUF_SIZE :: nat where "NIC_BUF_SIZE \<equiv> 2048"

record nic =
  nic_present :: bool
  txq_len :: "nat \<Rightarrow> u16"
  txq_cmd :: "nat \<Rightarrow> u8"
  txq_done :: "nat \<Rightarrow> bool"
  tx_bufs :: "nat \<Rightarrow> u8 list"
  tx_tail :: nat
  on_wire :: "u8 list list"

definition e1000_send :: "(u8 list \<Rightarrow> bool) \<Rightarrow> u8 list \<Rightarrow> nic \<Rightarrow> int \<times> nic" where
  "e1000_send hw data n =
     (if \<not> nic_present n \<or> data = [] then (-1, n)
      else let d = take NIC_BUF_SIZE data; idx = tx_tail n in
        if txq_done n idx then (-1, n)
        else if txq_cmd n idx \<noteq> 0 then (-1, n)
        else (int (length d), n\<lparr>tx_bufs := (tx_bufs n)(idx := d), txq_len := (txq_len n)(idx := of_nat (length d)),
                 txq_cmd := (txq_cmd n)(idx := 0x0B), txq_done := (txq_done n)(idx := hw d),
                 tx_tail := (idx + 1) mod NIC_TX_DESC, on_wire := on_wire n @ [d]\<rparr>))"

section \<open>State\<close>

abbreviation ETH_TYPE_ARP :: u16 where "ETH_TYPE_ARP \<equiv> 0x0806"
abbreviation ETH_TYPE_IP :: u16 where "ETH_TYPE_IP \<equiv> 0x0800"
abbreviation IP_PROTO_ICMP :: u8 where "IP_PROTO_ICMP \<equiv> 1"
abbreviation IP_PROTO_UDP :: u8 where "IP_PROTO_UDP \<equiv> 17"
abbreviation IP_PROTO_TCP :: u8 where "IP_PROTO_TCP \<equiv> 6"
abbreviation NET_BUF :: nat where "NET_BUF \<equiv> 1536"
abbreviation ARP_CACHE :: nat where "ARP_CACHE \<equiv> 8"
abbreviation UDP_MAX_SOCK :: nat where "UDP_MAX_SOCK \<equiv> 4"
abbreviation UDP_RBUF :: nat where "UDP_RBUF \<equiv> 2048"

definition net_local_ip :: u32 where "net_local_ip = 0x0A00020F"

record arp_entry =
  arp_ip :: u32
  arp_mac :: "u8 list"
  arp_used :: bool

record udp_sock =
  us_used :: bool
  us_lport :: u16
  us_rport :: u16
  us_rip :: u32
  us_rbuf :: "nat \<Rightarrow> u8"
  us_rlen :: nat

record net =
  nt_mac :: "u8 list"
  arp_cache :: "nat \<Rightarrow> arp_entry"
  arp_count_ev :: u8
  ip_id_seq :: u16
  udp_socks :: "nat \<Rightarrow> udp_sock"
  ping_id :: u16
  ping_reply :: bool
  nt_tcp :: tcp
  nt_nic :: nic
  stack_byte :: "nat \<Rightarrow> u8"

definition net_put :: "(u8 list \<Rightarrow> bool) \<Rightarrow> u8 list \<Rightarrow> net \<Rightarrow> int \<times> net" where
  "net_put hw f s = (let (r, n) = e1000_send hw f (nt_nic s) in (r, s\<lparr>nt_nic := n\<rparr>))"

section \<open>ARP\<close>

definition arp_find :: "u32 \<Rightarrow> net \<Rightarrow> nat option" where
  "arp_find ip s = first_from (\<lambda>i. arp_used (arp_cache s i) \<and> arp_ip (arp_cache s i) = ip) 0 ARP_CACHE"

definition arp_lookup :: "u32 \<Rightarrow> net \<Rightarrow> u8 list option" where
  "arp_lookup ip s = map_option (\<lambda>i. arp_mac (arp_cache s i)) (arp_find ip s)"

definition arp_add :: "u32 \<Rightarrow> u8 list \<Rightarrow> net \<Rightarrow> net" where
  "arp_add ip mac s =
     (case arp_find ip s of
        Some i \<Rightarrow> s\<lparr>arp_cache := (arp_cache s)(i := (arp_cache s i)\<lparr>arp_mac := mac\<rparr>)\<rparr>
      | None \<Rightarrow>
          let i = unat (arp_count_ev s) mod ARP_CACHE in
          s\<lparr>arp_count_ev := arp_count_ev s + 1,
            arp_cache := (arp_cache s)(i := \<lparr>arp_ip = ip, arp_mac = mac, arp_used = True\<rparr>)\<rparr>)"

definition arp_request :: "(u8 list \<Rightarrow> bool) \<Rightarrow> u32 \<Rightarrow> net \<Rightarrow> net" where
  "arp_request hw ip s =
     snd (net_put hw (replicate 6 0xFF @ nt_mac s @ be16 ETH_TYPE_ARP @ be16 1 @ be16 ETH_TYPE_IP @ [6, 4] @ be16 1
            @ nt_mac s @ be32 net_local_ip @ replicate 6 0 @ be32 ip) s)"

text \<open>The target's protocol address is stored at offset 36, over the end of its hardware address; the last two bytes of
  the frame are never written.\<close>

definition arp_reply :: "(u8 list \<Rightarrow> bool) \<Rightarrow> u8 list \<Rightarrow> u32 \<Rightarrow> net \<Rightarrow> net" where
  "arp_reply hw mac ip s =
     snd (net_put hw (mac @ nt_mac s @ be16 ETH_TYPE_ARP @ be16 1 @ be16 ETH_TYPE_IP @ [6, 4] @ be16 2
            @ nt_mac s @ be32 net_local_ip @ take 4 mac @ be32 ip @ [stack_byte s 40, stack_byte s 41]) s)"

definition arp_handle :: "(u8 list \<Rightarrow> bool) \<Rightarrow> u8 list \<Rightarrow> net \<Rightarrow> net" where
  "arp_handle hw p s =
     (if length p < 28 then s
      else if get16 p 0 \<noteq> 1 \<or> get16 p 2 \<noteq> ETH_TYPE_IP then s
      else let spa = get32 p 14; tpa = get32 p 24; smac = take 6 (drop 8 p); s1 = arp_add spa smac s in
        if get16 p 6 = 1 \<and> tpa = net_local_ip then arp_reply hw smac spa s1 else s1)"

section \<open>Sending a datagram\<close>

definition net_ip_header :: "u16 \<Rightarrow> u8 \<Rightarrow> u32 \<Rightarrow> nat \<Rightarrow> u8 list" where
  "net_ip_header idn proto dst dlen =
     (let h = [0x45, 0] @ be16 (of_nat (20 + dlen)) @ be16 idn @ be16 0x4000 @ [64, proto] @ be16 0
                @ be32 net_local_ip @ be32 dst
      in put16 10 (ip_cksum h) h)"

definition ip_sendframe :: "(u8 list \<Rightarrow> bool) \<Rightarrow> u32 \<Rightarrow> u8 \<Rightarrow> u8 list \<Rightarrow> net \<Rightarrow> int \<times> net" where
  "ip_sendframe hw dst proto data s =
     (case arp_lookup dst s of
        None \<Rightarrow> (-1, arp_request hw dst s)
      | Some mac \<Rightarrow>
          if 34 + length data > NET_BUF then (-1, s)
          else net_put hw (mac @ nt_mac s @ be16 ETH_TYPE_IP @ net_ip_header (ip_id_seq s) proto dst (length data) @ data)
                 (s\<lparr>ip_id_seq := ip_id_seq s + 1\<rparr>))"

section \<open>ICMP\<close>

definition with_cksum :: "nat \<Rightarrow> u8 list \<Rightarrow> u8 list" where
  "with_cksum i d = put16 i (NOT (ones_sum d)) d"

definition net_icmp_send :: "(u8 list \<Rightarrow> bool) \<Rightarrow> u32 \<Rightarrow> net \<Rightarrow> net" where
  "net_icmp_send hw dst s =
     (let pid = 0xBEEF + ip_id_seq s;
          d = [8, 0] @ be16 0 @ be16 pid @ be16 0 @ map (\<lambda>i. of_nat (0x11 + i)) [8..<32]
      in snd (ip_sendframe hw dst IP_PROTO_ICMP (with_cksum 2 d) (s\<lparr>ping_id := pid\<rparr>)))"

definition icmp_handle :: "(u8 list \<Rightarrow> bool) \<Rightarrow> u32 \<Rightarrow> u8 list \<Rightarrow> net \<Rightarrow> net" where
  "icmp_handle hw src p s =
     (if length p < 8 then s
      else if p ! 0 = 8 then
        let d = put16 2 0 ((take 64 p)[0 := 0]) in snd (ip_sendframe hw src IP_PROTO_ICMP (with_cksum 2 d) s)
      else if p ! 0 = 0 \<and> get16 p 4 = ping_id s then s\<lparr>ping_reply := True\<rparr>
      else s)"

section \<open>UDP\<close>

definition udp_sock_open :: "u16 \<Rightarrow> net \<Rightarrow> int \<times> net" where
  "udp_sock_open lport s =
     (case first_from (\<lambda>i. \<not> us_used (udp_socks s i)) 0 UDP_MAX_SOCK of
        None \<Rightarrow> (-1, s)
      | Some i \<Rightarrow> (int i, s\<lparr>udp_socks := (udp_socks s)(i := (udp_socks s i)\<lparr>us_used := True, us_lport := lport,
            us_rport := 0, us_rip := 0, us_rlen := 0\<rparr>)\<rparr>))"

definition udp_cksum :: "u32 \<Rightarrow> u8 list \<Rightarrow> u16" where
  "udp_cksum dst uh =
     (let ps = be32 net_local_ip @ be32 dst @ [0, IP_PROTO_UDP] @ be16 (of_nat (length uh))
      in NOT (ucast (fold16 (ucast (ones_sum ps) + ucast (ones_sum uh)))))"

definition udp_packet :: "u16 \<Rightarrow> u32 \<Rightarrow> u16 \<Rightarrow> u8 list \<Rightarrow> u8 list" where
  "udp_packet sport dst dport d =
     (let uh = be16 sport @ be16 dport @ be16 (of_nat (8 + length d)) @ be16 0 @ d in put16 6 (udp_cksum dst uh) uh)"

definition udp_sock_send :: "(u8 list \<Rightarrow> bool) \<Rightarrow> int \<Rightarrow> u32 \<Rightarrow> u16 \<Rightarrow> u8 list \<Rightarrow> net \<Rightarrow> int \<times> net" where
  "udp_sock_send hw fd dst dport data s =
     (if fd < 0 \<or> int UDP_MAX_SOCK \<le> fd \<or> \<not> us_used (udp_socks s (nat fd)) then (-1, s)
      else let i = nat fd;
               (r, s1) = ip_sendframe hw dst IP_PROTO_UDP
                           (udp_packet (us_lport (udp_socks s i)) dst dport (take 1472 data)) s
        in if r \<ge> 0 then (r, s1\<lparr>udp_socks := (udp_socks s1)(i := (udp_socks s1 i)\<lparr>us_rip := dst, us_rport := dport\<rparr>)\<rparr>)
           else (r, s1))"

definition udp_handle :: "u8 list \<Rightarrow> net \<Rightarrow> net" where
  "udp_handle pl s =
     (if length pl < 8 then s
      else case first_from (\<lambda>i. us_used (udp_socks s i) \<and> us_lport (udp_socks s i) = get16 pl 2) 0 UDP_MAX_SOCK of
          None \<Rightarrow> s
        | Some i \<Rightarrow>
            let d = take UDP_RBUF (drop 8 pl) in
            s\<lparr>udp_socks := (udp_socks s)(i := (udp_socks s i)\<lparr>us_rbuf := fill 0 d (us_rbuf (udp_socks s i)),
                us_rlen := length d\<rparr>)\<rparr>)"

section \<open>Receiving\<close>

text \<open>The frames TCP hands to \<open>net_send_packet\<close> go to the ring, whose refusal TCP does not see.\<close>

definition net_tcp_input :: "(u8 list \<Rightarrow> bool) \<Rightarrow> u8 list \<Rightarrow> net \<Rightarrow> net" where
  "net_tcp_input hw f s =
     (let t = snd (tcp_input f (nt_tcp s)) in
      fold (\<lambda>g u. snd (net_put hw g u)) (drop (length (wire (nt_tcp s))) (wire t)) (s\<lparr>nt_tcp := t\<rparr>))"

definition ip_handle :: "(u8 list \<Rightarrow> bool) \<Rightarrow> u8 list \<Rightarrow> u8 list \<Rightarrow> net \<Rightarrow> net" where
  "ip_handle hw eth p s =
     (if length p < 20 then s
      else if drop_bit 4 (p ! 0) \<noteq> 4 then s
      else if ip_cksum p \<noteq> 0 then s
      else let ih = unat (p ! 0 AND 0x0F) * 4 in
        if ih < 20 \<or> length p < ih then s
        else let src = get32 p 12; dst = get32 p 16 in
          if dst \<noteq> net_local_ip \<and> dst \<noteq> 0xFFFFFFFF then s
          else let total = unat (get16 p 2);
                   plen = (if total < ih \<or> total - ih > length p - ih then length p - ih else total - ih);
                   pl = take plen (drop ih p) in
            if p ! 9 = IP_PROTO_ICMP then icmp_handle hw src pl s
            else if p ! 9 = IP_PROTO_UDP then udp_handle pl s
            else if p ! 9 = IP_PROTO_TCP then net_tcp_input hw (eth @ take (ih + plen) p) s
            else s)"

definition net_handle_packet :: "(u8 list \<Rightarrow> bool) \<Rightarrow> u8 list \<Rightarrow> net \<Rightarrow> net" where
  "net_handle_packet hw f s =
     (if length f < 14 then s
      else if get16 f 12 = ETH_TYPE_ARP then arp_handle hw (drop 14 f) s
      else if get16 f 12 = ETH_TYPE_IP then ip_handle hw (take 14 f) (drop 14 f) s
      else s)"

definition net_icmp_reset :: "net \<Rightarrow> net" where
  "net_icmp_reset s = s\<lparr>ping_reply := False\<rparr>"

text \<open>\<open>net_init\<close>: the tables are cleared; \<open>mac\<close> is what the card reports.\<close>

definition net_init :: "u8 list \<Rightarrow> net \<Rightarrow> net" where
  "net_init mac s = s\<lparr>arp_cache := (\<lambda>_. \<lparr>arp_ip = 0, arp_mac = replicate 6 0, arp_used = False\<rparr>),
     udp_socks := (\<lambda>_. \<lparr>us_used = False, us_lport = 0, us_rport = 0, us_rip = 0, us_rbuf = (\<lambda>_. 0), us_rlen = 0\<rparr>),
     nt_mac := mac\<rparr>"

section \<open>The receive ring\<close>

abbreviation NIC_RX_DESC :: nat where "NIC_RX_DESC \<equiv> 32"

record rx_ring =
  rx_done :: "nat \<Rightarrow> bool"
  rx_eop :: "nat \<Rightarrow> bool"
  rx_bufs :: "nat \<Rightarrow> u8 list"
  rx_cur :: nat

text \<open>One round of \<open>e1000_poll\<close>; \<open>rx_bufs r i\<close> holds the \<open>length\<close> bytes the card reported for descriptor \<open>i\<close>.\<close>

definition poll_one :: "(u8 list \<Rightarrow> bool) \<Rightarrow> rx_ring \<times> net \<Rightarrow> rx_ring \<times> net" where
  "poll_one hw = (\<lambda>(r, s).
     let i = rx_cur r; f = take NIC_BUF_SIZE (rx_bufs r i);
         s1 = (if f \<noteq> [] \<and> rx_eop r i then net_handle_packet hw f s else s)
     in (r\<lparr>rx_done := (rx_done r)(i := False), rx_cur := (i + 1) mod NIC_RX_DESC\<rparr>, s1))"

definition rx_waiting :: "rx_ring \<Rightarrow> nat set" where
  "rx_waiting r = {i. i < NIC_RX_DESC \<and> rx_done r i}"

lemma poll_one_fewer:
  assumes "rx_cur r < NIC_RX_DESC" "rx_done r (rx_cur r)"
  shows "card (rx_waiting (fst (poll_one hw (r, s)))) < card (rx_waiting r)"
proof (rule psubset_card_mono)
  show "finite (rx_waiting r)" by (simp add: rx_waiting_def)
  have "rx_waiting (fst (poll_one hw (r, s))) = rx_waiting r - {rx_cur r}"
    by (auto simp: rx_waiting_def poll_one_def Let_def)
  then show "rx_waiting (fst (poll_one hw (r, s))) \<subset> rx_waiting r" using assms by (auto simp: rx_waiting_def)
qed

text \<open>The index stays below the ring's size, which the guard spells out; each round gives one descriptor back.\<close>

function e1000_poll :: "(u8 list \<Rightarrow> bool) \<Rightarrow> rx_ring \<Rightarrow> net \<Rightarrow> rx_ring \<times> net" where
  "e1000_poll hw r s =
     (if \<not> nic_present (nt_nic s) \<or> NIC_RX_DESC \<le> rx_cur r \<or> \<not> rx_done r (rx_cur r) then (r, s)
      else e1000_poll hw (fst (poll_one hw (r, s))) (snd (poll_one hw (r, s))))"
  by pat_completeness auto

termination
  by (relation "measure (\<lambda>(hw, r, s). card (rx_waiting r))") (simp_all add: case_prod_beta poll_one_fewer)

declare e1000_poll.simps [simp del]

section \<open>Datagrams arrive\<close>

lemma net_ip_header_facts:
  shows "length (net_ip_header n pr dst l) = 20" "net_ip_header n pr dst l ! 0 = 0x45" "net_ip_header n pr dst l ! 9 = pr"
    "get16 (net_ip_header n pr dst l) 2 = of_nat (20 + l)" "get32 (net_ip_header n pr dst l) 12 = net_local_ip"
    "get32 (net_ip_header n pr dst l) 16 = dst" "ip_cksum (net_ip_header n pr dst l) = 0"
proof -
  let ?h = "[0x45, 0] @ be16 (of_nat (20 + l)) @ be16 n @ be16 0x4000 @ [64, pr] @ be16 0 @ be32 net_local_ip @ be32 dst"
  have len: "length ?h = 20" by (simp add: be16_def be32_def)
  have e: "net_ip_header n pr dst l = put16 10 (ip_cksum ?h) ?h" by (simp add: net_ip_header_def Let_def)
  show "length (net_ip_header n pr dst l) = 20" unfolding e using len by simp
  show "net_ip_header n pr dst l ! 0 = 0x45" "net_ip_header n pr dst l ! 9 = pr"
    unfolding e by (simp_all add: put16_def be16_def be32_def)
  show "get16 (net_ip_header n pr dst l) 2 = of_nat (20 + l)"
    unfolding e by (simp add: put16_def be16_def get16_def word16_bytes)
  show "get32 (net_ip_header n pr dst l) 12 = net_local_ip" "get32 (net_ip_header n pr dst l) 16 = dst"
    unfolding e by (simp_all only: put16_def be16_def be32_def) (simp_all add: get32_def word32_bytes)
  have z: "?h ! 10 = 0" "?h ! (10 + 1) = 0" by (simp_all add: be16_def)
  have "NOT (ucast (fold16 (wsum (put16 10 (NOT (ucast (fold16 (wsum ?h 0)))) ?h) 0)) :: u16) = 0"
    using z len nsum_le [of ?h] by (intro checksum_vanishes) simp_all
  then show "ip_cksum (net_ip_header n pr dst l) = 0"
    unfolding e ip_cksum_def ones_sum_def using len by simp
qed

lemma four_is_45: "drop_bit 4 (0x45 :: u8) = 4" "unat ((0x45 :: u8) AND 0x0F) = 5"
  by code_simp+

text \<open>Every datagram the kernel sends to its own address reaches the handler of its protocol with its payload.\<close>

lemma datagram_received:
  assumes E: "length E = 14" "get16 E 12 = ETH_TYPE_IP" and l: "length d \<le> 1480"
    and f: "f = E @ net_ip_header n pr net_local_ip (length d) @ d"
  shows "net_handle_packet hw f s =
    (if pr = IP_PROTO_ICMP then icmp_handle hw net_local_ip d s
     else if pr = IP_PROTO_UDP then udp_handle d s
     else if pr = IP_PROTO_TCP then net_tcp_input hw f s else s)"
proof -
  let ?I = "net_ip_header n pr net_local_ip (length d)"
  note I = net_ip_header_facts [of n pr net_local_ip "length d"]
  have s: "take 14 f = E" "drop 14 f = ?I @ d" "length f = 34 + length d" using E(1) I(1) by (simp_all add: f)
  have t: "get16 f 12 = ETH_TYPE_IP" using E by (simp add: f get16_def nth_append)
  have a: "(?I @ d) ! 0 = 0x45" "(?I @ d) ! 9 = pr" "get16 (?I @ d) 2 = of_nat (20 + length d)"
    "get32 (?I @ d) 12 = net_local_ip" "get32 (?I @ d) 16 = net_local_ip" "ip_cksum (?I @ d) = 0"
    using I by (simp_all add: nth_append get16_def get32_def ip_cksum_def ones_sum_def)
  have u: "unat (of_nat (20 + length d) :: u16) = 20 + length d" using l by (intro unat_u16_of_nat) simp
  have "ip_handle hw E (?I @ d) s = (if pr = IP_PROTO_ICMP then icmp_handle hw net_local_ip d s
     else if pr = IP_PROTO_UDP then udp_handle d s
     else if pr = IP_PROTO_TCP then net_tcp_input hw f s else s)"
    unfolding ip_handle_def Let_def a u four_is_45 by (simp add: f net_ip_header_facts(1))
  then show ?thesis unfolding net_handle_packet_def s t by simp
qed

definition nic_ready :: "nic \<Rightarrow> bool" where
  "nic_ready n \<longleftrightarrow> nic_present n \<and> \<not> txq_done n (tx_tail n) \<and> txq_cmd n (tx_tail n) = 0"

lemma e1000_send_ready:
  assumes "nic_ready n" "d \<noteq> []" "length d \<le> NIC_BUF_SIZE"
  shows "fst (e1000_send hw d n) = int (length d)" "on_wire (snd (e1000_send hw d n)) = on_wire n @ [d]"
  using assms by (simp_all add: e1000_send_def nic_ready_def Let_def)

lemma udp_packet_facts:
  "length (udp_packet sp dst dp d) = 8 + length d" "get16 (udp_packet sp dst dp d) 2 = dp" "drop 8 (udp_packet sp dst dp d) = d"
  by (simp_all add: udp_packet_def Let_def put16_def be16_def get16_def word16_bytes)

lemma ip_sendframe_sent:
  assumes "arp_lookup dst s = Some mac" "nic_ready (nt_nic s)" "length mac = 6" "length (nt_mac s) = 6" "length data \<le> 1480"
  shows "fst (ip_sendframe hw dst pr data s) = 34 + int (length data)"
    "\<exists>E. length E = 14 \<and> get16 E 12 = ETH_TYPE_IP \<and> on_wire (nt_nic (snd (ip_sendframe hw dst pr data s)))
       = on_wire (nt_nic s) @ [E @ net_ip_header (ip_id_seq s) pr dst (length data) @ data]"
    "udp_socks (snd (ip_sendframe hw dst pr data s)) = udp_socks s"
proof -
  let ?E = "mac @ nt_mac s @ be16 ETH_TYPE_IP" and ?I = "net_ip_header (ip_id_seq s) pr dst (length data)"
  have E: "length ?E = 14" "get16 ?E 12 = ETH_TYPE_IP"
    using assms(3,4) by (simp_all add: be16_def get16_def nth_append)
  have l: "length (?E @ ?I @ data) = 34 + length data" using E(1) net_ip_header_facts(1) by simp
  have nt: "nic_ready (nt_nic (s\<lparr>ip_id_seq := ip_id_seq s + 1\<rparr>))" using assms(2) by simp
  have fr: "?E @ ?I @ data \<noteq> []" "length (?E @ ?I @ data) \<le> NIC_BUF_SIZE" using assms(5) l by auto
  note S = e1000_send_ready [OF assms(2) fr, of hw]
  have e: "ip_sendframe hw dst pr data s = net_put hw (?E @ ?I @ data) (s\<lparr>ip_id_seq := ip_id_seq s + 1\<rparr>)"
    using assms(1,5) by (simp add: ip_sendframe_def)
  show "fst (ip_sendframe hw dst pr data s) = 34 + int (length data)"
    using S(1) l unfolding e net_put_def by (simp add: case_prod_beta)
  show "udp_socks (snd (ip_sendframe hw dst pr data s)) = udp_socks s"
    unfolding e net_put_def by (simp add: case_prod_beta)
  have "on_wire (nt_nic (snd (ip_sendframe hw dst pr data s))) = on_wire (nt_nic s) @ [?E @ ?I @ data]"
    using S(2) unfolding e net_put_def by (simp add: case_prod_beta)
  then show "\<exists>E. length E = 14 \<and> get16 E 12 = ETH_TYPE_IP \<and> on_wire (nt_nic (snd (ip_sendframe hw dst pr data s)))
       = on_wire (nt_nic s) @ [E @ ?I @ data]"
    using E by (intro exI [of _ ?E]) simp
qed


definition demo_net :: net where
  "demo_net = \<lparr>nt_mac = local_mac, arp_cache = (\<lambda>_. \<lparr>arp_ip = net_local_ip, arp_mac = local_mac, arp_used = True\<rparr>),
     arp_count_ev = 1, ip_id_seq = 0,
     udp_socks = (\<lambda>i. \<lparr>us_used = i < 2, us_lport = of_nat (7000 + i), us_rport = 0, us_rip = 0, us_rbuf = (\<lambda>_. 0), us_rlen = 0\<rparr>),
     ping_id = 0, ping_reply = False, nt_tcp = boot_tcp,
     nt_nic = \<lparr>nic_present = True, txq_len = (\<lambda>_. 0), txq_cmd = (\<lambda>_. 0), txq_done = (\<lambda>_. False), tx_bufs = (\<lambda>_. []),
       tx_tail = 0, on_wire = []\<rparr>, stack_byte = (\<lambda>_. 0)\<rparr>"

lemma demo_arp: "arp_lookup net_local_ip demo_net = Some local_mac"
proof -
  have "arp_find net_local_ip demo_net = Some 0" by (simp add: arp_find_def first_from_Some_iff demo_net_def)
  then show ?thesis by (simp add: arp_lookup_def demo_net_def)
qed


section \<open>Echo\<close>

text \<open>An ICMP echo request from a host whose hardware address is known is answered with one datagram to that host:
  an echo reply with the request's identifier, sequence number and data (of the first 64 bytes), whose checksum
  verifies.\<close>

theorem echo_request_answered:
  assumes p: "8 \<le> length p" "p ! 0 = 8" and m: "arp_lookup src s = Some mac" "length mac = 6" "length (nt_mac s) = 6"
    and n: "nic_ready (nt_nic s)"
  shows "\<exists>E q. on_wire (nt_nic (icmp_handle hw src p s)) = on_wire (nt_nic s)
      @ [E @ net_ip_header (ip_id_seq s) IP_PROTO_ICMP src (length q) @ q]
    \<and> q ! 0 = 0 \<and> drop 4 q = drop 4 (take 64 p) \<and> NOT (ones_sum q) = 0"
proof -
  let ?d = "put16 2 0 ((take 64 p)[0 := 0])" and ?q = "with_cksum 2 (put16 2 0 ((take 64 p)[0 := 0]))"
  have l: "length ?q = min 64 (length p)" by (simp add: with_cksum_def)
  have q: "length ?q \<le> 1480" using l by simp
  have e: "icmp_handle hw src p s = snd (ip_sendframe hw src IP_PROTO_ICMP ?q s)" using p by (simp add: icmp_handle_def Let_def)
  obtain E where E: "on_wire (nt_nic (icmp_handle hw src p s)) = on_wire (nt_nic s)
      @ [E @ net_ip_header (ip_id_seq s) IP_PROTO_ICMP src (length ?q) @ ?q]"
    using ip_sendframe_sent(2) [OF m(1) n m(2,3) q] unfolding e by blast
  have z: "?d ! 2 = 0" "?d ! (2 + 1) = 0" "2 + 1 < length ?d" using p(1) by (simp_all add: put16_def)
  have "NOT (ucast (fold16 (wsum (put16 2 (NOT (ucast (fold16 (wsum ?d 0)))) ?d) 0)) :: u16) = 0"
    using nsum_le [of ?d] by (intro checksum_vanishes z) simp_all
  then have "NOT (ones_sum ?q) = 0" by (simp add: with_cksum_def ones_sum_def)
  moreover have "p \<noteq> []" using p(1) by auto
  then have "?q ! 0 = 0" "drop 4 ?q = drop 4 (take 64 p)" using p(1) by (simp_all add: with_cksum_def put16_def)
  ultimately show ?thesis using E by blast
qed

lemma echo_request_answered_witness:
  "\<exists>E q. on_wire (nt_nic (icmp_handle (\<lambda>_. True) net_local_ip [8, 0, 0, 0, 1, 2, 0, 1, 99] demo_net))
      = [E @ net_ip_header 0 IP_PROTO_ICMP net_local_ip (length q) @ q]
    \<and> q ! 0 = 0 \<and> drop 4 q = [1, 2, 0, 1, 99] \<and> NOT (ones_sum q) = 0"
proof -
  show ?thesis
    using echo_request_answered [OF _ _ demo_arp, of "[8, 0, 0, 0, 1, 2, 0, 1, 99]" "\<lambda>_. True"]
    by (simp add: demo_net_def local_mac_def nic_ready_def)
qed

section \<open>What the ring and ARP do not do\<close>

text \<open>Nothing clears a descriptor's command, so the ring takes one lap of frames and refuses every later one.\<close>

definition ring_lap :: "nic \<Rightarrow> bool" where
  "ring_lap n \<longleftrightarrow> length (on_wire n) \<le> NIC_TX_DESC \<and> tx_tail n = length (on_wire n) mod NIC_TX_DESC
     \<and> (\<forall>i<length (on_wire n). txq_cmd n i \<noteq> 0)"

lemma ring_lap_send: "ring_lap n \<Longrightarrow> ring_lap (snd (e1000_send hw d n))"
proof (cases "length (on_wire n) = NIC_TX_DESC")
  case True
  assume "ring_lap n"
  then have "txq_cmd n (tx_tail n) \<noteq> 0" using True by (simp add: ring_lap_def)
  then show ?thesis using \<open>ring_lap n\<close> by (simp add: e1000_send_def Let_def)
next
  case False
  assume "ring_lap n"
  then show ?thesis using False
    by (auto simp: ring_lap_def e1000_send_def Let_def less_Suc_eq mod_Suc)
qed

theorem nic_sends_one_lap:
  assumes "on_wire n = []" "tx_tail n = 0"
  shows "length (on_wire (fold (\<lambda>d m. snd (e1000_send hw d m)) ds n)) \<le> NIC_TX_DESC"
proof -
  have "ring_lap m \<Longrightarrow> ring_lap (fold (\<lambda>d m. snd (e1000_send hw d m)) ds m)" for m
    by (induction ds arbitrary: m) (simp_all add: ring_lap_send)
  moreover have "ring_lap n" using assms by (simp add: ring_lap_def)
  ultimately show ?thesis by (simp add: ring_lap_def)
qed

text \<open>The target address in an ARP reply, at offset 38, is the low half of the asker's address and two stray bytes.\<close>

theorem arp_reply_target_wrong:
  assumes "nic_ready (nt_nic s)" "length mac = 6" "length (nt_mac s) = 6"
  shows "\<exists>f. on_wire (nt_nic (arp_reply hw mac ip s)) = on_wire (nt_nic s) @ [f]
    \<and> take 4 (drop 38 f) = drop 2 (be32 ip) @ [stack_byte s 40, stack_byte s 41]"
proof -
  let ?f = "mac @ nt_mac s @ be16 ETH_TYPE_ARP @ be16 1 @ be16 ETH_TYPE_IP @ [6, 4] @ be16 2
            @ nt_mac s @ be32 net_local_ip @ take 4 mac @ be32 ip @ [stack_byte s 40, stack_byte s 41]"
  have "length ?f = 42" using assms(2,3) by (simp add: be16_def be32_def)
  then have "on_wire (snd (e1000_send hw ?f (nt_nic s))) = on_wire (nt_nic s) @ [?f]"
    by (intro e1000_send_ready(2) assms(1)) auto
  then have "on_wire (nt_nic (arp_reply hw mac ip s)) = on_wire (nt_nic s) @ [?f]"
    by (simp add: arp_reply_def net_put_def case_prod_beta)
  moreover have "take 4 (drop 38 ?f) = drop 2 (be32 ip) @ [stack_byte s 40, stack_byte s 41]"
    using assms(2,3) by (simp add: be16_def be32_def)
  ultimately show ?thesis by blast
qed

end
