(* ===== verification/Dfs.thy ===== *)
theory Dfs
  imports Prelude
begin

text \<open>
  The on-disk file system of \<open>fs/diskfs.c\<close> over the block layer of \<open>drivers/blk.c\<close>.  The drivers are not modelled: a
  device is an array of 512-byte sectors, of which some fail every access.  A sector is a function from the index to
  the byte; a path is the list of its bytes before the NUL, and no pointer argument is null.  Operations return the
  code's \<open>int\<close> with the new state.
\<close>

section \<open>Devices\<close>

record dev =
  dv_present :: bool
  dv_capacity :: u64
  dv_sec :: "u32 \<Rightarrow> nat \<Rightarrow> u8"
  dv_bad :: "u32 \<Rightarrow> bool"

record dfs_super =
  sb_magic :: u32
  sb_version :: u32
  sb_total :: u32
  sb_inodes :: u32
  sb_inode_start :: u32
  sb_bmap_start :: u32
  sb_bmap_sectors :: u32
  sb_data_start :: u32

record dfs =
  dk_nvme :: dev
  dk_virtio :: dev
  dfs_nvme :: bool
  dfs_base :: u32
  dfs_sb :: dfs_super
  dfs_mounted :: bool

definition diskfs_use_nvme :: "bool \<Rightarrow> dfs \<Rightarrow> dfs" where
  "diskfs_use_nvme on s = s\<lparr>dfs_nvme := on\<rparr>"

text \<open>The block layer prefers NVMe, so both backends reach it when it is there.\<close>

definition blk_present :: "dfs \<Rightarrow> bool" where
  "blk_present s \<longleftrightarrow> dv_present (dk_nvme s) \<or> dv_present (dk_virtio s)"

definition cap32 :: "u64 \<Rightarrow> u32" where
  "cap32 c = (if c > 0xFFFFFFFF then 0xFFFFFFFF else ucast c)"

definition blk_capacity :: "dfs \<Rightarrow> u32" where
  "blk_capacity s = (if dv_present (dk_nvme s) then cap32 (dv_capacity (dk_nvme s)) else ucast (dv_capacity (dk_virtio s)))"

definition on_nvme :: "dfs \<Rightarrow> bool" where
  "on_nvme s \<longleftrightarrow> dfs_nvme s \<or> dv_present (dk_nvme s)"

definition the_dev :: "dfs \<Rightarrow> dev" where
  "the_dev s = (if on_nvme s then dk_nvme s else dk_virtio s)"

definition store :: "u32 \<Rightarrow> (nat \<Rightarrow> u8) \<Rightarrow> dev \<Rightarrow> dev" where
  "store l b d = d\<lparr>dv_sec := (dv_sec d)(l := b)\<rparr>"

definition dread :: "u32 \<Rightarrow> dfs \<Rightarrow> (nat \<Rightarrow> u8) option" where
  "dread lba s = (let l = lba + dfs_base s in if dv_bad (the_dev s) l then None else Some (dv_sec (the_dev s) l))"

definition dwrite :: "u32 \<Rightarrow> (nat \<Rightarrow> u8) \<Rightarrow> dfs \<Rightarrow> dfs option" where
  "dwrite lba b s =
     (let l = lba + dfs_base s in
      if dv_bad (the_dev s) l then None
      else if on_nvme s then Some (s\<lparr>dk_nvme := store l b (dk_nvme s)\<rparr>)
      else Some (s\<lparr>dk_virtio := store l b (dk_virtio s)\<rparr>))"

definition dpresent :: "dfs \<Rightarrow> bool" where
  "dpresent s = (if dfs_nvme s then dv_present (dk_nvme s) else blk_present s)"

definition dcapacity :: "dfs \<Rightarrow> u32" where
  "dcapacity s = (if dfs_nvme s then cap32 (dv_capacity (dk_nvme s)) else blk_capacity s)"

text \<open>\<open>blk_recover\<close> only looks whether there is a large enough device.\<close>

definition blk_recover :: "dfs \<Rightarrow> int" where
  "blk_recover s = (if \<not> blk_present s then -1 else if blk_present s \<and> blk_capacity s > 64 then 0 else -1)"

section \<open>The bitmap\<close>

definition bmap_get :: "u32 \<Rightarrow> dfs \<Rightarrow> bool" where
  "bmap_get sec s =
     (let byte = sec div 8 in
      case dread (sb_bmap_start (dfs_sb s) + byte div 512) s of
        None \<Rightarrow> True
      | Some b \<Rightarrow> bit (b (unat (byte mod 512))) (unat (sec mod 8)))"

definition bmap_set :: "u32 \<Rightarrow> bool \<Rightarrow> dfs \<Rightarrow> dfs" where
  "bmap_set sec v s =
     (let byte = sec div 8; lba = sb_bmap_start (dfs_sb s) + byte div 512; k = unat (byte mod 512);
          m = push_bit (unat (sec mod 8)) 1 in
      case dread lba s of
        None \<Rightarrow> s
      | Some b \<Rightarrow>
          (case dwrite lba (b(k := (if v then b k OR m else b k AND NOT m))) s of None \<Rightarrow> s | Some t \<Rightarrow> t))"

text \<open>\<open>return (int)s\<close>: a sector number with the top bit set comes back negative.\<close>

definition balloc :: "dfs \<Rightarrow> int \<times> dfs" where
  "balloc s =
     (case first_from (\<lambda>i. \<not> bmap_get (of_nat i) s) (unat (sb_data_start (dfs_sb s)))
             (unat (sb_total (dfs_sb s)) - unat (sb_data_start (dfs_sb s))) of
        None \<Rightarrow> (-1, s)
      | Some i \<Rightarrow> (sint (of_nat i :: u32), bmap_set (of_nat i) True s))"

section \<open>Inodes\<close>

abbreviation DISKFS_MAGIC :: u32 where "DISKFS_MAGIC \<equiv> 0x31484443"
abbreviation DISKFS_VERSION :: u32 where "DISKFS_VERSION \<equiv> 2"
abbreviation DISKFS_INODES :: u32 where "DISKFS_INODES \<equiv> 64"
abbreviation DISKFS_DATABLOCKS :: nat where "DISKFS_DATABLOCKS \<equiv> 48"
abbreviation DISKFS_MAXFILE :: nat where "DISKFS_MAXFILE \<equiv> 24576"
abbreviation DFS_TYPE_FILE :: u8 where "DFS_TYPE_FILE \<equiv> 0"
abbreviation DFS_TYPE_DIR :: u8 where "DFS_TYPE_DIR \<equiv> 1"
abbreviation INODE_SIZE :: nat where "INODE_SIZE \<equiv> 224"

record dfs_inode =
  di_name :: "u8 list"
  di_size :: u32
  di_blocks :: "u32 list"
  di_used :: u8
  di_ftype :: u8
  di_pad :: "u8 list"

text \<open>The packed layout, little-endian: 24 bytes of name, the size, 48 block numbers, two flags and two bytes of padding.\<close>

definition le32 :: "u32 \<Rightarrow> u8 list" where
  "le32 v = [ucast v, ucast (drop_bit 8 v), ucast (drop_bit 16 v), ucast (drop_bit 24 v)]"

definition of_le32 :: "(nat \<Rightarrow> u8) \<Rightarrow> nat \<Rightarrow> u32" where
  "of_le32 f i = ucast (f i) OR push_bit 8 (ucast (f (i + 1))) OR push_bit 16 (ucast (f (i + 2)))
     OR push_bit 24 (ucast (f (i + 3)))"

definition inode_bytes :: "dfs_inode \<Rightarrow> u8 list" where
  "inode_bytes n = di_name n @ le32 (di_size n) @ concat (map le32 (di_blocks n)) @ [di_used n, di_ftype n] @ di_pad n"

definition bytes_inode :: "u8 list \<Rightarrow> dfs_inode" where
  "bytes_inode b =
     \<lparr>di_name = take 24 b, di_size = of_le32 ((!) b) 24,
      di_blocks = map (\<lambda>i. of_le32 ((!) b) (28 + 4 * i)) [0..<DISKFS_DATABLOCKS],
      di_used = b ! 220, di_ftype = b ! 221, di_pad = drop 222 b\<rparr>"

definition zero_inode :: dfs_inode where
  "zero_inode = \<lparr>di_name = replicate 24 0, di_size = 0, di_blocks = replicate DISKFS_DATABLOCKS 0, di_used = 0,
     di_ftype = 0, di_pad = [0, 0]\<rparr>"

text \<open>The loops of \<open>iget\<close> and \<open>iput\<close>: a record may cross a sector's end, so it is moved in chunks.\<close>

function iget_loop :: "nat \<Rightarrow> nat \<Rightarrow> dfs \<Rightarrow> u8 list option" where
  "iget_loop off rem s =
     (if rem = 0 then Some []
      else let k = off mod 512; chunk = min (512 - k) rem in
        case dread (sb_inode_start (dfs_sb s) + of_nat (off div 512)) s of
          None \<Rightarrow> None
        | Some b \<Rightarrow> map_option (\<lambda>r. map b [k..<k + chunk] @ r) (iget_loop (off + chunk) (rem - chunk) s))"
  by pat_completeness auto

termination
  by (relation "measure (\<lambda>(off, rem, s). rem)") auto

function iput_loop :: "nat \<Rightarrow> u8 list \<Rightarrow> dfs \<Rightarrow> bool \<times> dfs" where
  "iput_loop off src s =
     (if src = [] then (True, s)
      else let k = off mod 512; chunk = min (512 - k) (length src);
               lba = sb_inode_start (dfs_sb s) + of_nat (off div 512) in
        case dread lba s of
          None \<Rightarrow> (False, s)
        | Some b \<Rightarrow>
            (case dwrite lba (\<lambda>j. if k \<le> j \<and> j < k + chunk then src ! (j - k) else b j) s of
               None \<Rightarrow> (False, s)
             | Some t \<Rightarrow> iput_loop (off + chunk) (drop chunk src) t))"
  by pat_completeness auto

termination
  by (relation "measure (\<lambda>(off, src, s). length src)") auto

declare iget_loop.simps [simp del] iput_loop.simps [simp del]

definition iget :: "nat \<Rightarrow> dfs \<Rightarrow> dfs_inode option" where
  "iget i s = map_option bytes_inode (iget_loop (i * INODE_SIZE) INODE_SIZE s)"

definition iput :: "nat \<Rightarrow> dfs_inode \<Rightarrow> dfs \<Rightarrow> bool \<times> dfs" where
  "iput i n s = iput_loop (i * INODE_SIZE) (inode_bytes n) s"

section \<open>Names and paths\<close>

abbreviation DOT :: u8 where "DOT \<equiv> 0x2E"
abbreviation SLASH :: u8 where "SLASH \<equiv> 0x2F"

text \<open>What \<open>strncmp(_, _, 24)\<close> compares, and what a name field holds as a string.\<close>

definition cname :: "u8 list \<Rightarrow> u8 list" where
  "cname b = takeWhile (\<lambda>c. c \<noteq> 0) (take 24 b)"

definition name_field :: "u8 list \<Rightarrow> u8 list" where
  "name_field nm = (take 24 (nm @ replicate 24 0))[23 := 0]"

definition twice :: "u8 \<Rightarrow> u8 list \<Rightarrow> bool" where
  "twice c p \<longleftrightarrow> (\<exists>i<length p - 1. p ! i = c \<and> p ! (i + 1) = c)"

definition df_valid_path :: "u8 list \<Rightarrow> bool" where
  "df_valid_path p \<longleftrightarrow> p \<noteq> [] \<and> length p < 24 \<and> \<not> twice DOT p \<and> \<not> twice SLASH p \<and> \<not> (length p > 1 \<and> last p = SLASH)"

fun ifind_from :: "u8 list \<Rightarrow> nat \<Rightarrow> nat \<Rightarrow> dfs \<Rightarrow> int" where
  "ifind_from nm i 0 s = -1"
| "ifind_from nm i (Suc k) s =
     (case iget i s of
        None \<Rightarrow> -1
      | Some n \<Rightarrow> if di_used n \<noteq> 0 \<and> cname (di_name n) = cname nm then int i else ifind_from nm (Suc i) k s)"

definition ifind :: "u8 list \<Rightarrow> dfs \<Rightarrow> int" where
  "ifind nm s = ifind_from nm 0 (unat (sb_inodes (dfs_sb s))) s"

fun free_from :: "nat \<Rightarrow> nat \<Rightarrow> dfs \<Rightarrow> int" where
  "free_from i 0 s = -1"
| "free_from i (Suc k) s =
     (case iget i s of None \<Rightarrow> -1 | Some n \<Rightarrow> if di_used n = 0 then int i else free_from (Suc i) k s)"

definition free_inode :: "dfs \<Rightarrow> int" where
  "free_inode s = free_from 0 (unat (sb_inodes (dfs_sb s))) s"

text \<open>Does an entry lie under \<open>path\<close>?\<close>

definition is_child :: "u8 list \<Rightarrow> dfs_inode \<Rightarrow> bool" where
  "is_child p n \<longleftrightarrow> di_used n \<noteq> 0 \<and> cname (di_name n) \<noteq> cname p
     \<and> (if p = [SLASH] then take 1 (cname (di_name n)) = [SLASH] \<and> length (cname (di_name n)) > 1
        else take (length p) (cname (di_name n)) = p \<and> take 1 (drop (length p) (cname (di_name n))) = [SLASH])"

fun children_from :: "u8 list \<Rightarrow> nat \<Rightarrow> nat \<Rightarrow> dfs \<Rightarrow> bool" where
  "children_from p i 0 s = False"
| "children_from p i (Suc k) s =
     (case iget i s of None \<Rightarrow> True | Some n \<Rightarrow> is_child p n \<or> children_from p (Suc i) k s)"

definition df_has_children :: "u8 list \<Rightarrow> dfs \<Rightarrow> bool" where
  "df_has_children p s = children_from p 0 (unat (sb_inodes (dfs_sb s))) s"

section \<open>Files and directories\<close>

definition release :: "u32 list \<Rightarrow> dfs \<Rightarrow> dfs" where
  "release bs s = fold (\<lambda>b t. if b \<noteq> 0 then bmap_set b False t else t) bs s"

definition no_blocks :: "u32 list" where
  "no_blocks = replicate DISKFS_DATABLOCKS 0"

definition ifree_blocks :: "nat \<Rightarrow> dfs \<Rightarrow> int \<times> dfs" where
  "ifree_blocks i s =
     (case iget i s of
        None \<Rightarrow> (-1, s)
      | Some n \<Rightarrow>
          let (ok, t) = iput i (n\<lparr>di_blocks := no_blocks, di_size := 0\<rparr>) (release (di_blocks n) s) in
          (if ok then 0 else -1, t))"

text \<open>The allocation loop of \<open>dfile_write\<close>: \<open>False\<close> is \<open>goto wfail\<close>; \<open>bs\<close> are the block numbers stored so far.\<close>

function write_loop :: "(nat \<Rightarrow> u8) \<Rightarrow> nat \<Rightarrow> nat \<Rightarrow> nat \<Rightarrow> u32 list \<Rightarrow> dfs \<Rightarrow> bool \<times> u32 list \<times> dfs" where
  "write_loop dat len off bi bs s =
     (if off < len \<and> bi < DISKFS_DATABLOCKS then
        let (sec, s1) = balloc s in
        if sec < 0 then (False, bs, s1)
        else let chunk = min (len - off) 512; w = of_int sec in
          case dwrite w (\<lambda>j. if j < chunk then dat (off + j) else 0) s1 of
            None \<Rightarrow> (False, bs, bmap_set w False s1)
          | Some s2 \<Rightarrow> write_loop dat len (off + chunk) (bi + 1) (bs[bi := w]) s2
      else (True, bs, s))"
  by pat_completeness auto

termination
  by (relation "measure (\<lambda>(dat, len, off, bi, bs, s). DISKFS_DATABLOCKS - bi)") auto

declare write_loop.simps [simp del]

definition write_blocks :: "nat \<Rightarrow> dfs_inode \<Rightarrow> (nat \<Rightarrow> u8) \<Rightarrow> nat \<Rightarrow> dfs \<Rightarrow> int \<times> dfs" where
  "write_blocks i n dat len s =
     (let (ok, bs, s1) = write_loop dat len 0 0 no_blocks s in
      if ok then (let (saved, s2) = iput i (n\<lparr>di_blocks := bs, di_size := of_nat len\<rparr>) s1 in (if saved then int len else -1, s2))
      else (-1, snd (iput i (n\<lparr>di_blocks := no_blocks, di_size := 0\<rparr>) (release bs s1))))"

definition new_file :: "u8 list \<Rightarrow> u8 \<Rightarrow> dfs_inode" where
  "new_file nm ty = zero_inode\<lparr>di_name := name_field nm, di_used := 1, di_ftype := ty\<rparr>"

definition dfile_write :: "u8 list \<Rightarrow> (nat \<Rightarrow> u8) \<Rightarrow> int \<Rightarrow> dfs \<Rightarrow> int \<times> dfs" where
  "dfile_write nm dat len s =
     (if \<not> dfs_mounted s \<or> len < 0 then (-1, s)
      else if len > int DISKFS_MAXFILE then (-1, s)
      else if nm = [] \<or> length nm \<ge> 24 then (-1, s)
      else if \<not> df_valid_path nm then (-1, s)
      else if nm = [SLASH] then (-1, s)
      else if ifind nm s \<ge> 0 then
        let i = nat (ifind nm s) in
        case iget i s of
          None \<Rightarrow> (-1, s)
        | Some n \<Rightarrow> if di_ftype n = DFS_TYPE_DIR then (-1, s) else write_blocks i n dat (nat len) (release (di_blocks n) s)
      else if free_inode s < 0 then (-1, s)
      else write_blocks (nat (free_inode s)) (new_file nm DFS_TYPE_FILE) dat (nat len) s)"

text \<open>The reading loop: the bytes put into the buffer so far are the result, \<open>None\<close> a failed read.\<close>

fun read_loop :: "u32 list \<Rightarrow> nat \<Rightarrow> dfs \<Rightarrow> u8 list option" where
  "read_loop [] want s = Some []"
| "read_loop (b # bs) want s =
     (if want = 0 \<or> b = 0 then Some []
      else case dread b s of
          None \<Rightarrow> None
        | Some f \<Rightarrow> let chunk = min want 512 in
            map_option (\<lambda>r. map f [0..<chunk] @ r) (read_loop bs (want - chunk) s))"

text \<open>\<open>Some\<close> the bytes stored in the buffer, whose number is returned; \<open>None\<close> for \<open>-1\<close>.  The size is read as an \<open>int\<close>; a
  negative one, which only a damaged disk has, is returned as it is.\<close>

definition dfile_read :: "u8 list \<Rightarrow> int \<Rightarrow> dfs \<Rightarrow> u8 list option" where
  "dfile_read nm mx s =
     (if \<not> dfs_mounted s \<or> mx \<le> 0 then None
      else if \<not> df_valid_path nm then None
      else if ifind nm s < 0 then None
      else case iget (nat (ifind nm s)) s of
          None \<Rightarrow> None
        | Some n \<Rightarrow> if di_ftype n = DFS_TYPE_DIR \<or> sint (di_size n) < 0 then None
                  else read_loop (di_blocks n) (nat (min (sint (di_size n)) mx)) s)"

definition df_mkdir :: "u8 list \<Rightarrow> dfs \<Rightarrow> int \<times> dfs" where
  "df_mkdir p s =
     (if \<not> dfs_mounted s \<or> \<not> df_valid_path p then (-1, s)
      else if p ! 0 \<noteq> SLASH then (-1, s)
      else if p = [SLASH] then (-1, s)
      else if ifind p s \<ge> 0 then (-1, s)
      else if free_inode s < 0 then (-1, s)
      else let (ok, t) = iput (nat (free_inode s)) (new_file p DFS_TYPE_DIR) s in (if ok then 0 else -1, t))"

definition df_remove :: "u8 list \<Rightarrow> dfs \<Rightarrow> int \<times> dfs" where
  "df_remove p s =
     (if \<not> dfs_mounted s \<or> \<not> df_valid_path p then (-1, s)
      else if ifind p s < 0 then (-1, s)
      else let i = nat (ifind p s) in
        case iget i s of
          None \<Rightarrow> (-1, s)
        | Some n \<Rightarrow>
            if di_used n = 0 then (-1, s)
            else if di_ftype n = DFS_TYPE_DIR \<and> df_has_children p s then (-1, s)
            else let (r, t) = ifree_blocks i s in
              if r \<noteq> 0 then (-1, t)
              else case iget i t of
                  None \<Rightarrow> (-1, t)
                | Some _ \<Rightarrow> let (ok, u) = iput i zero_inode t in (if ok then 0 else -1, u))"

definition df_truncate :: "u8 list \<Rightarrow> dfs \<Rightarrow> int \<times> dfs" where
  "df_truncate p s =
     (if \<not> dfs_mounted s \<or> \<not> df_valid_path p then (-1, s)
      else if ifind p s < 0 then (-1, s)
      else let i = nat (ifind p s) in
        case iget i s of
          None \<Rightarrow> (-1, s)
        | Some n \<Rightarrow> if di_used n = 0 \<or> di_ftype n = DFS_TYPE_DIR then (-1, s) else ifree_blocks i s)"

section \<open>Listing and statistics\<close>

text \<open>What an entry contributes to the listing of \<open>path\<close>: the last part of its name, if it lies directly below.\<close>

definition entry_base :: "u8 list \<Rightarrow> u8 list \<Rightarrow> u8 list option" where
  "entry_base p nm =
     (let base = (if p = [SLASH] then (if take 1 nm = [SLASH] then tl nm else nm) else drop (length p + 1) nm) in
      if p \<noteq> [SLASH] \<and> \<not> (take (length p) nm = p \<and> take 1 (drop (length p) nm) = [SLASH]) then None
      else if base = [] \<or> SLASH \<in> set base then None else Some base)"

fun readdir_from :: "u8 list \<Rightarrow> nat \<Rightarrow> nat \<Rightarrow> nat \<Rightarrow> u8 list \<Rightarrow> dfs \<Rightarrow> u8 list option" where
  "readdir_from p mx i 0 out s = Some out"
| "readdir_from p mx i (Suc k) out s =
     (case iget i s of
        None \<Rightarrow> None
      | Some n \<Rightarrow>
          if di_used n = 0 then readdir_from p mx (Suc i) k out s
          else case entry_base p (cname (di_name n)) of
              None \<Rightarrow> readdir_from p mx (Suc i) k out s
            | Some b \<Rightarrow> if length out + length b + 1 \<ge> mx then Some out
                      else readdir_from p mx (Suc i) k (out @ b @ [0x0A]) s)"

definition df_readdir :: "u8 list \<Rightarrow> int \<Rightarrow> dfs \<Rightarrow> u8 list option" where
  "df_readdir p mx s =
     (if \<not> dfs_mounted s \<or> mx \<le> 0 then None
      else if \<not> df_valid_path p \<and> p \<noteq> [SLASH] then None
      else let go = readdir_from p (nat mx) 0 (unat (sb_inodes (dfs_sb s))) [] s in
        if p = [SLASH] then go
        else if ifind p s < 0 then None
        else case iget (nat (ifind p s)) s of
            None \<Rightarrow> None
          | Some n \<Rightarrow> if di_used n = 0 \<or> di_ftype n \<noteq> DFS_TYPE_DIR then None else go)"

definition df_stat :: "u8 list \<Rightarrow> dfs \<Rightarrow> (u32 \<times> bool) option" where
  "df_stat p s =
     (if \<not> dfs_mounted s \<or> \<not> df_valid_path p then None
      else if p = [SLASH] then Some (0, True)
      else if ifind p s < 0 then None
      else case iget (nat (ifind p s)) s of
          None \<Rightarrow> None
        | Some n \<Rightarrow> if di_used n = 0 then None else Some (di_size n, di_ftype n = DFS_TYPE_DIR))"

definition data_sectors :: "dfs \<Rightarrow> nat list" where
  "data_sectors s = [unat (sb_data_start (dfs_sb s))..<unat (sb_total (dfs_sb s))]"

definition marked :: "dfs \<Rightarrow> nat" where
  "marked s = length (filter (\<lambda>i. bmap_get (of_nat i) s) (data_sectors s))"

fun used_from :: "nat \<Rightarrow> nat \<Rightarrow> dfs \<Rightarrow> nat" where
  "used_from i 0 s = 0"
| "used_from i (Suc k) s =
     (case iget i s of None \<Rightarrow> 0 | Some n \<Rightarrow> (if di_used n \<noteq> 0 then 1 else 0) + used_from (Suc i) k s)"

text \<open>Total, used and free blocks, used inodes, inodes.\<close>

definition df_stats :: "dfs \<Rightarrow> u32 \<times> nat \<times> nat \<times> nat \<times> u32" where
  "df_stats s =
     (let t = sb_total (dfs_sb s); c = sb_inodes (dfs_sb s) in
      if \<not> dfs_mounted s then (t, 0, 0, 0, c)
      else (t, marked s, length (data_sectors s) - marked s, used_from 0 (unat c) s, c))"

section \<open>Mounting and formatting\<close>

definition super_bytes :: "dfs_super \<Rightarrow> u8 list" where
  "super_bytes b = le32 (sb_magic b) @ le32 (sb_version b) @ le32 (sb_total b) @ le32 (sb_inodes b)
     @ le32 (sb_inode_start b) @ le32 (sb_bmap_start b) @ le32 (sb_bmap_sectors b) @ le32 (sb_data_start b)"

text \<open>The members in the order of \<open>struct dfs_super\<close>.\<close>

definition bytes_super :: "(nat \<Rightarrow> u8) \<Rightarrow> dfs_super" where
  "bytes_super f = \<lparr>sb_magic = of_le32 f 0, sb_version = of_le32 f 4, sb_total = of_le32 f 8, sb_inodes = of_le32 f 12,
     sb_inode_start = of_le32 f 16, sb_bmap_start = of_le32 f 20, sb_bmap_sectors = of_le32 f 24,
     sb_data_start = of_le32 f 28\<rparr>"

definition diskfs_mount_at :: "u32 \<Rightarrow> u32 \<Rightarrow> dfs \<Rightarrow> int \<times> dfs" where
  "diskfs_mount_at base mx s0 =
     (let s1 = s0\<lparr>dfs_base := base\<rparr> in
      if \<not> dpresent s1 then (-1, s1)
      else case dread 0 s1 of
          None \<Rightarrow> (-1, s1)
        | Some f \<Rightarrow>
            let b = bytes_super f; s2 = s1\<lparr>dfs_sb := b\<rparr> in
            if sb_magic b \<noteq> DISKFS_MAGIC \<or> sb_version b \<noteq> DISKFS_VERSION then (-1, s2)
            else if sb_inodes b = 0 \<or> sb_inodes b > 256 then (-1, s2)
            else if sb_total b = 0 \<or> sb_total b > mx then (-1, s2)
            else if sb_data_start b \<ge> sb_total b then (-1, s2)
            else (0, s2\<lparr>dfs_mounted := True\<rparr>))"

definition diskfs_mount :: "dfs \<Rightarrow> int \<times> dfs" where
  "diskfs_mount s = diskfs_mount_at 0 0xFFFFFFFF (diskfs_use_nvme False s)"

definition bmap_bytes_for :: "u32 \<Rightarrow> u32" where
  "bmap_bytes_for tot = (tot + 7) div 8"

text \<open>\<open>for (i = 0; i < n; i++) if (dwrite(start + i, f(i)) != 0) return -1;\<close>\<close>

fun write_each :: "u32 \<Rightarrow> (nat \<Rightarrow> nat \<Rightarrow> u8) \<Rightarrow> nat list \<Rightarrow> dfs \<Rightarrow> bool \<times> dfs" where
  "write_each start f [] s = (True, s)"
| "write_each start f (i # is) s =
     (case dwrite (start + of_nat i) (f i) s of None \<Rightarrow> (False, s) | Some t \<Rightarrow> write_each start f is t)"

definition bmap_byte :: "u32 \<Rightarrow> nat \<Rightarrow> nat \<Rightarrow> u8" where
  "bmap_byte data_start i b =
     (let sec = of_nat (i * 4096 + b * 8) in
      foldl (\<lambda>z k. if sec + of_nat k < data_start then z OR push_bit k 1 else z) 0 [0..<8])"

definition new_super :: "u32 \<Rightarrow> dfs_super" where
  "new_super tot =
     (let bs = (bmap_bytes_for tot + 511) div 512; its = (DISKFS_INODES * of_nat INODE_SIZE + 511) div 512 in
      \<lparr>sb_magic = DISKFS_MAGIC, sb_version = DISKFS_VERSION, sb_total = tot, sb_inodes = DISKFS_INODES,
       sb_inode_start = 1 + bs, sb_bmap_start = 1, sb_bmap_sectors = bs, sb_data_start = 1 + bs + its\<rparr>)"

definition diskfs_format_at :: "u32 \<Rightarrow> u32 \<Rightarrow> dfs \<Rightarrow> int \<times> dfs" where
  "diskfs_format_at base tot s0 =
     (let s1 = s0\<lparr>dfs_base := base\<rparr> in
      if \<not> dpresent s1 then (-1, s1)
      else if tot < 64 then (-1, s1)
      else let b = new_super tot; s2 = s1\<lparr>dfs_sb := b\<rparr>; sup = super_bytes b in
        case dwrite 0 (\<lambda>j. if j < length sup then sup ! j else 0) s2 of
          None \<Rightarrow> (-1, s2)
        | Some s3 \<Rightarrow>
            let (ok1, s4) = write_each (sb_bmap_start b) (bmap_byte (sb_data_start b)) [0..<unat (sb_bmap_sectors b)] s3 in
            if \<not> ok1 then (-1, s4)
            else let (ok2, s5) = write_each (sb_inode_start b) (\<lambda>_ _. 0) [0..<unat (sb_data_start b - sb_inode_start b)] s4 in
              if \<not> ok2 then (-1, s5) else (0, s5\<lparr>dfs_mounted := True\<rparr>))"

definition diskfs_format :: "dfs \<Rightarrow> int \<times> dfs" where
  "diskfs_format s = (let s1 = diskfs_use_nvme False s in diskfs_format_at 0 (dcapacity s1) s1)"

section \<open>The consistency check and the journal\<close>

definition check_inode :: "dfs_inode \<Rightarrow> dfs \<Rightarrow> nat option" where
  "check_inode n s =
     (if di_used n = 0 then Some 0
      else if sint (di_size n) < 0 \<or> unat (di_size n) > DISKFS_MAXFILE then None
      else if \<exists>b \<in> set (di_blocks n). b \<noteq> 0 \<and> (b < sb_data_start (dfs_sb s) \<or> b \<ge> sb_total (dfs_sb s) \<or> \<not> bmap_get b s) then None
      else Some (length (filter (\<lambda>b. b \<noteq> 0) (di_blocks n))))"

fun check_from :: "nat \<Rightarrow> nat \<Rightarrow> nat \<Rightarrow> dfs \<Rightarrow> nat option" where
  "check_from i 0 c s = Some c"
| "check_from i (Suc k) c s =
     (case iget i s of
        None \<Rightarrow> None
      | Some n \<Rightarrow> (case check_inode n s of None \<Rightarrow> None | Some d \<Rightarrow> check_from (Suc i) k (c + d) s))"

definition df_check :: "dfs \<Rightarrow> int" where
  "df_check s =
     (let b = dfs_sb s; bsec = (bmap_bytes_for (sb_total b) + 511) div 512;
          isec = (sb_inodes b * of_nat INODE_SIZE + 511) div 512 in
      if \<not> dfs_mounted s then -1
      else if sb_magic b \<noteq> DISKFS_MAGIC \<or> sb_version b \<noteq> DISKFS_VERSION then -1
      else if sb_total b < 64 \<or> sb_inodes b = 0 \<or> sb_inodes b > 256 then -1
      else if sb_bmap_start b \<noteq> 1 \<or> sb_bmap_sectors b \<noteq> bsec then -1
      else if sb_inode_start b \<noteq> 1 + bsec then -1
      else if sb_data_start b \<noteq> 1 + bsec + isec then -1
      else if \<exists>i < unat (sb_data_start b). \<not> bmap_get (of_nat i) s then -1
      else case check_from 0 (unat (sb_inodes b)) 0 s of
          None \<Rightarrow> -1
        | Some c \<Rightarrow> if marked s \<noteq> c then -1 else 0)"

abbreviation JOURNAL_MAGIC :: u32 where "JOURNAL_MAGIC \<equiv> 0x4A524E4C"

definition journal_lba :: "dfs \<Rightarrow> u32" where
  "journal_lba s = (if sb_total (dfs_sb s) > 4 then sb_total (dfs_sb s) - 2 else 2)"

text \<open>The header's fields lie at 0 (magic), 4 (operation), 8, 12, 16 and 20 (checksum) of a packed structure of 508
  bytes; the sum runs over all of them but the last four.\<close>

definition journal_checksum :: "(nat \<Rightarrow> u8) \<Rightarrow> u32" where
  "journal_checksum f = foldl (\<lambda>s i. s + ucast (f i)) 0 [0..<504]"

definition journal_header :: "u32 \<Rightarrow> u32 \<Rightarrow> u32 \<Rightarrow> u32 \<Rightarrow> u32 \<Rightarrow> nat \<Rightarrow> u8" where
  "journal_header op start count idx ck =
     (let h = le32 JOURNAL_MAGIC @ le32 op @ le32 start @ le32 count @ le32 idx @ le32 ck in
      (\<lambda>j. if j < length h then h ! j else 0))"

definition journal_start :: "u32 \<Rightarrow> u32 \<Rightarrow> u32 \<Rightarrow> u32 \<Rightarrow> dfs \<Rightarrow> int \<times> dfs" where
  "journal_start op start count idx s =
     (case dwrite (journal_lba s) (journal_header op start count idx (journal_checksum (journal_header op start count idx 0))) s of
        None \<Rightarrow> (-1, s) | Some t \<Rightarrow> (0, t))"

definition journal_commit :: "dfs \<Rightarrow> int \<times> dfs" where
  "journal_commit s = (case dwrite (journal_lba s) (\<lambda>_. 0) s of None \<Rightarrow> (-1, s) | Some t \<Rightarrow> (0, t))"

definition journal_has_op :: "dfs \<Rightarrow> bool" where
  "journal_has_op s =
     (case dread (journal_lba s) s of
        None \<Rightarrow> False
      | Some f \<Rightarrow> of_le32 f 0 = JOURNAL_MAGIC \<and> of_le32 f 20 = journal_checksum f \<and> of_le32 f 4 > 0)"

definition diskfs_recover :: "dfs \<Rightarrow> int \<times> dfs" where
  "diskfs_recover s =
     (if \<not> dfs_mounted s then (-1, s)
      else if \<not> journal_has_op s then (df_check s, s)
      else case dread (journal_lba s) s of
          None \<Rightarrow> (-1, s)
        | Some _ \<Rightarrow> let t = snd (journal_commit s) in (df_check t, t))"

end
