(* ===== verification/Dfs_Inv.thy ===== *)
theory Dfs_Inv
  imports Dfs
begin

text \<open>
  The on-disk file system seen from above: the bitmap as a function from sector numbers to booleans (\<open>bitv\<close>), the inode
  table as a function from indexes to inodes (\<open>ino\<close>) and the data sectors (\<open>sec\<close>), and what each primitive of \<open>Dfs\<close>
  does to these views on a disk of the layout \<open>diskfs_format\<close> makes, none of whose sectors fails.
\<close>

section \<open>Layout\<close>

abbreviation tot :: "dfs \<Rightarrow> nat" where "tot s \<equiv> unat (sb_total (dfs_sb s))"
abbreviation dat0 :: "dfs \<Rightarrow> nat" where "dat0 s \<equiv> unat (sb_data_start (dfs_sb s))"
abbreviation ino0 :: "dfs \<Rightarrow> nat" where "ino0 s \<equiv> unat (sb_inode_start (dfs_sb s))"

definition bmap_secs :: "nat \<Rightarrow> nat" where
  "bmap_secs n = ((n + 7) div 8 + 511) div 512"

text \<open>The shape of the disk and of the superblock in memory.\<close>

definition dfs_ok :: "dfs \<Rightarrow> bool" where
  "dfs_ok s \<longleftrightarrow> dfs_mounted s \<and> sb_bmap_start (dfs_sb s) = 1 \<and> unat (sb_inodes (dfs_sb s)) = 64
     \<and> ino0 s = 1 + bmap_secs (tot s) \<and> dat0 s = ino0 s + 28 \<and> dat0 s < tot s \<and> tot s < 2147483648
     \<and> unat (dfs_base s) + tot s < 4294967296
     \<and> (\<forall>l < tot s. \<not> dv_bad (the_dev s) (of_nat l + dfs_base s))"

definition sec :: "dfs \<Rightarrow> nat \<Rightarrow> nat \<Rightarrow> u8" where
  "sec s l = dv_sec (the_dev s) (of_nat l + dfs_base s)"

definition bitv :: "dfs \<Rightarrow> nat \<Rightarrow> bool" where
  "bitv s x = bit (sec s (1 + x div 4096) (x div 8 mod 512)) (x mod 8)"

definition tbl :: "dfs \<Rightarrow> nat \<Rightarrow> u8" where
  "tbl s x = sec s (ino0 s + x div 512) (x mod 512)"

definition ino :: "dfs \<Rightarrow> nat \<Rightarrow> dfs_inode" where
  "ino s i = bytes_inode (map (tbl s) [i * INODE_SIZE..<i * INODE_SIZE + INODE_SIZE])"

lemma dfs_okD:
  assumes "dfs_ok s"
  shows "dfs_mounted s" "sb_bmap_start (dfs_sb s) = 1" "unat (sb_inodes (dfs_sb s)) = 64"
    "ino0 s = 1 + bmap_secs (tot s)" "dat0 s = ino0 s + 28" "dat0 s < tot s" "tot s < 2147483648"
  using assms by (simp_all add: dfs_ok_def)

text \<open>\<open>fs_same s t\<close>: the same disk, perhaps with other contents.\<close>

definition fs_same :: "dfs \<Rightarrow> dfs \<Rightarrow> bool" where
  "fs_same s t \<longleftrightarrow> dfs_ok s \<and> dfs_ok t \<and> dfs_sb t = dfs_sb s"

lemma fs_sameD: "fs_same s t \<Longrightarrow> dfs_ok s \<and> dfs_ok t \<and> dfs_sb t = dfs_sb s"
  by (simp add: fs_same_def)

lemma fs_same_refl: "dfs_ok s \<Longrightarrow> fs_same s s"
  by (simp add: fs_same_def)

lemma fs_same_trans: "fs_same s t \<Longrightarrow> fs_same t u \<Longrightarrow> fs_same s u"
  by (simp add: fs_same_def)

section \<open>Sectors\<close>

lemma dread_ok: "dfs_ok s \<Longrightarrow> unat l < tot s \<Longrightarrow> dread l s = Some (sec s (unat l))"
  by (auto simp: dfs_ok_def dread_def Let_def sec_def)

lemma sector_inj:
  assumes "dfs_ok s" "a < tot s" "b < tot s" "(of_nat a :: u32) + dfs_base s = of_nat b + dfs_base s"
  shows "a = b"
proof -
  have "(of_nat a :: u32) = of_nat b" using assms(4) by simp
  moreover have "a < 2 ^ 32" "b < 2 ^ 32" using assms(1-3) dfs_okD(7) [OF assms(1)] by simp_all
  ultimately show ?thesis by (metis unat_of_nat_u32)
qed

lemma dwrite_ok:
  assumes s: "dfs_ok s" and l: "unat l < tot s"
  obtains t where "dwrite l b s = Some t" "fs_same s t"
    "\<And>x. x < tot s \<Longrightarrow> sec t x = (if x = unat l then b else sec s x)"
proof -
  define t where "t = (if on_nvme s then s\<lparr>dk_nvme := store (l + dfs_base s) b (dk_nvme s)\<rparr>
     else s\<lparr>dk_virtio := store (l + dfs_base s) b (dk_virtio s)\<rparr>)"
  have "\<not> dv_bad (the_dev s) (l + dfs_base s)" using s l by (auto simp: dfs_ok_def)
  then have w: "dwrite l b s = Some t" by (simp add: dwrite_def Let_def t_def)
  have d: "the_dev t = store (l + dfs_base s) b (the_dev s)" "dfs_base t = dfs_base s" "dfs_sb t = dfs_sb s"
    "dfs_mounted t = dfs_mounted s"
    by (auto simp: t_def the_dev_def on_nvme_def store_def)
  have "fs_same s t" using s by (simp add: fs_same_def dfs_ok_def d store_def)
  moreover have "sec t x = (if x = unat l then b else sec s x)" if x: "x < tot s" for x
  proof (cases "x = unat l")
    case False
    then have "(of_nat x :: u32) + dfs_base s \<noteq> l + dfs_base s" using sector_inj [OF s x l] by auto
    then show ?thesis using False by (simp add: sec_def d store_def)
  qed (simp add: sec_def d store_def)
  ultimately show ?thesis using that w by blast
qed

section \<open>The bitmap\<close>

lemma bmap_secs_bound: "x < n \<Longrightarrow> x div 4096 < bmap_secs n"
proof -
  assume "x < n"
  then have "(x + 8) div 8 \<le> (n + 7) div 8" by (intro div_le_mono) simp
  then have a: "x div 8 < (n + 7) div 8" by simp
  then have "(x div 8 + 512) div 512 \<le> ((n + 7) div 8 + 511) div 512" by (intro div_le_mono) simp
  then have "x div 8 div 512 < bmap_secs n" by (simp add: bmap_secs_def)
  then show ?thesis by (simp add: div_mult2_eq [symmetric])
qed

lemma bmap_index:
  assumes s: "dfs_ok s" and x: "unat x < tot s"
  shows "unat (sb_bmap_start (dfs_sb s) + x div 8 div 512) = 1 + unat x div 4096"
    "1 + unat x div 4096 < ino0 s" "unat (x div 8 mod 512) = unat x div 8 mod 512" "unat (x mod 8) = unat x mod 8"
proof -
  show b: "1 + unat x div 4096 < ino0 s" using bmap_secs_bound [OF x] dfs_okD(4) [OF s] by simp
  have "unat (x div 8 div 512) = unat x div 4096" by (simp add: unat_div div_mult2_eq [symmetric])
  moreover have "1 + unat x div 4096 < 2 ^ 32" using b dfs_okD(5-7) [OF s] by simp
  ultimately show "unat (sb_bmap_start (dfs_sb s) + x div 8 div 512) = 1 + unat x div 4096"
    using dfs_okD(2) [OF s] by (subst unat_word_ariths) simp
  show "unat (x div 8 mod 512) = unat x div 8 mod 512" "unat (x mod 8) = unat x mod 8"
    by (simp_all add: unat_mod unat_div)
qed

lemma bmap_get_ok: "dfs_ok s \<Longrightarrow> unat x < tot s \<Longrightarrow> bmap_get x s = bitv s (unat x)"
proof -
  assume s: "dfs_ok s" and x: "unat x < tot s"
  note I = bmap_index [OF s x]
  have "dread (sb_bmap_start (dfs_sb s) + x div 8 div 512) s = Some (sec s (1 + unat x div 4096))"
    using dread_ok [OF s, of "sb_bmap_start (dfs_sb s) + x div 8 div 512"] I(1,2) dfs_okD(5,6) [OF s] by simp
  then show ?thesis by (simp add: bmap_get_def Let_def bitv_def I(3,4))
qed

lemma bit_split: "x = y \<longleftrightarrow> x div 4096 = y div 4096 \<and> x div 8 mod 512 = y div 8 mod 512 \<and> x mod 8 = (y :: nat) mod 8"
proof
  assume a: "x div 4096 = y div 4096 \<and> x div 8 mod 512 = y div 8 mod 512 \<and> x mod 8 = y mod 8"
  have e: "z = 4096 * (z div 4096) + 8 * (z div 8 mod 512) + z mod 8" for z :: nat
  proof -
    have "z div 8 = 512 * (z div 8 div 512) + z div 8 mod 512" by simp
    moreover have "z div 8 div 512 = z div 4096" by (simp add: div_mult2_eq [symmetric])
    moreover have "z = 8 * (z div 8) + z mod 8" by simp
    ultimately show ?thesis by linarith
  qed
  show "x = y" using e [of x] e [of y] a by simp
qed simp

lemma bmap_set_ok:
  assumes s: "dfs_ok s" and x: "unat x < tot s"
  shows "fs_same s (bmap_set x v s)"
    "y < tot s \<Longrightarrow> bitv (bmap_set x v s) y = (if y = unat x then v else bitv s y)"
    "ino0 s \<le> l \<Longrightarrow> l < tot s \<Longrightarrow> sec (bmap_set x v s) l = sec s l"
proof -
  let ?l = "sb_bmap_start (dfs_sb s) + x div 8 div 512" and ?n = "1 + unat x div 4096" and ?k = "unat x div 8 mod 512"
  let ?m = "push_bit (unat x mod 8) 1 :: u8" and ?b = "sec s (1 + unat x div 4096)"
  let ?c = "?b(?k := if v then ?b ?k OR ?m else ?b ?k AND NOT ?m)"
  note I = bmap_index [OF s x]
  have l: "unat ?l < tot s" using I(1,2) dfs_okD(5,6) [OF s] by simp
  have r: "dread ?l s = Some ?b" using dread_ok [OF s l] I(1) by simp
  obtain t where t: "dwrite ?l ?c s = Some t" "fs_same s t"
    "\<And>z. z < tot s \<Longrightarrow> sec t z = (if z = ?n then ?c else sec s z)"
  proof (rule dwrite_ok [OF s l, of ?c])
    fix t assume "dwrite ?l ?c s = Some t" "fs_same s t" "\<And>z. z < tot s \<Longrightarrow> sec t z = (if z = unat ?l then ?c else sec s z)"
    then show thesis unfolding I(1) by (rule that)
  qed
  have e: "bmap_set x v s = t" by (simp only: bmap_set_def Let_def I(3,4) r option.case t(1))
  show "fs_same s (bmap_set x v s)" using t(2) e by simp
  show "sec (bmap_set x v s) l = sec s l" if "ino0 s \<le> l" "l < tot s" for l using t(3) that I(2) e by simp
  show "bitv (bmap_set x v s) y = (if y = unat x then v else bitv s y)" if y: "y < tot s" for y
  proof -
    have yl: "1 + y div 4096 < tot s" using bmap_secs_bound [OF y] dfs_okD(4-6) [OF s] by simp
    have m: "bit ?m j \<longleftrightarrow> j = unat x mod 8" if "j < 8" for j
      using that by (auto simp: bit_exp_iff possible_bit_def)
    have j: "y mod 8 < 8" by simp
    show ?thesis
    proof (cases "y div 4096 = unat x div 4096 \<and> y div 8 mod 512 = ?k")
      case True
      then have "y = unat x \<longleftrightarrow> y mod 8 = unat x mod 8" using bit_split [of y "unat x"] by blast
      then show ?thesis using True t(3) [OF yl] m [OF j] j unfolding e bitv_def
        by (auto simp: bit_or_iff bit_and_iff bit_not_iff possible_bit_def)
    next
      case False
      then have "y \<noteq> unat x" by auto
      then show ?thesis using False t(3) [OF yl] unfolding e bitv_def by auto
    qed
  qed
qed
section \<open>The inode table\<close>

abbreviation TABLE :: nat where "TABLE \<equiv> 14336"

lemma table_lba:
  assumes s: "dfs_ok s" and x: "off < TABLE"
  shows "unat (sb_inode_start (dfs_sb s) + of_nat (off div 512)) = ino0 s + off div 512" "ino0 s + off div 512 < dat0 s"
proof -
  have "off div 512 < 28" using x by (simp add: less_mult_imp_div_less)
  then show b: "ino0 s + off div 512 < dat0 s" using dfs_okD(5) [OF s] by simp
  then have "ino0 s + off div 512 < 2 ^ 32" "off div 512 < 2 ^ 32" using dfs_okD(6,7) [OF s] by simp_all
  then show "unat (sb_inode_start (dfs_sb s) + of_nat (off div 512)) = ino0 s + off div 512"
    by (subst unat_word_ariths) (simp add: unat_of_nat_u32)
qed

lemma in_chunk:
  assumes "off mod 512 + (j :: nat) < 512"
  shows "(off + j) div 512 = off div 512" "(off + j) mod 512 = off mod 512 + j"
proof -
  have "off + j = 512 * (off div 512) + (off mod 512 + j)" by simp
  then show "(off + j) div 512 = off div 512" "(off + j) mod 512 = off mod 512 + j"
    using assms by (metis div_mult_self4 div_less add.right_neutral zero_neq_numeral, metis mod_mult_self4 mod_less)
qed

lemma chunk_bytes:
  assumes "off mod 512 + c \<le> 512"
  shows "map (sec s (ino0 s + off div 512)) [off mod 512..<off mod 512 + c] = map (tbl s) [off..<off + c]"
proof (rule nth_equalityI)
  fix j assume "j < length (map (sec s (ino0 s + off div 512)) [off mod 512..<off mod 512 + c])"
  then have j: "j < c" by simp
  then show "map (sec s (ino0 s + off div 512)) [off mod 512..<off mod 512 + c] ! j = map (tbl s) [off..<off + c] ! j"
    using in_chunk [of off j] assms by (simp add: tbl_def)
qed simp

lemma iget_loop_ok:
  "dfs_ok s \<Longrightarrow> off + rem \<le> TABLE \<Longrightarrow> iget_loop off rem s = Some (map (tbl s) [off..<off + rem])"
proof (induction off rem s rule: iget_loop.induct)
  case (1 off rem s)
  show ?case
  proof (cases "rem = 0")
    case False
    let ?k = "off mod 512" and ?c = "min (512 - off mod 512) rem"
    let ?l = "sb_inode_start (dfs_sb s) + of_nat (off div 512)"
    have off: "off < TABLE" using 1(3) False by simp
    note L = table_lba [OF 1(2) off]
    have r: "dread ?l s = Some (sec s (ino0 s + off div 512))"
      using dread_ok [OF 1(2), of ?l] L dfs_okD(6) [OF 1(2)] by simp
    have "?k + ?c \<le> 512" by simp
    note C = chunk_bytes [OF this, of s]
    have "iget_loop (off + ?c) (rem - ?c) s = Some (map (tbl s) [off + ?c..<off + ?c + (rem - ?c)])"
      using 1(3) by (intro "1.IH" [OF False refl refl r 1(2)]) simp
    moreover have e: "off + ?c + (rem - ?c) = off + rem" by simp
    moreover have "[off..<off + ?c + (rem - ?c)] = [off..<off + ?c] @ [off + ?c..<off + ?c + (rem - ?c)]"
      by (rule upt_add_eq_append) simp
    then have "[off..<off + rem] = [off..<off + ?c] @ [off + ?c..<off + rem]" unfolding e .
    ultimately show ?thesis
      using False by (subst iget_loop.simps) (simp add: Let_def r C)
  qed (simp add: iget_loop.simps)
qed

lemma iput_loop_ok:
  "dfs_ok s \<Longrightarrow> off + length src \<le> TABLE \<Longrightarrow> \<exists>t. iput_loop off src s = (True, t) \<and> fs_same s t
     \<and> (\<forall>x < TABLE. tbl t x = (if off \<le> x \<and> x < off + length src then src ! (x - off) else tbl s x))
     \<and> (\<forall>l < tot s. l < ino0 s \<or> dat0 s \<le> l \<longrightarrow> sec t l = sec s l)"
proof (induction off src s rule: iput_loop.induct)
  case (1 off src s)
  show ?case
  proof (cases "src = []")
    case False
    let ?k = "off mod 512" and ?c = "min (512 - off mod 512) (length src)"
    let ?l = "sb_inode_start (dfs_sb s) + of_nat (off div 512)" and ?n = "ino0 s + off div 512"
    let ?b = "\<lambda>j. if ?k \<le> j \<and> j < ?k + ?c then src ! (j - ?k) else sec s ?n j"
    have off: "off < TABLE" using 1(3) False by (cases src) simp_all
    note L = table_lba [OF 1(2) off]
    have lt: "unat ?l < tot s" using L dfs_okD(6) [OF 1(2)] by simp
    have r: "dread ?l s = Some (sec s ?n)" using dread_ok [OF 1(2) lt] L by simp
    obtain u where u: "dwrite ?l ?b s = Some u" "fs_same s u"
      "\<And>x. x < tot s \<Longrightarrow> sec u x = (if x = unat ?l then ?b else sec s x)"
      using dwrite_ok [OF 1(2) lt] by blast
    have sb: "dfs_sb u = dfs_sb s" "dfs_ok u" using u(2) by (simp_all add: fs_same_def)
    have "\<exists>t. iput_loop (off + ?c) (drop ?c src) u = (True, t) \<and> fs_same u t
      \<and> (\<forall>x < TABLE. tbl t x = (if off + ?c \<le> x \<and> x < off + ?c + length (drop ?c src) then drop ?c src ! (x - (off + ?c)) else tbl u x))
      \<and> (\<forall>l < tot u. l < ino0 u \<or> dat0 u \<le> l \<longrightarrow> sec t l = sec u l)"
      using 1(3) by (intro "1.IH" [OF False refl refl refl r u(1) sb(2)]) simp
    then obtain t where t: "iput_loop (off + ?c) (drop ?c src) u = (True, t)" "fs_same u t"
      "\<And>x. x < TABLE \<Longrightarrow> tbl t x = (if off + ?c \<le> x \<and> x < off + ?c + length (drop ?c src) then drop ?c src ! (x - (off + ?c)) else tbl u x)"
      "\<And>l. l < tot u \<Longrightarrow> l < ino0 u \<or> dat0 u \<le> l \<Longrightarrow> sec t l = sec u l"
      by blast
    have tu: "tbl u x = (if off \<le> x \<and> x < off + ?c then src ! (x - off) else tbl s x)" if x: "x < TABLE" for x
    proof -
      have xl: "ino0 s + x div 512 < tot s" using table_lba(2) [OF 1(2) x] dfs_okD(6) [OF 1(2)] by simp
      have e: "tbl u x = (if x div 512 = off div 512 then ?b (x mod 512) else tbl s x)"
        using u(3) [OF xl] L(1) by (simp add: tbl_def sb)
      have xe: "x = 512 * (x div 512) + x mod 512" "off = 512 * (off div 512) + ?k" by simp_all
      show ?thesis
      proof (cases "x div 512 = off div 512")
        case True
        then have "off \<le> x \<longleftrightarrow> ?k \<le> x mod 512" "x < off + ?c \<longleftrightarrow> x mod 512 < ?k + ?c" "x - off = x mod 512 - ?k"
          using xe by linarith+
        then show ?thesis unfolding e using True by (simp add: tbl_def)
      next
        case False
        have "\<not> (off \<le> x \<and> x < off + ?c)"
        proof
          assume a: "off \<le> x \<and> x < off + ?c"
          then have "x - off < 512 - ?k" by linarith
          then have "?k + (x - off) < 512" by linarith
          then show False using in_chunk(1) [of off "x - off"] a False by simp
        qed
        then show ?thesis unfolding e using False by auto
      qed
    qed
    have "iput_loop off src s = (True, t)"
      using False by (subst iput_loop.simps) (simp only: Let_def r u(1) t(1) option.case if_False)
    moreover have "fs_same s t" using u(2) t(2) by (rule fs_same_trans)
    moreover have "tbl t x = (if off \<le> x \<and> x < off + length src then src ! (x - off) else tbl s x)" if x: "x < TABLE" for x
      using t(3) [OF x] tu [OF x] by (auto simp: min_def split: if_splits)
    moreover have "sec t l = sec s l" if "l < tot s" "l < ino0 s \<or> dat0 s \<le> l" for l
      using t(4) [of l] u(3) [of l] that L sb by auto
    ultimately show ?thesis by blast
  qed (use 1(2) in \<open>auto simp: iput_loop.simps fs_same_refl\<close>)
qed

section \<open>Inodes as records\<close>

definition inode_wf :: "dfs_inode \<Rightarrow> bool" where
  "inode_wf n \<longleftrightarrow> length (di_name n) = 24 \<and> length (di_blocks n) = DISKFS_DATABLOCKS \<and> length (di_pad n) = 2"

lemma of_le32_le32: "(\<And>j. j < 4 \<Longrightarrow> f (i + j) = le32 v ! j) \<Longrightarrow> of_le32 f i = v"
proof -
  assume a: "\<And>j. j < 4 \<Longrightarrow> f (i + j) = le32 v ! j"
  show ?thesis using a [of 0] a [of 1] a [of 2] a [of 3] unfolding of_le32_def
    by (simp add: le32_def le32_word)
qed

lemma length_le32 [simp]: "length (le32 v) = 4"
  by (simp add: le32_def)

lemma length_le32s [simp]: "length (concat (map le32 bs)) = 4 * length bs"
  by (induction bs) simp_all

lemma nth_le32s: "i < length bs \<Longrightarrow> j < 4 \<Longrightarrow> concat (map le32 bs) ! (4 * i + j) = le32 (bs ! i) ! j"
proof (induction bs arbitrary: i)
  case (Cons b bs)
  then show ?case by (cases i) (simp_all add: nth_append)
qed simp

lemma length_inode_bytes: "inode_wf n \<Longrightarrow> length (inode_bytes n) = INODE_SIZE"
  by (simp add: inode_bytes_def inode_wf_def)

lemma bytes_inode_bytes:
  assumes n: "inode_wf n" shows "bytes_inode (inode_bytes n) = n"
proof -
  let ?b = "inode_bytes n"
  have l: "length (di_name n) = 24" "length (di_blocks n) = 48" "length (di_pad n) = 2" using n by (simp_all add: inode_wf_def)
  have size: "of_le32 ((!) ?b) 24 = di_size n"
    by (rule of_le32_le32) (simp add: inode_bytes_def nth_append l)
  have "of_le32 ((!) ?b) (28 + 4 * i) = di_blocks n ! i" if i: "i < 48" for i
  proof (rule of_le32_le32)
    fix j assume j: "(j :: nat) < 4"
    have "4 * i + j < 192" using i j by linarith
    then show "?b ! (28 + 4 * i + j) = le32 (di_blocks n ! i) ! j"
      using nth_le32s [of i "di_blocks n" j] i j by (simp add: inode_bytes_def nth_append l)
  qed
  then have blocks: "map (\<lambda>i. of_le32 ((!) ?b) (28 + 4 * i)) [0..<DISKFS_DATABLOCKS] = di_blocks n"
    by (intro nth_equalityI) (simp_all add: l)
  have "take 24 ?b = di_name n" "?b ! 220 = di_used n" "?b ! 221 = di_ftype n" "drop 222 ?b = di_pad n"
    by (simp_all add: inode_bytes_def nth_append l)
  then show ?thesis by (simp add: bytes_inode_def size blocks)
qed

lemma ino_wf: "inode_wf (ino s i)"
  by (simp add: ino_def bytes_inode_def inode_wf_def)

lemma iget_ok: "dfs_ok s \<Longrightarrow> i < 64 \<Longrightarrow> iget i s = Some (ino s i)"
  by (simp add: iget_def iget_loop_ok ino_def)

lemma iput_ok:
  assumes s: "dfs_ok s" and i: "i < 64" and n: "inode_wf n"
  shows "\<exists>t. iput i n s = (True, t) \<and> fs_same s t \<and> (\<forall>j < 64. ino t j = (if j = i then n else ino s j))
    \<and> (\<forall>x < tot s. bitv t x = bitv s x) \<and> (\<forall>l < tot s. dat0 s \<le> l \<longrightarrow> sec t l = sec s l)"
proof -
  let ?o = "i * INODE_SIZE"
  note len = length_inode_bytes [OF n]
  have "?o + length (inode_bytes n) \<le> TABLE" using i unfolding len by simp
  then obtain t where t: "iput i n s = (True, t)" "fs_same s t"
    "\<And>x. x < TABLE \<Longrightarrow> tbl t x = (if ?o \<le> x \<and> x < ?o + INODE_SIZE then inode_bytes n ! (x - ?o) else tbl s x)"
    "\<And>l. l < tot s \<Longrightarrow> l < ino0 s \<or> dat0 s \<le> l \<Longrightarrow> sec t l = sec s l"
    using iput_loop_ok [OF s, of ?o "inode_bytes n"] unfolding iput_def len by blast
  have "ino t j = (if j = i then n else ino s j)" if j: "j < 64" for j
  proof (cases "j = i")
    case True
    have "map (tbl t) [?o..<?o + INODE_SIZE] = inode_bytes n"
      using i t(3) by (intro nth_equalityI) (simp_all add: len)
    then show ?thesis using True by (simp add: ino_def bytes_inode_bytes [OF n])
  next
    case False
    have "tbl t x = tbl s x" if x: "x \<in> set [j * INODE_SIZE..<j * INODE_SIZE + INODE_SIZE]" for x
    proof -
      have "\<not> (?o \<le> x \<and> x < ?o + INODE_SIZE)"
      proof
        assume a: "?o \<le> x \<and> x < ?o + INODE_SIZE"
        have "x div INODE_SIZE = i" using a by (intro div_nat_eqI) simp_all
        moreover have "x div INODE_SIZE = j" using x by (intro div_nat_eqI) simp_all
        ultimately show False using False by simp
      qed
      moreover have "x < TABLE" using x j by simp
      ultimately show ?thesis using t(3) [of x] by auto
    qed
    then have E: "map (tbl t) [j * INODE_SIZE..<j * INODE_SIZE + INODE_SIZE] = map (tbl s) [j * INODE_SIZE..<j * INODE_SIZE + INODE_SIZE]"
      by (intro map_cong refl) blast
    show ?thesis unfolding ino_def E using False by simp
  qed
  moreover have "bitv t x = bitv s x" if "x < tot s" for x
  proof -
    have "1 + x div 4096 < ino0 s" using bmap_secs_bound [OF that] dfs_okD(4) [OF s] by simp
    then show ?thesis using t(4) [of "1 + x div 4096"] dfs_okD(5,6) [OF s] by (simp add: bitv_def)
  qed
  ultimately show ?thesis using t(1,2,4) by blast
qed

end
