(* ===== verification/Dfs_Files.thy ===== *)
theory Dfs_Files
  imports Dfs_Inv
begin

text \<open>
  Files on the disk: who owns a block.  \<open>exact\<close> says that the blocks of the used inodes are distinct data sectors and
  that the bitmap marks them and the sectors before the data, and nothing else.  Every operation keeps it; a written
  file reads back; the consistency check never complains.
\<close>

section \<open>What the primitives leave alone\<close>

lemma ino_cong:
  assumes "dfs_sb t = dfs_sb s" "dat0 s = ino0 s + 28" "\<And>l. ino0 s \<le> l \<Longrightarrow> l < dat0 s \<Longrightarrow> sec t l = sec s l" "i < 64"
  shows "ino t i = ino s i"
proof -
  have "tbl t x = tbl s x" if "x \<in> set [i * INODE_SIZE..<i * INODE_SIZE + INODE_SIZE]" for x
  proof -
    have "x div 512 < 28" using that assms(4) by (simp add: less_mult_imp_div_less)
    then show ?thesis using assms(1,2) assms(3) [of "ino0 s + x div 512"] by (simp add: tbl_def)
  qed
  then have E: "map (tbl t) [i * INODE_SIZE..<i * INODE_SIZE + INODE_SIZE] = map (tbl s) [i * INODE_SIZE..<i * INODE_SIZE + INODE_SIZE]"
    by (intro map_cong refl) blast
  show ?thesis unfolding ino_def E ..
qed

text \<open>\<open>keeps s t\<close>: the same disk with the same inodes.\<close>

definition keeps :: "dfs \<Rightarrow> dfs \<Rightarrow> bool" where
  "keeps s t \<longleftrightarrow> fs_same s t \<and> (\<forall>i < 64. ino t i = ino s i)"

lemma keepsD: "keeps s t \<Longrightarrow> fs_same s t" "keeps s t \<Longrightarrow> i < 64 \<Longrightarrow> ino t i = ino s i"
  by (simp_all add: keeps_def)

lemma keeps_refl: "dfs_ok s \<Longrightarrow> keeps s s"
  by (simp add: keeps_def fs_same_refl)

lemma keeps_trans: "keeps s t \<Longrightarrow> keeps t u \<Longrightarrow> keeps s u"
  unfolding keeps_def using fs_same_trans by auto

lemma keeps_sb: "keeps s t \<Longrightarrow> dfs_ok s \<and> dfs_ok t \<and> dfs_sb t = dfs_sb s"
  using keepsD(1) fs_sameD by blast

definition data_of :: "dfs \<Rightarrow> nat set" where
  "data_of s = {dat0 s..<tot s}"

lemma data_of_sb: "dfs_sb t = dfs_sb s \<Longrightarrow> data_of t = data_of s"
  by (simp add: data_of_def)

lemma data_word: "dfs_ok s \<Longrightarrow> w \<in> data_of s \<Longrightarrow> unat (of_nat w :: u32) = w"
  using dfs_okD(7) [of s] by (intro unat_of_nat_u32) (simp add: data_of_def)

lemma bmap_set_keeps:
  assumes s: "dfs_ok s" and w: "w \<in> data_of s"
  shows "keeps s (bmap_set (of_nat w) v s)"
    "y < tot s \<Longrightarrow> bitv (bmap_set (of_nat w) v s) y = (if y = w then v else bitv s y)"
    "l \<in> data_of s \<Longrightarrow> sec (bmap_set (of_nat w) v s) l = sec s l"
proof -
  have u: "unat (of_nat w :: u32) = w" by (rule data_word [OF s w])
  have lt: "unat (of_nat w :: u32) < tot s" using w unfolding u by (simp add: data_of_def)
  note B = bmap_set_ok [OF s lt]
  show "keeps s (bmap_set (of_nat w) v s)"
    unfolding keeps_def
  proof (intro conjI allI impI B(1))
    fix i :: nat assume "i < 64"
    then show "ino (bmap_set (of_nat w) v s) i = ino s i"
      using B(1) B(3) dfs_okD(5,6) [OF s] by (intro ino_cong) (simp_all add: fs_same_def)
  qed
  show "y < tot s \<Longrightarrow> bitv (bmap_set (of_nat w) v s) y = (if y = w then v else bitv s y)" using B(2) unfolding u .
  show "l \<in> data_of s \<Longrightarrow> sec (bmap_set (of_nat w) v s) l = sec s l"
    using B(3) dfs_okD(5) [OF s] by (simp add: data_of_def)
qed

lemma dwrite_keeps:
  assumes s: "dfs_ok s" and w: "w \<in> data_of s"
  obtains t where "dwrite (of_nat w) b s = Some t" "keeps s t" "\<And>y. y < tot s \<Longrightarrow> bitv t y = bitv s y"
    "\<And>l. l \<in> data_of s \<Longrightarrow> sec t l = (if l = w then b else sec s l)"
proof -
  have u: "unat (of_nat w :: u32) = w" by (rule data_word [OF s w])
  have lt: "unat (of_nat w :: u32) < tot s" using w unfolding u by (simp add: data_of_def)
  obtain t where t: "dwrite (of_nat w) b s = Some t" "fs_same s t"
    "\<And>x. x < tot s \<Longrightarrow> sec t x = (if x = w then b else sec s x)"
    using dwrite_ok [OF s lt, of b] unfolding u by blast
  have below: "sec t l = sec s l" if "l < dat0 s" for l using t(3) [of l] that w dfs_okD(6) [OF s] by (simp add: data_of_def)
  have "keeps s t" unfolding keeps_def
    using t(2) below dfs_okD(5) [OF s] by (auto simp: fs_same_def intro: ino_cong)
  moreover have "bitv t y = bitv s y" if "y < tot s" for y
    using below [of "1 + y div 4096"] bmap_secs_bound [OF that] dfs_okD(4,5) [OF s] by (simp add: bitv_def)
  ultimately show ?thesis using that t by (simp add: data_of_def)
qed

section \<open>Allocating and releasing\<close>

lemma balloc_ok:
  assumes s: "dfs_ok s"
  shows "(\<exists>w \<in> data_of s. \<not> bitv s w \<and> balloc s = (int w, bmap_set (of_nat w) True s))
    \<or> balloc s = (-1, s) \<and> (\<forall>w \<in> data_of s. bitv s w)"
proof (cases "first_from (\<lambda>i. \<not> bmap_get (of_nat i) s) (dat0 s) (tot s - dat0 s)")
  case None
  have "bitv s w" if w: "w \<in> data_of s" for w
  proof -
    have "bmap_get (of_nat w) s" using None w dfs_okD(6) [OF s] unfolding first_from_None_iff by (auto simp: data_of_def)
    then show ?thesis using bmap_get_ok [OF s, of "of_nat w"] w unfolding data_word [OF s w] by (simp add: data_of_def)
  qed
  then show ?thesis using None by (simp add: balloc_def)
next
  case (Some w)
  have w: "w \<in> data_of s" "\<not> bmap_get (of_nat w) s"
    using first_from_SomeD [OF Some] dfs_okD(6) [OF s] by (auto simp: data_of_def)
  have u: "unat (of_nat w :: u32) = w" by (rule data_word [OF s w(1)])
  have "\<not> bitv s w" using w bmap_get_ok [OF s, of "of_nat w"] unfolding u by (simp add: data_of_def)
  moreover have "sint (of_nat w :: u32) = int w"
  proof -
    have "w < 2147483648" using w(1) dfs_okD(7) [OF s] by (simp add: data_of_def)
    then show ?thesis by (simp add: signed_of_nat signed_take_bit_int_eq_self)
  qed
  ultimately show ?thesis using w(1) by (auto simp: balloc_def Some)
qed

lemma release_ok:
  "dfs_ok s \<Longrightarrow> (\<forall>b \<in> set bs. b \<noteq> 0 \<longrightarrow> unat b \<in> data_of s) \<Longrightarrow> keeps s (release bs s)
     \<and> (\<forall>y < tot s. bitv (release bs s) y \<longleftrightarrow> bitv s y \<and> y \<notin> unat ` (set bs - {0}))
     \<and> (\<forall>l \<in> data_of s. sec (release bs s) l = sec s l)"
proof (induction bs arbitrary: s)
  case Nil
  then show ?case by (simp add: release_def keeps_refl)
next
  case (Cons b bs)
  show ?case
  proof (cases "b = 0")
    case True
    then show ?thesis using Cons by (simp add: release_def)
  next
    case False
    let ?t = "bmap_set b False s"
    have b: "unat b \<in> data_of s" using Cons.prems(2) False by simp
    have B: "keeps s ?t" "\<And>y. y < tot s \<Longrightarrow> bitv ?t y = (if y = unat b then False else bitv s y)"
      "\<And>l. l \<in> data_of s \<Longrightarrow> sec ?t l = sec s l"
      using bmap_set_keeps [OF Cons.prems(1) b, where v = False] by simp_all
    have sb: "dfs_ok ?t" "dfs_sb ?t = dfs_sb s" using keeps_sb [OF B(1)] by auto
    have d: "data_of ?t = data_of s" using sb(2) by (rule data_of_sb)
    have r: "release (b # bs) s = release bs ?t" using False by (simp add: release_def)
    have "\<forall>c \<in> set bs. c \<noteq> 0 \<longrightarrow> unat c \<in> data_of ?t" using Cons.prems(2) d by simp
    note IH = Cons.IH [OF sb(1) this]
    have "keeps s (release bs ?t)" using B(1) IH keeps_trans by blast
    moreover have "bitv (release bs ?t) y \<longleftrightarrow> bitv s y \<and> y \<notin> unat ` (set (b # bs) - {0})" if "y < tot s" for y
      using IH B(2) [OF that] that sb(2) False by auto
    moreover have "sec (release bs ?t) l = sec s l" if "l \<in> data_of s" for l
      using IH B(3) [OF that] that d by simp
    ultimately show ?thesis unfolding r by blast
  qed
qed
section \<open>Writing the blocks\<close>

text \<open>What the allocation loop does from \<open>s\<close> to \<open>t\<close>: it takes the sectors \<open>new\<close>, all free before, and stores the bytes
  from \<open>off\<close> on in them.\<close>

definition wrote_new :: "(nat \<Rightarrow> u8) \<Rightarrow> nat \<Rightarrow> nat \<Rightarrow> nat list \<Rightarrow> dfs \<Rightarrow> dfs \<Rightarrow> bool" where
  "wrote_new dat len off new s t \<longleftrightarrow> keeps s t \<and> distinct new \<and> set new \<subseteq> data_of s \<and> (\<forall>w \<in> set new. \<not> bitv s w)
     \<and> (\<forall>y < tot s. bitv t y \<longleftrightarrow> bitv s y \<or> y \<in> set new) \<and> (\<forall>l \<in> data_of s - set new. sec t l = sec s l)
     \<and> (\<forall>j < length new. \<forall>m < 512. off + 512 * j + m < len \<longrightarrow> sec t (new ! j) m = dat (off + 512 * j + m))"

definition free_of :: "dfs \<Rightarrow> nat set" where
  "free_of s = {w \<in> data_of s. \<not> bitv s w}"

lemma wrote_new_Nil: "dfs_ok s \<Longrightarrow> wrote_new dat len off [] s s"
  by (simp add: wrote_new_def keeps_refl)

lemma wrote_new_Cons:
  assumes s: "dfs_ok s" and w: "w \<in> data_of s" "\<not> bitv s w"
    and k: "keeps s u" and bits: "\<And>y. y < tot s \<Longrightarrow> bitv u y = (y = w \<or> bitv s y)"
    and secs: "\<And>l. l \<in> data_of s \<Longrightarrow> sec u l = (if l = w then b else sec s l)"
    and b: "\<And>m. m < 512 \<Longrightarrow> off + m < len \<Longrightarrow> b m = dat (off + m)"
    and r: "wrote_new dat len (off + 512) new u t"
  shows "wrote_new dat len off (w # new) s t"
proof -
  have sb: "dfs_sb u = dfs_sb s" using keeps_sb [OF k] by simp
  have d: "data_of u = data_of s" using sb by (rule data_of_sb)
  have wt: "w < tot s" using w(1) by (simp add: data_of_def)
  have R: "keeps u t" "distinct new" "set new \<subseteq> data_of s" "\<forall>x \<in> set new. \<not> bitv u x"
    "\<forall>y < tot s. bitv t y \<longleftrightarrow> bitv u y \<or> y \<in> set new" "\<forall>l \<in> data_of s - set new. sec t l = sec u l"
    "\<And>j m. j < length new \<Longrightarrow> m < 512 \<Longrightarrow> off + 512 + 512 * j + m < len \<Longrightarrow> sec t (new ! j) m = dat (off + 512 + 512 * j + m)"
    using r unfolding wrote_new_def d sb by auto
  have nt: "x < tot s" if "x \<in> set new" for x using R(3) that by (auto simp: data_of_def)
  have nw: "w \<notin> set new" using R(4) bits [OF wt] by auto
  have free: "\<not> bitv s x" if "x \<in> set new" for x using R(4) bits [OF nt [OF that]] that by simp
  have data: "sec t ((w # new) ! j) m = dat (off + 512 * j + m)"
    if "j < length (w # new)" "m < 512" "off + 512 * j + m < len" for j m
  proof (cases j)
    case 0
    then show ?thesis using R(6) nw w(1) secs [OF w(1)] b that by simp
  next
    case (Suc i)
    then show ?thesis using R(7) [of i m] that by (simp add: algebra_simps)
  qed
  have "keeps s t" using k R(1) by (rule keeps_trans)
  moreover have "\<forall>y < tot s. bitv t y \<longleftrightarrow> bitv s y \<or> y \<in> set (w # new)" using R(5) bits by auto
  moreover have "\<forall>l \<in> data_of s - set (w # new). sec t l = sec s l" using R(6) secs by auto
  ultimately show ?thesis using R(2,3) nw w free data unfolding wrote_new_def by simp
qed

lemma write_loop_ok:
  "dfs_ok s \<Longrightarrow> length bs = DISKFS_DATABLOCKS \<Longrightarrow> bi \<le> DISKFS_DATABLOCKS \<Longrightarrow> write_loop dat len off bi bs s = (ok, bs', t) \<Longrightarrow>
   \<exists>new. wrote_new dat len off new s t \<and> bi + length new \<le> DISKFS_DATABLOCKS
     \<and> bs' = take bi bs @ map of_nat new @ drop (bi + length new) bs
     \<and> (ok \<longrightarrow> bi + length new = DISKFS_DATABLOCKS \<or> len \<le> off + 512 * length new)
     \<and> (\<not> ok \<longrightarrow> off + 512 * length new < len \<and> (\<forall>w \<in> data_of s. bitv t w))"
proof (induction dat len off bi bs s arbitrary: ok bs' t rule: write_loop.induct)
  case (1 dat len off bi bs s ok bs' t)
  note s = 1(2) and lb = 1(3) and bi = 1(4) and res = 1(5)
  show ?case
  proof (cases "off < len \<and> bi < DISKFS_DATABLOCKS")
    case False
    then have "write_loop dat len off bi bs s = (True, bs, s)" by (subst write_loop.simps) auto
    then have "ok" "bs' = bs" "t = s" using res by simp_all
    then show ?thesis using False wrote_new_Nil [OF s] bi by (intro exI [of _ "[]"]) auto
  next
    case True
    show ?thesis
    proof (cases "\<exists>w \<in> data_of s. \<not> bitv s w \<and> balloc s = (int w, bmap_set (of_nat w) True s)")
      case False
      then have b: "balloc s = (-1, s)" "\<forall>w \<in> data_of s. bitv s w" using balloc_ok [OF s] by blast+
      then have "write_loop dat len off bi bs s = (False, bs, s)" using True by (subst write_loop.simps) simp
      then have "\<not> ok" "bs' = bs" "t = s" using res by simp_all
      then show ?thesis using wrote_new_Nil [OF s] bi b(2) True by (intro exI [of _ "[]"]) simp
    next
      case w: True
      then obtain w where w: "w \<in> data_of s" "\<not> bitv s w" "balloc s = (int w, bmap_set (of_nat w) True s)" by blast
      let ?s1 = "bmap_set (of_nat w) True s" and ?c = "min (len - off) 512"
      let ?b = "\<lambda>j. if j < ?c then dat (off + j) else 0"
      note B = bmap_set_keeps [OF s w(1), where v = True]
      have s1: "dfs_ok ?s1" "dfs_sb ?s1 = dfs_sb s" using keeps_sb [OF B(1)] by auto
      have d1: "data_of ?s1 = data_of s" using s1(2) by (rule data_of_sb)
      obtain u where u: "dwrite (of_nat w) ?b ?s1 = Some u" "keeps ?s1 u" "\<And>y. y < tot ?s1 \<Longrightarrow> bitv u y = bitv ?s1 y"
        "\<And>l. l \<in> data_of ?s1 \<Longrightarrow> sec u l = (if l = w then ?b else sec ?s1 l)"
        using dwrite_keeps [OF s1(1), of w ?b] w(1) d1 by blast
      have k: "keeps s u" using B(1) u(2) by (rule keeps_trans)
      have uo: "dfs_ok u" using keeps_sb [OF k] by simp
      have step: "write_loop dat len off bi bs s = write_loop dat len (off + ?c) (bi + 1) (bs[bi := of_nat w]) u"
        using True w(3) u(1) by (subst write_loop.simps) (simp add: Let_def)
      have IH: "\<exists>new. wrote_new dat len (off + ?c) new u t \<and> bi + 1 + length new \<le> DISKFS_DATABLOCKS
        \<and> bs' = take (bi + 1) (bs[bi := of_int (int w)]) @ map of_nat new @ drop (bi + 1 + length new) (bs[bi := of_int (int w)])
        \<and> (ok \<longrightarrow> bi + 1 + length new = DISKFS_DATABLOCKS \<or> len \<le> off + ?c + 512 * length new)
        \<and> (\<not> ok \<longrightarrow> off + ?c + 512 * length new < len \<and> (\<forall>w \<in> data_of u. bitv t w))"
      proof (rule "1.IH" [OF True w(3) [symmetric] refl _ refl refl])
        show "\<not> int w < 0" by simp
        show "dwrite (of_int (int w)) ?b ?s1 = Some u" using u(1) by simp
        show "write_loop dat len (off + ?c) (bi + 1) (bs[bi := of_int (int w)]) u = (ok, bs', t)" using res step by simp
      qed (use uo lb True in simp_all)
      obtain new where N: "wrote_new dat len (off + ?c) new u t" "bi + 1 + length new \<le> DISKFS_DATABLOCKS"
        "bs' = take (bi + 1) (bs[bi := of_nat w]) @ map of_nat new @ drop (bi + 1 + length new) (bs[bi := of_nat w])"
        "ok \<longrightarrow> bi + 1 + length new = DISKFS_DATABLOCKS \<or> len \<le> off + ?c + 512 * length new"
        "\<not> ok \<longrightarrow> off + ?c + 512 * length new < len \<and> (\<forall>w \<in> data_of u. bitv t w)"
        using IH unfolding of_int_of_nat_eq by blast
      have N1: "wrote_new dat len (off + 512) new u t"
        using N(1) by (cases "?c = 512") (auto simp: wrote_new_def)
      have "wrote_new dat len off (w # new) s t"
      proof (rule wrote_new_Cons [OF s w(1,2) k _ _ _ N1])
        show "bitv u y = (y = w \<or> bitv s y)" if "y < tot s" for y using u(3) [of y] B(2) [OF that] s1(2) that by auto
        show "sec u l = (if l = w then ?b else sec s l)" if "l \<in> data_of s" for l using u(4) [of l] B(3) [OF that] d1 that by simp
      qed auto
      moreover have "bs' = take bi bs @ map of_nat (w # new) @ drop (bi + length (w # new)) bs"
        using N(3) True lb by (simp add: take_Suc_conv_app_nth)
      moreover have "data_of u = data_of s" using keeps_sb [OF k] data_of_sb by blast
      moreover have "\<not> ok \<longrightarrow> off + 512 * length (w # new) < len" using N(5) by auto
      ultimately show ?thesis using N(2,4,5) by (intro exI [of _ "w # new"]) auto
    qed
  qed
qed

text \<open>The loop gets through exactly if there are enough free blocks.\<close>

lemma write_loop_room:
  assumes w: "wrote_new dat len 0 new s u" and big: "len \<le> 24576"
    and ok: "ok \<longrightarrow> length new = DISKFS_DATABLOCKS \<or> len \<le> 512 * length new"
    and bad: "\<not> ok \<longrightarrow> 512 * length new < len \<and> (\<forall>w \<in> data_of s. bitv u w)"
  shows "ok \<longleftrightarrow> len \<le> 512 * card (free_of s)"
proof -
  have W: "distinct new" "set new \<subseteq> free_of s" "\<And>y. y < tot s \<Longrightarrow> bitv u y \<longleftrightarrow> bitv s y \<or> y \<in> set new"
    using w unfolding wrote_new_def free_of_def by auto
  have fin: "finite (free_of s)" by (simp add: free_of_def data_of_def)
  have c: "card (set new) = length new" using W(1) by (rule distinct_card)
  show ?thesis
  proof (cases ok)
    case True
    have "length new \<le> card (free_of s)" using card_mono [OF fin W(2)] c by simp
    then show ?thesis using True ok big by auto
  next
    case False
    then have "free_of s \<subseteq> set new" using bad W(3) by (auto simp: free_of_def data_of_def)
    then have "card (free_of s) \<le> length new" using card_mono [of "set new"] c by fastforce
    then show ?thesis using False bad by auto
  qed
qed

section \<open>Ownership\<close>

abbreviation nz :: "u32 list \<Rightarrow> u32 list" where "nz bs \<equiv> filter (\<lambda>b. b \<noteq> 0) bs"

definition fblocks :: "dfs \<Rightarrow> nat \<Rightarrow> nat set" where
  "fblocks s i = (if di_used (ino s i) = 0 then {} else unat ` set (nz (di_blocks (ino s i))))"

definition file_ok :: "nat set \<Rightarrow> dfs_inode \<Rightarrow> bool" where
  "file_ok D n \<longleftrightarrow> distinct (nz (di_blocks n)) \<and> unat ` set (nz (di_blocks n)) \<subseteq> D \<and> unat (di_size n) \<le> DISKFS_MAXFILE"

text \<open>Exact ownership, leaving out inode \<open>i\<close>; with \<open>i = 64\<close> no inode is left out.\<close>

definition exact_but :: "nat \<Rightarrow> dfs \<Rightarrow> bool" where
  "exact_but i s \<longleftrightarrow> dfs_ok s
     \<and> (\<forall>j < 64. j \<noteq> i \<longrightarrow> di_used (ino s j) \<noteq> 0 \<longrightarrow> file_ok (data_of s) (ino s j))
     \<and> (\<forall>j < 64. \<forall>k < 64. j \<noteq> i \<longrightarrow> k \<noteq> i \<longrightarrow> j \<noteq> k \<longrightarrow> fblocks s j \<inter> fblocks s k = {})
     \<and> (\<forall>y < tot s. bitv s y \<longleftrightarrow> y < dat0 s \<or> (\<exists>j < 64. j \<noteq> i \<and> y \<in> fblocks s j))"

abbreviation exact :: "dfs \<Rightarrow> bool" where "exact s \<equiv> exact_but 64 s"

lemma exact_butD:
  assumes "exact_but i s"
  shows "dfs_ok s" "j < 64 \<Longrightarrow> j \<noteq> i \<Longrightarrow> di_used (ino s j) \<noteq> 0 \<Longrightarrow> file_ok (data_of s) (ino s j)"
    "j < 64 \<Longrightarrow> k < 64 \<Longrightarrow> j \<noteq> i \<Longrightarrow> k \<noteq> i \<Longrightarrow> j \<noteq> k \<Longrightarrow> fblocks s j \<inter> fblocks s k = {}"
    "y < tot s \<Longrightarrow> bitv s y \<longleftrightarrow> y < dat0 s \<or> (\<exists>j < 64. j \<noteq> i \<and> y \<in> fblocks s j)"
  using assms unfolding exact_but_def by blast+

lemma exactI:
  assumes "dfs_ok s" "\<And>j. j < 64 \<Longrightarrow> di_used (ino s j) \<noteq> 0 \<Longrightarrow> file_ok (data_of s) (ino s j)"
    "\<And>j k. j < 64 \<Longrightarrow> k < 64 \<Longrightarrow> j \<noteq> k \<Longrightarrow> fblocks s j \<inter> fblocks s k = {}"
    "\<And>y. y < tot s \<Longrightarrow> bitv s y \<longleftrightarrow> y < dat0 s \<or> (\<exists>j < 64. y \<in> fblocks s j)"
  shows "exact s"
proof -
  have "(\<exists>j < 64. j \<noteq> 64 \<and> y \<in> fblocks s j) \<longleftrightarrow> (\<exists>j < 64. y \<in> fblocks s j)" for y by (metis less_irrefl_nat)
  then show ?thesis using assms unfolding exact_but_def by simp
qed

lemma fblocks_data:
  assumes "exact_but i s" "j < 64" "j \<noteq> i" shows "fblocks s j \<subseteq> data_of s"
  using exact_butD(2) [OF assms] by (auto simp: fblocks_def file_ok_def)

lemma fblocks_same: "ino t j = ino s j \<Longrightarrow> fblocks t j = fblocks s j"
  by (simp add: fblocks_def)

lemma exact_unused: "exact s \<Longrightarrow> i < 64 \<Longrightarrow> di_used (ino s i) = 0 \<Longrightarrow> exact_but i s"
proof -
  assume e: "exact s" and i: "i < 64" "di_used (ino s i) = 0"
  have z: "fblocks s i = {}" using i by (simp add: fblocks_def)
  have "bitv s y \<longleftrightarrow> y < dat0 s \<or> (\<exists>j < 64. j \<noteq> i \<and> y \<in> fblocks s j)" if "y < tot s" for y
    using exact_butD(4) [OF e that] z by fastforce
  then show ?thesis using e unfolding exact_but_def by auto
qed

text \<open>Releasing the blocks of one inode.\<close>

lemma exact_release:
  assumes e: "exact s" and i: "i < 64" "di_used (ino s i) \<noteq> 0"
  defines "t \<equiv> release (di_blocks (ino s i)) s"
  shows "exact_but i t" "keeps s t" "l \<in> data_of s \<Longrightarrow> sec t l = sec s l"
proof -
  have s: "dfs_ok s" using e by (rule exact_butD)
  have f: "fblocks s i = unat ` (set (di_blocks (ino s i)) - {0})" using i(2) by (auto simp: fblocks_def)
  have "\<forall>b \<in> set (di_blocks (ino s i)). b \<noteq> 0 \<longrightarrow> unat b \<in> data_of s" using fblocks_data [OF e i(1)] i(1) f by auto
  note R = release_ok [OF s this, folded t_def]
  show k: "keeps s t" using R by blast
  show "l \<in> data_of s \<Longrightarrow> sec t l = sec s l" using R by blast
  have sb: "dfs_ok t" "dfs_sb t = dfs_sb s" using keeps_sb [OF k] by auto
  have ti: "ino t j = ino s j" if "j < 64" for j using keepsD(2) [OF k that] .
  have "bitv t y \<longleftrightarrow> y < dat0 t \<or> (\<exists>j < 64. j \<noteq> i \<and> y \<in> fblocks t j)" if y: "y < tot t" for y
  proof -
    have ys: "y < tot s" using y sb by simp
    have "bitv t y \<longleftrightarrow> bitv s y \<and> y \<notin> fblocks s i" using R ys unfolding f by blast
    also have "\<dots> \<longleftrightarrow> y < dat0 s \<or> (\<exists>j < 64. j \<noteq> i \<and> y \<in> fblocks s j)"
    proof -
      have "y < dat0 s \<Longrightarrow> y \<notin> fblocks s i" using fblocks_data [OF e i(1)] i(1) by (auto simp: data_of_def)
      moreover have "j < 64 \<Longrightarrow> j \<noteq> i \<Longrightarrow> y \<in> fblocks s j \<Longrightarrow> y \<notin> fblocks s i" for j
        using exact_butD(3) [OF e, of j i] i(1) by auto
      ultimately show ?thesis using exact_butD(4) [OF e ys] by (metis less_irrefl)
    qed
    finally show ?thesis using ti fblocks_same sb by metis
  qed
  moreover have "di_used (ino t j) \<noteq> 0 \<longrightarrow> file_ok (data_of t) (ino t j)" if "j < 64" for j
    using exact_butD(2) [OF e that] that ti [OF that] data_of_sb [OF sb(2)] by simp
  moreover have "fblocks t j \<inter> fblocks t k = {}" if "j < 64" "k < 64" "j \<noteq> k" for j k
    using exact_butD(3) [OF e that(1,2)] that fblocks_same [OF ti [OF that(1)]] fblocks_same [OF ti [OF that(2)]] by simp
  ultimately show "exact_but i t" using sb(1) unfolding exact_but_def by blast
qed

text \<open>Storing inode \<open>i\<close> with the blocks taken for it.\<close>

lemma close_hole:
  assumes e: "exact_but i s" and i: "i < 64" and k: "keeps s u"
    and bits: "\<And>y. y < tot s \<Longrightarrow> bitv u y \<longleftrightarrow> bitv s y \<or> y \<in> set new"
    and new: "distinct new" "set new \<subseteq> data_of s" "\<And>w. w \<in> set new \<Longrightarrow> \<not> bitv s w"
    and n: "inode_wf n" "di_used n \<noteq> 0 \<Longrightarrow> nz (di_blocks n) = map of_nat new \<and> unat (di_size n) \<le> DISKFS_MAXFILE"
      "di_used n = 0 \<Longrightarrow> new = []"
  obtains t where "iput i n u = (True, t)" "exact t" "fs_same s t" "\<And>j. j < 64 \<Longrightarrow> ino t j = (if j = i then n else ino s j)"
    "\<And>l. l \<in> data_of s \<Longrightarrow> sec t l = sec u l"
proof -
  have u: "dfs_ok u" "dfs_sb u = dfs_sb s" and s: "dfs_ok s" using keeps_sb [OF k] by auto
  obtain t where t: "iput i n u = (True, t)" "fs_same u t" "\<And>j. j < 64 \<Longrightarrow> ino t j = (if j = i then n else ino u j)"
    "\<And>x. x < tot u \<Longrightarrow> bitv t x = bitv u x" "\<And>l. l < tot u \<Longrightarrow> dat0 u \<le> l \<Longrightarrow> sec t l = sec u l"
    using iput_ok [OF u(1) i n(1)] by blast
  have ts: "fs_same s t" using keepsD(1) [OF k] t(2) by (rule fs_same_trans)
  have sb: "dfs_ok t" "dfs_sb t = dfs_sb s" using fs_sameD [OF ts] by auto
  have tj: "ino t j = (if j = i then n else ino s j)" if "j < 64" for j using t(3) [OF that] keepsD(2) [OF k that] by simp
  have other: "fblocks t j = fblocks s j" if "j < 64" "j \<noteq> i" for j using tj [OF that(1)] that(2) by (simp add: fblocks_def)
  have mine: "fblocks t i = set new"
  proof (cases "di_used n = 0")
    case True
    then show ?thesis using tj [OF i] n(3) by (simp add: fblocks_def)
  next
    case False
    have "unat ` set (map (of_nat :: nat \<Rightarrow> u32) new) = set new"
      using data_word [OF s] new(2) by (force simp: image_image)
    then show ?thesis using False tj [OF i] n(2) by (simp add: fblocks_def)
  qed
  have sep: "fblocks s j \<inter> set new = {}" if j: "j < 64" "j \<noteq> i" for j
  proof -
    have "bitv s y" if y: "y \<in> fblocks s j" for y
    proof -
      have "y < tot s" using fblocks_data [OF e j] y by (auto simp: data_of_def)
      then show ?thesis using exact_butD(4) [OF e] j y by blast
    qed
    then show ?thesis using new(3) by blast
  qed
  have "di_used (ino t j) \<noteq> 0 \<longrightarrow> file_ok (data_of t) (ino t j)" if j: "j < 64" for j
  proof (cases "j = i")
    case True
    have "inj_on (of_nat :: nat \<Rightarrow> u32) (set new)" using data_word [OF s] new(2) by (metis inj_onI subsetD)
    then have d: "distinct (map (of_nat :: nat \<Rightarrow> u32) new)" using new(1) by (simp add: distinct_map)
    show ?thesis using True tj [OF i] n(2) mine new(2) data_of_sb [OF sb(2)] d
      by (auto simp: file_ok_def fblocks_def)
  next
    case False
    then show ?thesis using exact_butD(2) [OF e j False] tj [OF j] data_of_sb [OF sb(2)] by simp
  qed
  moreover have "fblocks t j \<inter> fblocks t m = {}" if "j < 64" "m < 64" "j \<noteq> m" for j m
    using exact_butD(3) [OF e that(1,2)] sep other mine that by (metis inf_commute)
  moreover have "bitv t y \<longleftrightarrow> y < dat0 t \<or> (\<exists>j < 64. y \<in> fblocks t j)" if y: "y < tot t" for y
  proof -
    have ys: "y < tot s" using y sb by simp
    have "bitv t y \<longleftrightarrow> bitv s y \<or> y \<in> set new" using t(4) [of y] bits [OF ys] ys u by simp
    also have "\<dots> \<longleftrightarrow> y < dat0 s \<or> (\<exists>j < 64. j \<noteq> i \<and> y \<in> fblocks s j) \<or> y \<in> set new"
      using exact_butD(4) [OF e ys] by blast
    also have "\<dots> \<longleftrightarrow> y < dat0 s \<or> (\<exists>j < 64. y \<in> fblocks t j)" using other mine i by metis
    finally show ?thesis using sb by simp
  qed
  ultimately have "exact t" using sb(1) by (intro exactI) blast+
  then show ?thesis using that t(1) ts tj t(5) u(2) by (auto simp: data_of_def)
qed

end
