(* ===== verification/Dfs_Ops.thy ===== *)
theory Dfs_Ops
  imports Dfs_Files
begin

text \<open>
  The operations of the on-disk file system: exact ownership is kept by all of them, a written file reads back and no
  other file changes, a fresh disk is clean and the consistency check accepts every disk the operations leave.
\<close>

section \<open>Searching the inode table\<close>

definition named :: "u8 list \<Rightarrow> dfs \<Rightarrow> nat \<Rightarrow> bool" where
  "named nm s i \<longleftrightarrow> di_used (ino s i) \<noteq> 0 \<and> cname (di_name (ino s i)) = cname nm"

definition index :: "nat option \<Rightarrow> int" where
  "index r = (case r of None \<Rightarrow> -1 | Some i \<Rightarrow> int i)"

lemma ifind_ok: "dfs_ok s \<Longrightarrow> ifind nm s = index (first_from (named nm s) 0 64)"
proof -
  assume s: "dfs_ok s"
  have "i + k \<le> 64 \<Longrightarrow> ifind_from nm i k s = index (first_from (named nm s) i k)" for i k
    by (induction k arbitrary: i) (simp_all add: index_def iget_ok [OF s] named_def)
  then show ?thesis by (simp add: ifind_def dfs_okD(3) [OF s])
qed

lemma free_inode_ok: "dfs_ok s \<Longrightarrow> free_inode s = index (first_from (\<lambda>i. di_used (ino s i) = 0) 0 64)"
proof -
  assume s: "dfs_ok s"
  have "i + k \<le> 64 \<Longrightarrow> free_from i k s = index (first_from (\<lambda>i. di_used (ino s i) = 0) i k)" for i k
    by (induction k arbitrary: i) (simp_all add: index_def iget_ok [OF s])
  then show ?thesis by (simp add: free_inode_def dfs_okD(3) [OF s])
qed

lemma index_found: "index (first_from P 0 64) \<ge> 0 \<Longrightarrow> \<exists>i. first_from P 0 64 = Some i \<and> nat (index (first_from P 0 64)) = i \<and> i < 64 \<and> P i"
  by (cases "first_from P 0 64") (auto simp: index_def dest: first_from_SomeD)

section \<open>Reading\<close>

definition content :: "dfs \<Rightarrow> u32 list \<Rightarrow> u8 list" where
  "content s bs = concat (map (\<lambda>b. map (sec s (unat b)) [0..<512]) (takeWhile (\<lambda>b. b \<noteq> 0) bs))"

lemma read_loop_ok:
  "dfs_ok s \<Longrightarrow> (\<forall>b \<in> set bs. b \<noteq> 0 \<longrightarrow> unat b \<in> data_of s) \<Longrightarrow> read_loop bs want s = Some (take want (content s bs))"
proof (induction bs arbitrary: want)
  case (Cons b bs)
  show ?case
  proof (cases "want = 0 \<or> b = 0")
    case False
    then have "unat b < tot s" using Cons.prems(2) by (simp add: data_of_def)
    then have "dread b s = Some (sec s (unat b))" by (rule dread_ok [OF Cons.prems(1)])
    moreover have "map (sec s (unat b)) [0..<min want 512] = take want (map (sec s (unat b)) [0..<512])"
      by (simp add: take_map min_def)
    ultimately show ?thesis using Cons False by (simp add: content_def min_def)
  qed (auto simp: content_def)
qed (simp add: content_def)

lemma content_same:
  "(\<And>b. b \<in> set bs \<Longrightarrow> b \<noteq> 0 \<Longrightarrow> sec t (unat b) = sec s (unat b)) \<Longrightarrow> content t bs = content s bs"
proof -
  assume a: "\<And>b. b \<in> set bs \<Longrightarrow> b \<noteq> 0 \<Longrightarrow> sec t (unat b) = sec s (unat b)"
  have "map (\<lambda>b. map (sec t (unat b)) [0..<512]) (takeWhile (\<lambda>b. b \<noteq> 0) bs)
      = map (\<lambda>b. map (sec s (unat b)) [0..<512]) (takeWhile (\<lambda>b. b \<noteq> 0) bs)"
    using a by (intro map_cong refl) (metis set_takeWhileD)
  then show ?thesis by (simp only: content_def)
qed

lemma length_content: "length (content s bs) = 512 * length (takeWhile (\<lambda>b. b \<noteq> 0) bs)"
proof -
  have "length (concat (map (\<lambda>b. map (f b) [0..<512]) l)) = 512 * length l" for f :: "u32 \<Rightarrow> nat \<Rightarrow> u8" and l
    by (induction l) (simp_all del: upt_rec_numeral)
  then show ?thesis by (simp add: content_def del: upt_rec_numeral)
qed

lemma nth_blocks:
  "x < 512 * length l \<Longrightarrow> concat (map (\<lambda>b. map (f b) [0..<512]) l) ! x = f (l ! (x div 512)) (x mod 512)"
proof (induction l arbitrary: x)
  case (Cons b l)
  show ?case
  proof (cases "x < 512")
    case False
    then obtain y where y: "x = 512 + y" by (metis le_add_diff_inverse not_less)
    have "(512 + y) div 512 = Suc (y div 512)" "(512 + y) mod 512 = y mod 512" by simp_all
    then show ?thesis using Cons y by (simp add: nth_append del: upt_rec_numeral)
  qed (simp add: nth_append del: upt_rec_numeral)
qed simp
section \<open>Writing\<close>

lemma new_blocks_nz:
  assumes s: "dfs_ok s" and new: "set new \<subseteq> data_of s"
  shows "nz (map of_nat new @ replicate k 0) = map of_nat new"
    "takeWhile (\<lambda>b. b \<noteq> 0) (map of_nat new @ replicate k (0 :: u32)) = map of_nat new"
proof -
  have "(of_nat w :: u32) \<noteq> 0" if "w \<in> set new" for w
  proof
    assume "(of_nat w :: u32) = 0"
    then have "w = 0" using data_word [OF s, of w] new that by (metis subsetD unat_0)
    then show False using new that dfs_okD(4,5) [OF s] by (auto simp: data_of_def)
  qed
  then show "nz (map of_nat new @ replicate k 0) = map of_nat new"
    "takeWhile (\<lambda>b. b \<noteq> 0) (map of_nat new @ replicate k (0 :: u32)) = map of_nat new"
    by (simp_all add: takeWhile_append filter_id_conv takeWhile_eq_all_conv)
qed

lemma no_blocks_facts: "length no_blocks = DISKFS_DATABLOCKS" "nz no_blocks = []" "take k no_blocks = replicate (min k DISKFS_DATABLOCKS) 0"
    "drop k no_blocks = replicate (DISKFS_DATABLOCKS - k) 0" "b \<in> set no_blocks \<Longrightarrow> b = 0"
  unfolding no_blocks_def by (simp_all add: min.commute)

text \<open>The two outcomes of storing \<open>len\<close> bytes in inode \<open>i\<close>, which owns no blocks at the start: all bytes, or a failure
  that leaves it empty.  Sectors marked before stay as they are.\<close>

lemma write_blocks_ok:
  assumes e: "exact_but i s" and i: "i < 64" and n: "inode_wf n" "di_used n \<noteq> 0" and len: "len \<le> DISKFS_MAXFILE"
    and res: "write_blocks i n dat len s = (r, t)"
  shows "exact t \<and> fs_same s t \<and> (\<forall>l \<in> data_of s. bitv s l \<longrightarrow> sec t l = sec s l)
    \<and> (\<exists>bs sz. \<forall>j < 64. ino t j = (if j = i then n\<lparr>di_blocks := bs, di_size := sz\<rparr> else ino s j))
    \<and> (r = int len \<and> unat (di_size (ino t i)) = len \<and> take len (content t (di_blocks (ino t i))) = map dat [0..<len]
       \<or> r = -1 \<and> di_blocks (ino t i) = no_blocks \<and> di_size (ino t i) = 0)
    \<and> (r = (if len \<le> 512 * card (free_of s) then int len else -1))"
proof -
  have s: "dfs_ok s" using e by (rule exact_butD)
  obtain ok bs u where w: "write_loop dat len 0 0 no_blocks s = (ok, bs, u)" by (metis prod_cases3)
  obtain new where N: "wrote_new dat len 0 new s u" "length new \<le> DISKFS_DATABLOCKS"
    "bs = map of_nat new @ replicate (DISKFS_DATABLOCKS - length new) 0"
    "ok \<longrightarrow> length new = DISKFS_DATABLOCKS \<or> len \<le> 512 * length new"
    "\<not> ok \<longrightarrow> 512 * length new < len \<and> (\<forall>w \<in> data_of s. bitv u w)"
    using write_loop_ok [OF s no_blocks_facts(1) _ w] by (auto simp: no_blocks_facts(3,4))
  note room = write_loop_room [OF N(1) len N(4,5)]
  have W: "keeps s u" "distinct new" "set new \<subseteq> data_of s" "\<And>x. x \<in> set new \<Longrightarrow> \<not> bitv s x"
    "\<And>y. y < tot s \<Longrightarrow> bitv u y \<longleftrightarrow> bitv s y \<or> y \<in> set new" "\<And>l. l \<in> data_of s \<Longrightarrow> l \<notin> set new \<Longrightarrow> sec u l = sec s l"
    "\<And>j m. j < length new \<Longrightarrow> m < 512 \<Longrightarrow> 512 * j + m < len \<Longrightarrow> sec u (new ! j) m = dat (512 * j + m)"
    using N(1) unfolding wrote_new_def by auto
  have u: "dfs_ok u" "dfs_sb u = dfs_sb s" using keeps_sb [OF W(1)] by auto
  note Z = new_blocks_nz [OF s W(3), of "DISKFS_DATABLOCKS - length new", folded N(3)]
  show ?thesis
  proof (cases ok)
    case True
    let ?n = "n\<lparr>di_blocks := bs, di_size := of_nat len\<rparr>"
    have sz: "unat (of_nat len :: u32) = len" using len by (intro unat_of_nat_u32) simp
    have wf: "inode_wf ?n" using n(1) N(2,3) by (simp add: inode_wf_def)
    obtain v where v: "iput i ?n u = (True, v)" "exact v" "fs_same s v"
      "\<And>j. j < 64 \<Longrightarrow> ino v j = (if j = i then ?n else ino s j)" "\<And>l. l \<in> data_of s \<Longrightarrow> sec v l = sec u l"
      by (rule close_hole [OF e i W(1,5,2,3,4) wf]) (use n(2) Z(1) sz len in auto)
    have rt: "r = int len" "t = v" using res w v(1) True by (simp_all add: write_blocks_def Let_def)
    have c: "take len (content v bs) = map dat [0..<len]"
    proof (rule nth_equalityI)
      have l: "len \<le> 512 * length new" using N(4) True len by auto
      have lc: "length (content v bs) = 512 * length new" unfolding length_content Z(2) by simp
      show "length (take len (content v bs)) = length (map dat [0..<len])" using l lc by simp
      fix x assume "x < length (take len (content v bs))"
      then have x: "x < len" "x < 512 * length new" using l lc by simp_all
      have xj: "x div 512 < length new" "512 * (x div 512) + x mod 512 = x" using x(2) by (simp_all add: less_mult_imp_div_less mult.commute)
      have "content v bs ! x = sec v (unat (of_nat (new ! (x div 512)) :: u32)) (x mod 512)"
        unfolding content_def Z(2) using nth_blocks [of x "map of_nat new"] x(2) xj(1) by simp
      also have "unat (of_nat (new ! (x div 512)) :: u32) = new ! (x div 512)"
        using data_word [OF s] W(3) xj(1) by (meson nth_mem subsetD)
      also have "sec v (new ! (x div 512)) (x mod 512) = dat x"
        using W(7) [of "x div 512" "x mod 512"] v(5) [of "new ! (x div 512)"] W(3) xj x(1) by (simp add: subset_iff)
      finally show "take len (content v bs) ! x = map dat [0..<len] ! x" using x(1) by simp
    qed
    have "\<forall>l \<in> data_of s. bitv s l \<longrightarrow> sec t l = sec s l" using v(5) W(4,6) rt(2) by metis
    moreover have "\<forall>j < 64. ino t j = (if j = i then n\<lparr>di_blocks := bs, di_size := of_nat len\<rparr> else ino s j)" using v(4) rt(2) by simp
    moreover have "di_blocks (ino t i) = bs" "di_size (ino t i) = of_nat len" using v(4) [OF i] rt(2) by simp_all
    ultimately show ?thesis using v(2,3) rt c sz room True by auto
  next
    case False
    let ?n = "n\<lparr>di_blocks := no_blocks, di_size := 0\<rparr>" and ?q = "release bs u"
    have in_d: "\<forall>b \<in> set bs. b \<noteq> 0 \<longrightarrow> unat b \<in> data_of u"
      using N(3) data_word [OF s] W(3) data_of_sb [OF u(2)] by auto
    have img: "unat ` (set bs - {0}) = set new"
    proof -
      have "set bs - {0} = set (nz bs)" by auto
      then have "unat ` (set bs - {0}) = (\<lambda>w. unat (of_nat w :: u32)) ` set new" unfolding Z(1) by (simp add: image_image)
      also have "\<dots> = set new" using data_word [OF s] W(3) by (force simp: image_iff)
      finally show ?thesis .
    qed
    note R = release_ok [OF u(1) in_d, unfolded img]
    have k: "keeps s ?q" using W(1) R keeps_trans by blast
    have bits: "bitv ?q y \<longleftrightarrow> bitv s y \<or> y \<in> set []" if "y < tot s" for y
      using R W(4,5) that u(2) by auto
    have wf: "inode_wf ?n" using n(1) no_blocks_facts(1) by (simp add: inode_wf_def)
    obtain v where v: "iput i ?n ?q = (True, v)" "exact v" "fs_same s v"
      "\<And>j. j < 64 \<Longrightarrow> ino v j = (if j = i then ?n else ino s j)" "\<And>l. l \<in> data_of s \<Longrightarrow> sec v l = sec ?q l"
      by (rule close_hole [OF e i k bits _ _ _ wf]) (use n(2) no_blocks_facts(2) in auto)
    have rt: "r = -1" "t = v" using res w v(1) False by (simp_all add: write_blocks_def Let_def)
    have "\<forall>l \<in> data_of s. bitv s l \<longrightarrow> sec t l = sec s l"
      using v(5) R W(4,6) rt(2) data_of_sb [OF u(2)] by metis
    moreover have "\<forall>j < 64. ino t j = (if j = i then n\<lparr>di_blocks := no_blocks, di_size := 0\<rparr> else ino s j)" using v(4) rt(2) by simp
    moreover have "di_blocks (ino t i) = no_blocks" "di_size (ino t i) = 0" using v(4) [OF i] rt(2) by simp_all
    ultimately show ?thesis using v(2,3) rt room False by auto
  qed
qed

lemma cname_field: "length nm < 24 \<Longrightarrow> cname (name_field nm) = cname nm"
proof -
  assume l: "length nm < 24"
  have "name_field nm = nm @ replicate (24 - length nm) 0"
  proof (rule nth_equalityI)
    fix i assume i: "i < length (name_field nm)"
    then show "name_field nm ! i = (nm @ replicate (24 - length nm) 0) ! i"
      using l by (cases "i = 23") (auto simp: name_field_def nth_append)
  qed (use l in \<open>simp add: name_field_def\<close>)
  moreover have "takeWhile P (nm @ replicate k (0 :: u8)) = takeWhile P nm" if "\<not> P 0" for P k
    using that by (induction nm) (cases k, auto)
  ultimately show ?thesis using l by (simp add: cname_def)
qed

lemma new_file_wf: "inode_wf (new_file nm ty)"
  by (simp add: inode_wf_def new_file_def zero_inode_def name_field_def)

lemma new_file_simps [simp]: "di_used (new_file nm ty) = 1" "di_name (new_file nm ty) = name_field nm"
    "di_ftype (new_file nm ty) = ty" "di_blocks (new_file nm ty) = no_blocks" "di_size (new_file nm ty) = 0"
  unfolding new_file_def zero_inode_def no_blocks_def by simp_all

lemma file_blocks_marked:
  assumes e: "exact_but i s" and j: "j < 64" "j \<noteq> i" "di_used (ino s j) \<noteq> 0" and b: "b \<in> set (di_blocks (ino s j))" "b \<noteq> 0"
  shows "unat b \<in> data_of s" "bitv s (unat b)"
proof -
  have f: "unat b \<in> fblocks s j" using j(3) b by (simp add: fblocks_def)
  then show d: "unat b \<in> data_of s" using fblocks_data [OF e j(1,2)] by blast
  then show "bitv s (unat b)" using exact_butD(4) [OF e, of "unat b"] f j by (auto simp: data_of_def)
qed

text \<open>The rest of the disk is untouched by what marked sectors do not see.\<close>

lemma other_content:
  assumes "exact_but i s" "j < 64" "j \<noteq> i" "di_used (ino s j) \<noteq> 0" and "\<And>l. l \<in> data_of s \<Longrightarrow> bitv s l \<Longrightarrow> sec t l = sec s l"
  shows "content t (di_blocks (ino s j)) = content s (di_blocks (ino s j))"
  using file_blocks_marked [OF assms(1-4)] assms(5) by (intro content_same) blast

definition file_view :: "dfs \<Rightarrow> nat \<Rightarrow> dfs_inode \<times> u8 list" where
  "file_view s i = (ino s i, content s (di_blocks (ino s i)))"

lemma dfile_read_ok:
  assumes e: "exact s"
  shows "dfile_read nm mx s = (if mx \<le> 0 \<or> \<not> df_valid_path nm then None else
    case first_from (named nm s) 0 64 of None \<Rightarrow> None
    | Some i \<Rightarrow> let (n, c) = file_view s i in
        if di_ftype n = DFS_TYPE_DIR \<or> sint (di_size n) < 0 then None else Some (take (nat (min (sint (di_size n)) mx)) c))"
proof (cases "first_from (named nm s) 0 64")
  case None
  then show ?thesis using exact_butD(1) [OF e] by (simp add: dfile_read_def ifind_ok index_def dfs_okD(1))
next
  case (Some i)
  have s: "dfs_ok s" using e by (rule exact_butD)
  have i: "i < 64" "named nm s i" using first_from_SomeD [OF Some] by auto
  then have "\<forall>b \<in> set (di_blocks (ino s i)). b \<noteq> 0 \<longrightarrow> unat b \<in> data_of s"
    using file_blocks_marked(1) [OF e i(1)] by (auto simp: named_def)
  note R = read_loop_ok [OF s this]
  show ?thesis using Some i by (simp add: dfile_read_def ifind_ok [OF s] index_def iget_ok [OF s] R file_view_def dfs_okD(1) [OF s])
qed

text \<open>What a successful or failed write leaves: \<open>nm\<close> is found at \<open>i\<close>, all other files are as before.\<close>

definition only_file :: "u8 list \<Rightarrow> nat \<Rightarrow> dfs \<Rightarrow> dfs \<Rightarrow> bool" where
  "only_file nm i s t \<longleftrightarrow> i < 64 \<and> (\<forall>j < 64. j \<noteq> i \<longrightarrow> ino t j = ino s j \<and> (di_used (ino s j) \<noteq> 0 \<longrightarrow> file_view t j = file_view s j))
     \<and> (di_used (ino s i) \<noteq> 0 \<longrightarrow> cname (di_name (ino s i)) = cname nm)
     \<and> (di_used (ino t i) \<noteq> 0 \<longrightarrow> cname (di_name (ino t i)) = cname nm)"

lemma first_from_cong: "(\<And>j. i \<le> j \<Longrightarrow> j < i + n \<Longrightarrow> P j = Q j) \<Longrightarrow> first_from P i n = first_from Q i n"
proof (induction n arbitrary: i)
  case (Suc n)
  have "first_from P (Suc i) n = first_from Q (Suc i) n" using Suc.prems by (intro Suc.IH) simp
  then show ?case using Suc.prems [of i] by simp
qed simp

lemma other_read:
  assumes e: "exact s" "exact t" and o: "only_file nm i s t" and ne: "cname nm' \<noteq> cname nm"
  shows "dfile_read nm' mx t = dfile_read nm' mx s"
proof -
  have same: "named nm' t j = named nm' s j" if "j < 64" for j
    using o ne that unfolding only_file_def named_def by (cases "j = i") auto
  then have f: "first_from (named nm' t) 0 64 = first_from (named nm' s) 0 64" by (intro first_from_cong) simp
  have "file_view t j = file_view s j" if "first_from (named nm' s) 0 64 = Some j" for j
  proof -
    have j: "j < 64" "named nm' s j" using first_from_SomeD [OF that] by auto
    then have "j \<noteq> i" using o ne by (auto simp: only_file_def named_def)
    then show ?thesis using o j by (simp add: only_file_def named_def)
  qed
  then show ?thesis unfolding dfile_read_ok [OF e(1)] dfile_read_ok [OF e(2)] f
    by (cases "first_from (named nm' s) 0 64") simp_all
qed

definition wrote_file :: "u8 list \<Rightarrow> (nat \<Rightarrow> u8) \<Rightarrow> int \<Rightarrow> nat \<Rightarrow> dfs \<Rightarrow> dfs \<Rightarrow> int \<Rightarrow> bool" where
  "wrote_file nm dat len i s t r \<longleftrightarrow> only_file nm i s t \<and> first_from (named nm t) 0 64 = Some i
     \<and> di_ftype (ino t i) \<noteq> DFS_TYPE_DIR \<and> 0 \<le> len \<and> len \<le> int DISKFS_MAXFILE \<and> df_valid_path nm
     \<and> (r = len \<and> unat (di_size (ino t i)) = nat len \<and> take (nat len) (content t (di_blocks (ino t i))) = map dat [0..<nat len]
        \<or> r = -1 \<and> di_size (ino t i) = 0)"

text \<open>Both ways into \<open>write_blocks\<close>, from a state that has inode \<open>i\<close> left out.\<close>

lemma write_into:
  assumes e: "exact_but i s'" and k: "keeps s s'" and secs: "\<And>l. l \<in> data_of s \<Longrightarrow> sec s' l = sec s l"
    and i: "i < 64" and n: "inode_wf n" "di_used n \<noteq> 0" "di_ftype n \<noteq> DFS_TYPE_DIR" "cname (di_name n) = cname nm"
    and before: "di_used (ino s i) \<noteq> 0 \<longrightarrow> cname (di_name (ino s i)) = cname nm"
    and first: "\<And>j. j < i \<Longrightarrow> \<not> named nm s j"
    and len: "0 \<le> len" "len \<le> int DISKFS_MAXFILE" "df_valid_path nm"
    and res: "write_blocks i n dat (nat len) s' = (r, t)"
  shows "exact t \<and> fs_same s t \<and> wrote_file nm dat len i s t r"
proof -
  have ln: "nat len \<le> DISKFS_MAXFILE" using len(2) by simp
  note W = write_blocks_ok [OF e i n(1,2) ln res]
  obtain bs sz where ino: "\<And>j. j < 64 \<Longrightarrow> ino t j = (if j = i then n\<lparr>di_blocks := bs, di_size := sz\<rparr> else ino s' j)"
    using W by blast
  have sb: "dfs_sb s' = dfs_sb s" using keeps_sb [OF k] by simp
  have d: "data_of s' = data_of s" using sb by (rule data_of_sb)
  have other: "ino t j = ino s j" "di_used (ino s j) \<noteq> 0 \<Longrightarrow> file_view t j = file_view s j" if j: "j < 64" "j \<noteq> i" for j
  proof -
    have js: "ino s' j = ino s j" using keepsD(2) [OF k j(1)] .
    show ij: "ino t j = ino s j" using ino [OF j(1)] j(2) js by simp
    assume u: "di_used (ino s j) \<noteq> 0"
    have us: "di_used (ino s' j) \<noteq> 0" using u js by simp
    have "content t (di_blocks (ino s' j)) = content s' (di_blocks (ino s' j))"
      using W by (intro other_content [OF e j us]) blast
    also have "\<dots> = content s (di_blocks (ino s' j))"
      using file_blocks_marked(1) [OF e j us] secs d by (intro content_same) blast
    finally show "file_view t j = file_view s j" using ij js by (simp add: file_view_def)
  qed
  have ti: "di_used (ino t i) = di_used n" "di_name (ino t i) = di_name n" "di_ftype (ino t i) = di_ftype n"
    using ino [OF i] by simp_all
  have o: "only_file nm i s t" using i other before ti(2) n(4) unfolding only_file_def by auto
  have "\<not> named nm t j" if "j < i" for j using other(1) [of j] first [OF that] that i by (simp add: named_def)
  moreover have "named nm t i" using ti n by (simp add: named_def)
  ultimately have f: "first_from (named nm t) 0 64 = Some i" using i unfolding first_from_Some_iff by simp
  have "fs_same s t" using keepsD(1) [OF k] W fs_same_trans by blast
  then show ?thesis using W o f ti(3) n(3) len unfolding wrote_file_def by auto
qed

lemma dfile_write_ok:
  assumes e: "exact s" and res: "dfile_write nm dat len s = (r, t)"
  shows "exact t \<and> fs_same s t \<and> (t = s \<and> r = -1 \<or> (\<exists>i. wrote_file nm dat len i s t r))"
proof -
  have s: "dfs_ok s" using e by (rule exact_butD)
  let ?first = "first_from (named nm s) 0 64" and ?free = "first_from (\<lambda>i. di_used (ino s i) = 0) 0 64"
  have fi: "ifind nm s = index ?first" "free_inode s = index ?free" by (rule ifind_ok [OF s], rule free_inode_ok [OF s])
  consider (refused) "t = s" "r = -1"
    | (old) i where "?first = Some i" "0 \<le> len" "len \<le> int DISKFS_MAXFILE" "df_valid_path nm" "di_ftype (ino s i) \<noteq> DFS_TYPE_DIR"
        "write_blocks i (ino s i) dat (nat len) (release (di_blocks (ino s i)) s) = (r, t)"
    | (fresh) i where "?first = None" "?free = Some i" "0 \<le> len" "len \<le> int DISKFS_MAXFILE" "df_valid_path nm" "length nm < 24"
        "write_blocks i (new_file nm DFS_TYPE_FILE) dat (nat len) s = (r, t)"
  proof -
    let ?go = "0 \<le> len \<and> len \<le> int DISKFS_MAXFILE \<and> df_valid_path nm \<and> length nm < 24 \<and> nm \<noteq> [SLASH]"
    show thesis
    proof (cases ?go)
      case False
      then have "dfile_write nm dat len s = (-1, s)" by (auto simp: dfile_write_def)
      then show ?thesis using res by (intro that(1)) simp_all
    next
      case True
      then have go: "dfile_write nm dat len s =
        (if index ?first \<ge> 0 then case iget (nat (index ?first)) s of None \<Rightarrow> (-1, s)
           | Some n \<Rightarrow> if di_ftype n = DFS_TYPE_DIR then (-1, s) else write_blocks (nat (index ?first)) n dat (nat len) (release (di_blocks n) s)
         else if index ?free < 0 then (-1, s)
         else write_blocks (nat (index ?free)) (new_file nm DFS_TYPE_FILE) dat (nat len) s)"
        using dfs_okD(1) [OF s] by (simp add: dfile_write_def fi Let_def df_valid_path_def)
      show ?thesis
      proof (cases ?first)
        case None
        show ?thesis
        proof (cases ?free)
          case N2: None
          then show ?thesis using res None unfolding go by (intro that(1)) (simp_all add: index_def)
        next
          case (Some i)
          then show ?thesis using res None True unfolding go by (intro that(3) [of i]) (simp_all add: index_def)
        qed
      next
        case (Some i)
        have i: "i < 64" using first_from_SomeD [OF Some] by simp
        show ?thesis
        proof (cases "di_ftype (ino s i) = DFS_TYPE_DIR")
          case True
          then show ?thesis using res Some unfolding go by (intro that(1)) (simp_all add: index_def iget_ok [OF s i])
        next
          case False
          then show ?thesis using res Some True unfolding go by (intro that(2) [of i]) (simp_all add: index_def iget_ok [OF s i])
        qed
      qed
    qed
  qed
  then show ?thesis
  proof cases
    case refused
    then show ?thesis using e fs_same_refl [OF s] by simp
  next
    case (old i)
    have i: "i < 64" "named nm s i" "\<And>j. j < i \<Longrightarrow> \<not> named nm s j" using old(1) unfolding first_from_Some_iff by auto
    have u: "di_used (ino s i) \<noteq> 0" "cname (di_name (ino s i)) = cname nm" using i(2) by (simp_all add: named_def)
    note R = exact_release [OF e i(1) u(1)]
    have "exact t \<and> fs_same s t \<and> wrote_file nm dat len i s t r"
      by (rule write_into [OF R(1,2,3) i(1) ino_wf u(1) old(5) u(2) _ i(3) old(2,3,4,6)]) (use u(2) in simp_all)
    then show ?thesis by blast
  next
    case (fresh i)
    have i: "i < 64" "di_used (ino s i) = 0" using first_from_SomeD [OF fresh(2)] by auto
    have none: "\<And>j. j < i \<Longrightarrow> \<not> named nm s j" using fresh(1) i(1) unfolding first_from_None_iff by simp
    have "exact t \<and> fs_same s t \<and> wrote_file nm dat len i s t r"
      by (rule write_into [OF exact_unused [OF e i] keeps_refl [OF s] refl i(1) new_file_wf _ _ _ _ none fresh(3,4,5,7)])
        (use i(2) cname_field [OF fresh(6)] in simp_all)
    then show ?thesis by blast
  qed
qed

end
