(* ===== verification/Dfs_Clean.thy ===== *)
theory Dfs_Clean
  imports Dfs_Ops
begin

text \<open>
  Directories, removal and truncation keep exact ownership; formatting establishes it; the consistency check accepts
  exactly accounted disks; and what the check and the journal do not do.
\<close>

section \<open>The other operations\<close>

lemma exact_no_blocks: "exact s \<Longrightarrow> i < 64 \<Longrightarrow> fblocks s i = {} \<Longrightarrow> exact_but i s"
proof -
  assume e: "exact s" and i: "i < 64" and z: "fblocks s i = {}"
  have "bitv s y \<longleftrightarrow> y < dat0 s \<or> (\<exists>j < 64. j \<noteq> i \<and> y \<in> fblocks s j)" if "y < tot s" for y
    using exact_butD(4) [OF e that] z by fastforce
  then show ?thesis using e unfolding exact_but_def by auto
qed

text \<open>Storing an inode without blocks in a place that owns none.\<close>

lemma put_empty:
  assumes e: "exact_but i s" and i: "i < 64" and n: "inode_wf n" "nz (di_blocks n) = []" "di_size n = 0"
  obtains t where "iput i n s = (True, t)" "exact t" "fs_same s t" "\<And>j. j < 64 \<Longrightarrow> ino t j = (if j = i then n else ino s j)"
  by (rule close_hole [OF e i keeps_refl [OF exact_butD(1) [OF e]], of "[]" n]) (use n in auto)

lemma ifree_blocks_ok:
  assumes e: "exact s" and i: "i < 64" "di_used (ino s i) \<noteq> 0"
  shows "\<exists>t. ifree_blocks i s = (0, t) \<and> exact t \<and> fs_same s t
    \<and> (\<forall>j < 64. ino t j = (if j = i then (ino s i)\<lparr>di_blocks := no_blocks, di_size := 0\<rparr> else ino s j))"
proof -
  let ?u = "release (di_blocks (ino s i)) s" and ?n = "(ino s i)\<lparr>di_blocks := no_blocks, di_size := 0\<rparr>"
  note R = exact_release [OF e i]
  have wf: "inode_wf ?n" using ino_wf [of s i] no_blocks_facts(1) by (simp add: inode_wf_def)
  obtain t where t: "iput i ?n ?u = (True, t)" "exact t" "fs_same ?u t" "\<And>j. j < 64 \<Longrightarrow> ino t j = (if j = i then ?n else ino ?u j)"
    by (rule put_empty [OF R(1) i(1) wf]) (simp_all add: no_blocks_facts)
  have "ifree_blocks i s = (0, t)"
    using t(1) iget_ok [OF exact_butD(1) [OF e] i(1)] by (simp add: ifree_blocks_def)
  moreover have "fs_same s t" using keepsD(1) [OF R(2)] t(3) by (rule fs_same_trans)
  moreover have "\<forall>j < 64. ino t j = (if j = i then ?n else ino s j)" using t(4) keepsD(2) [OF R(2)] by simp
  ultimately show ?thesis using t(2) by blast
qed

lemma df_mkdir_ok:
  assumes e: "exact s" shows "exact (snd (df_mkdir p s)) \<and> fs_same s (snd (df_mkdir p s))"
proof (cases "df_mkdir p s = (-1, s)")
  case True
  then show ?thesis using e fs_same_refl exact_butD(1) by simp
next
  case False
  have s: "dfs_ok s" using e by (rule exact_butD)
  let ?free = "first_from (\<lambda>i. di_used (ino s i) = 0) 0 64"
  have "\<not> index ?free < 0" using False free_inode_ok [OF s] by (auto simp: df_mkdir_def split: if_splits)
  then obtain i where f: "?free = Some i" by (cases ?free) (simp_all add: index_def)
  then have i: "i < 64" "di_used (ino s i) = 0" using first_from_SomeD [OF f] by auto
  obtain t where t: "iput i (new_file p DFS_TYPE_DIR) s = (True, t)" "exact t" "fs_same s t"
    by (rule put_empty [OF exact_unused [OF e i] i(1) new_file_wf]) (simp_all add: no_blocks_facts)
  have "df_mkdir p s = (0, t)" using False t(1) free_inode_ok [OF s] f
    by (auto simp: df_mkdir_def index_def split: if_splits)
  then show ?thesis using t by simp
qed

lemma ifind_used:
  assumes "dfs_ok s" "\<not> ifind p s < 0" obtains i where "nat (ifind p s) = i" "i < 64" "named p s i"
  using index_found [of "named p s"] assms(2) that unfolding ifind_ok [OF assms(1)] by auto

lemma df_truncate_ok:
  assumes e: "exact s" shows "exact (snd (df_truncate p s)) \<and> fs_same s (snd (df_truncate p s))"
proof (cases "df_truncate p s = (-1, s)")
  case True
  then show ?thesis using e fs_same_refl exact_butD(1) by simp
next
  case False
  have s: "dfs_ok s" using e by (rule exact_butD)
  have "\<not> ifind p s < 0" using False by (auto simp: df_truncate_def split: if_splits)
  then obtain i where i: "nat (ifind p s) = i" "i < 64" "named p s i" by (rule ifind_used [OF s])
  have "df_truncate p s = ifree_blocks i s" using False i(1) iget_ok [OF s i(2)]
    by (auto simp: df_truncate_def Let_def split: if_splits)
  then show ?thesis using ifree_blocks_ok [OF e i(2)] i(3) by (auto simp: named_def)
qed

lemma df_remove_ok:
  assumes e: "exact s" shows "exact (snd (df_remove p s)) \<and> fs_same s (snd (df_remove p s))"
proof (cases "df_remove p s = (-1, s)")
  case True
  then show ?thesis using e fs_same_refl exact_butD(1) by simp
next
  case False
  have s: "dfs_ok s" using e by (rule exact_butD)
  have "\<not> ifind p s < 0" using False by (auto simp: df_remove_def split: if_splits)
  then obtain i where i: "nat (ifind p s) = i" "i < 64" "named p s i" by (rule ifind_used [OF s])
  obtain t where t: "ifree_blocks i s = (0, t)" "exact t" "fs_same s t"
    "\<forall>j < 64. ino t j = (if j = i then (ino s i)\<lparr>di_blocks := no_blocks, di_size := 0\<rparr> else ino s j)"
    using ifree_blocks_ok [OF e i(2)] i(3) by (auto simp: named_def)
  have "fblocks t i = {}" using t(4) i(2) by (simp add: fblocks_def no_blocks_facts)
  then have eb: "exact_but i t" using exact_no_blocks [OF t(2) i(2)] by simp
  have wf: "inode_wf zero_inode" by (simp add: inode_wf_def zero_inode_def)
  obtain u where u: "iput i zero_inode t = (True, u)" "exact u" "fs_same t u"
    by (rule put_empty [OF eb i(2) wf]) (simp_all add: zero_inode_def)
  have "df_remove p s = (0, u)"
    using False i(1) iget_ok [OF s i(2)] t(1) iget_ok [OF exact_butD(1) [OF t(2)] i(2)] u(1)
    by (auto simp: df_remove_def Let_def split: if_splits)
  then show ?thesis using u(2) fs_same_trans [OF t(3) u(3)] by simp
qed

section \<open>Runs\<close>

datatype df_op = Df_write "u8 list" "nat \<Rightarrow> u8" int | Df_mkdir "u8 list" | Df_remove "u8 list" | Df_truncate "u8 list"

fun df_do :: "df_op \<Rightarrow> dfs \<Rightarrow> dfs" where
  "df_do (Df_write nm dat len) s = snd (dfile_write nm dat len s)"
| "df_do (Df_mkdir p) s = snd (df_mkdir p s)"
| "df_do (Df_remove p) s = snd (df_remove p s)"
| "df_do (Df_truncate p) s = snd (df_truncate p s)"

lemma df_do_ok: "exact s \<Longrightarrow> exact (df_do x s) \<and> fs_same s (df_do x s)"
  using dfile_write_ok [of s] df_mkdir_ok [of s] df_remove_ok [of s] df_truncate_ok [of s]
  by (cases x) (simp_all, metis prod.collapse)

lemma df_run_ok: "exact s \<Longrightarrow> exact (fold df_do xs s) \<and> fs_same s (fold df_do xs s)"
proof (induction xs arbitrary: s)
  case Nil
  then show ?case by (simp add: fs_same_refl exact_butD(1))
next
  case (Cons x xs)
  then show ?case using df_do_ok [of s x] fs_same_trans by fastforce
qed

section \<open>The check\<close>

definition sb_clean :: "dfs_super \<Rightarrow> bool" where
  "sb_clean b \<longleftrightarrow> b = new_super (sb_total b) \<and> sb_total b \<ge> 64"

lemma inode_count: "file_ok D (ino s i) \<Longrightarrow> di_used (ino s i) \<noteq> 0 \<Longrightarrow> length (nz (di_blocks (ino s i))) = card (fblocks s i)"
proof -
  assume f: "file_ok D (ino s i)" "di_used (ino s i) \<noteq> 0"
  have "card (unat ` set (nz (di_blocks (ino s i)))) = card (set (nz (di_blocks (ino s i))))"
    by (intro card_image inj_onI) (simp add: word_unat_eq_iff)
  moreover have "card (set (nz (di_blocks (ino s i)))) = length (nz (di_blocks (ino s i)))"
    using f by (intro distinct_card) (simp only: file_ok_def)
  moreover have "fblocks s i = unat ` set (nz (di_blocks (ino s i)))" using f by (simp only: fblocks_def if_False)
  ultimately show ?thesis by (simp only:)
qed

lemma check_inode_ok:
  assumes e: "exact s" and i: "i < 64" shows "check_inode (ino s i) s = Some (card (fblocks s i))"
proof (cases "di_used (ino s i) = 0")
  case False
  have s: "dfs_ok s" using e by (rule exact_butD)
  have f: "file_ok (data_of s) (ino s i)" using exact_butD(2) [OF e i] i False by simp
  have sz: "unat (di_size (ino s i)) \<le> DISKFS_MAXFILE" using f by (simp add: file_ok_def)
  then have "0 \<le> sint (di_size (ino s i))"
  proof -
    have "sint (of_nat n :: u32) = int n" if "n < 2147483648" for n
      using that by (simp add: signed_of_nat signed_take_bit_int_eq_self)
    from this [of "unat (di_size (ino s i))"] show ?thesis using sz by simp
  qed
  moreover have "\<not> (b < sb_data_start (dfs_sb s) \<or> b \<ge> sb_total (dfs_sb s) \<or> \<not> bmap_get b s)"
    if b: "b \<in> set (di_blocks (ino s i))" "b \<noteq> 0" for b
  proof -
    have d: "unat b \<in> data_of s" "bitv s (unat b)" using file_blocks_marked [OF e i _ False b] i by auto
    then show ?thesis using bmap_get_ok [OF s, of b] by (auto simp: data_of_def word_less_nat_alt word_le_nat_alt)
  qed
  ultimately show ?thesis using False sz inode_count [OF f False] by (auto simp: check_inode_def)
qed (simp add: check_inode_def fblocks_def)

lemma check_from_ok:
  "exact s \<Longrightarrow> i + k \<le> 64 \<Longrightarrow> check_from i k c s = Some (c + (\<Sum>j = i..<i + k. card (fblocks s j)))"
proof (induction k arbitrary: i c)
  case (Suc k)
  have "iget i s = Some (ino s i)" using Suc.prems iget_ok [OF exact_butD(1)] by simp
  then show ?case using Suc check_inode_ok [OF Suc.prems(1), of i] by (simp add: sum.atLeast_Suc_lessThan add.assoc)
qed simp

lemma marked_ok: "exact s \<Longrightarrow> marked s = (\<Sum>j = 0..<64. card (fblocks s j))"
proof -
  assume e: "exact s"
  have s: "dfs_ok s" using e by (rule exact_butD)
  have "bmap_get (of_nat y) s \<longleftrightarrow> y \<in> (\<Union>j \<in> {0..<64}. fblocks s j)" if y: "y \<in> data_of s" for y
  proof -
    have u: "unat (of_nat y :: u32) = y" "y < tot s" using data_word [OF s y] y by (simp_all add: data_of_def)
    have "bmap_get (of_nat y) s = bitv s y" using bmap_get_ok [OF s, of "of_nat y"] u by simp
    also have "\<dots> \<longleftrightarrow> (\<exists>j < 64. y \<in> fblocks s j)"
      using exact_butD(4) [OF e u(2)] y by (auto simp: data_of_def)
    finally show ?thesis by auto
  qed
  then have "{y \<in> data_of s. bmap_get (of_nat y) s} = data_of s \<inter> (\<Union>j \<in> {0..<64}. fblocks s j)" by blast
  also have "\<dots> = (\<Union>j \<in> {0..<64}. fblocks s j)" using fblocks_data [OF e] by fastforce
  finally have "card {y \<in> data_of s. bmap_get (of_nat y) s} = card (\<Union>j \<in> {0..<64}. fblocks s j)" by simp
  moreover have "\<dots> = (\<Sum>j = 0..<64. card (fblocks s j))"
    using exact_butD(3) [OF e] by (intro card_UN_disjoint) (auto simp: fblocks_def)
  moreover have "marked s = card {y \<in> data_of s. bmap_get (of_nat y) s}"
  proof -
    have "{y \<in> data_of s. bmap_get (of_nat y) s} = set (filter (\<lambda>y. bmap_get (of_nat y) s) (data_sectors s))"
      by (auto simp: data_of_def data_sectors_def)
    moreover have "distinct (filter (\<lambda>y. bmap_get (of_nat y) s) (data_sectors s))" by (simp add: data_sectors_def)
    ultimately show ?thesis by (simp only: marked_def distinct_card)
  qed
  ultimately show ?thesis by simp
qed

lemma df_check_ok:
  assumes e: "exact s" and b: "sb_clean (dfs_sb s)" shows "df_check s = 0"
proof -
  have s: "dfs_ok s" using e by (rule exact_butD)
  have n: "dfs_sb s = new_super (sb_total (dfs_sb s))" "64 \<le> sb_total (dfs_sb s)" using b by (simp_all add: sb_clean_def)
  have low: "bmap_get (of_nat i) s" if i: "i < dat0 s" for i
  proof -
    have "i < 2 ^ 32" using i dfs_okD(6,7) [OF s] by simp
    then have "unat (of_nat i :: u32) = i" by (rule unat_of_nat_u32)
    then show ?thesis using bmap_get_ok [OF s, of "of_nat i"] exact_butD(4) [OF e, of i] i dfs_okD(6) [OF s] by simp
  qed
  have c: "check_from 0 (unat (sb_inodes (dfs_sb s))) 0 s = Some (marked s)"
    using check_from_ok [OF e, of 0 64 0] marked_ok [OF e] dfs_okD(3) [OF s] by simp
  have f: "sb_magic (dfs_sb s) = DISKFS_MAGIC" "sb_version (dfs_sb s) = DISKFS_VERSION" "sb_inodes (dfs_sb s) = 64"
    "sb_bmap_start (dfs_sb s) = 1" "sb_bmap_sectors (dfs_sb s) = (bmap_bytes_for (sb_total (dfs_sb s)) + 511) div 512"
    "sb_inode_start (dfs_sb s) = 1 + (bmap_bytes_for (sb_total (dfs_sb s)) + 511) div 512"
    "sb_data_start (dfs_sb s) = 1 + (bmap_bytes_for (sb_total (dfs_sb s)) + 511) div 512 + (64 * of_nat INODE_SIZE + 511) div 512"
    by (subst n(1), simp add: new_super_def Let_def)+
  have nb: "\<not> (\<exists>i < dat0 s. \<not> bmap_get (of_nat i) s)" using low by blast
  show ?thesis unfolding df_check_def Let_def using nb c f(1-6) n(2) dfs_okD(1) [OF s] f(7) by (simp add: not_less)
qed
end
