(* ===== verification/Dfs_Format.thy ===== *)
theory Dfs_Format
  imports Dfs_Clean
begin

text \<open>
  What \<open>diskfs_format_at\<close> leaves on a device with no failing sector in the range it is given: a disk with an empty
  inode table whose bitmap marks exactly the sectors below the data area, and a superblock that \<open>df_check\<close> accepts.
\<close>

section \<open>Runs of sector writes\<close>

text \<open>Formatting writes before it declares the disk mounted; the writes do not look at the flag.\<close>

abbreviation mnt :: "dfs \<Rightarrow> dfs" where "mnt s \<equiv> s\<lparr>dfs_mounted := True\<rparr>"

lemma dwrite_mnt: "dwrite l b (mnt s) = map_option mnt (dwrite l b s)"
  by (simp add: dwrite_def Let_def the_dev_def on_nvme_def)

lemma write_each_mnt: "write_each start f xs (mnt s) = apsnd mnt (write_each start f xs s)"
  by (induction xs arbitrary: s) (auto simp: dwrite_mnt split: option.splits)

lemma unat_plus_of_nat: "unat a + i < 4294967296 \<Longrightarrow> unat (a + of_nat i :: u32) = unat a + i"
proof -
  assume a: "unat a + i < 4294967296"
  have "unat (of_nat i :: u32) = i" using a by (intro unat_of_nat_u32) simp
  then show ?thesis using a by (simp add: unat_word_ariths)
qed

lemma write_each_ok:
  assumes "dfs_ok s" "\<And>i. i \<in> set xs \<Longrightarrow> unat start + i < tot s"
  obtains t where "write_each start f xs s = (True, t)" "fs_same s t"
    "\<And>x. x < tot s \<Longrightarrow> sec t x = (if \<exists>i \<in> set xs. x = unat start + i then f (x - unat start) else sec s x)"
  using assms
proof (induction xs arbitrary: s thesis)
  case Nil
  then show ?case using fs_same_refl by simp
next
  case (Cons i xs)
  have l: "unat start + i < tot s" "tot s < 2147483648" using Cons.prems(2,3) dfs_okD(7) by auto
  then have u: "unat (start + of_nat i) = unat start + i" by (intro unat_plus_of_nat) linarith
  obtain t where t: "dwrite (start + of_nat i) (f i) s = Some t" "fs_same s t"
    "\<And>x. x < tot s \<Longrightarrow> sec t x = (if x = unat start + i then f i else sec s x)"
    using dwrite_ok [OF Cons.prems(2), of "start + of_nat i" "f i"] l(1) u by metis
  note sb = fs_sameD [OF t(2)]
  obtain w where w: "write_each start f xs t = (True, w)" "fs_same t w"
    "\<And>x. x < tot t \<Longrightarrow> sec w x = (if \<exists>i \<in> set xs. x = unat start + i then f (x - unat start) else sec t x)"
  proof (rule Cons.IH)
    show "dfs_ok t" using sb by simp
    show "unat start + j < tot t" if "j \<in> set xs" for j using Cons.prems(3) that sb by simp
  qed blast
  show ?case
  proof (rule Cons.prems(1))
    show "write_each start f (i # xs) s = (True, w)" using t(1) w(1) by simp
    show "fs_same s w" using t(2) w(2) by (rule fs_same_trans)
    show "sec w x = (if \<exists>j \<in> set (i # xs). x = unat start + j then f (x - unat start) else sec s x)" if x: "x < tot s" for x
    proof -
      have "x < tot t" using x sb by simp
      note e = w(3) [OF this] t(3) [OF x]
      show ?thesis
      proof (cases "\<exists>j \<in> set xs. x = unat start + j")
        case False
        then show ?thesis using e by (cases "x = unat start + i") simp_all
      qed (simp add: e(1))
    qed
  qed
qed

lemma write_each_ex:
  assumes "dfs_ok s" "\<And>i. i \<in> set xs \<Longrightarrow> unat start + i < tot s"
  shows "\<exists>t. write_each start f xs s = (True, t) \<and> fs_same s t
     \<and> (\<forall>x < tot s. sec t x = (if \<exists>i \<in> set xs. x = unat start + i then f (x - unat start) else sec s x))"
  by (rule write_each_ok [OF assms, where f = f]) auto

section \<open>The bitmap of an empty disk\<close>

lemma foldl_bits: "bit (foldl (\<lambda>z k. if P k then z OR push_bit k 1 else z) (a :: u8) ks) j \<longleftrightarrow>
   bit a j \<or> j < 8 \<and> j \<in> set ks \<and> P j"
proof (induction ks arbitrary: a)
  case (Cons k ks)
  have "bit (if P k then a OR push_bit k 1 else a) j \<longleftrightarrow> bit a j \<or> j < 8 \<and> j = k \<and> P k"
    by (auto simp: bit_or_iff bit_exp_iff)
  then show ?case unfolding foldl_Cons Cons.IH by (metis list.set_intros(1) set_ConsD list.set_intros(2))
qed simp

lemma bmap_byte_bit:
  assumes y: "y < 4294967296"
  shows "bit (bmap_byte d (y div 4096) (y div 8 mod 512)) (y mod 8) \<longleftrightarrow> y < unat d"
proof -
  have "y = 4096 * (y div 4096) + 8 * (y div 8 mod 512) + y mod 8"
  proof -
    have "y div 8 = 512 * (y div 8 div 512) + y div 8 mod 512" by simp
    moreover have "y div 8 div 512 = y div 4096" by (simp add: div_mult2_eq [symmetric])
    moreover have "y = 8 * (y div 8) + y mod 8" by simp
    ultimately show ?thesis by linarith
  qed
  then have "y div 4096 * 4096 + y div 8 mod 512 * 8 + y mod 8 = y" by simp
  then have "(of_nat (y div 4096 * 4096 + y div 8 mod 512 * 8) :: u32) + of_nat (y mod 8) = of_nat y"
    by (simp only: of_nat_add [symmetric])
  then have "bit (bmap_byte d (y div 4096) (y div 8 mod 512)) (y mod 8) \<longleftrightarrow> (of_nat y :: u32) < d"
    unfolding bmap_byte_def Let_def foldl_bits by simp
  also have "\<dots> \<longleftrightarrow> y < unat d" using y by (simp add: word_less_nat_alt unat_of_nat_u32)
  finally show ?thesis .
qed

section \<open>The layout\<close>

lemma new_super_layout:
  assumes n: "64 \<le> unat n" "unat n < 2147483648"
  shows "unat (sb_bmap_sectors (new_super n)) = bmap_secs (unat n)" "unat (sb_inode_start (new_super n)) = 1 + bmap_secs (unat n)"
    "unat (sb_data_start (new_super n)) = 29 + bmap_secs (unat n)" "29 + bmap_secs (unat n) < unat n"
    "unat (sb_data_start (new_super n) - sb_inode_start (new_super n)) = 28"
    "sb_total (new_super n) = n" "sb_bmap_start (new_super n) = 1" "sb_inodes (new_super n) = 64"
proof -
  have a: "unat (n + 7) = unat n + 7" using n(2) by (subst unat_word_ariths) simp
  have b: "unat (bmap_bytes_for n) = (unat n + 7) div 8" by (simp add: bmap_bytes_for_def unat_div a)
  have "unat (bmap_bytes_for n + 511) = (unat n + 7) div 8 + 511" using n(2) b by (subst unat_word_ariths) simp
  then have c: "unat ((bmap_bytes_for n + 511) div 512) = bmap_secs (unat n)" by (simp add: unat_div bmap_secs_def)
  have "bmap_secs (unat n) * 512 \<le> (unat n + 7) div 8 + 511" by (simp add: bmap_secs_def)
  moreover have "(unat n + 7) div 8 * 8 \<le> unat n + 7" by simp
  ultimately have d: "29 + bmap_secs (unat n) < unat n" using n(1) by linarith
  show "unat (sb_bmap_sectors (new_super n)) = bmap_secs (unat n)" "29 + bmap_secs (unat n) < unat n"
    using c d by (simp_all add: new_super_def Let_def)
  have w: "bmap_secs (unat n) < 2147483000" using d n(2) by (simp add: bmap_secs_def)
  show i: "unat (sb_inode_start (new_super n)) = 1 + bmap_secs (unat n)"
    using c w by (simp add: new_super_def Let_def) (subst unat_word_ariths, simp)
  have e: "sb_data_start (new_super n) = sb_inode_start (new_super n) + 28" by (simp add: new_super_def Let_def)
  show "unat (sb_data_start (new_super n)) = 29 + bmap_secs (unat n)"
    unfolding e using i w by (subst unat_word_ariths) simp
  show "unat (sb_data_start (new_super n) - sb_inode_start (new_super n)) = 28" by (simp add: e)
  show "sb_total (new_super n) = n" "sb_bmap_start (new_super n) = 1" "sb_inodes (new_super n) = 64"
    by (simp_all add: new_super_def Let_def)
qed

section \<open>Formatting\<close>

definition fits :: "u32 \<Rightarrow> u32 \<Rightarrow> dfs \<Rightarrow> bool" where
  "fits base n s \<longleftrightarrow> 64 \<le> unat n \<and> unat n < 2147483648 \<and> unat base + unat n < 4294967296 \<and> dpresent s
     \<and> (\<forall>l < unat n. \<not> dv_bad (the_dev s) (of_nat l + base))"

lemma ino_zero: "(\<And>x. x < 14336 \<Longrightarrow> tbl s x = 0) \<Longrightarrow> i < 64 \<Longrightarrow> di_used (ino s i) = 0"
proof -
  assume "\<And>x. x < 14336 \<Longrightarrow> tbl s x = 0" "i < 64"
  then show ?thesis by (simp add: ino_def bytes_inode_def)
qed

lemma exact_empty:
  assumes s: "dfs_ok s" and b: "\<And>y. y < tot s \<Longrightarrow> bitv s y \<longleftrightarrow> y < dat0 s" and z: "\<And>j. j < 64 \<Longrightarrow> di_used (ino s j) = 0"
  shows "exact s"
proof -
  have "fblocks s j = {}" if "j < 64" for j using z [OF that] by (simp add: fblocks_def)
  then show ?thesis using s b z by (intro exactI) auto
qed

lemma format_ok:
  assumes f: "fits base n s"
  obtains t where "diskfs_format_at base n s = (0, t)" "exact t" "dfs_sb t = new_super n" "dfs_mounted t"
    "\<And>j. j < 64 \<Longrightarrow> di_used (ino t j) = 0"
proof -
  define s2 where "s2 = s\<lparr>dfs_base := base, dfs_sb := new_super n\<rparr>"
  have n: "64 \<le> unat n" "unat n < 2147483648" using f by (simp_all add: fits_def)
  note L = new_super_layout [OF n]
  have d: "the_dev (mnt s2) = the_dev s" by (simp add: s2_def the_dev_def on_nvme_def)
  have m: "dfs_ok (mnt s2)" "dfs_sb (mnt s2) = new_super n" using f L unfolding dfs_ok_def d
    by (simp_all add: s2_def fits_def)
  define sup where "sup = (\<lambda>j. if j < length (super_bytes (new_super n)) then super_bytes (new_super n) ! j else 0)"
  obtain u3 where u3: "dwrite 0 sup (mnt s2) = Some u3" "fs_same (mnt s2) u3"
    using dwrite_ok [OF m(1), of 0 sup] L m by (metis gr_implies_not0 not_gr0 unat_0)
  note b3 = fs_sameD [OF u3(2)]
  have p4: "dfs_ok u3" "\<And>i. i \<in> set [0..<bmap_secs (unat n)] \<Longrightarrow> unat (1 :: u32) + i < tot u3" using b3 m L by auto
  obtain u4 where u4: "write_each 1 (bmap_byte (sb_data_start (new_super n))) [0..<bmap_secs (unat n)] u3 = (True, u4)" "fs_same u3 u4"
    "\<And>x. x < tot u3 \<Longrightarrow> sec u4 x = (if \<exists>i \<in> set [0..<bmap_secs (unat n)]. x = unat (1 :: u32) + i
       then bmap_byte (sb_data_start (new_super n)) (x - unat (1 :: u32)) else sec u3 x)"
    using write_each_ex [OF p4(1), of "[0..<bmap_secs (unat n)]" 1 "bmap_byte (sb_data_start (new_super n))"] p4(2) by blast
  note b4 = fs_sameD [OF u4(2)]
  have p5: "dfs_ok u4" "\<And>i. i \<in> set [0..<28] \<Longrightarrow> unat (sb_inode_start (new_super n)) + i < tot u4" using b3 b4 m L by auto
  obtain u5 where u5: "write_each (sb_inode_start (new_super n)) (\<lambda>_ _. 0) [0..<28] u4 = (True, u5)" "fs_same u4 u5"
    "\<And>x. x < tot u4 \<Longrightarrow> sec u5 x = (if \<exists>i \<in> set [0..<28]. x = unat (sb_inode_start (new_super n)) + i
       then (\<lambda>_. 0) else sec u4 x)"
    using write_each_ex [OF p5(1), of "[0..<28]" "sb_inode_start (new_super n)" "\<lambda>_ _. 0"] p5(2) by blast
  note b5 = fs_sameD [OF u5(2)]
  have sb: "dfs_sb u3 = new_super n" "dfs_sb u4 = new_super n" "dfs_sb u5 = new_super n" using m(2) b3 b4 b5 by simp_all
  have t: "tot u5 = unat n" "dat0 u5 = 29 + bmap_secs (unat n)" "ino0 u5 = 1 + bmap_secs (unat n)" using sb L by simp_all
  have z: "di_used (ino u5 j) = 0" if j: "j < 64" for j
  proof (rule ino_zero [OF _ j])
    fix x :: nat assume "x < 14336"
    then have x: "x div 512 < 28" by simp
    then have "sec u5 (1 + bmap_secs (unat n) + x div 512) = (\<lambda>_. 0)" using u5(3) [of "1 + bmap_secs (unat n) + x div 512"] sb L by auto
    then show "tbl u5 x = 0" by (simp add: tbl_def t)
  qed
  have bits: "bitv u5 y \<longleftrightarrow> y < dat0 u5" if y: "y < tot u5" for y
  proof -
    have q: "y div 4096 < bmap_secs (unat n)" using y t bmap_secs_bound by simp
    then have l: "1 + y div 4096 < unat n" using L(4) by linarith
    have "sec u5 (1 + y div 4096) = sec u4 (1 + y div 4096)" using u5(3) [of "1 + y div 4096"] sb L q l by auto
    also have "\<dots> = bmap_byte (sb_data_start (new_super n)) (y div 4096)" using u4(3) [of "1 + y div 4096"] sb L q l by auto
    finally show ?thesis using bmap_byte_bit [of y "sb_data_start (new_super n)"] y t(1) n sb(3) by (simp add: bitv_def)
  qed
  have r: "diskfs_format_at base n s = (0, u5)"
  proof -
    obtain s3 where s3: "dwrite 0 sup s2 = Some s3" "mnt s3 = u3" using u3(1) by (auto simp: dwrite_mnt)
    obtain s4 where s4: "write_each 1 (bmap_byte (sb_data_start (new_super n))) [0..<bmap_secs (unat n)] s3 = (True, s4)" "mnt s4 = u4"
      using u4(1) unfolding s3(2) [symmetric] write_each_mnt by (cases "write_each 1 (bmap_byte (sb_data_start (new_super n))) [0..<bmap_secs (unat n)] s3") auto
    obtain s5 where s5: "write_each (sb_inode_start (new_super n)) (\<lambda>_ _. 0) [0..<28] s4 = (True, s5)" "mnt s5 = u5"
      using u5(1) unfolding s4(2) [symmetric] write_each_mnt by (cases "write_each (sb_inode_start (new_super n)) (\<lambda>_ _. 0) [0..<28] s4") auto
    have p: "dpresent (s\<lparr>dfs_base := base\<rparr>)" "\<not> n < 64"
      using f n(1) by (auto simp: fits_def dpresent_def blk_present_def word_less_nat_alt split: if_splits)
    have s2: "s\<lparr>dfs_base := base\<rparr>\<lparr>dfs_sb := new_super n\<rparr> = s2" by (simp add: s2_def)
    show ?thesis unfolding diskfs_format_at_def Let_def s2 sup_def [symmetric] s3(1) option.case L s4(1) prod.case s5(1)
      using p s5(2) by simp
  qed
  show ?thesis using that r exact_empty [OF _ bits z] sb(3) z b5 dfs_okD(1) by blast
qed

lemma new_super_clean: "64 \<le> unat n \<Longrightarrow> sb_clean (new_super n)"
proof -
  assume n: "64 \<le> unat n"
  have e: "sb_total (new_super n) = n" by (simp add: new_super_def Let_def)
  show ?thesis unfolding sb_clean_def e using n by (simp add: word_le_nat_alt)
qed

section \<open>A demonstration disk\<close>

definition demo_dev :: dev where
  "demo_dev = \<lparr>dv_present = True, dv_capacity = 64, dv_sec = (\<lambda>_ _. 0xAA), dv_bad = (\<lambda>l. l \<ge> 64)\<rparr>"

definition demo_disk :: dfs where
  "demo_disk = \<lparr>dk_nvme = demo_dev, dk_virtio = demo_dev, dfs_nvme = False, dfs_base = 0, dfs_sb = new_super 0, dfs_mounted = False\<rparr>"

lemma demo_fits: "fits 0 64 demo_disk"
proof -
  have "\<not> (64 :: u32) \<le> of_nat l" if "l < 64" for l :: nat
    using that by (simp add: word_le_nat_alt unat_of_nat_u32)
  then show ?thesis by (simp add: fits_def demo_disk_def demo_dev_def dpresent_def blk_present_def the_dev_def on_nvme_def)
qed

text \<open>C35.  A disk that \<open>diskfs_format_at\<close> has made, on a device with no failing sector in its range, passes \<open>df_check\<close> and goes
  on passing it after any sequence of writes, directory creations, removals and truncations, whichever of them succeed:
  no block is lost and none has two owners.\<close>
theorem dfs_check_always_clean:
  assumes "fits base n s"
  shows "fst (diskfs_format_at base n s) = 0 \<and> df_check (fold df_do ops (snd (diskfs_format_at base n s))) = 0"
proof -
  obtain t where t: "diskfs_format_at base n s = (0, t)" "exact t" "dfs_sb t = new_super n" using format_ok [OF assms] by blast
  have "exact (fold df_do ops t)" "dfs_sb (fold df_do ops t) = new_super n"
    using df_run_ok [OF t(2), of ops] t(3) fs_sameD by auto
  then have "df_check (fold df_do ops t) = 0" using df_check_ok new_super_clean assms by (simp add: fits_def)
  then show ?thesis using t(1) by simp
qed

theorem dfs_check_always_clean_witness:
  "df_check (fold df_do [Df_mkdir [47, 97], Df_write [47, 98] (\<lambda>_. 7) 1000, Df_remove [47, 98]]
     (snd (diskfs_format_at 0 64 demo_disk))) = 0"
  using dfs_check_always_clean [OF demo_fits] by blast
end
