(* ===== verification/Dfs_Props.thy ===== *)
theory Dfs_Props
  imports Dfs_Format
begin

text \<open>
  The properties of the on-disk file system: what \<open>dfile_write\<close> stores \<open>dfile_read\<close> returns, when a write succeeds, what
  a failed one leaves, and what the consistency check and the journal do not notice.
\<close>

section \<open>When there is room\<close>

lemma free_of_release:
  assumes e: "exact s" and i: "i < 64" "di_used (ino s i) \<noteq> 0"
  shows "card (free_of (release (di_blocks (ino s i)) s)) = card (free_of s) + length (nz (di_blocks (ino s i)))"
proof -
  have s: "dfs_ok s" using e by (rule exact_butD)
  let ?t = "release (di_blocks (ino s i)) s"
  have f: "fblocks s i = unat ` (set (di_blocks (ino s i)) - {0})" using i(2) by (auto simp: fblocks_def)
  have fd: "fblocks s i \<subseteq> data_of s" using fblocks_data [OF e i(1)] i(1) by simp
  have "\<forall>b \<in> set (di_blocks (ino s i)). b \<noteq> 0 \<longrightarrow> unat b \<in> data_of s" using fd f by auto
  note R = release_ok [OF s this]
  have sb: "dfs_sb ?t = dfs_sb s" using R keeps_sb by blast
  have d: "data_of ?t = data_of s" using sb by (rule data_of_sb)
  have "free_of ?t = free_of s \<union> fblocks s i" using R fd unfolding free_of_def d f by (auto simp: data_of_def)
  moreover have "free_of s \<inter> fblocks s i = {}" using exact_butD(4) [OF e] i by (fastforce simp: free_of_def data_of_def)
  moreover have "card (fblocks s i) = length (nz (di_blocks (ino s i)))"
    using inode_count [OF exact_butD(2) [OF e i(1) _ i(2)] i(2)] i(1) by simp
  moreover have "finite (free_of s)" "finite (fblocks s i)" by (simp_all add: free_of_def data_of_def fblocks_def)
  ultimately show ?thesis by (simp add: card_Un_disjoint)
qed

lemma free_stat:
  assumes e: "exact s" and st: "df_stats s = (tt, used, free, files, inodes)"
  shows "free = card (free_of s)"
proof -
  have s: "dfs_ok s" using e by (rule exact_butD)
  have b: "bmap_get (of_nat y) s = bitv s y" if "y \<in> data_of s" for y
    using bmap_get_ok [OF s, of "of_nat y"] that unfolding data_word [OF s that] by (simp add: data_of_def)
  have m: "marked s = card {y \<in> data_of s. bitv s y}"
  proof -
    have "{y \<in> data_of s. bitv s y} = {y \<in> data_of s. bmap_get (of_nat y) s}" using b by blast
    also have "\<dots> = set (filter (\<lambda>y. bmap_get (of_nat y) s) (data_sectors s))"
      by (auto simp: data_of_def data_sectors_def)
    finally have "card {y \<in> data_of s. bitv s y} = card (set (filter (\<lambda>y. bmap_get (of_nat y) s) (data_sectors s)))" by (simp only:)
    moreover have "distinct (filter (\<lambda>y. bmap_get (of_nat y) s) (data_sectors s))" by (simp add: data_sectors_def)
    ultimately show ?thesis by (simp only: marked_def distinct_card)
  qed
  have fin: "finite (data_of s)" by (simp add: data_of_def)
  have "card (data_of s) = length (data_sectors s)" by (simp add: data_of_def data_sectors_def)
  moreover have "free_of s = data_of s - {y \<in> data_of s. bitv s y}" by (auto simp: free_of_def)
  ultimately have "card (free_of s) = length (data_sectors s) - marked s" using m fin by (simp add: card_Diff_subset)
  then show ?thesis using st dfs_okD(1) [OF s] by (auto simp: df_stats_def Let_def)
qed

text \<open>The size check, the path check and the search are behind us: the value is that of \<open>write_blocks\<close>.\<close>

definition accepted :: "u8 list \<Rightarrow> int \<Rightarrow> bool" where
  "accepted nm len \<longleftrightarrow> 0 \<le> len \<and> len \<le> int DISKFS_MAXFILE \<and> df_valid_path nm \<and> nm \<noteq> [SLASH]"

lemma write_new_room:
  assumes e: "exact s" and a: "accepted nm len" and f: "ifind nm s < 0" "0 \<le> free_inode s"
  shows "fst (dfile_write nm dat len s) = (if nat len \<le> 512 * card (free_of s) then len else -1)"
proof -
  have s: "dfs_ok s" using e by (rule exact_butD)
  obtain i where i: "nat (free_inode s) = i" "i < 64" "di_used (ino s i) = 0"
    using index_found [of "\<lambda>i. di_used (ino s i) = 0"] f(2) unfolding free_inode_ok [OF s] by auto
  have ln: "nat len \<le> DISKFS_MAXFILE" using a unfolding accepted_def by linarith
  obtain r t where w: "write_blocks i (new_file nm DFS_TYPE_FILE) dat (nat len) s = (r, t)" by fastforce
  have "dfile_write nm dat len s = (r, t)"
    using a f i(1) w dfs_okD(1) [OF s] by (auto simp: dfile_write_def accepted_def df_valid_path_def)
  then show ?thesis
    using write_blocks_ok [OF exact_unused [OF e i(2,3)] i(2) new_file_wf _ ln w] a by (simp add: accepted_def)
qed

lemma write_old_room:
  assumes e: "exact s" and a: "accepted nm len" and f: "ifind nm s = int i" "di_ftype (ino s i) \<noteq> DFS_TYPE_DIR"
  shows "fst (dfile_write nm dat len s) = (if nat len \<le> 512 * (card (free_of s) + length (nz (di_blocks (ino s i)))) then len else -1)"
proof -
  have s: "dfs_ok s" using e by (rule exact_butD)
  have "index (first_from (named nm s) 0 64) = int i" using f(1) unfolding ifind_ok [OF s] .
  then have i: "i < 64" "named nm s i" using index_found [of "named nm s"] by auto
  have u: "di_used (ino s i) \<noteq> 0" using i(2) by (simp add: named_def)
  have ln: "nat len \<le> DISKFS_MAXFILE" using a unfolding accepted_def by linarith
  obtain r t where w: "write_blocks i (ino s i) dat (nat len) (release (di_blocks (ino s i)) s) = (r, t)" by fastforce
  have "dfile_write nm dat len s = (r, t)"
    using a f w dfs_okD(1) [OF s] iget_ok [OF s i(1)] by (auto simp: dfile_write_def accepted_def df_valid_path_def)
  then show ?thesis
    using write_blocks_ok [OF exact_release(1) [OF e i(1) u] i(1) ino_wf u ln w] a free_of_release [OF e i(1) u]
    by (simp add: accepted_def)
qed

section \<open>On the demonstration disk\<close>

definition demo_fs :: dfs where
  "demo_fs = snd (diskfs_format_at 0 64 demo_disk)"

lemma demo_fs_facts:
  "exact demo_fs" "ifind nm demo_fs = -1" "free_inode demo_fs = 0" "card (free_of demo_fs) = 34"
proof -
  obtain t where t: "diskfs_format_at 0 64 demo_disk = (0, t)" "exact t" "dfs_sb t = new_super 64"
    "\<And>j. j < 64 \<Longrightarrow> di_used (ino t j) = 0"
    by (rule format_ok [OF demo_fits]) blast
  have d: "demo_fs = t" using t(1) by (simp add: demo_fs_def)
  have s: "dfs_ok t" using t(2) by (rule exact_butD)
  show "exact demo_fs" using t(2) d by simp
  have "first_from (named nm t) 0 64 = None" unfolding first_from_None_iff using t(4) by (simp add: named_def)
  then show "ifind nm demo_fs = -1" unfolding d ifind_ok [OF s] by (simp add: index_def)
  have "first_from (\<lambda>i. di_used (ino t i) = 0) 0 64 = Some 0" unfolding first_from_Some_iff using t(4) by simp
  then show "free_inode demo_fs = 0" unfolding d free_inode_ok [OF s] by (simp add: index_def)
  have "fblocks t j = {}" if "j < 64" for j using t(4) [OF that] by (simp add: fblocks_def)
  then have "bitv t y \<longleftrightarrow> y < dat0 t" if "y < tot t" for y using exact_butD(4) [OF t(2) that] by auto
  then have "free_of t = {dat0 t..<tot t}" by (auto simp: free_of_def data_of_def)
  moreover have "dat0 t = 30" "tot t = 64" using t(3) new_super_layout [of 64] by (simp_all add: bmap_secs_def)
  ultimately show "card (free_of demo_fs) = 34" by (simp add: d)
qed

lemma demo_accepted: "0 \<le> len \<Longrightarrow> len \<le> 24576 \<Longrightarrow> accepted [47, 98] len"
  by (simp add: accepted_def df_valid_path_def twice_def)

section \<open>Properties\<close>

text \<open>C36.  On a disk without failing sectors whose blocks are exactly accounted for, a file that \<open>dfile_write\<close> reports
  written reads back byte for byte (as much as the reader asks for), under any other name \<open>dfile_read\<close> finds what it
  found before, and the accounting stays exact.\<close>

theorem dfile_write_read:
  assumes e: "exact s" and w: "dfile_write nm dat len s = (len, t)" and l: "0 \<le> len"
  shows "exact t \<and> (0 < mx \<longrightarrow> dfile_read nm mx t = Some (map dat [0..<nat (min len mx)]))
    \<and> (cname nm' \<noteq> cname nm \<longrightarrow> dfile_read nm' mx t = dfile_read nm' mx s)"
proof -
  obtain i where t: "exact t" "wrote_file nm dat len i s t len" using dfile_write_ok [OF e w] l by auto
  then have W: "only_file nm i s t" "first_from (named nm t) 0 64 = Some i" "di_ftype (ino t i) \<noteq> DFS_TYPE_DIR"
    "len \<le> int DISKFS_MAXFILE" "df_valid_path nm" "unat (di_size (ino t i)) = nat len"
    "take (nat len) (content t (di_blocks (ino t i))) = map dat [0..<nat len]"
    using l by (auto simp: wrote_file_def)
  have sz: "sint (di_size (ino t i)) = len"
  proof -
    have "of_nat (unat (di_size (ino t i))) = di_size (ino t i)" by simp
    then have "di_size (ino t i) = of_nat (nat len)" unfolding W(6) by simp
    then show ?thesis using l W(4) by (simp add: signed_of_int signed_take_bit_int_eq_self)
  qed
  have "dfile_read nm mx t = Some (map dat [0..<nat (min len mx)])" if "0 < mx"
  proof -
    let ?k = "nat (min len mx)"
    have k: "?k \<le> nat len" by simp
    have "take ?k (content t (di_blocks (ino t i))) = take ?k (take (nat len) (content t (di_blocks (ino t i))))" by simp
    also have "\<dots> = map dat [0..<?k]" unfolding W(7) using k by (simp add: take_map)
    finally show ?thesis using that W(2,3,5) sz l by (simp add: dfile_read_ok [OF t(1)] file_view_def)
  qed
  then show ?thesis using t(1) other_read [OF e t(1) W(1)] by blast
qed



theorem dfile_write_read_witness:
  "\<exists>t. dfile_write [47, 98] (\<lambda>j. of_nat j) 1000 demo_fs = (1000, t)
     \<and> dfile_read [47, 98] 2000 t = Some (map of_nat [0..<1000]) \<and> dfile_read [47, 99] 10 t = dfile_read [47, 99] 10 demo_fs"
proof -
  have "fst (dfile_write [47, 98] (\<lambda>j. of_nat j) 1000 demo_fs) = 1000"
    using write_new_room [OF demo_fs_facts(1) demo_accepted [of 1000], where dat = "\<lambda>j. of_nat j"] demo_fs_facts(2-4) by simp
  then obtain t where t: "dfile_write [47, 98] (\<lambda>j. of_nat j) 1000 demo_fs = (1000, t)" by (metis prod.collapse)
  have c: "cname [47, 99] \<noteq> cname [47, 98]" by (simp add: cname_def)
  have "nat (min 1000 2000) = 1000" by simp
  with dfile_write_read [OF demo_fs_facts(1) t, of 2000 "[47, 98]"] dfile_write_read [OF demo_fs_facts(1) t, of 10 "[47, 99]"]
  show ?thesis using t c by (intro exI [of _ t]) (simp del: upt_rec_numeral)
qed



section \<open>What goes wrong\<close>

text \<open>A write that fails for lack of room has already given up the old blocks: the file is there, empty.\<close>

lemma failed_write_empties:
  assumes e: "exact s" and w: "dfile_write nm dat len s = (-1, t)" and t: "t \<noteq> s" and mx: "0 < mx" and v: "0 \<le> len"
  shows "dfile_read nm mx t = Some []"
proof -
  obtain i where W: "exact t" "wrote_file nm dat len i s t (-1)" using dfile_write_ok [OF e w] t by auto
  then have "first_from (named nm t) 0 64 = Some i" "di_ftype (ino t i) \<noteq> DFS_TYPE_DIR" "df_valid_path nm" "di_size (ino t i) = 0"
    using v by (auto simp: wrote_file_def)
  then show ?thesis using mx by (simp add: dfile_read_ok [OF W(1)] file_view_def)
qed

end
