(* ===== verification/Dfs_Journal.thy ===== *)
theory Dfs_Journal
  imports Dfs_Inv
begin

text \<open>
  The journal record of \<open>fs/diskfs.c\<close>: its checksum runs over its own checksum field, so a record that \<open>journal_start\<close>
  has written is never recognised by \<open>journal_has_op\<close>, and recovery does not look at it.
\<close>

definition bsum :: "u8 list \<Rightarrow> u32" where
  "bsum bs = sum_list (map ucast bs)"

lemma bsum_simps [simp]: "bsum [] = 0" "bsum (b # bs) = ucast b + bsum bs" "bsum (xs @ ys) = bsum xs + bsum ys"
  by (simp_all add: bsum_def)

lemma checksum_list:
  assumes h: "length h \<le> 504"
  shows "journal_checksum (\<lambda>j. if j < length h then h ! j else 0) = bsum h"
proof -
  have f: "foldl (\<lambda>s i. s + ucast (g i)) a is = a + bsum (map g is)" for a :: u32 and g :: "nat \<Rightarrow> u8" and "is"
    by (induction "is" arbitrary: a) (simp_all add: add.assoc)
  have "map (\<lambda>j. if j < length h then h ! j else 0) [0..<504] = h @ replicate (504 - length h) 0"
    using h by (intro nth_equalityI) (simp_all add: nth_append)
  moreover have "bsum (replicate k 0) = 0" for k by (induction k) simp_all
  ultimately show ?thesis by (simp add: journal_checksum_def f del: upt_rec_numeral)
qed

lemma bsum_bound: "length bs \<le> 24 \<Longrightarrow> unat (bsum bs) = sum_list (map unat bs) \<and> unat (bsum bs) \<le> 255 * length bs"
proof (induction bs)
  case (Cons b bs)
  have u: "unat b < 256" using unsigned_less [of b] by simp
  then have "take_bit 32 (unat b) = unat b" by (intro take_bit_nat_eq_self) simp
  then have c: "unat (ucast b :: u32) = unat b" by (simp add: unsigned_ucast_eq)
  show ?case using Cons u c by (simp add: unat_word_ariths)
qed simp

text \<open>The bytes of a nonzero number do not sum to zero.\<close>

lemma bsum_le32_nz: "bsum (le32 v) = 0 \<Longrightarrow> v = 0"
proof -
  assume z: "bsum (le32 v) = 0"
  then have "sum_list (map unat (le32 v)) = 0" using bsum_bound [of "le32 v"] by simp
  then have "\<forall>b \<in> set (le32 v). b = 0" by (simp add: unat_eq_0)
  then have "le32 v ! j = le32 0 ! j" if "j < 4" for j using that by (simp add: le32_def nth_Cons split: nat.splits)
  then have "of_le32 ((!) (le32 0)) 0 = v" by (intro of_le32_le32) simp
  moreover have "of_le32 ((!) (le32 0)) 0 = 0" by (rule of_le32_le32) simp
  ultimately show ?thesis by simp
qed

theorem journal_record_unseen:
  assumes "journal_start op start count idx s = (0, t)"
  shows "\<not> journal_has_op t"
proof
  assume j: "journal_has_op t"
  define h where "h = le32 JOURNAL_MAGIC @ le32 op @ le32 start @ le32 count @ le32 idx"
  define ck where "ck = bsum h"
  have lh: "length h = 20" by (simp add: h_def)
  have jh: "journal_header op start count idx c = (\<lambda>j. if j < length (h @ le32 c) then (h @ le32 c) ! j else 0)" for c
    by (simp only: journal_header_def h_def Let_def append_assoc)
  have sum: "journal_checksum (journal_header op start count idx c) = bsum h + bsum (le32 c)" for c
    unfolding jh using lh by (subst checksum_list) simp_all
  have ck0: "journal_checksum (journal_header op start count idx 0) = ck" unfolding sum by (simp add: ck_def le32_def)
  have w: "dwrite (journal_lba s) (journal_header op start count idx ck) s = Some t"
    using assms unfolding journal_start_def ck0 by (simp split: option.splits)
  then have "journal_lba t = journal_lba s" "dread (journal_lba s) t = Some (journal_header op start count idx ck)"
    by (auto simp: dwrite_def dread_def Let_def the_dev_def on_nvme_def store_def journal_lba_def split: if_splits)
  then have "of_le32 (journal_header op start count idx ck) 20 = bsum h + bsum (le32 ck)"
    using j by (simp add: journal_has_op_def sum)
  moreover have "of_le32 (journal_header op start count idx ck) 20 = ck"
    unfolding jh using lh by (intro of_le32_le32) (simp add: nth_append)
  ultimately have "ck = 0" using bsum_le32_nz unfolding ck_def by simp
  moreover have "unat ck = sum_list (map unat h)" using bsum_bound [of h] lh by (simp add: ck_def)
  moreover have "\<exists>b \<in> set h. unat b \<noteq> 0" by (simp add: h_def le32_def)
  ultimately show False by auto
qed

end
