(* ===== verification/Gpt.thy ===== *)
theory Gpt
  imports Prelude
begin

text \<open>
  The partition table of \<open>drivers/gpt.c\<close>: the table-driven CRC-32 and what it detects, the scan of a GUID partition table
  read through a function from sector numbers to sectors (\<open>None\<close> a failed read), and the cache of the scan.
\<close>

section \<open>CRC-32\<close>

definition crc_bit :: "u32 \<Rightarrow> u32" where
  "crc_bit c = (if c AND 1 \<noteq> 0 then 0xEDB88320 XOR drop_bit 1 c else drop_bit 1 c)"

definition crc_tab :: "u32 list" where
  "crc_tab = map (\<lambda>i. (crc_bit ^^ 8) (of_nat i)) [0..<256]"

definition crc_step :: "u32 \<Rightarrow> u8 \<Rightarrow> u32" where
  "crc_step c b = crc_tab ! unat ((c XOR ucast b) AND 0xFF) XOR drop_bit 8 c"

definition crc32 :: "u8 list \<Rightarrow> u32" where
  "crc32 bs = foldl crc_step 0xFFFFFFFF bs XOR 0xFFFFFFFF"

text \<open>The division it stands for, one bit at a time.\<close>

definition crc_ref :: "u8 list \<Rightarrow> u32" where
  "crc_ref bs = foldl (\<lambda>c b. (crc_bit ^^ 8) (c XOR ucast b)) 0xFFFFFFFF bs XOR 0xFFFFFFFF"

lemma crc_bit_alt: "crc_bit c = (if bit c 0 then 0xEDB88320 else 0) XOR drop_bit 1 c"
  by (simp add: crc_bit_def bit_0 and_one_eq odd_iff_mod_2_eq_one)

lemma crc_bit_xor: "crc_bit (a XOR b) = crc_bit a XOR crc_bit b"
  unfolding crc_bit_alt by (simp add: bit_xor_iff drop_bit_xor ac_simps)

lemma crc_bits_xor: "(crc_bit ^^ n) (a XOR b) = (crc_bit ^^ n) a XOR (crc_bit ^^ n) b"
  by (induction n arbitrary: a b) (simp_all add: crc_bit_xor)

lemma crc_bits_high: "(\<And>i. i < n \<Longrightarrow> \<not> bit c i) \<Longrightarrow> (crc_bit ^^ n) c = drop_bit n c"
proof (induction n)
  case (Suc n)
  have "(crc_bit ^^ Suc n) c = crc_bit (drop_bit n c)" using Suc by simp
  also have "\<dots> = drop_bit 1 (drop_bit n c)" using Suc.prems [of n] by (simp add: crc_bit_alt bit_drop_bit_eq)
  finally show ?case by simp
qed simp

lemma crc_tab_nth: "i < 256 \<Longrightarrow> crc_tab ! i = (crc_bit ^^ 8) (of_nat i)"
  by (simp add: crc_tab_def del: upt_rec_numeral)

lemma xor_cancel [simp]: "a XOR k = b XOR k \<longleftrightarrow> a = (b :: u32)" "k XOR a = k XOR b \<longleftrightarrow> a = b"
proof -
  show r: "a XOR k = b XOR k \<longleftrightarrow> a = b"
  proof
    assume "a XOR k = b XOR k"
    then have "(a XOR k) XOR k = (b XOR k) XOR k" by (rule arg_cong [where f = "\<lambda>x. x XOR k"])
    then show "a = b" by (simp add: xor.assoc)
  qed simp
  then show "k XOR a = k XOR b \<longleftrightarrow> a = b" by (simp only: xor.commute)
qed

lemma bit_byte: "bit (ucast (b :: u8) :: u32) i \<longleftrightarrow> i < 8 \<and> bit b i"
  by (auto simp: bit_simps possible_bit_word dest: bit_imp_possible_bit)

lemma crc_step_bits: "crc_step c b = (crc_bit ^^ 8) (c XOR ucast b)"
proof -
  let ?x = "c XOR ucast b"
  have s: "?x = (?x AND 0xFF) XOR (?x AND NOT 0xFF)" by (rule bit_eqI) (auto simp: bit_simps)
  have h: "\<not> bit (?x AND NOT 0xFF) i" if "i < 8" for i
    using that unfolding bit_and_iff bit_not_iff bit_255 by simp
  have d: "drop_bit 8 (?x AND NOT 0xFF) = drop_bit 8 c"
    unfolding bit_eq_iff bit_drop_bit_eq bit_and_iff bit_not_iff bit_xor_iff bit_255 bit_byte
    by (auto simp: bit_drop_bit_eq possible_bit_word dest: bit_imp_possible_bit)
  have l: "unat (?x AND 0xFF) < 256"
  proof -
    have "?x AND 0xFF = take_bit 8 ?x" unfolding take_bit_eq_mask byte_mask ..
    moreover have "unat (take_bit 8 y) < 256" for y :: u32 using take_bit_nat_less_exp [of 8] by (simp add: unsigned_take_bit_eq)
    ultimately show ?thesis by metis
  qed
  have "(crc_bit ^^ 8) ?x = (crc_bit ^^ 8) (?x AND 0xFF) XOR drop_bit 8 c"
    by (subst s) (simp only: crc_bits_xor crc_bits_high [OF h] d)
  then show ?thesis by (simp add: crc_step_def crc_tab_nth [OF l])
qed

text \<open>A step loses nothing: the top bit of the polynomial tells which way each bit step went.\<close>

lemma crc_bit_0: "crc_bit d = 0 \<Longrightarrow> d = 0"
proof -
  assume z: "crc_bit d = 0"
  have hi: "\<not> bit (drop_bit 1 d) 31" by (auto simp: bit_drop_bit_eq dest: bit_imp_possible_bit)
  have e: "\<not> bit d 0"
  proof
    assume "bit d 0"
    then have "bit (crc_bit d) 31" using hi by (simp add: crc_bit_alt bit_xor_iff bit_numeral_word_iff)
    then show False using z by simp
  qed
  then have "drop_bit 1 d = 0" using z by (simp add: crc_bit_alt)
  moreover have "bit d (Suc i) = bit (drop_bit 1 d) i" for i by (simp add: bit_drop_bit_eq)
  ultimately have "\<not> bit d i" for i using e by (cases i) simp_all
  then show ?thesis by (simp add: bit_eq_iff)
qed

lemma crc_bits_inj: "(crc_bit ^^ n) a = (crc_bit ^^ n) b \<longleftrightarrow> a = b"
proof
  assume "(crc_bit ^^ n) a = (crc_bit ^^ n) b"
  then have "(crc_bit ^^ n) (a XOR b) = 0" by (simp add: crc_bits_xor)
  moreover have "d = 0" if "(crc_bit ^^ n) d = 0" for d using that by (induction n) (auto dest: crc_bit_0)
  ultimately have "a XOR b = b XOR b" by simp
  then show "a = b" by (simp only: xor_cancel)
qed simp

lemma crc_step_inj [simp]: "crc_step c b = crc_step d b \<longleftrightarrow> c = d" "crc_step c a = crc_step c b \<longleftrightarrow> a = b"
proof -
  show "crc_step c b = crc_step d b \<longleftrightarrow> c = d" by (simp add: crc_step_bits crc_bits_inj)
  have "a = b" if "(ucast a :: u32) = ucast b"
  proof -
    have "bit a n = bit b n" if "n < 8" for n using bit_byte [of a n] bit_byte [of b n] \<open>ucast a = ucast b\<close> that by simp
    then show ?thesis by (intro bit_word_eqI) simp
  qed
  then show "crc_step c a = crc_step c b \<longleftrightarrow> a = b" by (auto simp: crc_step_bits crc_bits_inj)
qed

lemma crc_fold_inj [simp]: "foldl crc_step c bs = foldl crc_step d bs \<longleftrightarrow> c = d"
  by (induction bs arbitrary: c d) simp_all

lemma crc32_is_ref: "crc32 bs = crc_ref bs"
proof -
  have "crc_step = (\<lambda>c b. (crc_bit ^^ 8) (c XOR ucast b))" by (intro ext) (rule crc_step_bits)
  then show ?thesis by (simp add: crc32_def crc_ref_def)
qed

lemma crc32_byte: "crc32 (xs @ a # ys) = crc32 (xs @ b # ys) \<longleftrightarrow> a = b"
  by (simp add: crc32_def)

lemma crc_byte_bits: "(crc_bit ^^ 8) c = crc_bit (crc_bit (crc_bit (crc_bit (crc_bit (crc_bit (crc_bit (crc_bit c)))))))"
  by (simp add: eval_nat_numeral)

lemma crc32_check_value: "crc32 [0x61] = 0xE8B7BE43"
  by (simp add: crc32_is_ref crc_ref_def crc_byte_bits crc_bit_def)

section \<open>The scan\<close>

definition rd32 :: "(nat \<Rightarrow> u8) \<Rightarrow> nat \<Rightarrow> u32" where
  "rd32 f i = ucast (f i) OR push_bit 8 (ucast (f (i + 1))) OR push_bit 16 (ucast (f (i + 2))) OR push_bit 24 (ucast (f (i + 3)))"

definition rd64 :: "(nat \<Rightarrow> u8) \<Rightarrow> nat \<Rightarrow> u64" where
  "rd64 f i = foldl (\<lambda>v k. push_bit 8 v OR ucast (f (i + k))) 0 [7, 6, 5, 4, 3, 2, 1, 0]"

abbreviation GPT_MAX_PARTS :: nat where "GPT_MAX_PARTS \<equiv> 16"

text \<open>A name is the string in the 37 bytes: the rest of them is NUL.\<close>

record gpt_part =
  type_guid :: "u8 list"
  uniq_guid :: "u8 list"
  start_lba :: u64
  end_lba :: u64
  part_name :: "u8 list"

definition guid_zero :: "(nat \<Rightarrow> u8) \<Rightarrow> bool" where
  "guid_zero en \<longleftrightarrow> (\<forall>i < 16. en i = 0)"

definition read_part :: "(nat \<Rightarrow> u8) \<Rightarrow> gpt_part" where
  "read_part en = \<lparr>type_guid = map en [0..<16], uniq_guid = map en [16..<32], start_lba = rd64 en 32, end_lba = rd64 en 40,
     part_name = takeWhile (\<lambda>b. 32 \<le> b \<and> b < 127) (map (\<lambda>c. en (56 + c * 2)) [0..<36])\<rparr>"

text \<open>One entry of a sector; past the last entry of the table nothing more is looked at.\<close>

definition scan_entry :: "(nat \<Rightarrow> u8) \<Rightarrow> nat \<Rightarrow> nat \<Rightarrow> nat \<Rightarrow> nat \<Rightarrow> gpt_part list \<Rightarrow> gpt_part list" where
  "scan_entry sec s num mx e ps =
     (let en = (\<lambda>j. sec (e * 128 + j)) in
      if s * 4 + e \<ge> num then ps
      else if guid_zero en then ps
      else if length ps < mx \<and> length ps < GPT_MAX_PARTS then ps @ [read_part en]
      else ps)"

fun scan_sectors :: "(u32 \<Rightarrow> (nat \<Rightarrow> u8) option) \<Rightarrow> u32 \<Rightarrow> nat \<Rightarrow> nat \<Rightarrow> nat \<Rightarrow> nat \<Rightarrow> u32 \<Rightarrow> gpt_part list \<Rightarrow> (u32 \<times> gpt_part list) option" where
  "scan_sectors rd lba s 0 num mx run ps = Some (run, ps)"
| "scan_sectors rd lba s (Suc k) num mx run ps =
     (case rd (lba + of_nat s) of
        None \<Rightarrow> None
      | Some sec \<Rightarrow> scan_sectors rd lba (Suc s) k num mx (foldl crc_step run (map sec [0..<512]))
                     (fold (scan_entry sec s num mx) [0..<4] ps))"

definition EFI_PART :: "u8 list" where
  "EFI_PART = [0x45, 0x46, 0x49, 0x20, 0x50, 0x41, 0x52, 0x54]"

text \<open>The checks on the header sector; the number and place of the entries come out of it.\<close>

definition header_crc :: "(nat \<Rightarrow> u8) \<Rightarrow> u32" where
  "header_crc sec = crc32 (map (\<lambda>j. if 16 \<le> j \<and> j < 20 then 0 else sec j) [0..<unat (rd32 sec 12)])"

definition header_ok :: "(nat \<Rightarrow> u8) \<Rightarrow> bool" where
  "header_ok sec \<longleftrightarrow> map sec [0..<8] = EFI_PART \<and> 92 \<le> rd32 sec 12 \<and> rd32 sec 12 \<le> 512 \<and> header_crc sec = rd32 sec 16
     \<and> rd32 sec 84 = 128 \<and> rd32 sec 80 \<noteq> 0 \<and> rd32 sec 80 \<le> 256 \<and> rd64 sec 72 \<le> 0xFFFFFFFF"

definition gpt_sectors :: "(nat \<Rightarrow> u8) \<Rightarrow> nat" where
  "gpt_sectors h = unat ((rd32 h 80 * rd32 h 84 + 511) div 512)"

definition gpt_scan :: "(u32 \<Rightarrow> (nat \<Rightarrow> u8) option) \<Rightarrow> int \<Rightarrow> gpt_part list option" where
  "gpt_scan rd mx =
     (if mx \<le> 0 then None
      else case rd 1 of
        None \<Rightarrow> None
      | Some h \<Rightarrow>
          if \<not> header_ok h then None
          else case scan_sectors rd (ucast (rd64 h 72)) 0 (gpt_sectors h) (unat (rd32 h 80)) (nat mx) 0xFFFFFFFF [] of
              None \<Rightarrow> None
            | Some (run, ps) \<Rightarrow> if run XOR 0xFFFFFFFF \<noteq> rd32 h 88 then None else Some ps)"

definition CHAROS_PART_GUID :: "u8 list" where
  "CHAROS_PART_GUID = [0xD4, 0xC3, 0xB2, 0xA1, 0xF6, 0xE5, 0x7B, 0x4A, 0x8C, 0x9D, 0xE0, 0xF1, 0xA2, 0xB3, 0xC4, 0xD5]"

definition gpt_find_charos :: "gpt_part list \<Rightarrow> int" where
  "gpt_find_charos ps =
     (case first_from (\<lambda>i. type_guid (ps ! i) = CHAROS_PART_GUID) 0 (length ps) of None \<Rightarrow> -1 | Some i \<Rightarrow> int i)"

text \<open>\<open>cache_n\<close> is -1 before a scan and -2 after a failed one; what a failed scan leaves in \<open>cache_parts\<close> nobody reads.\<close>

record gpt_cache =
  cache_n :: int
  cache_parts :: "gpt_part list"

definition gpt_scan_nvme :: "bool \<Rightarrow> (u32 \<Rightarrow> (nat \<Rightarrow> u8) option) \<Rightarrow> gpt_cache \<Rightarrow> int \<times> gpt_cache" where
  "gpt_scan_nvme present rd c =
     (if \<not> present then (-1, c)
      else if cache_n c \<ge> 0 then (cache_n c, c)
      else case gpt_scan rd (int GPT_MAX_PARTS) of
          None \<Rightarrow> (-1, c\<lparr>cache_n := -2\<rparr>)
        | Some ps \<Rightarrow> (int (length ps), \<lparr>cache_n = int (length ps), cache_parts = ps\<rparr>))"

definition gpt_invalidate :: "gpt_cache \<Rightarrow> gpt_cache" where
  "gpt_invalidate c = c\<lparr>cache_n := -1\<rparr>"

definition gpt_cached :: "gpt_cache \<Rightarrow> (int \<times> gpt_part list) option" where
  "gpt_cached c = (if cache_n c < 0 then None else Some (cache_n c, cache_parts c))"


section \<open>The scan in closed form\<close>

definition the_sec :: "(u32 \<Rightarrow> (nat \<Rightarrow> u8) option) \<Rightarrow> u32 \<Rightarrow> nat \<Rightarrow> nat \<Rightarrow> u8" where
  "the_sec rd lba s = the (rd (lba + of_nat s))"

text \<open>Entry \<open>i\<close> of the table, four to a sector.\<close>

definition entry :: "(u32 \<Rightarrow> (nat \<Rightarrow> u8) option) \<Rightarrow> u32 \<Rightarrow> nat \<Rightarrow> nat \<Rightarrow> u8" where
  "entry rd lba i = (\<lambda>j. the_sec rd lba (i div 4) (i mod 4 * 128 + j))"

definition add_entry :: "(nat \<Rightarrow> nat \<Rightarrow> u8) \<Rightarrow> nat \<Rightarrow> nat \<Rightarrow> nat \<Rightarrow> gpt_part list \<Rightarrow> gpt_part list" where
  "add_entry en num m i ps = (if num \<le> i \<or> guid_zero (en i) \<or> m \<le> length ps then ps else ps @ [read_part (en i)])"

lemma fold_add_entry:
  "fold (add_entry en num m) is ps = ps @ take (m - length ps) (map read_part (filter (\<lambda>e. \<not> guid_zero e) (map en (filter (\<lambda>i. i < num) is))))"
proof (induction "is" arbitrary: ps)
  case (Cons i "is")
  show ?case
  proof (cases "num \<le> i \<or> guid_zero (en i) \<or> m \<le> length ps")
    case True
    then have "add_entry en num m i ps = ps" by (simp add: add_entry_def)
    then show ?thesis using True by (auto simp: Cons.IH)
  next
    case False
    then have "m - length ps = Suc (m - Suc (length ps))" by linarith
    moreover have "add_entry en num m i ps = ps @ [read_part (en i)]" using False by (simp add: add_entry_def)
    ultimately show ?thesis using False by (simp add: Cons.IH)
  qed
qed simp

lemma scan_entry_add:
  "e < 4 \<Longrightarrow> scan_entry (the_sec rd lba s) s num mx e = add_entry (entry rd lba) num (min mx GPT_MAX_PARTS) (4 * s + e)"
  by (intro ext) (auto simp: scan_entry_def add_entry_def entry_def Let_def mult.commute)

lemma four_entries: "fold (scan_entry (the_sec rd lba s) s num mx) [0..<4] = fold (add_entry (entry rd lba) num (min mx GPT_MAX_PARTS)) [4 * s..<4 * s + 4]"
proof -
  have "[0..<4] = [0, 1, 2, 3 :: nat]" "[4 * s..<4 * s + 4] = [4 * s + 0, 4 * s + 1, 4 * s + 2, 4 * s + 3]"
    by (simp_all add: upt_rec)
  then show ?thesis by (simp only: fold_simps scan_entry_add) (simp add: scan_entry_add)
qed

definition sec_bytes :: "(u32 \<Rightarrow> (nat \<Rightarrow> u8) option) \<Rightarrow> u32 \<Rightarrow> nat list \<Rightarrow> u8 list" where
  "sec_bytes rd lba ss = concat (map (\<lambda>s. map (the_sec rd lba s) [0..<512]) ss)"

lemma scan_sectors_closed:
  "scan_sectors rd lba s k num mx run ps =
     (if \<forall>j \<in> {s..<s + k}. rd (lba + of_nat j) \<noteq> None
      then Some (foldl crc_step run (sec_bytes rd lba [s..<s + k]), fold (add_entry (entry rd lba) num (min mx GPT_MAX_PARTS)) [4 * s..<4 * (s + k)] ps)
      else None)"
proof (induction k arbitrary: s run ps)
  case (Suc k)
  have split: "{s..<s + Suc k} = insert s {Suc s..<Suc s + k}" by auto
  have up: "[s..<s + Suc k] = s # [Suc s..<Suc s + k]" by (simp add: upt_rec)
  have up4: "[4 * s..<4 * (s + Suc k)] = [4 * s..<4 * s + 4] @ [4 * Suc s..<4 * (Suc s + k)]"
    using upt_add_eq_append [of "4 * s" "4 * s + 4" "4 * k"] by (simp add: algebra_simps)
  show ?case
  proof (cases "rd (lba + of_nat s)")
    case (Some sec)
    then have "sec = the_sec rd lba s" by (simp add: the_sec_def)
    then show ?thesis unfolding split up up4 using Some by (simp add: Suc.IH four_entries sec_bytes_def del: upt_rec_numeral)
  qed (auto simp: split)
qed (simp add: sec_bytes_def)

lemma gpt_sectors_enough: "header_ok h \<Longrightarrow> unat (rd32 h 80) \<le> 4 * gpt_sectors h \<and> gpt_sectors h \<le> 64"
proof -
  assume h: "header_ok h"
  then have n: "unat (rd32 h 80) \<le> 256" "rd32 h 84 = 128" by (simp_all add: header_ok_def word_le_nat_alt)
  then have "unat (rd32 h 80 * rd32 h 84 + 511) = unat (rd32 h 80) * 128 + 511" by (simp add: unat_word_ariths)
  then have "gpt_sectors h = (unat (rd32 h 80) * 128 + 511) div 512" by (simp add: gpt_sectors_def unat_div)
  then show ?thesis using n(1) by linarith
qed

definition table_lba :: "(nat \<Rightarrow> u8) \<Rightarrow> u32" where
  "table_lba h = ucast (rd64 h 72)"

lemma gpt_scan_closed:
  "gpt_scan rd mx = Some ps \<longleftrightarrow> 0 < mx \<and> (\<exists>h. rd 1 = Some h \<and> header_ok h
     \<and> (\<forall>s < gpt_sectors h. rd (table_lba h + of_nat s) \<noteq> None)
     \<and> crc32 (sec_bytes rd (table_lba h) [0..<gpt_sectors h]) = rd32 h 88
     \<and> ps = take (min (nat mx) GPT_MAX_PARTS)
         (map read_part (filter (\<lambda>e. \<not> guid_zero e) (map (entry rd (table_lba h)) [0..<unat (rd32 h 80)]))))"
proof (cases "0 < mx \<and> (\<exists>h. rd 1 = Some h \<and> header_ok h)")
  case False
  then show ?thesis by (auto simp: gpt_scan_def split: option.splits)
next
  case True
  then obtain h where h: "rd 1 = Some h" "header_ok h" by blast
  have f: "filter (\<lambda>i. i < unat (rd32 h 80)) [0..<4 * gpt_sectors h] = [0..<unat (rd32 h 80)]"
  proof -
    have "[0..<4 * gpt_sectors h] = [0..<unat (rd32 h 80)] @ [unat (rd32 h 80)..<4 * gpt_sectors h]"
      using gpt_sectors_enough [OF h(2)] upt_add_eq_append [of 0 "unat (rd32 h 80)" "4 * gpt_sectors h - unat (rd32 h 80)"] by simp
    then show ?thesis by simp
  qed
  show ?thesis using True h
    by (auto simp: gpt_scan_def scan_sectors_closed fold_add_entry f table_lba_def [symmetric] crc32_def)
qed

section \<open>Damage\<close>

lemma rd32_byte: "k < 4 \<Longrightarrow> (ucast (drop_bit (8 * k) (rd32 f i)) :: u8) = f (i + k)"
proof -
  assume "k < 4"
  then consider "k = 0" | "k = 1" | "k = 2" | "k = 3" by linarith
  then show ?thesis
  proof cases
    case 1
    show ?thesis unfolding 1 by (rule bit_word_eqI) (auto simp: rd32_def bit_simps possible_bit_word)
  next
    case 2
    show ?thesis unfolding 2 by (rule bit_word_eqI) (auto simp: rd32_def bit_simps possible_bit_word dest: bit_imp_possible_bit)
  next
    case 3
    show ?thesis unfolding 3 by (rule bit_word_eqI) (auto simp: rd32_def bit_simps possible_bit_word dest: bit_imp_possible_bit)
  next
    case 4
    show ?thesis unfolding 4 by (rule bit_word_eqI) (auto simp: rd32_def bit_simps possible_bit_word dest: bit_imp_possible_bit)
  qed
qed

lemma rd32_upd:
  "j \<notin> {i..<i + 4} \<Longrightarrow> rd32 (f(j := b)) i = rd32 f i"
  "j \<in> {i..<i + 4} \<Longrightarrow> rd32 (f(j := b)) i = rd32 f i \<longleftrightarrow> b = f j"
proof -
  show "j \<notin> {i..<i + 4} \<Longrightarrow> rd32 (f(j := b)) i = rd32 f i" by (auto simp: rd32_def)
  assume j: "j \<in> {i..<i + 4}"
  show "rd32 (f(j := b)) i = rd32 f i \<longleftrightarrow> b = f j"
  proof
    assume "rd32 (f(j := b)) i = rd32 f i"
    moreover have "j - i < 4" using j by auto
    ultimately have "(f(j := b)) (i + (j - i)) = f (i + (j - i))" using rd32_byte [of "j - i" "f(j := b)" i] rd32_byte [of "j - i" f i] j by simp
    then show "b = f j" using j by simp
  qed simp
qed

lemma map_split: "j < n \<Longrightarrow> map f [0..<n] = map f [0..<j] @ f j # map f [Suc j..<n]"
proof -
  assume j: "j < n"
  then have "[0..<n] = [0..<j] @ j # [Suc j..<n]" using upt_add_eq_append [of 0 j "n - j"] by (simp add: upt_conv_Cons)
  then show ?thesis by simp
qed

text \<open>One value replaced in a mapped range.\<close>

lemma crc32_map_upd: "j < n \<Longrightarrow> crc32 (xs @ map (f(j := b)) [0..<n] @ ys) = crc32 (xs @ map f [0..<n] @ ys) \<longleftrightarrow> b = f j"
proof -
  assume j: "j < n"
  have e: "map (f(j := b)) [0..<j] = map f [0..<j]" "map (f(j := b)) [Suc j..<n] = map f [Suc j..<n]" by simp_all
  show ?thesis using crc32_byte [of "xs @ map f [0..<j]" b "map f [Suc j..<n] @ ys" "f j"]
    by (simp add: map_split [OF j, of f] map_split [OF j, of "f(j := b)"] e del: map_fun_upd)
qed

lemma header_damage:
  assumes h: "header_ok h" and j: "j < unat (rd32 h 12)" "j \<notin> {12..<16}" and b: "b \<noteq> h j"
  shows "\<not> header_ok (h(j := b))"
proof
  assume ok: "header_ok (h(j := b))"
  have len: "rd32 (h(j := b)) 12 = rd32 h 12" using j(2) by (intro rd32_upd) simp
  let ?z = "\<lambda>f i. if 16 \<le> i \<and> i < 20 then 0 else f i" and ?n = "unat (rd32 h 12)"
  have crc: "header_crc f = crc32 (map (?z f) [0..<unat (rd32 f 12)])" for f by (simp add: header_crc_def)
  show False
  proof (cases "j \<in> {16..<20}")
    case True
    then have "?z (h(j := b)) = ?z h" by auto
    then have "header_crc (h(j := b)) = header_crc h" unfolding crc len by simp
    moreover have "rd32 (h(j := b)) 16 \<noteq> rd32 h 16" using True b by (subst rd32_upd(2)) auto
    ultimately show False using h ok by (simp add: header_ok_def)
  next
    case False
    then have z: "?z (h(j := b)) = (?z h)(j := b)" "?z h j = h j" by auto
    have "rd32 (h(j := b)) 16 = rd32 h 16" using False by (intro rd32_upd) simp
    moreover have "header_crc (h(j := b)) \<noteq> header_crc h"
      using crc32_map_upd [OF j(1), of "[]" "?z h" b "[]"] b unfolding crc len z(1) z(2) by simp
    ultimately show False using h ok by (simp add: header_ok_def)
  qed
qed

lemma table_damage:
  assumes s: "s < n" "n \<le> 64" and j: "j < 512" and f: "rd (lba + of_nat s) = Some f" and b: "b \<noteq> f j"
  shows "crc32 (sec_bytes (rd(lba + of_nat s := Some (f(j := b)))) lba [0..<n]) \<noteq> crc32 (sec_bytes rd lba [0..<n])"
proof -
  let ?rd = "rd(lba + of_nat s := Some (f(j := b)))"
  have other: "the_sec ?rd lba i = the_sec rd lba i" if "i \<noteq> s" "i < 64" for i
  proof -
    have "(of_nat i :: u32) \<noteq> of_nat s"
    proof
      assume "(of_nat i :: u32) = of_nat s"
      then have "unat (of_nat i :: u32) = unat (of_nat s :: u32)" by simp
      then show False using that s by (simp add: unat_of_nat_u32)
    qed
    then show ?thesis by (simp add: the_sec_def)
  qed
  have l: "sec_bytes ?rd lba [0..<s] = sec_bytes rd lba [0..<s]" "sec_bytes ?rd lba [Suc s..<n] = sec_bytes rd lba [Suc s..<n]"
    using s other unfolding sec_bytes_def by (auto intro!: arg_cong [where f = concat] map_cong simp del: upt_rec_numeral)
  have sp: "sec_bytes r lba [0..<n] = sec_bytes r lba [0..<s] @ map (the_sec r lba s) [0..<512] @ sec_bytes r lba [Suc s..<n]" for r
    using map_split [OF s(1), of "\<lambda>i. map (the_sec r lba i) [0..<512]"] by (simp add: sec_bytes_def del: upt_rec_numeral)
  have m: "the_sec ?rd lba s = f(j := b)" "the_sec rd lba s = f" using f by (simp_all add: the_sec_def)
  show ?thesis unfolding sp l m using crc32_map_upd [OF j, of _ f b] b by simp
qed

section \<open>A demonstration disk\<close>

lemma rd32I: "(\<And>k. k < 4 \<Longrightarrow> f (i + k) = ucast (drop_bit (8 * k) v)) \<Longrightarrow> rd32 f i = v"
proof -
  assume a: "\<And>k. k < 4 \<Longrightarrow> f (i + k) = ucast (drop_bit (8 * k) v)"
  show ?thesis using a [of 0] a [of 1] a [of 2] a [of 3] by (simp add: rd32_def le32_word)
qed

definition byte_of :: "u32 \<Rightarrow> nat \<Rightarrow> u8" where
  "byte_of v k = ucast (drop_bit (8 * k) v)"

definition demo_table :: "nat \<Rightarrow> u8" where
  "demo_table j = (if j < 16 then CHAROS_PART_GUID ! j else if j = 16 then 1 else if j = 32 then 34 else if j = 40 then 99 else if j = 56 then 0x63 else 0)"

definition demo_body :: "nat \<Rightarrow> u8" where
  "demo_body j = (if j < 8 then EFI_PART ! j else if j = 12 then 92 else if j = 72 then 2 else if j = 80 then 4 else if j = 84 then 128
     else if 88 \<le> j \<and> j < 92 then byte_of (crc32 (map demo_table [0..<512])) (j - 88) else 0)"

definition demo_header :: "nat \<Rightarrow> u8" where
  "demo_header j = (if 16 \<le> j \<and> j < 20 then byte_of (crc32 (map demo_body [0..<92])) (j - 16) else demo_body j)"

definition demo_gpt :: "u32 \<Rightarrow> (nat \<Rightarrow> u8) option" where
  "demo_gpt l = (if l = 1 then Some demo_header else if l = 2 then Some demo_table else None)"

lemma demo_fields:
  "rd32 demo_header 12 = 92" "rd32 demo_header 80 = 4" "rd32 demo_header 84 = 128" "rd64 demo_header 72 = 2"
  "rd32 demo_header 16 = crc32 (map demo_body [0..<92])" "rd32 demo_header 88 = crc32 (map demo_table [0..<512])"
proof -
  show "rd32 demo_header 12 = 92" "rd32 demo_header 80 = 4" "rd32 demo_header 84 = 128"
    by (simp_all add: rd32_def demo_header_def demo_body_def)
  show "rd64 demo_header 72 = 2" by (simp add: rd64_def demo_header_def demo_body_def)
  show "rd32 demo_header 16 = crc32 (map demo_body [0..<92])"
    by (rule rd32I) (simp add: demo_header_def byte_of_def del: upt_rec_numeral)
  show "rd32 demo_header 88 = crc32 (map demo_table [0..<512])"
    by (rule rd32I) (simp add: demo_header_def demo_body_def byte_of_def del: upt_rec_numeral)
qed

lemma demo_header_ok: "header_ok demo_header"
proof -
  have m: "(\<lambda>j. if 16 \<le> j \<and> j < 20 then 0 else demo_header j) = demo_body"
    by (intro ext) (auto simp: demo_header_def demo_body_def)
  have "map demo_header [0..<8] = EFI_PART" by (simp add: upt_rec demo_header_def demo_body_def EFI_PART_def)
  then show ?thesis by (simp add: header_ok_def header_crc_def demo_fields m del: upt_rec_numeral)
qed

section \<open>Properties\<close>


text \<open>C38.  A disk whose table is accepted is refused once any one byte of the entry sectors, or any one byte of the header that
  its checksum covers, its length field apart, has another value.\<close>
theorem gpt_damage_detected:
  assumes ok: "gpt_scan rd mx = Some ps" and h: "rd 1 = Some h" and f: "rd l = Some f" and b: "b \<noteq> f j"
    and hit: "l = 1 \<and> j < unat (rd32 h 12) \<and> \<not> (12 \<le> j \<and> j < 16)
      \<or> l \<noteq> 1 \<and> j < 512 \<and> (\<exists>s < gpt_sectors h. l = table_lba h + of_nat s)"
  shows "gpt_scan (rd(l := Some (f(j := b)))) mx' = None"
proof (cases "gpt_scan (rd(l := Some (f(j := b)))) mx'")
  case (Some qs)
  have H: "header_ok h" "crc32 (sec_bytes rd (table_lba h) [0..<gpt_sectors h]) = rd32 h 88"
    using ok h unfolding gpt_scan_closed by auto
  show ?thesis
  proof (cases "l = 1")
    case True
    then have "f = h" using f h by simp
    moreover have "header_ok (f(j := b))" using Some True unfolding gpt_scan_closed by auto
    ultimately show ?thesis using header_damage [OF H(1), of j b] hit b True by auto
  next
    case False
    then obtain s where s: "s < gpt_sectors h" "l = table_lba h + of_nat s" "j < 512" using hit by blast
    have "crc32 (sec_bytes (rd(l := Some (f(j := b)))) (table_lba h) [0..<gpt_sectors h]) = rd32 h 88"
      using Some False h unfolding gpt_scan_closed by auto
    then show ?thesis using table_damage [OF s(1) _ s(3), of rd "table_lba h" f b] gpt_sectors_enough [OF H(1)] f b s(2) H(2) by simp
  qed
qed

theorem gpt_damage_detected_witness:
  "(\<exists>p. gpt_scan demo_gpt 16 = Some [p] \<and> gpt_find_charos [p] = 0) \<and> gpt_scan (demo_gpt(2 := Some (demo_table(32 := 35)))) 16 = None"
proof -
  have n: "gpt_sectors demo_header = 1" "table_lba demo_header = 2"
    by (simp_all add: gpt_sectors_def table_lba_def demo_fields)
  have e: "entry demo_gpt 2 i = (\<lambda>j. demo_table (i * 128 + j))" if "i < 4" for i
    using that by (intro ext) (simp add: entry_def the_sec_def demo_gpt_def)
  have es: "entry demo_gpt 2 0 = demo_table" "entry demo_gpt 2 (Suc 0) = (\<lambda>j. demo_table (128 + j))"
    "entry demo_gpt 2 2 = (\<lambda>j. demo_table (256 + j))" "entry demo_gpt 2 3 = (\<lambda>j. demo_table (384 + j))"
    using e [of 0] e [of 1] e [of 2] e [of 3] by simp_all
  have z: "\<not> guid_zero demo_table" "guid_zero (\<lambda>j. demo_table (128 + j))" "guid_zero (\<lambda>j. demo_table (256 + j))" "guid_zero (\<lambda>j. demo_table (384 + j))"
    by (auto simp: guid_zero_def demo_table_def CHAROS_PART_GUID_def intro!: exI [of _ 0])
  have up: "[0..<4] = [0, 1, 2, 3 :: nat]" by (simp add: upt_rec)
  have bytes: "sec_bytes demo_gpt 2 [0] = map demo_table [0..<512]" by (simp add: sec_bytes_def the_sec_def demo_gpt_def del: upt_rec_numeral)
  have ps: "gpt_scan demo_gpt 16 = Some [read_part demo_table]"
    unfolding gpt_scan_closed using z
    by (simp add: demo_gpt_def demo_header_ok n) (simp add: demo_gpt_def demo_fields es bytes n up del: upt_rec_numeral)
  have "type_guid (read_part demo_table) = CHAROS_PART_GUID" by (simp add: upt_rec read_part_def demo_table_def CHAROS_PART_GUID_def)
  then have "gpt_find_charos [read_part demo_table] = 0" by (simp add: gpt_find_charos_def)
  moreover have "gpt_scan (demo_gpt(2 := Some (demo_table(32 := 35)))) 16 = None"
    by (rule gpt_damage_detected [OF ps, of demo_header]) (auto simp: demo_gpt_def demo_table_def n)
  ultimately show ?thesis using ps by blast
qed
end
