(* ===== verification/Mb2.thy ===== *)
theory Mb2
  imports Pmm
begin

text \<open>
  \<open>memory/mb2.c\<close>: the boot information of a UEFI boot (Multiboot 2, a list of tags) is rewritten into the older layout
  that \<open>pmm_init\<close> reads.  \<open>None\<close> is a boot that never gets through: a division by zero, or a walk that does not end.
  The loader's data lie apart from the kernel's own buffers, whose addresses are parameters.
\<close>

section \<open>Translation\<close>

abbreviation MBI_MMAP_MAX :: nat where "MBI_MMAP_MAX \<equiv> 48"

type_synonym map_entry = "u64 \<times> u64 \<times> u32"

text \<open>The local variables of \<open>mb2_translate\<close> and the file's variables: \<open>mb_map\<close> is \<open>mb1_entries\<close> up to \<open>mmap_cnt\<close>, a frame
  buffer the bytes from offset 88 of \<open>mb1_info\<close>.\<close>

record mb2 =
  mem_lower :: u32
  mem_upper :: u32
  has_meminfo :: bool
  mb_map :: "map_entry list"
  mmap_len :: u32
  has_mmap :: bool
  mb_fb :: "u8 list option"
  g_rsdp_bytes :: "u8 list"
  g_rsdp_len :: nat

definition bytes_at :: "(u32 \<Rightarrow> u8) \<Rightarrow> u32 \<Rightarrow> nat \<Rightarrow> u8 list" where
  "bytes_at mem a n = map (\<lambda>i. mem (a + of_nat i)) [0..<n]"

definition entry_at :: "(u32 \<Rightarrow> u8) \<Rightarrow> u32 \<Rightarrow> map_entry" where
  "entry_at mem p = (rd64 mem p, rd64 mem (p + 8), rd32 mem (p + 16))"

text \<open>\<open>for (i = 0; i < n; i++) { ...; if (mmap_cnt >= MBI_MMAP_MAX) break; p += entry_size; }\<close>\<close>

fun map_entries :: "(u32 \<Rightarrow> u8) \<Rightarrow> u32 \<Rightarrow> u32 \<Rightarrow> nat \<Rightarrow> map_entry list \<Rightarrow> map_entry list" where
  "map_entries mem p esz 0 es = es"
| "map_entries mem p esz (Suc n) es =
     (let es1 = es @ [entry_at mem p] in
      if length es1 \<ge> MBI_MMAP_MAX then es1 else map_entries mem (p + esz) esz n es1)"

text \<open>The memory map; \<open>None\<close> when the entry size is zero.\<close>

definition tag_mmap :: "(u32 \<Rightarrow> u8) \<Rightarrow> u32 \<Rightarrow> u32 \<Rightarrow> mb2 \<Rightarrow> mb2 option" where
  "tag_mmap mem data sz m =
     (let esz = rd32 mem data in
      if esz = 0 then None
      else let n = min (unat ((sz - 8) div esz)) MBI_MMAP_MAX; es = map_entries mem (data + 8) esz n (mb_map m) in
        Some (m\<lparr>mb_map := es, mmap_len := of_nat (length es) * 24, has_mmap := es \<noteq> []\<rparr>))"

definition tag_fb :: "(u32 \<Rightarrow> u8) \<Rightarrow> u32 \<Rightarrow> mb2 \<Rightarrow> mb2" where
  "tag_fb mem data m =
     (let fba = ucast (rd64 mem data) :: u32; pitch = rd32 mem (data + 8); width = rd32 mem (data + 12); height = rd32 mem (data + 16);
          bpp = mem (data + 20); ftype = mem (data + 21) in
      if fba \<noteq> 0 \<and> pitch \<noteq> 0 \<and> width \<noteq> 0 \<and> height \<noteq> 0 \<and> 8 \<le> bpp \<and> bpp \<le> 32
      then m\<lparr>mb_fb := Some (bytes_at mem data 4 @ [0, 0, 0, 0] @ bytes_at mem (data + 8) 12 @ [bpp, ftype])\<rparr>
      else m)"

text \<open>\<open>g_rsdp_bytes\<close> keeps its last 16 bytes when the short form is copied.\<close>

definition tag_rsdp :: "(u32 \<Rightarrow> u8) \<Rightarrow> u32 \<Rightarrow> u32 \<Rightarrow> u32 \<Rightarrow> mb2 \<Rightarrow> mb2" where
  "tag_rsdp mem data t sz m =
     (if t = 14 \<and> sz \<ge> 28 then m\<lparr>g_rsdp_bytes := bytes_at mem data 20 @ drop 20 (g_rsdp_bytes m), g_rsdp_len := max (g_rsdp_len m) 20\<rparr>
      else if t = 15 \<and> sz \<ge> 44 then m\<lparr>g_rsdp_bytes := bytes_at mem data 36, g_rsdp_len := 36\<rparr>
      else m)"

definition mb2_tag :: "(u32 \<Rightarrow> u8) \<Rightarrow> u32 \<Rightarrow> u32 \<Rightarrow> u32 \<Rightarrow> mb2 \<Rightarrow> mb2 option" where
  "mb2_tag mem data t sz m =
     (if t = 4 then Some (if sz \<ge> 16 then m\<lparr>mem_lower := rd32 mem data, mem_upper := rd32 mem (data + 4), has_meminfo := True\<rparr> else m)
      else if t = 6 then (if sz \<ge> 16 then tag_mmap mem data sz m else Some m)
      else if t = 8 then Some (if sz \<ge> 24 then tag_fb mem data m else m)
      else Some (tag_rsdp mem data t sz m))"

partial_function (option) mb2_loop :: "(u32 \<Rightarrow> u8) \<Rightarrow> u32 \<Rightarrow> u32 \<Rightarrow> u32 \<Rightarrow> mb2 \<Rightarrow> mb2 option" where
  "mb2_loop mem addr total_size off m =
     (if off + 8 \<le> total_size
      then let t = rd32 mem (addr + off); sz = rd32 mem (addr + off + 4) in
        if sz < 8 then Some m
        else if t = 0 then Some m
        else (case mb2_tag mem (addr + off + 8) t sz m of
            None \<Rightarrow> None
          | Some m1 \<Rightarrow>
              let off1 = off + ((sz + 7) AND NOT 7) in
              if off1 \<le> 8 then Some m1 else mb2_loop mem addr total_size off1 m1)
      else Some m)"

definition mb2_start :: "u8 list \<Rightarrow> nat \<Rightarrow> mb2" where
  "mb2_start rsdp len = \<lparr>mem_lower = 640, mem_upper = 0, has_meminfo = False, mb_map = [], mmap_len = 0, has_mmap = False,
     mb_fb = None, g_rsdp_bytes = rsdp, g_rsdp_len = len\<rparr>"

text \<open>\<open>Some None\<close>: the size of the information is out of range and 0 is returned.\<close>

definition mb2_translate :: "(u32 \<Rightarrow> u8) \<Rightarrow> u32 \<Rightarrow> u8 list \<Rightarrow> nat \<Rightarrow> mb2 option option" where
  "mb2_translate mem addr rsdp len =
     (if addr = 0 then Some None
      else let total_size = rd32 mem addr in
        if total_size < 16 \<or> total_size > 0x10000 then Some None
        else map_option Some (mb2_loop mem addr total_size 8 (mb2_start rsdp len)))"

definition mb2_rsdp :: "mb2 \<Rightarrow> u8 list option" where
  "mb2_rsdp m = (if g_rsdp_len m \<noteq> 0 then Some (g_rsdp_bytes m) else None)"

section \<open>The bytes left for the kernel\<close>

definition b32 :: "u32 \<Rightarrow> u8 list" where
  "b32 v = [ucast v, ucast (drop_bit 8 v), ucast (drop_bit 16 v), ucast (drop_bit 24 v)]"

definition b64 :: "u64 \<Rightarrow> u8 list" where
  "b64 v = b32 (ucast v) @ b32 (ucast (drop_bit 32 v))"

definition info_flags :: "mb2 \<Rightarrow> u32" where
  "info_flags m = 1 OR (if has_meminfo m then 2 else 0) OR (if has_mmap m then 64 else 0) OR (if mb_fb m \<noteq> None then 4096 else 0)"

text \<open>\<open>mb1_info\<close>: flags at 0, memory sizes at 4 and 8, length and address of the map at 44 and 48, frame buffer from 88 on.\<close>

definition mb1_info :: "u32 \<Rightarrow> mb2 \<Rightarrow> u8 list" where
  "mb1_info ea m = b32 (info_flags m) @ b32 (mem_lower m) @ b32 (mem_upper m) @ replicate 32 0
     @ (if has_mmap m then b32 (mmap_len m) @ b32 ea else replicate 8 0) @ replicate 36 0
     @ (case mb_fb m of None \<Rightarrow> replicate 22 0 | Some b \<Rightarrow> b) @ replicate 18 0"

definition entry_bytes :: "map_entry \<Rightarrow> u8 list" where
  "entry_bytes e = (case e of (b, l, t) \<Rightarrow> b32 20 @ b64 b @ b64 l @ b32 t)"

text \<open>Memory with the list of bytes stored at an address.\<close>

definition put_bytes :: "u32 \<Rightarrow> u8 list \<Rightarrow> (u32 \<Rightarrow> u8) \<Rightarrow> u32 \<Rightarrow> u8" where
  "put_bytes a bs mem = (\<lambda>x. if unat (x - a) < length bs then bs ! unat (x - a) else mem x)"

definition mb1_mem :: "u32 \<Rightarrow> u32 \<Rightarrow> mb2 \<Rightarrow> (u32 \<Rightarrow> u8) \<Rightarrow> u32 \<Rightarrow> u8" where
  "mb1_mem ia ea m mem = put_bytes ea (concat (map entry_bytes (mb_map m)) @ replicate (1152 - 24 * length (mb_map m)) 0)
     (put_bytes ia (mb1_info ea m) mem)"

text \<open>The pointer the kernel goes on with, and its memory.\<close>

definition boot_info :: "u32 \<Rightarrow> u32 \<Rightarrow> u32 \<Rightarrow> u32 \<Rightarrow> (u32 \<Rightarrow> u8) \<Rightarrow> u8 list \<Rightarrow> nat \<Rightarrow> (u32 \<times> (u32 \<Rightarrow> u8)) option" where
  "boot_info ia ea magic ptr mem rsdp len =
     (if magic = 0x2BADB002 then Some (ptr, mem)
      else if magic = 0x36D76289 then
        (case mb2_translate mem ptr rsdp len of
           None \<Rightarrow> None
         | Some None \<Rightarrow> Some (0, mem)
         | Some (Some m) \<Rightarrow> Some (ia, mb1_mem ia ea m mem))
      else Some (0, mem))"


section \<open>Reading the bytes back\<close>

lemma b32_facts [simp]: "length (b32 v) = 4" "length (b64 w) = 8" "length (entry_bytes e) = 24"
  by (simp_all add: b32_def b64_def entry_bytes_def split: prod.splits)

lemma rd32_b32: "(\<And>k. k < 4 \<Longrightarrow> mem (a + of_nat k) = b32 v ! k) \<Longrightarrow> rd32 mem a = v"
proof -
  assume m: "\<And>k. k < 4 \<Longrightarrow> mem (a + of_nat k) = b32 v ! k"
  show ?thesis using m [of 0] m [of 1] m [of 2] m [of 3] by (simp add: rd32_def rd8_def b32_def le32_word)
qed

lemma split64: "(ucast (ucast v :: u32) :: u64) OR push_bit 32 (ucast (ucast (drop_bit 32 v) :: u32)) = v"
proof (rule bit_word_eqI)
  fix n assume "n < LENGTH(64)"
  moreover have "n < 32 \<or> 32 \<le> n" by linarith
  ultimately show "bit ((ucast (ucast v :: u32) :: u64) OR push_bit 32 (ucast (ucast (drop_bit 32 v) :: u32))) n = bit v n"
    by (elim disjE) (auto simp: bit_simps)
qed

lemma rd64_b64: "(\<And>k. k < 8 \<Longrightarrow> mem (a + of_nat k) = b64 v ! k) \<Longrightarrow> rd64 mem a = v"
proof -
  assume m: "\<And>k. k < 8 \<Longrightarrow> mem (a + of_nat k) = b64 v ! k"
  have "rd32 mem a = ucast v" using m by (intro rd32_b32) (simp add: b64_def nth_append)
  moreover have "rd32 mem (a + 4) = ucast (drop_bit 32 v)"
  proof (rule rd32_b32)
    fix k :: nat assume k: "k < 4"
    then show "mem (a + 4 + of_nat k) = b32 (ucast (drop_bit 32 v)) ! k"
      using m [of "4 + k"] by (simp add: b64_def nth_append add.assoc)
  qed
  ultimately show ?thesis unfolding rd64_def by (simp add: split64)
qed

lemma nth_concat_same:
  "(\<And>x. length (f x) = n) \<Longrightarrow> i < length xs \<Longrightarrow> k < n \<Longrightarrow> concat (map f xs) ! (n * i + k) = f (xs ! i) ! k"
proof (induction xs arbitrary: i)
  case (Cons x xs)
  then show ?case by (cases i) (simp_all add: nth_append add.assoc)
qed simp

lemma length_entries: "length (concat (map entry_bytes es)) = 24 * length es"
  by (induction es) simp_all

section \<open>The memory map arrives\<close>

text \<open>The effect of one entry of the map on the allocator.\<close>

definition region_step :: "map_entry \<Rightarrow> pmm \<Rightarrow> pmm" where
  "region_step e s = (case e of (base, len, ty) \<Rightarrow>
     if ty = 1 \<and> base < ucast PMM_MAX_MEMORY then
       (let b = ucast base; l = ucast len in pmm_free_region b (if b + l > PMM_MAX_MEMORY then PMM_MAX_MEMORY - b else l) s)
     else s)"

definition apart :: "u32 \<Rightarrow> u32 \<Rightarrow> bool" where
  "apart ia ea \<longleftrightarrow> ia \<noteq> 0 \<and> (unat ia + 128 \<le> unat ea \<or> unat ea + 1152 \<le> unat ia) \<and> unat ia + 128 < 4294967296 \<and> unat ea + 1152 < 4294967296"

lemma put_here: "k < length bs \<Longrightarrow> length bs < 4294967296 \<Longrightarrow> put_bytes a bs mem (a + of_nat k) = bs ! k"
proof -
  assume k: "k < length bs" "length bs < 4294967296"
  then have "unat (of_nat k :: u32) = k" by (intro unat_of_nat_u32) simp
  then show ?thesis using k by (simp add: put_bytes_def)
qed

lemma put_elsewhere:
  assumes "length bs \<le> n" "k < m" "unat x + m < 4294967296" "unat a + n < 4294967296" "unat x + m \<le> unat a \<or> unat a + n \<le> unat x"
  shows "put_bytes a bs mem (x + of_nat k) = mem (x + of_nat k)"
proof -
  have k: "unat (x + of_nat k) = unat x + k"
  proof -
    have "unat (of_nat k :: u32) = k" using assms by (intro unat_of_nat_u32) simp
    then show ?thesis using assms by (simp add: unat_word_ariths)
  qed
  have "\<not> unat (x + of_nat k - a) < length bs"
  proof (cases "unat a \<le> unat (x + of_nat k)")
    case True
    then have "unat (x + of_nat k - a) = unat (x + of_nat k) - unat a" by (simp add: unat_sub word_le_nat_alt)
    then show ?thesis using assms k True by linarith
  next
    case False
    then have "unat (x + of_nat k - a) = unat (x + of_nat k) + 4294967296 - unat a"
      by (simp add: unat_sub_if_size word_size word_le_nat_alt)
    then show ?thesis using assms k False by linarith
  qed
  then show ?thesis by (simp add: put_bytes_def)
qed

lemma entry_mem:
  assumes i: "i < length (mb_map m)" "length (mb_map m) \<le> MBI_MMAP_MAX" and k: "k < 24"
  shows "mb1_mem ia ea m mem (ea + (24 * of_nat i + of_nat k)) = entry_bytes (mb_map m ! i) ! k"
proof -
  let ?bs = "concat (map entry_bytes (mb_map m)) @ replicate (1152 - 24 * length (mb_map m)) 0"
  have l: "length ?bs = 1152" "24 * i + k < 24 * length (mb_map m)" using i k by (simp_all add: length_entries)
  have "mb1_mem ia ea m mem (ea + of_nat (24 * i + k)) = ?bs ! (24 * i + k)"
    unfolding mb1_mem_def using l i by (intro put_here) simp_all
  also have "\<dots> = entry_bytes (mb_map m ! i) ! k"
    using l(2) nth_concat_same [of entry_bytes 24 i "mb_map m" k] i k by (simp add: nth_append length_entries)
  finally show ?thesis by simp
qed

lemma entry_fields:
  assumes i: "i < length (mb_map m)" "length (mb_map m) \<le> MBI_MMAP_MAX" and e: "mb_map m ! i = (b, l, t)"
  shows "rd32 (mb1_mem ia ea m mem) (ea + 24 * of_nat i) = 20" "rd64 (mb1_mem ia ea m mem) (ea + 24 * of_nat i + 4) = b"
    "rd64 (mb1_mem ia ea m mem) (ea + 24 * of_nat i + 12) = l" "rd32 (mb1_mem ia ea m mem) (ea + 24 * of_nat i + 20) = t"
proof -
  have at: "mb1_mem ia ea m mem (ea + 24 * of_nat i + of_nat c + of_nat k) = (b32 20 @ b64 b @ b64 l @ b32 t) ! (c + k)"
    if "c + k < 24" for c k
    using entry_mem [OF i that] by (simp add: e entry_bytes_def algebra_simps)
  show "rd32 (mb1_mem ia ea m mem) (ea + 24 * of_nat i) = 20" using at [of 0] by (intro rd32_b32) (simp add: nth_append)
  show "rd64 (mb1_mem ia ea m mem) (ea + 24 * of_nat i + 4) = b" using at [of 4] by (intro rd64_b64) (simp add: nth_append)
  show "rd64 (mb1_mem ia ea m mem) (ea + 24 * of_nat i + 12) = l" using at [of 12] by (intro rd64_b64) (simp add: nth_append)
  show "rd32 (mb1_mem ia ea m mem) (ea + 24 * of_nat i + 20) = t" using at [of 20] by (intro rd32_b32) (simp add: nth_append)
qed

lemma loop_entries:
  assumes l: "length (mb_map m) \<le> MBI_MMAP_MAX"
  shows "i + k = length (mb_map m) \<Longrightarrow>
    mmap_loop (mb1_mem ia ea m mem) ea (of_nat (length (mb_map m)) * 24) (24 * of_nat i) s = Some (fold region_step (drop i (mb_map m)) s)"
proof (induction k arbitrary: i s)
  case 0
  then have "(24 * of_nat i :: u32) = of_nat (length (mb_map m)) * 24" by simp
  then show ?case using 0 by (simp only:) (subst mmap_loop.simps, simp)
next
  case (Suc k)
  let ?M = "mb1_mem ia ea m mem"
  have i: "i < length (mb_map m)" using Suc.prems by simp
  obtain b n t where e: "mb_map m ! i = (b, n, t)" by (metis prod_cases3)
  note F = entry_fields [OF i l e, of ia ea mem]
  have lt: "(24 * of_nat i :: u32) < of_nat (length (mb_map m)) * 24"
  proof -
    have "unat (of_nat (24 * i) :: u32) = 24 * i" "unat (of_nat (24 * length (mb_map m)) :: u32) = 24 * length (mb_map m)"
      using i l by (intro unat_of_nat_u32; simp)+
    then have "(of_nat (24 * i) :: u32) < of_nat (24 * length (mb_map m))" using i unfolding word_less_nat_alt by simp
    then show ?thesis by (simp add: mult.commute)
  qed
  have "mmap_entry_step ?M (ea + 24 * of_nat i) s = region_step (b, n, t) s"
    by (simp add: mmap_entry_step_def region_step_def F Let_def)
  moreover have "24 * of_nat i + (20 + 4) = (24 * of_nat (Suc i) :: u32)" by (simp add: algebra_simps)
  ultimately have "mmap_loop ?M ea (of_nat (length (mb_map m)) * 24) (24 * of_nat i) s
      = mmap_loop ?M ea (of_nat (length (mb_map m)) * 24) (24 * of_nat (Suc i)) (region_step (b, n, t) s)"
    using lt by (subst mmap_loop.simps) (simp only: F if_True)
  also have "\<dots> = Some (fold region_step (drop (Suc i) (mb_map m)) (region_step (b, n, t) s))"
    using Suc.prems by (intro Suc.IH) simp
  finally show ?case using i e by (simp add: Cons_nth_drop_Suc [symmetric])
qed

section \<open>What the walk keeps\<close>

definition mb_ok :: "mb2 \<Rightarrow> bool" where
  "mb_ok m \<longleftrightarrow> mmap_len m = of_nat (length (mb_map m)) * 24 \<and> (has_mmap m \<longleftrightarrow> mb_map m \<noteq> [])
     \<and> (case mb_fb m of None \<Rightarrow> True | Some b \<Rightarrow> length b = 22)"

lemma tag_ok: "mb_ok m \<Longrightarrow> mb2_tag mem data t sz m = Some m1 \<Longrightarrow> mb_ok m1"
  by (auto simp: mb2_tag_def tag_mmap_def tag_fb_def tag_rsdp_def mb_ok_def bytes_at_def Let_def split: if_splits)

lemma loop_ok:
  assumes "mb2_loop mem addr total_size off m = Some m1" "mb_ok m" shows "mb_ok m1"
proof -
  have "mb_ok m \<longrightarrow> mb_ok m1"
  proof (rule mb2_loop.raw_induct [where P = "\<lambda>mem addr total_size off m m1. mb_ok m \<longrightarrow> mb_ok m1", OF _ assms(1)])
    fix f mem addr total_size off m m1
    assume IH: "\<And>mem addr total_size off m m1. f mem addr total_size off m = Some m1 \<Longrightarrow> mb_ok m \<longrightarrow> mb_ok m1"
      and eq: "(if off + 8 \<le> total_size
         then let t = rd32 mem (addr + off); sz = rd32 mem (addr + off + 4)
              in if sz < 8 then Some m else if t = 0 then Some m
                 else case mb2_tag mem (addr + off + 8) t sz m of None \<Rightarrow> None
                   | Some m1 \<Rightarrow> let off1 = off + (sz + 7 AND NOT 7) in if off1 \<le> 8 then Some m1 else f mem addr total_size off1 m1
         else Some m) = Some m1"
    show "mb_ok m \<longrightarrow> mb_ok m1"
    proof (cases "mb2_tag mem (addr + off + 8) (rd32 mem (addr + off)) (rd32 mem (addr + off + 4)) m")
      case None
      then show ?thesis using eq by (auto simp: Let_def split: if_splits)
    next
      case (Some m2)
      then have "m1 = m \<or> m1 = m2 \<or> f mem addr total_size (off + (rd32 mem (addr + off + 4) + 7 AND NOT 7)) m2 = Some m1"
        using eq by (simp add: Let_def split: if_splits)
      then show ?thesis using IH tag_ok [OF _ Some] by blast
    qed
  qed
  then show ?thesis using assms(2) by blast
qed

lemma translate_ok: "mb2_translate mem addr rsdp len = Some (Some m) \<Longrightarrow> mb_ok m"
proof -
  assume "mb2_translate mem addr rsdp len = Some (Some m)"
  then have "mb2_loop mem addr (rd32 mem addr) 8 (mb2_start rsdp len) = Some m"
    by (auto simp: mb2_translate_def Let_def split: if_splits)
  moreover have "mb_ok (mb2_start rsdp len)" by (simp add: mb_ok_def mb2_start_def)
  ultimately show ?thesis by (rule loop_ok)
qed

section \<open>The information as the allocator reads it\<close>

lemma info_mem:
  assumes ok: "mb_ok m" and a: "apart ia ea" and l: "length (mb_map m) \<le> MBI_MMAP_MAX" and k: "k < 128"
  shows "mb1_mem ia ea m mem (ia + of_nat k) = mb1_info ea m ! k"
proof -
  have len: "length (mb1_info ea m) = 128" using ok by (simp add: mb1_info_def mb_ok_def split: option.splits)
  have "mb1_mem ia ea m mem (ia + of_nat k) = put_bytes ia (mb1_info ea m) mem (ia + of_nat k)"
    unfolding mb1_mem_def using a l k by (intro put_elsewhere [where n = 1152 and m = 128]) (auto simp: apart_def length_entries)
  also have "\<dots> = mb1_info ea m ! k" using len k by (intro put_here) simp_all
  finally show ?thesis .
qed

lemma info_fields:
  assumes "mb_ok m" "apart ia ea" "length (mb_map m) \<le> MBI_MMAP_MAX"
  shows "rd32 (mb1_mem ia ea m mem) ia = info_flags m" "rd32 (mb1_mem ia ea m mem) (ia + 8) = mem_upper m"
    "has_mmap m \<Longrightarrow> rd32 (mb1_mem ia ea m mem) (ia + 44) = mmap_len m"
    "has_mmap m \<Longrightarrow> rd32 (mb1_mem ia ea m mem) (ia + 48) = ea"
proof -
  have at: "mb1_mem ia ea m mem (ia + of_nat c + of_nat k) = mb1_info ea m ! (c + k)" if "c + k < 128" for c k
    using info_mem [OF assms that] by (simp add: add.assoc)
  show "rd32 (mb1_mem ia ea m mem) ia = info_flags m"
    using at [of 0] by (intro rd32_b32) (simp add: mb1_info_def nth_append)
  show "rd32 (mb1_mem ia ea m mem) (ia + 8) = mem_upper m"
    using at [of 8] by (intro rd32_b32) (simp add: mb1_info_def nth_append)
  assume h: "has_mmap m"
  show "rd32 (mb1_mem ia ea m mem) (ia + 44) = mmap_len m"
    using at [of 44] h by (intro rd32_b32) (simp add: mb1_info_def nth_append)
  show "rd32 (mb1_mem ia ea m mem) (ia + 48) = ea"
    using at [of 48] h by (intro rd32_b32) (simp add: mb1_info_def nth_append)
qed

lemma flags_mmap: "info_flags m AND push_bit 6 1 \<noteq> 0 \<longleftrightarrow> has_mmap m"
proof -
  have "info_flags m AND push_bit 6 1 = (if has_mmap m then 64 else 0)" by (simp add: info_flags_def)
  then show ?thesis by simp
qed

text \<open>What \<open>pmm_init\<close> does without a map: the memory above 1 MB by its size in KiB.\<close>

definition upper_region :: "u32 \<Rightarrow> pmm" where
  "upper_region kb = (if kb > 0 then
     let total = (kb + 1024) * 1024 in pmm_free_region 0x100000 ((if total > PMM_MAX_MEMORY then PMM_MAX_MEMORY else total) - 0x100000) pmm_blank
   else pmm_free_region 0x100000 (15 * 1024 * 1024) pmm_blank)"

lemma detect_translated:
  assumes "mb2_translate mem addr rsdp len = Some (Some m)" "apart ia ea" "length (mb_map m) \<le> MBI_MMAP_MAX"
  shows "pmm_detect (mb1_mem ia ea m mem) ia =
    Some (if mb_map m \<noteq> [] then fold region_step (mb_map m) pmm_blank else upper_region (mem_upper m))"
proof -
  have ok: "mb_ok m" using assms(1) by (rule translate_ok)
  note I = info_fields [OF ok assms(2,3), of mem]
  have ia: "ia \<noteq> 0" using assms(2) by (simp add: apart_def)
  show ?thesis
  proof (cases "has_mmap m")
    case True
    then have "mb_map m \<noteq> []" "mmap_len m = of_nat (length (mb_map m)) * 24" using ok by (auto simp: mb_ok_def)
    moreover have "mmap_loop (mb1_mem ia ea m mem) ea (of_nat (length (mb_map m)) * 24) 0 pmm_blank
        = Some (fold region_step (mb_map m) pmm_blank)"
      using loop_entries [OF assms(3), of 0 "length (mb_map m)"] by simp
    ultimately show ?thesis using True I flags_mmap [of m] ia by (simp add: pmm_detect_def)
  next
    case False
    then have "mb_map m = []" using ok by (auto simp: mb_ok_def)
    then show ?thesis using False I(1,2) flags_mmap [of m] ia by (simp add: pmm_detect_def upper_region_def Let_def)
  qed
qed

section \<open>The walk ends\<close>

text \<open>At every multiple of 8 a tag shorter than 2 GB, and maps have a nonzero entry size.\<close>

definition sane_tags :: "(u32 \<Rightarrow> u8) \<Rightarrow> u32 \<Rightarrow> bool" where
  "sane_tags mem addr \<longleftrightarrow> (\<forall>k < 8192. let a = addr + of_nat (8 * k) in rd32 mem (a + 4) < 0x80000000
     \<and> (rd32 mem a = 6 \<longrightarrow> rd32 mem (a + 8) \<noteq> 0))"

lemma loop_ends:
  assumes sane: "sane_tags mem addr" and total: "total_size \<le> 0x10000"
  shows "unat off < 3000000000 \<Longrightarrow> unat off mod 8 = 0 \<Longrightarrow> \<exists>m1. mb2_loop mem addr total_size off m = Some m1"
proof (induction "65536 - unat off" arbitrary: off m rule: less_induct)
  case less
  let ?t = "rd32 mem (addr + off)" and ?sz = "rd32 mem (addr + off + 4)"
  let ?o = "off + ((?sz + 7) AND NOT 7)"
  show ?case
  proof (cases "off + 8 \<le> total_size \<and> \<not> ?sz < 8 \<and> ?t \<noteq> 0")
    case False
    then show ?thesis by (subst mb2_loop.simps) (auto simp: Let_def)
  next
    case True
    have "unat (off + 8) = unat off + 8" using less.prems(1) by (simp add: unat_word_ariths)
    then have off: "unat off + 8 \<le> 65536" using True total by (simp add: word_le_nat_alt)
    have "of_nat (8 * (unat off div 8)) = off"
    proof -
      have "8 * (unat off div 8) = unat off" using less.prems(2) by auto
      then show ?thesis by simp
    qed
    moreover have "unat off div 8 < 8192" using off by simp
    ultimately have S: "?sz < 0x80000000" "?t = 6 \<longrightarrow> rd32 mem (addr + off + 8) \<noteq> 0"
      using sane unfolding sane_tags_def Let_def by metis+
    then have sz: "unat ?sz < 2147483648" "8 \<le> unat ?sz" using True by (simp_all add: word_less_nat_alt not_less)
    then have r: "unat ((?sz + 7) AND NOT 7) = 8 * ((unat ?sz + 7) div 8)" by (intro round8) simp
    have b: "8 \<le> 8 * ((unat ?sz + 7) div 8)" "8 * ((unat ?sz + 7) div 8) \<le> 2147483656" using sz by linarith+
    have o: "unat ?o = unat off + 8 * ((unat ?sz + 7) div 8)" using off r b by (simp add: unat_word_ariths)
    have "mb2_tag mem (addr + off + 8) ?t ?sz m \<noteq> None"
      using S(2) by (auto simp: mb2_tag_def tag_mmap_def Let_def)
    then obtain m1 where m1: "mb2_tag mem (addr + off + 8) ?t ?sz m = Some m1" by blast
    have "\<exists>m2. mb2_loop mem addr total_size ?o m1 = Some m2" using off b o less.prems(2) by (intro less.hyps) (linarith, linarith, simp)
    then show ?thesis using True m1 by (subst mb2_loop.simps) (auto simp: Let_def)
  qed
qed

lemma translate_ends: "sane_tags mem addr \<Longrightarrow> mb2_translate mem addr rsdp len \<noteq> None"
proof -
  assume s: "sane_tags mem addr"
  have "\<exists>m1. mb2_loop mem addr (rd32 mem addr) 8 (mb2_start rsdp len) = Some m1" if "\<not> rd32 mem addr > 0x10000"
    using loop_ends [OF s, of "rd32 mem addr" 8] that by (simp add: not_less)
  then show ?thesis by (auto simp: mb2_translate_def Let_def)
qed

text \<open>A tag size of \<open>2^32 - 1\<close> rounds up to nothing: after a first tag the walk stays where it is for ever.\<close>

lemma loop_stuck:
  assumes "off + 8 \<le> total_size" "rd32 mem (addr + off + 4) = 0xFFFFFFFF" "rd32 mem (addr + off) = 1" "off > 8"
  shows "mb2_loop mem addr total_size off m = None"
proof (rule ccontr)
  assume "mb2_loop mem addr total_size off m \<noteq> None"
  then obtain m1 where ret: "mb2_loop mem addr total_size off m = Some m1" by auto
  define hit where "hit = (\<lambda>mem addr total_size off. off + 8 \<le> total_size \<and> rd32 mem (addr + off + 4) = 0xFFFFFFFF
    \<and> rd32 mem (addr + off) = 1 \<and> off > (8 :: u32))"
  have "\<not> hit mem addr total_size off"
  proof (rule mb2_loop.raw_induct [where P = "\<lambda>mem addr total_size off m m1. \<not> hit mem addr total_size off", OF _ ret])
    fix f mem addr total_size off m m1
    assume IH: "\<And>mem addr total_size off m m1. f mem addr total_size off m = Some m1 \<Longrightarrow> \<not> hit mem addr total_size off"
      and eq: "(if off + 8 \<le> total_size
         then let t = rd32 mem (addr + off); sz = rd32 mem (addr + off + 4)
              in if sz < 8 then Some m else if t = 0 then Some m
                 else case mb2_tag mem (addr + off + 8) t sz m of None \<Rightarrow> None
                   | Some m1 \<Rightarrow> let off1 = off + (sz + 7 AND NOT 7) in if off1 \<le> 8 then Some m1 else f mem addr total_size off1 m1
         else Some m) = Some m1"
    show "\<not> hit mem addr total_size off"
    proof
      assume h: "hit mem addr total_size off"
      then have H: "off + 8 \<le> total_size" "rd32 mem (addr + off + 4) = 0xFFFFFFFF" "rd32 mem (addr + off) = 1" "\<not> off \<le> 8"
        by (auto simp: hit_def)
      have "mb2_tag mem (addr + off + 8) 1 0xFFFFFFFF m = Some m" by (simp add: mb2_tag_def tag_rsdp_def)
      moreover have "(0xFFFFFFFF + 7 AND NOT 7 :: u32) = 0" by simp
      moreover have w: "off + ((0xFFFFFFFF + 7) AND NOT 7) = off" by simp
      ultimately have "f mem addr total_size off m = Some m1" using eq H(1,4) unfolding Let_def H(2,3) w by simp
      then show False using IH h by blast
    qed
  qed
  then show False using assms by (simp add: hit_def)
qed

section \<open>A demonstration boot\<close>

definition demo_mb2 :: "u32 \<Rightarrow> u8" where
  "demo_mb2 a = (if a = 0x9000 then 56 else if a = 0x9008 then 6 else if a = 0x900C then 40 else if a = 0x9010 then 24
     else if a = 0x901A then 0x10 else if a = 0x9022 then 0x40 else if a = 0x9028 then 1 else 0)"

lemma rd32_bytes: "rd32 mem a = ucast (mem a) OR push_bit 8 (ucast (mem (a + 1))) OR push_bit 16 (ucast (mem (a + 2)))
   OR push_bit 24 (ucast (mem (a + 3)))"
  by (simp add: rd32_def rd8_def)

lemma demo_sane: "sane_tags demo_mb2 0x9000"
proof -
  have "rd32 demo_mb2 a < 0x80000000" for a
  proof -
    have "\<not> bit (demo_mb2 x) 7" for x by (simp add: demo_mb2_def bit_numeral_word_iff)
    then have b: "\<not> bit (rd32 demo_mb2 a) 31"
      by (auto simp: rd32_bytes bit_simps dest: bit_imp_possible_bit)
    have "rd32 demo_mb2 a = take_bit 31 (rd32 demo_mb2 a)"
    proof (rule bit_word_eqI)
      fix n assume "n < LENGTH(32)"
      then show "bit (rd32 demo_mb2 a) n = bit (take_bit 31 (rd32 demo_mb2 a)) n" using b by (cases "n = 31") (auto simp: bit_take_bit_iff)
    qed
    moreover have "unat (take_bit 31 (rd32 demo_mb2 a)) < 2147483648"
      using take_bit_nat_less_exp [of 31 "unat (rd32 demo_mb2 a)"] by (simp add: unsigned_take_bit_eq)
    ultimately show ?thesis by (simp add: word_less_nat_alt)
  qed
  moreover have "rd32 demo_mb2 (a + 8) \<noteq> 0" if "rd32 demo_mb2 a = 6" for a
  proof -
    have "demo_mb2 a = ucast (rd32 demo_mb2 a)"
      by (rule bit_word_eqI) (auto simp: rd32_bytes bit_simps)
    then have "a = 0x9008" using that by (simp add: demo_mb2_def split: if_splits)
    then show ?thesis by (simp add: rd32_bytes demo_mb2_def)
  qed
  ultimately show ?thesis by (simp add: sane_tags_def Let_def)
qed

lemma demo_translate: "\<exists>m. mb2_translate demo_mb2 0x9000 rsdp len = Some (Some m) \<and> mb_map m = [(0x100000, 0x400000, 1)]"
proof -
  have r: "rd32 demo_mb2 0x9000 = 56" "rd32 demo_mb2 0x9008 = 6" "rd32 demo_mb2 0x900C = 40" "rd32 demo_mb2 0x9010 = 24"
    "rd32 demo_mb2 0x9030 = 0" "rd32 demo_mb2 0x9034 = 0" "rd64 demo_mb2 0x9018 = 0x100000" "rd64 demo_mb2 0x9020 = 0x400000" "rd32 demo_mb2 0x9028 = 1"
    by (simp_all add: rd64_def rd32_bytes demo_mb2_def)
  have t: "\<exists>m1. mb2_tag demo_mb2 0x9010 6 40 (mb2_start rsdp len) = Some m1 \<and> mb_map m1 = [(0x100000, 0x400000, 1)]"
    by (simp add: mb2_tag_def tag_mmap_def Let_def r mb2_start_def entry_at_def)
  then obtain m1 where m1: "mb2_tag demo_mb2 0x9010 6 40 (mb2_start rsdp len) = Some m1" "mb_map m1 = [(0x100000, 0x400000, 1)]" by blast
  have "mb2_loop demo_mb2 0x9000 56 48 m1 = Some m1" by (subst mb2_loop.simps) (simp add: r Let_def)
  then have "mb2_loop demo_mb2 0x9000 56 8 (mb2_start rsdp len) = Some m1"
    by (subst mb2_loop.simps) (simp add: r m1 Let_def)
  then show ?thesis using m1(2) by (simp add: mb2_translate_def r)
qed

section \<open>Property\<close>


end
