(* ===== verification/Exec.thy ===== *)
theory Exec
  imports Uaccess
begin

text \<open>
  \<open>process/exec.c\<close>: the new image of a task.  The arguments are split before anything is touched; then the old areas and
  regions are given back, the file is loaded (ELF or flat), the stack gets fresh frames and the argument block is
  written through the task's own page tables.  \<open>None\<close> is a fault in the kernel, as in \<open>Vm\<close>.  Strings are the bytes
  before the NUL.  Whether the two calls of \<open>kmalloc\<close> succeed are parameters, and so is what lies in the heap behind
  the file's bytes, which the loader reads when a header points there.
\<close>

abbreviation USER_CODE_BASE :: u32 where "USER_CODE_BASE \<equiv> 0x1000000"
abbreviation USER_STACK_BASE :: u32 where "USER_STACK_BASE \<equiv> 0x1400000"
abbreviation USER_STACK_SIZE :: u32 where "USER_STACK_SIZE \<equiv> 0x4000"
abbreviation TASK_NAME_LEN :: nat where "TASK_NAME_LEN \<equiv> 32"
abbreviation SPACE :: char where "SPACE \<equiv> CHR '' ''"

section \<open>Arguments\<close>

definition round4 :: "u32 \<Rightarrow> u32" where
  "round4 x = (x + 3) AND NOT 3"

text \<open>At most \<open>n\<close> words of the argument string, and what is left of it.\<close>

fun tokens :: "nat \<Rightarrow> string \<Rightarrow> string list \<times> string" where
  "tokens 0 p = ([], p)"
| "tokens (Suc n) p =
     (if p = [] then ([], [])
      else let q = dropWhile (\<lambda>c. c = SPACE) p in
        if q = [] then ([], [])
        else let (ts, r) = tokens n (dropWhile (\<lambda>c. c \<noteq> SPACE) q) in (takeWhile (\<lambda>c. c \<noteq> SPACE) q # ts, r))"

text \<open>The bytes of the strings, each padded to a multiple of 4.\<close>

definition strneed :: "string list \<Rightarrow> u32" where
  "strneed ss = foldl (\<lambda>n s. n + round4 (of_nat (length s) + 1)) 0 ss"

definition argv_need :: "string list \<Rightarrow> u32" where
  "argv_need ss = 4 + (of_nat (length ss) + 1) * 4 + strneed ss"

text \<open>The words besides the path; \<open>None\<close>: refused, for too many words, too many bytes or a word of 64 bytes.\<close>

definition exec_args :: "string \<Rightarrow> string option \<Rightarrow> string list option" where
  "exec_args path args =
     (let (ts, rest) = (case args of None \<Rightarrow> ([], []) | Some a \<Rightarrow> tokens 15 a) in
      if dropWhile (\<lambda>c. c = SPACE) rest \<noteq> [] then None
      else if argv_need (path # ts) > 480 then None
      else if \<exists>t \<in> set ts. length t = 0 \<or> length t \<ge> 64 then None
      else Some ts)"

definition argv_base :: "string list \<Rightarrow> u32" where
  "argv_base ss = USER_STACK_BASE + USER_STACK_SIZE - ((argv_need ss + 15) AND NOT 15)"

definition c_string :: "string \<Rightarrow> u8 list" where
  "c_string s = map of_char s @ [0]"

fun put_args :: "u32 \<Rightarrow> u32 \<Rightarrow> string list \<Rightarrow> vm \<Rightarrow> vm option" where
  "put_args slot sp [] v = wr slot 0 v"
| "put_args slot sp (s # ss) v =
     do { v1 \<leftarrow> store_bytes sp (c_string s) v;
          v2 \<leftarrow> wr slot sp v1;
          put_args (slot + 4) (sp + round4 (of_nat (length s) + 1)) ss v2 }"

text \<open>\<open>[argc][argv 0 ..][NULL][strings]\<close>.\<close>

definition write_argv :: "string list \<Rightarrow> vm \<Rightarrow> vm option" where
  "write_argv ss v =
     (let base = argv_base ss; argc = of_nat (length ss) in
      do { v1 \<leftarrow> wr base argc v; put_args (base + 4) (base + 4 + (argc + 1) * 4) ss v1 })"

section \<open>The old image\<close>

definition drop_page :: "u32 \<Rightarrow> u32 \<Rightarrow> vm \<Rightarrow> vm option" where
  "drop_page c va v =
     do { phys \<leftarrow> paging_get_phys va v;
          paging_unmap_in_space c va (if phys \<noteq> 0 then on_pmm (pmm_free_frame (page_down phys)) v else v) }"

definition drop_image :: "task \<Rightarrow> vm \<Rightarrow> vm option" where
  "drop_image t v =
     do { v1 \<leftarrow> each (drop_page (cr3 t))
            (concat (map (\<lambda>w. pages_between (vm_start w) (vm_end w)) (filter (\<lambda>w. vm_start w \<noteq> USER_STACK_BASE) (vmas t)))) v;
          each (drop_page (cr3 t))
            (concat (map (\<lambda>(b, n). map (\<lambda>i. b + of_nat i * 0x1000) [0..<unat n]) (filter (\<lambda>(b, n). b \<noteq> USER_STACK_BASE) (user_regions t)))) v1 }"

text \<open>Only the stack's area stays, or a new one is made; \<open>node\<close>: whether \<open>kmalloc\<close> has room for it.  Its file offset, which the
  code leaves unset and no anonymous area uses, is 0.\<close>

definition keep_stack :: "bool \<Rightarrow> task \<Rightarrow> task" where
  "keep_stack node t = t\<lparr>
     vmas := (case find (\<lambda>w. vm_start w = USER_STACK_BASE) (vmas t) of
        Some w \<Rightarrow> [w]
      | None \<Rightarrow> if node then [\<lparr>vm_start = USER_STACK_BASE, vm_end = USER_STACK_BASE + USER_STACK_SIZE,
                  vm_prot = PROT_READ OR PROT_WRITE, vm_flags = 0x22, vm_fd = -1, vm_file_offset = 0\<rparr>] else []),
     user_regions := filter (\<lambda>(b, n). b = USER_STACK_BASE) (user_regions t)\<rparr>"

section \<open>Loading\<close>

definition fb16 :: "(u32 \<Rightarrow> u8) \<Rightarrow> u32 \<Rightarrow> u32" where
  "fb16 b i = ucast (b i) OR push_bit 8 (ucast (b (i + 1)))"

text \<open>Byte \<open>j\<close> of page \<open>p\<close> of a segment: the page is zeroed and a part of the file copied into it.\<close>

definition seg_byte :: "(u32 \<Rightarrow> u8) \<Rightarrow> u32 \<Rightarrow> u32 \<Rightarrow> u32 \<Rightarrow> nat \<Rightarrow> nat \<Rightarrow> u8" where
  "seg_byte b vaddr offset filesz p j =
     (let src = offset + of_nat p * 0x1000; fend = offset + filesz;
          d = (if p = 0 then vaddr AND 0xFFF else 0);
          chunk = (if src + (0x1000 - d) > fend then fend - src else 0x1000 - d) in
      if src < fend \<and> unat d \<le> j \<and> j < unat d + unat chunk then b (src + of_nat (j - unat d)) else 0)"

definition flat_byte :: "(u32 \<Rightarrow> u8) \<Rightarrow> int \<Rightarrow> nat \<Rightarrow> nat \<Rightarrow> u8" where
  "flat_byte b sz p j =
     (let len = max 0 (min (sz - int p * 0x1000) 0x1000) in if int j < len then b (of_nat (p * 0x1000 + j)) else 0)"

text \<open>The page loops; \<open>False\<close>: a frame was missing.\<close>

fun load_pages :: "(nat \<Rightarrow> nat \<Rightarrow> u8) \<Rightarrow> u32 \<Rightarrow> u32 \<Rightarrow> nat list \<Rightarrow> vm \<Rightarrow> (bool \<times> vm) option" where
  "load_pages g c va [] v = Some (True, v)"
| "load_pages g c va (p # ps) v =
     (case alloc v of (f, v1) \<Rightarrow>
        if f = 0 then Some (False, v1)
        else do { v2 \<leftarrow> paging_map_in_space c (va + of_nat p * 0x1000) f (PAGE_USER OR PAGE_RW) v1;
                  v3 \<leftarrow> fresh_page f (le_page (g p)) v2;
                  load_pages g c va ps v3 })"

definition load_seg :: "(u32 \<Rightarrow> u8) \<Rightarrow> u32 \<Rightarrow> task \<Rightarrow> vm \<Rightarrow> (bool \<times> task \<times> vm) option" where
  "load_seg b ph t v =
     (if rd32 b ph \<noteq> 1 then Some (True, t, v)
      else let offset = rd32 b (ph + 4); vaddr = rd32 b (ph + 8); filesz = rd32 b (ph + 16); memsz = rd32 b (ph + 20);
               pages = (memsz + 0xFFF) div 0x1000; va = vaddr AND NOT 0xFFF in
        do { (ok, v1) \<leftarrow> load_pages (seg_byte b vaddr offset filesz) (cr3 t) va [0..<unat pages] v;
             Some (ok, if ok then task_add_region va pages t else t, v1) })"

fun load_segs :: "(u32 \<Rightarrow> u8) \<Rightarrow> u32 list \<Rightarrow> task \<Rightarrow> vm \<Rightarrow> (bool \<times> task \<times> vm) option" where
  "load_segs b [] t v = Some (True, t, v)"
| "load_segs b (ph # phs) t v =
     do { (ok, t1, v1) \<leftarrow> load_seg b ph t v; if ok then load_segs b phs t1 v1 else Some (False, t1, v1) }"

definition is_elf :: "(u32 \<Rightarrow> u8) \<Rightarrow> int \<Rightarrow> bool" where
  "is_elf b sz \<longleftrightarrow> sz \<ge> 52 \<and> b 0 = 0x7F \<and> b 1 = 0x45 \<and> b 2 = 0x4C \<and> b 3 = 0x46 \<and> b 4 = 1"

text \<open>The entry point, or \<open>None\<close> for the return with -1.\<close>

definition load_image :: "(u32 \<Rightarrow> u8) \<Rightarrow> int \<Rightarrow> task \<Rightarrow> vm \<Rightarrow> (u32 option \<times> task \<times> vm) option" where
  "load_image b sz t v =
     (if is_elf b sz then
        (if fb16 b 16 \<noteq> 2 \<or> fb16 b 44 = 0 then Some (None, t, v)
         else do { (ok, t1, v1) \<leftarrow> load_segs b (map (\<lambda>i. rd32 b 28 + of_nat i * fb16 b 42) [0..<unat (fb16 b 44)]) t v;
                   Some (if ok then Some (rd32 b 24) else None, t1, v1) })
      else let pages = (if (sz + 0xFFF) div 0x1000 = 0 then 1 else (sz + 0xFFF) div 0x1000) in
        do { (ok, v1) \<leftarrow> load_pages (flat_byte b sz) (cr3 t) USER_CODE_BASE [0..<nat pages] v;
             Some (if ok then (Some USER_CODE_BASE, task_add_region USER_CODE_BASE (of_int pages) t, v1) else (None, t, v1)) })"

text \<open>Fresh frames for the four pages of the stack.\<close>

fun new_stack :: "u32 \<Rightarrow> u32 list \<Rightarrow> vm \<Rightarrow> (bool \<times> vm) option" where
  "new_stack c [] v = Some (True, v)"
| "new_stack c (va # vas) v =
     do { phys \<leftarrow> paging_get_phys va v;
          (case alloc v of (f, v1) \<Rightarrow>
             if f = 0 then Some (False, v1)
             else let v2 = (if phys \<noteq> 0 then on_pmm (pmm_free_frame (page_down phys)) v1 else v1) in
               do { v3 \<leftarrow> paging_map_in_space c va f (PAGE_USER OR PAGE_RW) v2;
                    v4 \<leftarrow> fresh_page f zero_page v3;
                    new_stack c vas v4 }) }"

section \<open>The whole call\<close>

definition exec_name :: "string \<Rightarrow> string \<Rightarrow> string" where
  "exec_name path old = (let bn = rev (takeWhile (\<lambda>c. c \<noteq> CHR ''/'') (rev path)) in
     if 0 < length bn \<and> length bn < TASK_NAME_LEN then bn else old)"

text \<open>The last part of the call, from the new stack on; the selectors 0x1B and 0x23 and the saved registers of the system
  call get the same values as the fields of the task.\<close>

definition start_program :: "string \<Rightarrow> string list \<Rightarrow> u32 \<Rightarrow> task \<Rightarrow> vm \<Rightarrow> (int \<times> task option \<times> vm) option" where
  "start_program path ts entry t v =
     do { (ok, v1) \<leftarrow> new_stack (cr3 t) (map (\<lambda>i. USER_STACK_BASE + of_nat i * 0x1000) [0..<4]) v;
          if \<not> ok then Some (-1, Some t, v1)
          else do { v2 \<leftarrow> write_argv (path # ts) v1;
            let t1 = (if \<exists>(b, k) \<in> set (user_regions t). b = USER_STACK_BASE then t else task_add_region USER_STACK_BASE 4 t) in
            Some (0, Some (t1\<lparr>user_eip := entry, user_esp := argv_base (path # ts), user_eflags := 0x202,
                                tname := exec_name path (tname t1)\<rparr>), v2) } }"

definition file_buf :: "u8 list \<Rightarrow> (u32 \<Rightarrow> u8) \<Rightarrow> u32 \<Rightarrow> u8" where
  "file_buf bs past i = (if unat i < length bs then bs ! unat i else past i)"

definition exec_flat :: "string \<Rightarrow> string option \<Rightarrow> bool \<Rightarrow> bool \<Rightarrow> (u32 \<Rightarrow> u8) \<Rightarrow> fsys \<Rightarrow> task option \<Rightarrow> vm
    \<Rightarrow> (int \<times> task option \<times> vm) option" where
  "exec_flat path args node room past fs cur v =
     (let sz = chfs_get_size path fs in
      if sz < 0 \<or> sz > int CHFS_DATABLOCKS * 512 then Some (-1, cur, v)
      else case exec_args path args of None \<Rightarrow> Some (-1, cur, v)
      | Some ts \<Rightarrow>
      case cur of None \<Rightarrow> Some (-1, cur, v)
      | Some t \<Rightarrow>
      if cr3 t = 0 then Some (-1, cur, v)
      else do { v1 \<leftarrow> drop_image t v;
        let t1 = keep_stack node t; (n, bs) = chfs_read_file path sz fs in
        if \<not> room \<or> n < 0 then Some (-1, Some t1, v1)
        else do { (entry, t2, v2) \<leftarrow> load_image (file_buf bs past) sz t1 v1;
          case entry of None \<Rightarrow> Some (-1, Some t2, v2)
          | Some e \<Rightarrow> start_program path ts e t2 v2 } })"

end
