(* ===== verification/Exec_Args.thy ===== *)
theory Exec_Args
  imports Exec
begin

text \<open>
  The argument block of \<open>exec_flat\<close>: the words it consists of, and that the new program finds them on its stack.
\<close>

section \<open>Splitting\<close>

text \<open>The words of a string: its parts between spaces, empty ones left out.\<close>

fun split_space :: "string \<Rightarrow> string list" where
  "split_space [] = [[]]"
| "split_space (c # cs) = (if c = SPACE then [] # split_space cs else (c # hd (split_space cs)) # tl (split_space cs))"

definition wordlist :: "string \<Rightarrow> string list" where
  "wordlist a = filter (\<lambda>w. w \<noteq> []) (split_space a)"

lemma split_not_Nil [simp]: "split_space a \<noteq> []"
  by (cases a) auto

lemma wordlist_space: "wordlist (SPACE # a) = wordlist a"
  by (simp add: wordlist_def)

lemma wordlist_skip: "wordlist (dropWhile (\<lambda>c. c = SPACE) a) = wordlist a"
  by (induction a) (auto simp: wordlist_space)

lemma split_word: "split_space a = takeWhile (\<lambda>c. c \<noteq> SPACE) a # tl (split_space a)"
proof -
  have "hd (split_space a) = takeWhile (\<lambda>c. c \<noteq> SPACE) a" by (induction a) auto
  then show ?thesis using list.collapse [OF split_not_Nil, of a] by simp
qed

lemma split_rest: "filter (\<lambda>w. w \<noteq> []) (tl (split_space a)) = wordlist (dropWhile (\<lambda>c. c \<noteq> SPACE) a)"
proof (induction a)
  case (Cons c a)
  then show ?case by (cases "c = SPACE") (simp_all add: wordlist_def)
qed (simp add: wordlist_def)

lemma wordlist_word:
  assumes "a \<noteq> []" "hd a \<noteq> SPACE"
  shows "wordlist a = takeWhile (\<lambda>c. c \<noteq> SPACE) a # wordlist (dropWhile (\<lambda>c. c \<noteq> SPACE) a)"
proof -
  have "takeWhile (\<lambda>c. c \<noteq> SPACE) a \<noteq> []" using assms by (cases a) auto
  then show ?thesis unfolding split_rest [symmetric] by (subst wordlist_def, subst split_word) simp
qed

lemma wordlist_Nil: "wordlist a = [] \<longleftrightarrow> dropWhile (\<lambda>c. c = SPACE) a = []"
proof
  assume w: "wordlist a = []"
  show "dropWhile (\<lambda>c. c = SPACE) a = []"
  proof (rule ccontr)
    assume d: "dropWhile (\<lambda>c. c = SPACE) a \<noteq> []"
    then show False using wordlist_word [OF d hd_dropWhile [OF d]] w by (simp add: wordlist_skip)
  qed
next
  assume "dropWhile (\<lambda>c. c = SPACE) a = []"
  then have "wordlist a = wordlist []" using wordlist_skip [of a] by (simp only:)
  then show "wordlist a = []" by (simp add: wordlist_def)
qed

lemma tokens_words: "fst (tokens n a) = take n (wordlist a)" "dropWhile (\<lambda>c. c = SPACE) (snd (tokens n a)) = [] \<longleftrightarrow> length (wordlist a) \<le> n"
proof -
  have "fst (tokens n a) = take n (wordlist a) \<and> wordlist (snd (tokens n a)) = drop n (wordlist a)"
  proof (induction n arbitrary: a)
    case (Suc n)
    let ?q = "dropWhile (\<lambda>c. c = SPACE) a"
    show ?case
    proof (cases "?q = []")
      case True
      then show ?thesis using wordlist_Nil [of a] by (auto simp: wordlist_def)
    next
      case False
      then have "wordlist a = takeWhile (\<lambda>c. c \<noteq> SPACE) ?q # wordlist (dropWhile (\<lambda>c. c \<noteq> SPACE) ?q)"
        using wordlist_word [OF False hd_dropWhile [OF False]] by (simp add: wordlist_skip)
      moreover have "a \<noteq> []" using False by auto
      ultimately show ?thesis using False Suc.IH [of "dropWhile (\<lambda>c. c \<noteq> SPACE) ?q"]
        by (cases "tokens n (dropWhile (\<lambda>c. c \<noteq> SPACE) ?q)") (simp add: Let_def)
    qed
  qed simp
  then show "fst (tokens n a) = take n (wordlist a)" "dropWhile (\<lambda>c. c = SPACE) (snd (tokens n a)) = [] \<longleftrightarrow> length (wordlist a) \<le> n"
    using wordlist_Nil [of "snd (tokens n a)"] by auto
qed

lemma exec_args_words:
  "exec_args path (Some a) = Some ts \<longleftrightarrow> ts = wordlist a \<and> length ts \<le> 15 \<and> (\<forall>t \<in> set ts. length t < 64) \<and> argv_need (path # ts) \<le> 480"
proof (cases "length (wordlist a) \<le> 15")
  case True
  have ne: "t \<noteq> []" if "t \<in> set (wordlist a)" for t using that by (simp add: wordlist_def)
  obtain r where r: "tokens 15 a = (wordlist a, r)" "dropWhile (\<lambda>c. c = SPACE) r = []"
    using tokens_words [of 15 a] True by (cases "tokens 15 a") simp
  have "(\<exists>t \<in> set (wordlist a). length t = 0 \<or> length t \<ge> 64) \<longleftrightarrow> \<not> (\<forall>t \<in> set (wordlist a). length t < 64)"
    using ne by (auto simp: not_less)
  then have "exec_args path (Some a) = (if argv_need (path # wordlist a) > 480 then None
      else if \<not> (\<forall>t \<in> set (wordlist a). length t < 64) then None else Some (wordlist a))"
    using r by (simp add: exec_args_def)
  then show ?thesis using True by (auto simp: not_less)
next
  case False
  obtain ts' r where r: "tokens 15 a = (ts', r)" by fastforce
  then have "exec_args path (Some a) = None" using False tokens_words(2) [of 15 a] by (simp add: exec_args_def)
  then show ?thesis using False by auto
qed

section \<open>Bytes of one page\<close>

text \<open>Address \<open>x\<close> of page \<open>P\<close>, and byte \<open>x\<close> of a frame.\<close>

definition at :: "nat \<Rightarrow> nat \<Rightarrow> u32" where
  "at P x = of_nat (4096 * P + x)"

definition pby :: "page \<Rightarrow> nat \<Rightarrow> u8" where
  "pby pg x = ucast (drop_bit (8 * (x mod 4)) (pg (x div 4)))"

text \<open>Page \<open>P\<close> is mapped on frame \<open>f\<close>, which holds neither the directory nor the table on the way.\<close>

definition solid :: "vm \<Rightarrow> nat \<Rightarrow> nat \<Rightarrow> bool" where
  "solid v P f \<longleftrightarrow> P < 1048576 \<and> cur_dir v \<noteq> f \<and> present (frames v (cur_dir v) (P div 1024)) \<and>
     (let T = fno (frames v (cur_dir v) (P div 1024)) in T \<noteq> f \<and> present (frames v T (P mod 1024)) \<and> fno (frames v T (P mod 1024)) = f)"

lemma at_facts:
  assumes "P < 1048576" "x < 4096"
  shows "fno (at P x) = P" "word_idx (at P x) = x div 4" "byte_pos (at P x) = 8 * (x mod 4)"
proof -
  have u: "unat (at P x) = 4096 * P + x" using assms unfolding at_def by (intro unat_of_nat_u32) simp
  show "fno (at P x) = P" using assms by (simp add: fno_nat u)
  have "(4096 * P + x) div 4 = 1024 * P + x div 4" by simp
  then show "word_idx (at P x) = x div 4" using assms by (simp add: word_idx_nat u)
  have "(3 :: u32) = mask 2" by (simp add: mask_eq_exp_minus_1)
  then have "at P x AND 3 = take_bit 2 (at P x)" by (simp only: take_bit_eq_mask)
  then have "unat (at P x AND 3) = (4096 * P + x) mod 4" by (simp add: unsigned_take_bit_eq u take_bit_eq_mod unat_mod)
  also have "\<dots> = x mod 4" using mod_mult_self3 [of "1024 * P" 4 x] by (simp add: mult.commute)
  finally show "byte_pos (at P x) = 8 * (x mod 4)" by (simp add: byte_pos_def)
qed

lemma at_plus: "at P x + of_nat k = at P (x + k)"
  by (simp add: at_def add.assoc)

lemma set_frame_twice [simp]: "set_frame f p (set_frame f q v) = set_frame f p v" "frames (set_frame f p v) f = p"
  by (simp_all add: set_frame_def)

lemma solid_mmu: "solid v P f \<Longrightarrow> x < 4096 \<Longrightarrow> mmu v (at P x) = Some f"
  using at_facts(1) [of P x] by (simp add: solid_def mmu_def idx_fno Let_def)

lemma solid_set [simp]: "solid v P f \<Longrightarrow> solid (set_frame f p v) P f"
  by (simp add: solid_def set_frame_def Let_def)

lemma rd_at: "solid v P f \<Longrightarrow> x < 4096 \<Longrightarrow> rd (at P x) v = Some (frames v f (x div 4))"
  using solid_mmu [of v P f x] at_facts [of P x] by (simp add: rd_def solid_def)

lemma wr_at: "solid v P f \<Longrightarrow> x < 4096 \<Longrightarrow> wr (at P x) w v = Some (set_frame f ((frames v f)(x div 4 := w)) v)"
  using solid_mmu [of v P f x] at_facts [of P x] by (simp add: wr_def solid_def set_word_def set_frame_def)

lemma get_at: "solid v P f \<Longrightarrow> x < 4096 \<Longrightarrow> get_byte (at P x) v = Some (pby (frames v f) x)"
proof -
  assume s: "solid v P f" and x: "x < 4096"
  have "byte_pos (at P x) = 8 * (x mod 4)" using s x by (intro at_facts) (auto simp: solid_def)
  then show ?thesis by (simp add: get_byte_def rd_at [OF s x] pby_def)
qed

definition put_b :: "nat \<Rightarrow> u8 \<Rightarrow> page \<Rightarrow> page" where
  "put_b x b pg = pg(x div 4 := (pg (x div 4) AND NOT (push_bit (8 * (x mod 4)) 0xFF)) OR push_bit (8 * (x mod 4)) (ucast b))"

lemma put_at: "solid v P f \<Longrightarrow> x < 4096 \<Longrightarrow> put_byte (at P x) b v = Some (set_frame f (put_b x b (frames v f)) v)"
proof -
  assume s: "solid v P f" and x: "x < 4096"
  have "byte_pos (at P x) = 8 * (x mod 4)" using s x by (intro at_facts) (auto simp: solid_def)
  then show ?thesis by (simp add: put_byte_def rd_at [OF s x] wr_at [OF s x] put_b_def)
qed

lemma byte_of_put:
  assumes "j < 4" "k < 4"
  shows "(ucast (drop_bit (8 * k) ((w AND NOT (push_bit (8 * j) 0xFF)) OR push_bit (8 * j) (ucast b)) :: u32) :: u8)
    = (if k = j then b else ucast (drop_bit (8 * k) w))"
proof (rule bit_word_eqI)
  fix n assume "n < LENGTH(8)"
  then have n: "n < 8" by simp
  have lt: "8 * k + n < 32" using assms(2) n by simp
  have in_j: "8 * j \<le> 8 * k + n \<and> 8 * k + n - 8 * j < 8 \<longleftrightarrow> k = j" using n by auto
  have m: "bit (push_bit (8 * j) 0xFF :: u32) (8 * k + n) \<longleftrightarrow> k = j"
    unfolding bit_push_bit_iff bit_255 in_j [symmetric] using lt by (auto simp: possible_bit_word)
  have v: "bit (push_bit (8 * j) (ucast b) :: u32) (8 * k + n) \<longleftrightarrow> k = j \<and> bit b n"
  proof (cases "k = j")
    case True
    then show ?thesis using lt n by (simp add: bit_push_bit_iff possible_bit_word bit_ucast_iff)
  next
    case False
    have "\<not> bit b (8 * k + n - 8 * j)" if "8 * j \<le> 8 * k + n"
      using in_j False that by (auto dest: bit_imp_possible_bit)
    then show ?thesis using False by (auto simp: bit_push_bit_iff bit_ucast_iff)
  qed
  show "bit (ucast (drop_bit (8 * k) ((w AND NOT (push_bit (8 * j) 0xFF)) OR push_bit (8 * j) (ucast b)) :: u32) :: u8) n
      = bit (if k = j then b else ucast (drop_bit (8 * k) w)) n"
    using lt n by (simp add: bit_ucast_iff bit_drop_bit_eq bit_or_iff bit_and_iff bit_not_iff m v possible_bit_word)
qed

lemma pby_put: "pby (put_b x b pg) y = (if y = x then b else pby pg y)"
proof (cases "y div 4 = x div 4")
  case True
  have e: "y = x \<longleftrightarrow> y mod 4 = x mod 4" using True by (metis div_mult_mod_eq)
  show ?thesis using byte_of_put [of "x mod 4" "y mod 4" "pg (x div 4)" b] True e by (simp add: pby_def put_b_def)
next
  case False
  then show ?thesis by (auto simp: pby_def put_b_def)
qed

lemma pby_word: "(\<And>k. k < 4 \<Longrightarrow> pby p (4 * i + k) = pby q (4 * i + k)) \<Longrightarrow> p i = q i"
proof -
  assume a: "\<And>k. k < 4 \<Longrightarrow> pby p (4 * i + k) = pby q (4 * i + k)"
  have "(ucast (drop_bit (8 * k) (p i)) :: u8) = ucast (drop_bit (8 * k) (q i))" if "k < 4" for k
    using a [OF that] that by (simp add: pby_def)
  from this [of 0] this [of 1] this [of 2] this [of 3]
  have e: "(ucast (p i) :: u8) = ucast (q i)" "(ucast (drop_bit 8 (p i)) :: u8) = ucast (drop_bit 8 (q i))"
    "(ucast (drop_bit 16 (p i)) :: u8) = ucast (drop_bit 16 (q i))" "(ucast (drop_bit 24 (p i)) :: u8) = ucast (drop_bit 24 (q i))"
    by simp_all
  show ?thesis using le32_word [of "p i"] unfolding e le32_word [of "q i"] by (rule sym)
qed

lemma store_at:
  "solid v P f \<Longrightarrow> x + length bs \<le> 4096 \<Longrightarrow> \<exists>pg. store_bytes (at P x) bs v = Some (set_frame f pg v)
     \<and> (\<forall>y. pby pg y = (if x \<le> y \<and> y < x + length bs then bs ! (y - x) else pby (frames v f) y))"
proof (induction bs arbitrary: x v)
  case Nil
  have "v = set_frame f (frames v f) v" by (simp add: set_frame_def)
  then show ?case by (intro exI [of _ "frames v f"]) auto
next
  case (Cons b bs)
  let ?v = "set_frame f (put_b x b (frames v f)) v"
  have a: "at P x + 1 = at P (x + 1)" using at_plus [of P x 1] by simp
  have b: "put_byte (at P x) b v = Some ?v" using Cons.prems by (intro put_at) simp_all
  obtain pg where pg: "store_bytes (at P (x + 1)) bs ?v = Some (set_frame f pg ?v)"
    "\<And>y. pby pg y = (if x + 1 \<le> y \<and> y < x + 1 + length bs then bs ! (y - (x + 1)) else pby (frames ?v f) y)"
    using Cons.IH [of ?v "x + 1"] Cons.prems by auto
  have "pby pg y = (if x \<le> y \<and> y < x + length (b # bs) then (b # bs) ! (y - x) else pby (frames v f) y)" for y
    using pg(2) [of y] by (auto simp: pby_put nth_Cons')
  moreover have "store_bytes (at P x) (b # bs) v = Some (set_frame f pg v)" using a b pg(1) by simp
  ultimately show ?case by blast
qed

section \<open>The block\<close>

text \<open>The offset of the \<open>i\<close>-th string behind the first.\<close>

definition str_off :: "string list \<Rightarrow> nat" where
  "str_off ss = (\<Sum>s \<leftarrow> ss. 4 * ((length s + 4) div 4))"

lemma str_off_simps [simp]: "str_off [] = 0" "str_off (s # ss) = 4 * ((length s + 4) div 4) + str_off ss"
  by (simp_all add: str_off_def)

lemma round4_nat: "n < 1000000 \<Longrightarrow> round4 (of_nat n + 1) = of_nat (4 * ((n + 4) div 4))"
proof -
  assume n: "n < 1000000"
  have m: "(3 :: u32) = mask 2" by (simp add: mask_eq_exp_minus_1)
  have u: "unat (of_nat n + 1 + 3 :: u32) = n + 4"
  proof -
    have e: "(of_nat n + 1 + 3 :: u32) = of_nat (n + 4)" by (simp add: add.assoc)
    show ?thesis unfolding e using n by (intro unat_of_nat_u32) simp
  qed
  have "unat (round4 (of_nat n + 1)) = 4 * ((n + 4) div 4)"
    unfolding round4_def m unat_and_not_mask unfolding m [symmetric] u by simp
  moreover have "unat (of_nat (4 * ((n + 4) div 4)) :: u32) = 4 * ((n + 4) div 4)"
  proof (rule unat_of_nat_u32)
    have "4 * ((n + 4) div 4) \<le> n + 4" by simp
    then show "4 * ((n + 4) div 4) < 2 ^ 32" using n by simp
  qed
  ultimately show ?thesis by (metis word_unat_eq_iff)
qed

text \<open>The words and strings in a page: pointer \<open>i\<close> at \<open>x + 4 * i\<close> names the string \<open>i\<close>, which lies there.\<close>

definition args_at :: "nat \<Rightarrow> nat \<Rightarrow> nat \<Rightarrow> string list \<Rightarrow> page \<Rightarrow> bool" where
  "args_at P x y ss pg \<longleftrightarrow> pg (x div 4 + length ss) = 0
     \<and> (\<forall>i < length ss. pg (x div 4 + i) = at P (y + str_off (take i ss))
          \<and> (\<forall>k < length (ss ! i) + 1. pby pg (y + str_off (take i ss) + k) = c_string (ss ! i) ! k))"

lemma length_c_string [simp]: "length (c_string s) = length s + 1"
  by (simp add: c_string_def)

lemma pby_same_word: "z div 4 \<noteq> i \<Longrightarrow> pby (pg(i := w)) z = pby pg z"
  by (simp add: pby_def)

lemma other_word: "x mod 4 = 0 \<Longrightarrow> z < x \<or> x + 4 \<le> z \<Longrightarrow> z div 4 \<noteq> x div (4 :: nat)"
proof -
  assume a: "x mod 4 = 0" "z < x \<or> x + 4 \<le> z"
  have "x = 4 * (x div 4)" using a(1) by auto
  moreover have "z < 4 * (z div 4) + 4" "4 * (z div 4) \<le> z" by simp_all
  ultimately show ?thesis using a(2) by linarith
qed

lemma put_args_ok:
  "solid v P f \<Longrightarrow> x mod 4 = 0 \<Longrightarrow> y mod 4 = 0 \<Longrightarrow> x + 4 * (length ss + 1) \<le> y \<Longrightarrow> y + str_off ss \<le> 4096 \<Longrightarrow>
   \<exists>pg. put_args (at P x) (at P y) ss v = Some (set_frame f pg v) \<and> args_at P x y ss pg
     \<and> (\<forall>z. z < x \<or> x + 4 * (length ss + 1) \<le> z \<and> z < y \<longrightarrow> pby pg z = pby (frames v f) z)"
proof (induction ss arbitrary: x y v)
  case Nil
  let ?p = "(frames v f)(x div 4 := 0)"
  have "put_args (at P x) (at P y) [] v = Some (set_frame f ?p v)" using Nil.prems by (simp add: wr_at)
  moreover have "pby ?p z = pby (frames v f) z" if "z < x \<or> x + 4 * (length [] + 1) \<le> z \<and> z < y" for z
    using other_word [OF Nil.prems(2), of z] that by (intro pby_same_word) auto
  moreover have "args_at P x y [] ?p" by (simp add: args_at_def)
  ultimately show ?case by blast
next
  case (Cons s ss)
  let ?n = "4 * ((length s + 4) div 4)"
  have n: "length s + 1 \<le> ?n" by presburger
  have n4: "?n mod 4 = 0" by simp
  have y: "y + ?n + str_off ss \<le> 4096" using Cons.prems(5) by simp
  have x: "x + 4 + 4 * (length ss + 1) \<le> y" using Cons.prems(4) by simp
  obtain p1 where p1: "store_bytes (at P y) (c_string s) v = Some (set_frame f p1 v)"
    "\<And>z. pby p1 z = (if y \<le> z \<and> z < y + (length s + 1) then c_string s ! (z - y) else pby (frames v f) z)"
    using store_at [OF Cons.prems(1), of y "c_string s"] y n by auto
  let ?p2 = "p1(x div 4 := at P y)"
  have w: "wr (at P x) (at P y) (set_frame f p1 v) = Some (set_frame f ?p2 v)"
    using wr_at [of "set_frame f p1 v" P f x "at P y"] Cons.prems(1) x y by simp
  have r: "round4 (of_nat (length s) + 1) = of_nat ?n" using y by (intro round4_nat) linarith
  have "\<exists>pg. put_args (at P (x + 4)) (at P (y + ?n)) ss (set_frame f ?p2 v) = Some (set_frame f pg (set_frame f ?p2 v))
    \<and> args_at P (x + 4) (y + ?n) ss pg
    \<and> (\<forall>z. z < x + 4 \<or> x + 4 + 4 * (length ss + 1) \<le> z \<and> z < y + ?n \<longrightarrow> pby pg z = pby (frames (set_frame f ?p2 v) f) z)"
  proof (rule Cons.IH)
    show "solid (set_frame f ?p2 v) P f" using Cons.prems(1) by simp
    show "(x + 4) mod 4 = 0" using Cons.prems(2) by (simp add: mod_add_eq)
    show "(y + ?n) mod 4 = 0" using Cons.prems(3) n4 by simp
    show "x + 4 + 4 * (length ss + 1) \<le> y + ?n" using x by simp
    show "y + ?n + str_off ss \<le> 4096" using y .
  qed
  then obtain pg where pg: "put_args (at P (x + 4)) (at P (y + ?n)) ss (set_frame f ?p2 v) = Some (set_frame f pg v)"
    "args_at P (x + 4) (y + ?n) ss pg"
    "\<And>z. z < x + 4 \<or> x + 4 + 4 * (length ss + 1) \<le> z \<and> z < y + ?n \<Longrightarrow> pby pg z = pby ?p2 z"
    unfolding set_frame_twice by blast
  have e: "put_args (at P x) (at P y) (s # ss) v = Some (set_frame f pg v)"
  proof -
    have "at P y + round4 (of_nat (length s) + 1) = at P (y + ?n)" by (simp only: r at_plus)
    moreover have "at P x + 4 = at P (x + 4)" using at_plus [of P x 4] by simp
    ultimately show ?thesis using p1(1) w pg(1) by simp
  qed
  have other: "z div 4 \<noteq> x div 4" if "z < x \<or> x + 4 \<le> z" for z by (rule other_word [OF Cons.prems(2) that])
  have slot: "pg (x div 4) = at P y"
  proof -
    have "pg (x div 4) = ?p2 (x div 4)"
    proof (rule pby_word [of pg "x div 4" ?p2])
      fix k :: nat assume "k < 4"
      then have "4 * (x div 4) + k < x + 4" using Cons.prems(2) by presburger
      then show "pby pg (4 * (x div 4) + k) = pby ?p2 (4 * (x div 4) + k)" using pg(3) by blast
    qed
    then show ?thesis by simp
  qed
  have str: "pby pg (y + k) = c_string s ! k" if "k < length s + 1" for k
  proof -
    have "pby pg (y + k) = pby ?p2 (y + k)" using x n that by (intro pg(3)) simp
    also have "\<dots> = pby p1 (y + k)" using other [of "y + k"] x by (simp add: pby_same_word)
    finally show ?thesis using p1(2) [of "y + k"] that by simp
  qed
  have "args_at P x y (s # ss) pg"
  proof -
    have "(x + 4) div 4 = Suc (x div 4)" by simp
    moreover have "\<forall>k < length s + 1. pby pg (y + k) = c_string s ! k" using str by blast
    ultimately show ?thesis using pg(2) slot unfolding args_at_def by (simp add: All_less_Suc2 add.assoc)
  qed
  moreover have "pby pg z = pby (frames v f) z" if "z < x \<or> x + 4 * (length (s # ss) + 1) \<le> z \<and> z < y" for z
  proof -
    have "pby pg z = pby ?p2 z" using that by (intro pg(3)) auto
    also have "\<dots> = pby p1 z" using other [of z] that by (auto simp: pby_same_word)
    also have "\<dots> = pby (frames v f) z" using p1(2) [of z] that x by auto
    finally show ?thesis .
  qed
  ultimately show ?case using e by blast
qed

section \<open>The block as the program reads it\<close>

definition arg_block :: "vm \<Rightarrow> u32 \<Rightarrow> string list \<Rightarrow> bool" where
  "arg_block v base ss \<longleftrightarrow> rd base v = Some (of_nat (length ss))
     \<and> (\<forall>i < length ss. \<exists>a. rd (base + 4 + 4 * of_nat i) v = Some a
          \<and> load_bytes a (length (ss ! i) + 1) v = Some (c_string (ss ! i)))
     \<and> rd (base + 4 + 4 * of_nat (length ss)) v = Some 0"

lemma load_at:
  "solid v P f \<Longrightarrow> x + length bs \<le> 4096 \<Longrightarrow> (\<And>k. k < length bs \<Longrightarrow> pby (frames v f) (x + k) = bs ! k)
    \<Longrightarrow> load_bytes (at P x) (length bs) v = Some bs"
proof (induction bs arbitrary: x)
  case (Cons b bs)
  have a: "at P x + 1 = at P (x + 1)" using at_plus [of P x 1] by simp
  have "load_bytes (at P (x + 1)) (length bs) v = Some bs"
  proof (rule Cons.IH [OF Cons.prems(1)])
    show "x + 1 + length bs \<le> 4096" using Cons.prems(2) by simp
    show "pby (frames v f) (x + 1 + k) = bs ! k" if "k < length bs" for k using Cons.prems(3) [of "Suc k"] that by simp
  qed
  moreover have "get_byte (at P x) v = Some b" using get_at [OF Cons.prems(1), of x] Cons.prems(2) Cons.prems(3) [of 0] by simp
  ultimately show ?case using a by simp
qed simp

lemma str_off_take: "i < length ss \<Longrightarrow> str_off (take i ss) + length (ss ! i) + 1 \<le> str_off ss"
proof (induction ss arbitrary: i)
  case (Cons s ss)
  have "length s + 1 \<le> 4 * ((length s + 4) div 4)" by presburger
  then show ?case using Cons.IH [of "i - 1"] Cons.prems by (cases i) auto
qed simp

lemma args_block:
  assumes s: "solid v P f" and z: "z mod 4 = 0" "z + 4 + 4 * (length ss + 1) + str_off ss \<le> 4096"
    and n: "frames v f (z div 4) = of_nat (length ss)" and a: "args_at P (z + 4) (z + 4 + 4 * (length ss + 1)) ss (frames v f)"
  shows "arg_block v (at P z) ss"
proof -
  let ?y = "z + 4 + 4 * (length ss + 1)"
  have slot: "at P z + 4 + 4 * of_nat i = at P (z + 4 + 4 * i)" for i
    using at_plus [of P z 4] at_plus [of P "z + 4" "4 * i"] by simp
  have d: "(z + 4 + 4 * i) div 4 = (z + 4) div 4 + i" for i by simp
  have r: "rd (at P z + 4 + 4 * of_nat i) v = Some (frames v f ((z + 4) div 4 + i))" if "i \<le> length ss" for i
    unfolding slot using rd_at [OF s, of "z + 4 + 4 * i"] z(2) that unfolding d by simp
  have "load_bytes (at P (?y + str_off (take i ss))) (length (ss ! i) + 1) v = Some (c_string (ss ! i))" if "i < length ss" for i
    using load_at [OF s, of "?y + str_off (take i ss)" "c_string (ss ! i)"] str_off_take [OF that] a that z(2)
    by (simp add: args_at_def add.assoc)
  then show ?thesis
    using rd_at [OF s, of z] n z(2) r a unfolding arg_block_def by (simp add: args_at_def)
qed

lemma strneed_nat: "str_off ss < 1000000 \<Longrightarrow> strneed ss = of_nat (str_off ss)"
proof -
  have "foldl (\<lambda>n s. n + round4 (of_nat (length s) + 1)) w ss = w + of_nat (str_off ss)" if "str_off ss < 1000000" for w
    using that
  proof (induction ss arbitrary: w)
    case (Cons s ss)
    have "round4 (of_nat (length s) + 1) = of_nat (4 * ((length s + 4) div 4))" using Cons.prems by (intro round4_nat) simp
    then show ?case using Cons by (simp add: add.assoc)
  qed simp
  from this [of 0] show "str_off ss < 1000000 \<Longrightarrow> strneed ss = of_nat (str_off ss)" by (simp add: strneed_def)
qed

text \<open>The block lies in the last page of the stack, \<open>argv_room\<close> bytes below its end.\<close>

definition argv_room :: "string list \<Rightarrow> nat" where
  "argv_room ss = 16 * ((4 + 4 * (length ss + 1) + str_off ss + 15) div 16)"

lemma argv_base_at:
  assumes "length ss \<le> 16" "str_off ss < 1000000" "argv_need ss \<le> 480"
  shows "argv_base ss = at 0x1403 (4096 - argv_room ss)" "4 + 4 * (length ss + 1) + str_off ss \<le> 480"
    "4 + 4 * (length ss + 1) + str_off ss \<le> argv_room ss" "argv_room ss \<le> 480" "argv_room ss mod 16 = 0"
proof -
  let ?n = "4 + 4 * (length ss + 1) + str_off ss"
  have need: "argv_need ss = of_nat ?n" by (simp add: argv_need_def strneed_nat [OF assms(2)])
  have u: "unat (of_nat ?n :: u32) = ?n" using assms(1,2) by (intro unat_of_nat_u32) simp
  show le: "?n \<le> 480" using assms(3) unfolding need word_le_nat_alt u by simp
  show r: "?n \<le> argv_room ss" "argv_room ss \<le> 480" unfolding argv_room_def using le by presburger+
  show "argv_room ss mod 16 = 0" by (simp add: argv_room_def)
  have m: "(15 :: u32) = mask 4" by (simp add: mask_eq_exp_minus_1)
  have e: "(of_nat ?n + 15 :: u32) = of_nat (?n + 15)" by simp
  have u2: "unat (of_nat (?n + 15) :: u32) = ?n + 15" using le by (intro unat_of_nat_u32) simp
  have "unat ((argv_need ss + 15) AND NOT 15) = argv_room ss"
    unfolding need m unat_and_not_mask unfolding m [symmetric] e u2 argv_room_def by simp
  moreover have "unat (of_nat (argv_room ss) :: u32) = argv_room ss" using r(2) by (intro unat_of_nat_u32) simp
  ultimately have "(argv_need ss + 15) AND NOT 15 = of_nat (argv_room ss)" by (simp only: word_unat_eq_iff)
  then show "argv_base ss = at 0x1403 (4096 - argv_room ss)" using r(2) by (simp add: argv_base_def at_def of_nat_diff)
qed

lemma write_argv_ok:
  assumes s: "solid v 0x1403 f" and n: "length ss \<le> 16" "str_off ss < 1000000" "argv_need ss \<le> 480"
  shows "\<exists>pg. write_argv ss v = Some (set_frame f pg v) \<and> arg_block (set_frame f pg v) (argv_base ss) ss"
proof -
  note B = argv_base_at [OF n]
  let ?z = "4096 - argv_room ss" and ?n = "length ss"
  let ?p = "(frames v f)(?z div 4 := of_nat ?n)"
  have z: "?z mod 4 = 0" "?z + 4 + 4 * (?n + 1) + str_off ss \<le> 4096" using B(3-5) by presburger+
  have w: "wr (at 0x1403 ?z) (of_nat ?n) v = Some (set_frame f ?p v)" using wr_at [OF s, of ?z] B(3) by simp
  have "\<exists>pg. put_args (at 0x1403 (?z + 4)) (at 0x1403 (?z + 4 + 4 * (?n + 1))) ss (set_frame f ?p v)
      = Some (set_frame f pg (set_frame f ?p v)) \<and> args_at 0x1403 (?z + 4) (?z + 4 + 4 * (?n + 1)) ss pg
      \<and> (\<forall>x. x < ?z + 4 \<or> ?z + 4 + 4 * (?n + 1) \<le> x \<and> x < ?z + 4 + 4 * (?n + 1) \<longrightarrow> pby pg x = pby (frames (set_frame f ?p v) f) x)"
    using z s by (intro put_args_ok) (auto simp: mod_add_eq)
  then obtain pg where pg: "put_args (at 0x1403 (?z + 4)) (at 0x1403 (?z + 4 + 4 * (?n + 1))) ss (set_frame f ?p v) = Some (set_frame f pg v)"
      "args_at 0x1403 (?z + 4) (?z + 4 + 4 * (?n + 1)) ss pg" "\<And>x. x < ?z + 4 \<Longrightarrow> pby pg x = pby ?p x"
    by auto
  have "pg (?z div 4) = ?p (?z div 4)"
  proof (rule pby_word [of pg "?z div 4" ?p])
    fix k :: nat assume "k < 4"
    then have "4 * (?z div 4) + k < ?z + 4" using z(1) by presburger
    then show "pby pg (4 * (?z div 4) + k) = pby ?p (4 * (?z div 4) + k)" using pg(3) by blast
  qed
  then have "arg_block (set_frame f pg v) (at 0x1403 ?z) ss" using pg(2) z s by (intro args_block [of _ _ f]) auto
  moreover have "write_argv ss v = Some (set_frame f pg v)"
  proof -
    have e1: "at 0x1403 ?z + 4 = at 0x1403 (?z + 4)" using at_plus [of "0x1403" ?z 4] by simp
    have "(of_nat ?n + 1) * 4 = (of_nat (4 * (?n + 1)) :: u32)" by simp
    then have e2: "at 0x1403 ?z + 4 + (of_nat ?n + 1) * 4 = at 0x1403 (?z + 4 + 4 * (?n + 1))"
      unfolding e1 using at_plus [of "0x1403" "?z + 4" "4 * (?n + 1)"] by (simp only:)
    show ?thesis unfolding write_argv_def B(1) Let_def w e2 unfolding e1 using pg(1) by simp
  qed
  ultimately show ?thesis unfolding B(1) by blast
qed

end
