(* ===== verification/Exec_Stack.thy ===== *)
theory Exec_Stack
  imports Exec_Args Vm_Brk
begin

text \<open>
  The stack a program starts on: \<open>exec_flat\<close> gives each page of it a frame of its own, zeroed, and lets go of the old one,
  so that a parent that shares it after \<open>fork\<close> keeps its contents; then the argument block is written there.
\<close>

section \<open>Letting go of a frame\<close>

lemma free_data:
  assumes w: "vm_wf Gs v" and F: "data Gs v F" "F \<noteq> 0" "fno e = F"
  defines "v' \<equiv> on_pmm (pmm_free_frame (e AND FRAME_MASK)) v"
  shows "used v' X \<longleftrightarrow> used v X \<and> (X = F \<longrightarrow> refs v F > 1)"
    "refs v' X = (if X = F then if refs v F > 1 then refs v F - 1 else 0 else refs v X)"
    "vm_wf Gs v'" "data Gs v' X \<longleftrightarrow> data Gs v X \<and> (X = F \<longrightarrow> refs v F > 1)"
proof -
  have u: "used v F" "F \<notin> Gs" using F(1) by (auto simp: data_def)
  have f: "frame_of (e AND FRAME_MASK) = Some F" using u F(3) by (simp add: frame_of_mask used_def)
  show U: "used v' X \<longleftrightarrow> used v X \<and> (X = F \<longrightarrow> refs v F > 1)" for X
    using u F(2) f by (auto simp: v'_def used_def pmm_free_frame_def)
  show "refs v' X = (if X = F then if refs v F > 1 then refs v F - 1 else 0 else refs v X)"
    using u F(2) f by (auto simp: v'_def used_def pmm_free_frame_def)
  have r: "pmm_ready (vpmm v')" using vm_wfD(7) [OF w] f F(2) by (simp add: v'_def pmm_free_frame_def)
  have s: "loaded v' = loaded v" "tab v' = tab v" "shared v' = shared v" "frames v' = frames v"
    by (simp_all add: v'_def shared_def fun_eq_iff)
  have t: "T \<noteq> F" if "G \<in> Gs" "d < 1023" "tab v G d = Some T" for G d T using F(1) that by (auto simp: data_def)
  have g: "G \<noteq> F" if "G \<in> Gs" for G using u(2) that by blast
  show "vm_wf Gs v'" using w t g unfolding vm_wf_def s U by (simp add: r) blast
  show "data Gs v' X \<longleftrightarrow> data Gs v X \<and> (X = F \<longrightarrow> refs v F > 1)" unfolding data_def s U by blast
qed

section \<open>Fresh pages\<close>

text \<open>A page of the stack as \<open>exec_flat\<close> finds it: its page table is there, and if mapped it is on a data frame.\<close>

definition stack_page :: "nat set \<Rightarrow> vm \<Rightarrow> u32 \<Rightarrow> bool" where
  "stack_page Gs v va \<longleftrightarrow> user_va v (cur_dir v) va \<and> tab v (cur_dir v) (dir_idx va) \<noteq> None \<and> va AND 0xFFF = 0
     \<and> (let e = pte v (cur_dir v) va in present e \<longrightarrow> data Gs v (fno e) \<and> fno e \<noteq> 0)"

definition hit :: "vm \<Rightarrow> u32 list \<Rightarrow> nat \<Rightarrow> bool" where
  "hit v vas F \<longleftrightarrow> (\<exists>va \<in> set vas. present (pte v (cur_dir v) va) \<and> fno (pte v (cur_dir v) va) = F)"

text \<open>A page for the user alone: writable, on a frame counted once and full of zeros.\<close>

definition own_page :: "nat set \<Rightarrow> vm \<Rightarrow> u32 \<Rightarrow> bool" where
  "own_page Gs v va \<longleftrightarrow> (let e = pte v (cur_dir v) va in present e \<and> user e \<and> e AND PAGE_RW \<noteq> 0
     \<and> data Gs v (fno e) \<and> frames v (fno e) = zero_page \<and> refs v (fno e) = 1)"

text \<open>A data frame the pages did not hold, or held together with somebody else.\<close>

definition elsewhere :: "nat set \<Rightarrow> u32 list \<Rightarrow> vm \<Rightarrow> nat \<Rightarrow> bool" where
  "elsewhere Gs vas v F \<longleftrightarrow> data Gs v F \<and> (hit v vas F \<longrightarrow> refs v F > 1)"

text \<open>The pages have been renewed: each is the user's own, no two on one frame; frames held elsewhere keep their contents
  and lose the references of the old pages; no other page of any space has changed.\<close>

definition renewed :: "nat set \<Rightarrow> u32 list \<Rightarrow> vm \<Rightarrow> vm \<Rightarrow> bool" where
  "renewed Gs vas v v' \<longleftrightarrow> vm_wf Gs v' \<and> loaded v' = loaded v
     \<and> (\<forall>G\<in>Gs. \<forall>d. d \<noteq> SCRATCH_DIR \<longrightarrow> frames v' G d = frames v G d) \<and> tab v' (cur_dir v) SCRATCH_DIR \<noteq> None
     \<and> ptes_but Gs {(G, wa). G = cur_dir v \<and> wa \<in> set vas} v v'
     \<and> (\<forall>wa \<in> set vas. own_page Gs v' wa) \<and> distinct (map (\<lambda>wa. fno (pte v' (cur_dir v) wa)) vas)
     \<and> (\<forall>F. elsewhere Gs vas v F \<longrightarrow> data Gs v' F \<and> frames v' F = frames v F
          \<and> refs v' F = refs v F - (if hit v vas F then 1 else 0) \<and> \<not> hit v' vas F)"

lemma renewedD:
  assumes "renewed Gs vas v v'"
  shows "vm_wf Gs v'" "loaded v' = loaded v" "G \<in> Gs \<Longrightarrow> d \<noteq> SCRATCH_DIR \<Longrightarrow> frames v' G d = frames v G d"
    "tab v' (cur_dir v) SCRATCH_DIR \<noteq> None" "ptes_but Gs {(G, wa). G = cur_dir v \<and> wa \<in> set vas} v v'"
    "wa \<in> set vas \<Longrightarrow> own_page Gs v' wa" "distinct (map (\<lambda>wa. fno (pte v' (cur_dir v) wa)) vas)"
    "elsewhere Gs vas v F \<Longrightarrow> data Gs v' F" "elsewhere Gs vas v F \<Longrightarrow> frames v' F = frames v F"
    "elsewhere Gs vas v F \<Longrightarrow> refs v' F = refs v F - (if hit v vas F then 1 else 0)" "elsewhere Gs vas v F \<Longrightarrow> \<not> hit v' vas F"
  using assms unfolding renewed_def by blast+

lemma frame_mask_nz: "fno e \<noteq> 0 \<Longrightarrow> e AND FRAME_MASK \<noteq> 0"
proof
  assume "fno e \<noteq> 0" "e AND FRAME_MASK = 0"
  then have "fno (e AND FRAME_MASK) = fno 0" by (simp only:)
  then show False using \<open>fno e \<noteq> 0\<close> by (simp add: fno_nat [of 0])
qed

text \<open>Once allocated and released, the rest of a page's renewal: the entry is set and the frame zeroed.\<close>

lemma remap_ok:
  assumes w: "vm_wf Gs v" and h: "tab v (cur_dir v) SCRATCH_DIR \<noteq> None" and u: "user_va v (cur_dir v) va"
    and T: "tab v (cur_dir v) (dir_idx va) \<noteq> None" and d: "data Gs v (fno f)"
  shows "\<exists>v3 v4. paging_map_in_space (loaded v) va f (PAGE_USER OR PAGE_RW) v = Some v3 \<and> fresh_page f pg v3 = Some v4
    \<and> vm_wf Gs v4 \<and> vpmm v4 = vpmm v \<and> loaded v4 = loaded v \<and> (\<forall>G\<in>Gs. \<forall>d. d \<noteq> SCRATCH_DIR \<longrightarrow> frames v4 G d = frames v G d)
    \<and> tab v4 (cur_dir v) SCRATCH_DIR \<noteq> None \<and> ptes_but Gs {(cur_dir v, va)} v v4
    \<and> pte v4 (cur_dir v) va = entry_for f (PAGE_USER OR PAGE_RW) \<and> (\<forall>F. data Gs v F \<longrightarrow> data Gs v4 F \<and> (F \<noteq> fno f \<longrightarrow> frames v4 F = frames v F))
    \<and> frames v4 (fno f) = pg"
proof -
  let ?C = "cur_dir v" and ?x = "entry_for f (PAGE_USER OR PAGE_RW)"
  have C: "?C \<in> Gs" by (rule vm_wfD(1) [OF w])
  obtain S where S: "tab v ?C (dir_idx va) = Some S" using T by blast
  have p: "plain_dir va" "user (frames v ?C (dir_idx va))" using u T by (auto simp: user_va_def)
  have nG: "S \<notin> Gs" by (rule vm_wfD(5) [OF w C _ S]) (use p in simp)
  define v3 where "v3 = set_word S (tbl_idx va) ?x v"
  note s = set_pte_ok [OF w C S p(2,1), of ?x, folded v3_def]
  have m: "paging_map_in_space (loaded v) va f (PAGE_USER OR PAGE_RW) v = Some v3"
    using p(1) tab_SomeD [OF S] unfolding v3_def
    by (simp add: paging_map_in_space_def map_here_def rd_pd_at [OF w] wr_table_at [OF w _ _ S] entry_for_def)
  have c3: "loaded v3 = loaded v" "vpmm v3 = vpmm v" by (simp_all add: v3_def)
  have h3: "tab v3 (cur_dir v3) SCRATCH_DIR \<noteq> None" by (rule calm_hot [OF w s(2) h])
  obtain v4 where v4: "paging_scratch_phys f v3 = Some (SCRATCH_VADDR, v4)" "vm_wf Gs v4" "quiet Gs v3 v4"
      "window v4 = Some (fno f)" "tab v4 (cur_dir v4) SCRATCH_DIR \<noteq> None" "vpmm v4 = vpmm v3"
    by (rule scratch_phys_hot [OF s(1) h3, of f])
  note q = quiet_calm [OF s(1) v4(3)]
  have d4: "data Gs v4 (fno f)" by (rule calmD(5) [OF q(1) calmD(5) [OF s(2) d]])
  define v5 where "v5 = set_frame (fno f) pg v4"
  have fG: "fno f \<notin> Gs" using d by (simp add: data_def)
  note sf = set_frame_pte [OF d4 v4(2), where pg = pg, folded v5_def]
  have fp: "fresh_page f pg v3 = Some v5" using window_io(4) [OF v4(4)] v4(1) by (simp add: fresh_page_def v5_def)
  have w5: "vm_wf Gs v5" unfolding v5_def by (rule vm_wf_write(2) [OF v4(2) fG])
  have l5: "loaded v5 = loaded v" "vpmm v5 = vpmm v" using quietD(1) [OF v4(3)] v4(6) c3 by (simp_all add: v5_def)
  have dir: "frames v5 G d = frames v G d" if "G \<in> Gs" "d \<noteq> SCRATCH_DIR" for G d
  proof -
    have "frames v5 G d = frames v4 G d" using fG that by (auto simp: v5_def)
    also have "\<dots> = frames v3 G d" by (rule quietD(3) [OF v4(3) that])
    also have "\<dots> = frames v G d" using nG that by (auto simp: v3_def)
    finally show ?thesis .
  qed
  have h5: "tab v5 ?C SCRATCH_DIR \<noteq> None"
    using v4(5) sf(1) [OF C, of SCRATCH_DIR] quietD(1) [OF v4(3)] c3 by simp
  have p5: "ptes_but Gs {(?C, va)} v v5"
  proof (rule ptes_butI)
    fix H wa assume H: "H \<in> Gs" "plain_dir wa" and no: "\<And>w. (H, w) \<in> {(?C, va)} \<Longrightarrow> \<not> same_page w wa"
    have "pte v5 H wa = pte v4 H wa" using sf(2) [OF H(1)] H(2) by simp
    also have "\<dots> = pte v3 H wa" by (rule ptes_butD [OF q(2) H])
    also have "\<dots> = pte v H wa" by (rule ptes_but_apply [OF s(3) H no])
    finally show "pte v5 H wa = pte v H wa" .
  qed
  have e5: "pte v5 ?C va = ?x" using sf(2) [OF C] p(1) ptes_butD [OF q(2) C p(1)] s(4) by simp
  have "data Gs v5 F \<and> (F \<noteq> fno f \<longrightarrow> frames v5 F = frames v F)" if "data Gs v F" for F
  proof -
    have "data Gs v4 F" "frames v4 F = frames v F"
      using calmD(5,6) [OF q(1)] calmD(5,6) [OF s(2) that] by auto
    then show ?thesis using sf(1) by (auto simp: data_def) (auto simp: v5_def)
  qed
  then show ?thesis using m fp w5 l5 dir h5 p5 e5 by (intro exI [of _ v3] exI [of _ v5]) (simp add: v5_def)
qed

lemma renew_ok:
  assumes w: "vm_wf Gs v" and h: "tab v (cur_dir v) SCRATCH_DIR \<noteq> None" and k: "stack_page Gs v va" and sp: "0 < spare v"
  shows "\<exists>v5. (\<forall>vas. new_stack (loaded v) (va # vas) v = new_stack (loaded v) vas v5) \<and> renewed Gs [va] v v5
    \<and> \<not> used v (fno (pte v5 (cur_dir v) va)) \<and> spare v \<le> Suc (spare v5)"
proof -
  let ?C = "cur_dir v" and ?e = "pte v (cur_dir v) va"
  let ?F = "fno ?e"
  have C: "?C \<in> Gs" by (rule vm_wfD(1) [OF w])
  have u: "user_va v ?C va" and T: "tab v ?C (dir_idx va) \<noteq> None" and al: "va AND 0xFFF = 0"
    and F: "present ?e \<Longrightarrow> data Gs v ?F" "present ?e \<Longrightarrow> ?F \<noteq> 0"
    using k by (auto simp: stack_page_def Let_def)
  have p: "plain_dir va" using u by (simp add: user_va_def)
  obtain f v1 where a: "alloc v = (f, v1)" by fastforce
  from a vm_wfD(7) [OF w] show ?thesis
  proof (cases rule: alloc_cases)
    case none
    then show ?thesis using spare_full [OF sp] by simp
  next
    case (frame i)
    have w1: "vm_wf Gs v1" "data Gs v1 i" using vm_wf_alloc [OF w frame(6) _ frame(8,9,12)] frame(7) by auto
    have t1: "tab v1 = tab v" "pte v1 = pte v" "cur_dir v1 = ?C" using frame(8,9) by (simp_all add: tab_def pte_def fun_eq_iff)
    have d1: "data Gs v1 X \<longleftrightarrow> data Gs v X \<or> X = i" for X
      using w1(2) frame(6,7) unfolding data_def t1 by auto
    have ni: "?F \<noteq> i" if "present ?e" using F(1) [OF that] frame(6) by (auto simp: data_def)
    define v2 where "v2 = (if present ?e then on_pmm (pmm_free_frame (?e AND FRAME_MASK)) v1 else v1)"
    have U2: "used v2 X \<longleftrightarrow> used v1 X \<and> (X = ?F \<and> present ?e \<longrightarrow> refs v1 ?F > 1)"
      and R2: "refs v2 X = (if X = ?F \<and> present ?e then if refs v1 ?F > 1 then refs v1 ?F - 1 else 0 else refs v1 X)"
      and D2: "data Gs v2 X \<longleftrightarrow> data Gs v1 X \<and> (X = ?F \<and> present ?e \<longrightarrow> refs v1 ?F > 1)" for X
      using free_data [OF w1(1) _ _ refl, of ?e] F d1 by (auto simp: v2_def)
    have w2: "vm_wf Gs v2" using free_data(3) [OF w1(1) _ _ refl, of ?e] F d1 w1(1) by (auto simp: v2_def)
    have s2: "tab v2 = tab v" "pte v2 = pte v" "loaded v2 = loaded v" "frames v2 = frames v"
      using t1 frame(8,9) by (simp_all add: v2_def)
    have d2: "data Gs v2 i" using D2 w1(2) ni by auto
    have "user_va v2 (cur_dir v2) va" using u unfolding user_va_def s2 by simp
    then obtain v3 v4 where m: "paging_map_in_space (loaded v2) va f (PAGE_USER OR PAGE_RW) v2 = Some v3" "fresh_page f zero_page v3 = Some v4"
        "vm_wf Gs v4" "vpmm v4 = vpmm v2" "loaded v4 = loaded v2" "\<forall>G\<in>Gs. \<forall>d. d \<noteq> SCRATCH_DIR \<longrightarrow> frames v4 G d = frames v2 G d"
        "tab v4 (cur_dir v2) SCRATCH_DIR \<noteq> None" "ptes_but Gs {(cur_dir v2, va)} v2 v4"
        "pte v4 (cur_dir v2) va = entry_for f (PAGE_USER OR PAGE_RW)"
        "\<And>X. data Gs v2 X \<Longrightarrow> data Gs v4 X" "\<And>X. data Gs v2 X \<Longrightarrow> X \<noteq> fno f \<Longrightarrow> frames v4 X = frames v2 X" "frames v4 (fno f) = zero_page"
      using remap_ok [OF w2, of va f zero_page] h T d2 unfolding s2 frame(3) by blast
    note M = m(3-12) [unfolded s2 frame(3)]
    have x: "present (entry_for f (PAGE_USER OR PAGE_RW))" "user (entry_for f (PAGE_USER OR PAGE_RW))"
        "entry_for f (PAGE_USER OR PAGE_RW) AND PAGE_RW \<noteq> 0" "fno (entry_for f (PAGE_USER OR PAGE_RW)) = i"
      using frame(3) by (simp_all add: present_bit user_bit flag_bits bit_entry_for bit_or_iff)
    have ph: "paging_get_phys va v = Some (if present ?e then ?e AND FRAME_MASK else 0)"
      using get_phys_ok [OF w, of va] p al by simp
    have run: "new_stack (loaded v) (va # vas) v = new_stack (loaded v) vas v4" for vas
    proof -
      have "page_down (?e AND FRAME_MASK) = ?e AND FRAME_MASK" using page_down_phys [of ?e va] al by simp
      then have "(if (if present ?e then ?e AND FRAME_MASK else 0) \<noteq> 0
          then on_pmm (pmm_free_frame (page_down (if present ?e then ?e AND FRAME_MASK else 0))) v1 else v1) = v2"
        using frame_mask_nz [of ?e] F(2) by (auto simp: v2_def)
      then show ?thesis using m(1,2) frame(2) unfolding s2 by (simp add: ph a Let_def)
    qed
    have c4: "cur_dir v4 = ?C" "refs v4 = refs v2" "used v4 X = used v2 X" for X
      using M(2,3) by (simp_all add: used_def)
    have r4: "refs v4 i = 1" using R2 [of i] ni frame(11) c4(2) by auto
    have own: "own_page Gs v4 va"
      using x r4 M(8) [OF d2] M(10) unfolding own_page_def Let_def c4(1) M(7) by simp
    have hv: "hit v [va] X \<longleftrightarrow> present ?e \<and> X = ?F" "hit v4 [va] X \<longleftrightarrow> X = i" for X
      using x M(7) by (auto simp: hit_def c4(1))
    have kept: "data Gs v4 X \<and> frames v4 X = frames v X \<and> refs v4 X = refs v X - (if hit v [va] X then 1 else 0) \<and> \<not> hit v4 [va] X"
      if X: "elsewhere Gs [va] v X" for X
    proof -
      have X': "data Gs v X" "X = ?F \<and> present ?e \<Longrightarrow> refs v ?F > 1" using X by (auto simp: elsewhere_def hv)
      have n: "X \<noteq> i" using X'(1) frame(6) by (auto simp: data_def)
      have "data Gs v2 X" using D2 d1 X' n frame(11) by auto
      moreover have "refs v4 X = refs v X - (if hit v [va] X then 1 else 0)"
        using R2 [of X] X'(2) n frame(11) ni by (auto simp: c4(2) hv)
      ultimately show ?thesis using M(8,9) n by (simp add: hv)
    qed
    have "ptes_but Gs {(?C, va)} v v4" using M(6) by (simp add: ptes_but_def s2)
    then have "renewed Gs [va] v v4"
      using M(1-5,7) own kept by (auto simp: renewed_def)
    moreover have "\<not> used v (fno (pte v4 ?C va))" using frame(6) x(4) M(7) by simp
    moreover have "spare v \<le> Suc (spare v4)"
      by (rule spare_drop [of v4 i]) (use U2 frame(7) c4(3) in auto)
    ultimately show ?thesis using run by blast
  qed
qed

text \<open>No two of the pages are the same, nor on the same frame.\<close>

definition apart_pages :: "vm \<Rightarrow> u32 list \<Rightarrow> bool" where
  "apart_pages v vas \<longleftrightarrow> sorted_wrt (\<lambda>a b. \<not> same_page a b
     \<and> (present (pte v (cur_dir v) a) \<longrightarrow> present (pte v (cur_dir v) b) \<longrightarrow> fno (pte v (cur_dir v) a) \<noteq> fno (pte v (cur_dir v) b))) vas"

lemma renewed_pte:
  assumes "renewed Gs vas v v1" "H \<in> Gs" "plain_dir wa" "\<And>w. H = cur_dir v \<Longrightarrow> w \<in> set vas \<Longrightarrow> \<not> same_page w wa"
  shows "pte v1 H wa = pte v H wa"
  by (rule ptes_but_apply [OF renewedD(5) [OF assms(1)] assms(2,3)]) (use assms(4) in auto)

lemma renewed_page:
  assumes r: "renewed Gs [va] v v1" and C: "cur_dir v \<in> Gs" and k: "stack_page Gs v wa"
    and n: "\<not> same_page va wa" "present (pte v (cur_dir v) va) \<longrightarrow> present (pte v (cur_dir v) wa) \<longrightarrow> fno (pte v (cur_dir v) va) \<noteq> fno (pte v (cur_dir v) wa)"
  shows "stack_page Gs v1 wa" "pte v1 (cur_dir v) wa = pte v (cur_dir v) wa"
proof -
  have p: "plain_dir wa" using k by (simp add: stack_page_def user_va_def)
  show e: "pte v1 (cur_dir v) wa = pte v (cur_dir v) wa"
    by (rule renewed_pte [OF r C p]) (use n(1) in auto)
  have c: "cur_dir v1 = cur_dir v" using renewedD(2) [OF r] by simp
  have f: "frames v1 (cur_dir v) (dir_idx wa) = frames v (cur_dir v) (dir_idx wa)" using renewedD(3) [OF r C] p by simp
  have d: "data Gs v1 (fno (pte v (cur_dir v) wa))" if "present (pte v (cur_dir v) wa)"
    by (rule renewedD(8) [OF r]) (use k n(2) that in \<open>auto simp: elsewhere_def hit_def stack_page_def Let_def\<close>)
  show "stack_page Gs v1 wa" using k d unfolding stack_page_def c e user_va_def tab_def f by (auto simp: Let_def)
qed

lemma hit_Cons: "hit v (va # vas) F \<longleftrightarrow> hit v [va] F \<or> hit v vas F"
  by (auto simp: hit_def)

lemma renewed_Cons:
  assumes r: "renewed Gs [va] v v1" and q: "renewed Gs vas v1 v2" and C: "cur_dir v \<in> Gs"
    and k: "\<forall>wa \<in> set (va # vas). stack_page Gs v wa" and ap: "apart_pages v (va # vas)"
    and n: "\<not> used v (fno (pte v1 (cur_dir v) va))"
  shows "renewed Gs (va # vas) v v2"
proof -
  let ?C = "cur_dir v" and ?i = "fno (pte v1 (cur_dir v) va)"
  have c1: "cur_dir v1 = ?C" using renewedD(2) [OF r] by simp
  have c2: "cur_dir v2 = ?C" using renewedD(2) [OF q] c1 by simp
  note Q = renewedD [OF q, unfolded c1]
  have ap1: "\<not> same_page va wa" "present (pte v ?C va) \<longrightarrow> present (pte v ?C wa) \<longrightarrow> fno (pte v ?C va) \<noteq> fno (pte v ?C wa)"
    if "wa \<in> set vas" for wa using ap that by (auto simp: apart_pages_def)
  have e: "pte v1 ?C wa = pte v ?C wa" if "wa \<in> set vas" for wa
    using renewed_page(2) [OF r C _ ap1 [OF that]] k that by simp
  have hv: "hit v1 vas F = hit v vas F" for F using e by (auto simp: hit_def c1)
  have p: "plain_dir va" using k by (simp add: stack_page_def user_va_def)
  have ev: "pte v2 ?C va = pte v1 ?C va"
    using renewed_pte [OF q, of ?C va] C p ap1 unfolding c1 by force
  have o: "own_page Gs v1 va" using renewedD(6) [OF r] by simp
  then have O: "present (pte v1 ?C va)" "data Gs v1 ?i" "frames v1 ?i = zero_page" "refs v1 ?i = 1"
    by (simp_all add: own_page_def c1 Let_def)
  have nh: "\<not> hit v1 vas ?i"
    unfolding hv using n k by (auto simp: hit_def stack_page_def Let_def data_def)
  then have el: "elsewhere Gs vas v1 ?i" using O(2) by (simp add: elsewhere_def)
  have own: "own_page Gs v2 va"
    using o Q(8-10) [OF el] nh O unfolding own_page_def c2 c1 Let_def ev by simp
  have nd: "distinct (map (\<lambda>wa. fno (pte v2 ?C wa)) (va # vas))"
  proof -
    have "present (pte v2 ?C wa)" if "wa \<in> set vas" for wa
      using Q(6) [OF that] unfolding own_page_def c2 Let_def by simp
    then show ?thesis using Q(7) Q(11) [OF el] ev by (auto simp: hit_def c2)
  qed
  have kept: "data Gs v2 F \<and> frames v2 F = frames v F \<and> refs v2 F = refs v F - (if hit v (va # vas) F then 1 else 0) \<and> \<not> hit v2 (va # vas) F"
    if F: "elsewhere Gs (va # vas) v F" for F
  proof -
    have e1: "elsewhere Gs [va] v F" using F by (auto simp: elsewhere_def hit_Cons [of v va vas])
    note K = renewedD(8-11) [OF r e1]
    have both: "\<not> (hit v [va] F \<and> hit v vas F)"
    proof -
      have "\<forall>wa \<in> set vas. present (pte v ?C va) \<longrightarrow> present (pte v ?C wa) \<longrightarrow> fno (pte v ?C wa) \<noteq> fno (pte v ?C va)"
        using ap1(2) by metis
      then show ?thesis by (auto simp: hit_def)
    qed
    have e2: "elsewhere Gs vas v1 F" using F K(1,3) both unfolding elsewhere_def hv by (auto simp: hit_Cons [of v va vas])
    have "\<not> hit v2 [va] F" using K(4) ev by (simp add: hit_def c1 c2)
    then show ?thesis using K Q(8-11) [OF e2] both unfolding hv by (auto simp: hit_Cons [of _ va vas])
  qed
  have pt: "ptes_but Gs {(G, wa). G = ?C \<and> wa \<in> set (va # vas)} v v2"
  proof (rule ptes_butI)
    fix H wa assume H: "H \<in> Gs" "plain_dir wa" and no: "\<And>w. (H, w) \<in> {(G, wa). G = ?C \<and> wa \<in> set (va # vas)} \<Longrightarrow> \<not> same_page w wa"
    have "pte v2 H wa = pte v1 H wa" by (rule renewed_pte [OF q H]) (use no c1 in auto)
    also have "\<dots> = pte v H wa" by (rule renewed_pte [OF r H]) (use no in auto)
    finally show "pte v2 H wa = pte v H wa" .
  qed
  have "frames v2 G d = frames v G d" if "G \<in> Gs" "d \<noteq> SCRATCH_DIR" for G d
    using renewedD(3) [OF r that] Q(3) [OF that] by simp
  then show ?thesis
    using Q(1,2,4,6) renewedD(2) [OF r] own nd kept pt unfolding renewed_def by auto
qed

lemma new_stack_ok:
  assumes "vm_wf Gs v" "tab v (cur_dir v) SCRATCH_DIR \<noteq> None" "\<forall>va \<in> set vas. stack_page Gs v va" "apart_pages v vas" "length vas \<le> spare v"
  shows "\<exists>v'. new_stack (loaded v) vas v = Some (True, v') \<and> renewed Gs vas v v'"
  using assms
proof (induction vas arbitrary: v)
  case Nil
  then show ?case by (auto simp: renewed_def elsewhere_def hit_def ptes_but_refl)
next
  case (Cons va vas)
  let ?C = "cur_dir v"
  have C: "?C \<in> Gs" by (rule vm_wfD(1) [OF Cons.prems(1)])
  have k: "stack_page Gs v va" "0 < spare v" using Cons.prems(3,5) by auto
  obtain v1 where s: "\<And>vas. new_stack (loaded v) (va # vas) v = new_stack (loaded v) vas v1" "renewed Gs [va] v v1"
      "\<not> used v (fno (pte v1 ?C va))" "spare v \<le> Suc (spare v1)"
    using renew_ok [OF Cons.prems(1,2) k] by blast
  have l1: "loaded v1 = loaded v" by (rule renewedD(2) [OF s(2)])
  have ap: "\<not> same_page va wa" "present (pte v ?C va) \<longrightarrow> present (pte v ?C wa) \<longrightarrow> fno (pte v ?C va) \<noteq> fno (pte v ?C wa)"
    if "wa \<in> set vas" for wa using Cons.prems(4) that by (auto simp: apart_pages_def)
  have P: "stack_page Gs v1 wa" "pte v1 ?C wa = pte v ?C wa" if "wa \<in> set vas" for wa
    using renewed_page [OF s(2) C _ ap [OF that]] Cons.prems(3) that by auto
  have "apart_pages v1 vas"
    using Cons.prems(4) unfolding apart_pages_def l1 by (auto simp: P(2) elim!: sorted_wrt_mono_rel [rotated])
  then obtain v2 where v2: "new_stack (loaded v1) vas v1 = Some (True, v2)" "renewed Gs vas v1 v2"
    using Cons.IH [OF renewedD(1) [OF s(2)]] renewedD(4) [OF s(2)] P(1) Cons.prems(5) s(4) l1 by fastforce
  then show ?case using s(1) l1 renewed_Cons [OF s(2) v2(2) C Cons.prems(3,4) s(3)] by auto
qed

section \<open>Starting a program\<close>

definition stack_pages :: "u32 list" where
  "stack_pages = [0x1400000, 0x1401000, 0x1402000, 0x1403000]"

lemma stack_pages_map: "map (\<lambda>i. USER_STACK_BASE + of_nat i * 0x1000) [0..<4] = stack_pages"
  by (simp add: stack_pages_def upt_rec)

lemma own_solid:
  assumes o: "own_page Gs v 0x1403000" and w: "vm_wf Gs v"
  shows "solid v 0x1403 (fno (pte v (cur_dir v) 0x1403000))"
proof -
  let ?C = "cur_dir v"
  have i: "dir_idx 0x1403000 = 5" "tbl_idx 0x1403000 = 3" by (simp_all add: dir_idx_nat tbl_idx_nat)
  have C: "?C \<in> Gs" by (rule vm_wfD(1) [OF w])
  have e: "present (pte v ?C 0x1403000)" "data Gs v (fno (pte v ?C 0x1403000))" using o by (simp_all add: own_page_def Let_def)
  obtain T where T: "tab v ?C 5 = Some T" using e(1) i by (cases "tab v ?C 5") (simp_all add: pte_def)
  have "pte v ?C 0x1403000 = frames v T 3" using T i by (simp add: pte_def)
  moreover have "T \<noteq> fno (pte v ?C 0x1403000)" "?C \<noteq> fno (pte v ?C 0x1403000)" using e(2) C T by (auto simp: data_def)
  ultimately show ?thesis using e(1) tab_SomeD [OF T] by (simp add: solid_def Let_def)
qed

lemma str_off_bound: "(\<forall>s \<in> set ss. length s < 64) \<Longrightarrow> str_off ss \<le> 68 * length ss"
proof (induction ss)
  case (Cons s ss)
  have "4 * ((length s + 4) div 4) \<le> length s + 4" by simp
  moreover have "length s < 64" "str_off ss \<le> 68 * length ss" using Cons by simp_all
  ultimately have "4 * ((length s + 4) div 4) + str_off ss \<le> 68 + 68 * length ss" by linarith
  then show ?case by simp
qed simp



section \<open>Edges\<close>

text \<open>Once the arguments are split the old image goes first: an \<open>exec\<close> that then finds no heap for the file, or anything wrong
  with it, returns -1 to a program whose memory is gone.\<close>

theorem failed_exec_loses_image:
  assumes "0 \<le> chfs_get_size path fs" "chfs_get_size path fs \<le> int CHFS_DATABLOCKS * 512" "exec_args path args = Some ts"
    and "cr3 t \<noteq> 0" "drop_image t v = Some v1"
  shows "exec_flat path args node False past fs (Some t) v = Some (-1, Some (keep_stack node t), v1)"
  using assms by (simp add: exec_flat_def Let_def split: prod.splits)

text \<open>A segment loaded at the start of a page lies there byte for byte, followed by zeros.\<close>

lemma seg_byte_aligned:
  assumes "vaddr AND 0xFFF = 0" "unat off + unat filesz < 2 ^ 32" "unat off + 4096 * (p + 1) < 2 ^ 32" "j < 4096"
  shows "seg_byte b vaddr off filesz p j = (if 4096 * p + j < unat filesz then b (off + of_nat (4096 * p + j)) else 0)"
proof -
  have pu: "unat (of_nat p * 0x1000 :: u32) = 4096 * p"
  proof -
    have "(of_nat p * 0x1000 :: u32) = of_nat (4096 * p)" by simp
    moreover have "unat (of_nat (4096 * p) :: u32) = 4096 * p" using assms(3) by (intro unat_of_nat_u32) simp
    ultimately show ?thesis by (simp only:)
  qed
  have s: "unat (off + of_nat p * 0x1000) = unat off + 4096 * p" using assms(3) by (subst unat_plus) (simp_all add: pu)
  have e: "unat (off + filesz) = unat off + unat filesz" using assms(2) by (subst unat_plus) simp_all
  have t: "unat (off + of_nat p * 0x1000 + 0x1000) = unat off + 4096 * p + 4096" using assms(3) by (subst unat_plus) (simp_all add: s)
  have d: "off + filesz - (off + of_nat p * 0x1000) = filesz - of_nat p * 0x1000" by simp
  have m: "4096 * p \<le> unat filesz \<Longrightarrow> unat (filesz - of_nat p * 0x1000) = unat filesz - 4096 * p"
    by (subst unat_sub) (simp_all add: word_le_nat_alt pu)
  have a: "off + of_nat p * 0x1000 + of_nat j = off + of_nat (4096 * p + j)" by simp
  show ?thesis
    using assms(4) m unfolding seg_byte_def Let_def assms(1) d
    by (auto simp: word_less_nat_alt s e t a split: if_splits)
qed

text \<open>With a first byte inside a page the following pages are filled from the wrong place: byte 0 of the second page of a
  segment from \<open>0x1000800\<close> is the file's byte \<open>0x800\<close>, and gets byte \<open>0x1000\<close>.\<close>

theorem elf_unaligned_shifted: "seg_byte b 0x1000800 0 0x2000 1 0 = b 0x1000"
  by (simp add: seg_byte_def Let_def)

end
