(* ===== verification/Spec2Isabelle.thy ===== *)
theory Spec2Isabelle
  imports Prelude Ring Task Pipe Pty Pmm Kheap Procfs Chfs Chfs_Inv
    Proc Pipe_Ends Wait Security Sched Sync Vm Vm_Inv Vm_Fork Vm_Brk Uaccess
    Inet Tcp Tcp_Inv Tcp_Run Tcp_Wf Net
    Dfs Dfs_Inv Dfs_Files Dfs_Ops Dfs_Clean Dfs_Format Dfs_Props Dfs_Journal
    Gpt Mb2 Exec Exec_Args Exec_Stack
begin

text \<open>
  A verification library for the 32-bit charOS kernel (\<open>kernel/\<close> and \<open>include/\<close>).

  \<^bold>\<open>The program.\<close>  charOS boots on i386 with paging, runs user tasks at ring 3 and serves them through
  \<open>int 0x80\<close>.  Physical frames (\<open>memory/pmm.c\<close>) feed the kernel heap (\<open>memory/kheap.c\<close>) and the page tables
  (\<open>memory/paging.c\<close>); tasks (\<open>process/task.c\<close>) own an address space, a descriptor table and credentials; they
  are created by \<open>fork\<close> and \<open>clone\<close>, scheduled by priority, talk through pipes, terminals, signals, semaphores and
  futexes, and keep files in a RAM file system (\<open>fs/chfs.c\<close>).  The kernel is not preempted inside the stretches
  between \<open>spin_lock_irqsave\<close> and the next \<open>schedule()\<close>; each such stretch is one operation of the model, and
  interleavings are sequences of operations.

  \<^bold>\<open>Theories and the code they model.\<close>

  \<^item> \<open>Prelude\<close>: machine words, page rounding, table searches (\<open>first_from\<close>), circular buffers (\<open>ring_list\<close>).
    \<open>Ring\<close>: the locale \<open>ring_buffer\<close>, the interface of a byte queue whose client fills and drains it in loops.
  \<^item> \<open>Task\<close>: the records of \<open>include/process/task.h\<close>, \<open>fs/fd.h\<close>, \<open>memory/mmap.h\<close>.  A \<open>struct task*\<close> is a \<open>tid\<close>
    and the memory of tasks a function from them.
  \<^item> \<open>Pipe\<close> (\<open>process/pipe.c\<close>), \<open>Pty\<close> (\<open>process/pty.c\<close>): state, operations, contents as a queue; both interpret
    \<open>ring_buffer\<close> on their own get and put.
  \<^item> \<open>Pmm\<close> (\<open>memory/pmm.c\<close>): bitmap, counts and the parse of the boot memory map (a \<open>partial_function\<close>: \<open>None\<close> when
    it never ends); an abstract map from frames to counts that every operation refines.
  \<^item> \<open>Kheap\<close> (\<open>memory/kheap.c\<close>): the block list in memory, with the tiling invariant \<open>heap_inv\<close>.
  \<^item> \<open>Procfs\<close> (\<open>fs/proc.c\<close>), \<open>Chfs\<close> (\<open>fs/chfs.c\<close>, descriptor tables included), \<open>Chfs_Inv\<close>: block ownership, contents,
    permissions.
  \<^item> \<open>Proc\<close> (\<open>process/task.c\<close>, \<open>wait.c\<close>, \<open>signal.c\<close>, descriptors of \<open>fork.c\<close> and \<open>clone.c\<close>): the state \<open>psys\<close> is the
    file system state plus the task list.  \<open>Pipe_Ends\<close>: the life of descriptors across all calls, and
    \<open>sys_pipe\<close>.  \<open>Wait\<close>: exit, kill and wait together.
  \<^item> \<open>Security\<close> (\<open>process/cap.c\<close>, \<open>process/sandbox.c\<close>, \<open>core/verify.c\<close>, \<open>core/auth.c\<close>, the credential calls and the gate of
    \<open>core/syscall.c\<close>).
  \<^item> \<open>Sched\<close> (\<open>schedule()\<close> of \<open>task.c\<close>, \<open>drivers/timer.c\<close>), \<open>Sync\<close> (\<open>semaphore.c\<close>, \<open>futex.c\<close>).
  \<^item> \<open>Vm\<close> (\<open>memory/paging.c\<close>, \<open>mmap.c\<close>, \<open>brk.c\<close>, the page loops of \<open>fork.c\<close> and \<open>clone.c\<close>): physical memory as frames
    of words, every access of the kernel through the two-level walk \<open>mmu\<close>; \<open>None\<close> is a fault in ring 0, which halts
    the machine.  \<open>Vm_Inv\<close>: the invariant \<open>vm_wf\<close> of a set of page directories and the effect of each primitive.
    \<open>Vm_Fork\<close>: sharing by \<open>fork\<close> and the demonstration machine.  \<open>Vm_Brk\<close>: look-up, the heap break, edges.
    \<open>Uaccess\<close>: the buffer checks and copies of \<open>core/syscall.c\<close>.
  \<^item> \<open>Inet\<close> (byte order, checksums, TCP frames), \<open>Tcp\<close> (\<open>net/tcp.c\<close>), \<open>Tcp_Inv\<close>: the stream a connection delivers,
    \<open>Tcp_Run\<close>: handshake, data, retransmission and a run, \<open>Tcp_Wf\<close>: well-formedness.  \<open>Net\<close> (\<open>net/net.c\<close>, the rings of
    \<open>net/e1000.c\<close>): ARP, IPv4, ICMP, UDP; the frames TCP sends are its \<open>wire\<close>, which \<open>Net\<close> hands to the ring.
  \<^item> \<open>Dfs\<close> (\<open>fs/diskfs.c\<close> over \<open>drivers/blk.c\<close>): the on-disk file system, devices being arrays of sectors that may fail.
    \<open>Dfs_Inv\<close>: bitmap, inode table and data as seen above the primitives; \<open>Dfs_Files\<close>: exact ownership of blocks;
    \<open>Dfs_Ops\<close>, \<open>Dfs_Clean\<close>: reading and writing, the other operations and the consistency check; \<open>Dfs_Format\<close>:
    formatting; \<open>Dfs_Props\<close>: the properties; \<open>Dfs_Journal\<close>: the journal record.
  \<^item> \<open>Exec\<close> (\<open>process/exec.c\<close>): a new image over \<open>Vm\<close> and the files of \<open>Chfs\<close>.  \<open>Exec_Args\<close>: the words of the argument
    string and the argument block in memory; \<open>Exec_Stack\<close>: the fresh stack and the start of a program.
  \<^item> \<open>Gpt\<close> (\<open>drivers/gpt.c\<close>): the table-driven CRC-32 against division bit by bit, the scan of a partition table and its cache.
    \<open>Mb2\<close> (\<open>memory/mb2.c\<close>): the tags of a UEFI boot, rewritten byte by byte into the layout \<open>pmm_init\<close> of \<open>Pmm\<close> parses.

  \<^bold>\<open>What the lemmas show.\<close>  Memory: heap blocks never overlap and allocation, release and resizing do what they say
  under every sequence of calls; the frame allocator refines a finite map and its free count is exact; mapping a page
  changes that page alone, copy-on-write isolates, \<open>fork\<close> shares every recorded page, the break grows with zeroed
  private pages, user buffers are refused rather than faulted on.  Communication: pipes are first-in first-out under
  all interleavings and a reader and a writer never both sleep; terminals deliver edited lines; pipe ends are counted
  exactly by the descriptors that name them.  Files: blocks have one owner, contents round trip, opening checks
  permissions.  The disk: a formatted disk stays consistent, files read back, and a write succeeds exactly if there is room;
  a partition table is accepted exactly if its checksums hold, which one damaged byte breaks.  Start-up: a UEFI boot with
  sane tags ends, and the frame allocator sees the entries of its memory map; a program \<open>exec\<close> starts finds its arguments on
  a stack of its own, and a parent's stack is untouched.  Processes: the scheduler picks the best class in cyclic order, runs one task, and passes nobody over
  for ever within a class; sleeping ends at the tick asked for; semaphores lose no wake-up; exit and kill reach the
  waiting parent.  Network: frames parse back to what was sent, a damaged byte is noticed, a TCP
  reader sees a prefix of the peer's stream whatever happens to the frames, unacknowledged data are sent again, datagrams
  arrive.  Security: no sequence of credential calls gains a privilege and a sandboxed task stays filtered,
  with the stated exceptions.  Theorems in sections on edges record behaviour the code does not mean: each is
  a concrete or general run of the model.

  \<^bold>\<open>Bounds and fuel.\<close>  Machine words wrap at their width (\<open>u8\<close> to \<open>u64\<close>).  Loops over tables are folds over the index range;
  loops that may not end are \<open>partial_function (option)\<close>: \<open>mmap_loop\<close>, \<open>mb2_loop\<close> and \<open>buf_loop\<close> have theorems
  that say when they do, the searches of \<open>Kheap\<close> end on every heap that satisfies \<open>heap_inv\<close>.  The copy loops of \<open>Chfs\<close> are functions with
  the bytes left as their measure; no definition needs fuel.  Loops over pages run along \<open>pages_between\<close>, which lists the addresses visited as long as the
  counter does not wrap; its callers' bounds exclude that.

  \<^bold>\<open>Not modelled.\<close>  Hardware access of the drivers and the desktop (\<open>drivers/\<close>), interrupt and descriptor tables, assembly stubs and
  context switches, the x86-64 experiments (\<open>arch/x86_64\<close>), user programs, the boot loader, and multiprocessing (locks make each operation atomic; the TLB is coherent).  Output on the
  screen and the serial line is left out everywhere.
\<close>

end
